(* ===== verification/FM_Prelude.thy ===== *)
theory FM_Prelude
  imports Complex_Main "HOL-Library.Sublist" "HOL-Library.Multiset"
begin

text \<open>
  The prelude: the Python primitives that several components use (string methods, stable
  sorting, dictionaries that keep insertion order, query results cut by a limit), the lemma
  collections of the development, and generic lemmas on lists and options.

  Strings are lists of characters and the string methods follow Python on ASCII text.
\<close>

named_theorems py_defs "definitions of the Python primitives, for evaluation"

section \<open>String methods\<close>

text \<open>\<open>s.endswith(suf)\<close>, \<open>s.startswith(p)\<close> and the slice \<open>s[:-n]\<close> (for positive n).\<close>

definition py_endswith :: "string \<Rightarrow> string \<Rightarrow> bool" where
  "py_endswith s suf \<longleftrightarrow> length suf \<le> length s \<and> drop (length s - length suf) s = suf"

definition py_startswith :: "string \<Rightarrow> string \<Rightarrow> bool" where
  "py_startswith s p \<longleftrightarrow> take (length p) s = p"

definition py_drop_last :: "nat \<Rightarrow> string \<Rightarrow> string" where
  "py_drop_last n s = take (length s - n) s"

declare py_endswith_def [py_defs] py_startswith_def [py_defs] py_drop_last_def [py_defs]

lemma py_endswith_iff_suffix: "py_endswith s suf \<longleftrightarrow> suffix suf s"
proof
  assume "py_endswith s suf"
  then have "s = take (length s - length suf) s @ suf"
    unfolding py_endswith_def by (metis append_take_drop_id)
  then show "suffix suf s" unfolding suffix_def by blast
next
  assume "suffix suf s"
  then show "py_endswith s suf" by (auto simp: suffix_def py_endswith_def)
qed

lemma py_endswithD: "py_endswith s suf \<Longrightarrow> s = py_drop_last (length suf) s @ suf"
  unfolding py_endswith_def py_drop_last_def by (metis append_take_drop_id)

lemma py_endswith_append [simp]: "py_endswith (s @ suf) suf"
  by (simp add: py_endswith_def)

lemma py_drop_last_append [simp]: "py_drop_last (length suf) (s @ suf) = s"
  by (simp add: py_drop_last_def)

lemma length_py_drop_last [simp]: "length (py_drop_last n s) = length s - n"
  by (simp add: py_drop_last_def)

lemma py_startswith_append [simp]: "py_startswith (p @ s) p"
  by (simp add: py_startswith_def)

lemma py_startswith_iff_prefix: "py_startswith s p \<longleftrightarrow> prefix p s"
  by (metis append_eq_conv_conj prefix_def py_startswith_def py_startswith_append)

text \<open>White space, \<open>strip\<close>, \<open>rstrip(c)\<close> and \<open>lower\<close> on ASCII.\<close>

definition py_isspace :: "char \<Rightarrow> bool" where
  "py_isspace c \<longleftrightarrow>
     (let n = (of_char c :: nat) in (9 \<le> n \<and> n \<le> 13) \<or> (28 \<le> n \<and> n \<le> 32))"

definition py_strip :: "string \<Rightarrow> string" where
  "py_strip s = rev (dropWhile py_isspace (rev (dropWhile py_isspace s)))"

definition py_rstrip_char :: "char \<Rightarrow> string \<Rightarrow> string" where
  "py_rstrip_char c s = rev (dropWhile ((=) c) (rev s))"

definition py_lower_char :: "char \<Rightarrow> char" where
  "py_lower_char c =
     (let n = (of_char c :: nat) in if 65 \<le> n \<and> n \<le> 90 then char_of (n + 32) else c)"

definition py_lower :: "string \<Rightarrow> string" where
  "py_lower = map py_lower_char"

definition py_upper_char :: "char \<Rightarrow> char" where
  "py_upper_char c =
     (let n = (of_char c :: nat) in if 97 \<le> n \<and> n \<le> 122 then char_of (n - 32) else c)"

definition py_upper :: "string \<Rightarrow> string" where
  "py_upper = map py_upper_char"

declare py_isspace_def [py_defs] py_strip_def [py_defs] py_rstrip_char_def [py_defs]
  py_lower_char_def [py_defs] py_lower_def [py_defs] py_upper_char_def [py_defs]
  py_upper_def [py_defs]

lemma length_py_lower [simp]: "length (py_lower s) = length s"
  by (simp add: py_lower_def)

lemma py_lower_char_idem [simp]: "py_lower_char (py_lower_char c) = py_lower_char c"
proof (cases "65 \<le> (of_char c :: nat) \<and> (of_char c :: nat) \<le> 90")
  case True
  then have "(of_char (char_of ((of_char c :: nat) + 32) :: char) :: nat) = of_char c + 32"
    by simp
  then show ?thesis using True by (simp add: py_lower_char_def Let_def)
next
  case False
  then show ?thesis by (auto simp: py_lower_char_def Let_def)
qed

lemma py_lower_idem [simp]: "py_lower (py_lower s) = py_lower s"
  by (simp add: py_lower_def o_def)

lemma dropWhile_hd_not: "dropWhile P xs = [] \<or> \<not> P (hd (dropWhile P xs))"
  by (induction xs) auto

lemma set_py_strip: "set (py_strip s) \<subseteq> set s"
  unfolding py_strip_def by (auto dest!: set_dropWhileD)

lemma length_py_strip: "length (py_strip s) \<le> length s"
  unfolding py_strip_def
  by (metis length_dropWhile_le length_rev order_trans)

text \<open>\<open>s.split(c)\<close>, \<open>s.split()\<close> and \<open>sep.join(xs)\<close>.\<close>

fun split_by :: "(char \<Rightarrow> bool) \<Rightarrow> string \<Rightarrow> string list" where
  "split_by p [] = [[]]"
| "split_by p (c # cs) =
     (if p c then [] # split_by p cs
      else (case split_by p cs of [] \<Rightarrow> [[c]] | w # ws \<Rightarrow> (c # w) # ws))"

definition py_split :: "char \<Rightarrow> string \<Rightarrow> string list" where
  "py_split c = split_by ((=) c)"

definition py_split_ws :: "string \<Rightarrow> string list" where
  "py_split_ws s = filter (\<lambda>w. w \<noteq> []) (split_by py_isspace s)"

fun py_join :: "string \<Rightarrow> string list \<Rightarrow> string" where
  "py_join sep [] = []"
| "py_join sep [x] = x"
| "py_join sep (x # y # ys) = x @ sep @ py_join sep (y # ys)"

declare py_split_def [py_defs] py_split_ws_def [py_defs]

lemma split_by_ne [simp]: "split_by p s \<noteq> []"
  by (induction s) (auto split: list.splits)

lemma split_by_no_sep: "w \<in> set (split_by p s) \<Longrightarrow> c \<in> set w \<Longrightarrow> \<not> p c"
  by (induction s arbitrary: w) (fastforce split: if_splits list.splits)+

lemma split_by_plain: "\<forall>c \<in> set s. \<not> p c \<Longrightarrow> split_by p s = [s]"
  by (induction s) auto

lemma split_by_append_sep:
  "\<forall>c \<in> set s. \<not> p c \<Longrightarrow> p d \<Longrightarrow> split_by p (s @ d # t) = s # split_by p t"
  by (induction s) (auto split: list.splits)

lemma split_by_join:
  "xs \<noteq> [] \<Longrightarrow> \<forall>x \<in> set xs. c \<notin> set x \<Longrightarrow> split_by ((=) c) (py_join [c] xs) = xs"
proof (induction "[c]" xs rule: py_join.induct)
  case (2 x)
  then show ?case by (auto intro: split_by_plain)
next
  case (3 x y ys)
  then have "split_by ((=) c) (x @ c # py_join [c] (y # ys))
      = x # split_by ((=) c) (py_join [c] (y # ys))"
    by (intro split_by_append_sep) auto
  with 3 show ?case by auto
qed auto

lemma split_by_words: "w \<in> set (py_split_ws s) \<Longrightarrow> w \<noteq> [] \<and> (\<forall>c \<in> set w. \<not> py_isspace c)"
  unfolding py_split_ws_def using split_by_no_sep by fastforce

section \<open>Ordered dictionaries\<close>

text \<open>
  A Python dictionary keeps insertion order; where the order matters it is an association list
  with distinct keys. \<open>al_put\<close> is \<open>d[k] = v\<close> (an existing key keeps its place),
  \<open>al_del\<close> is \<open>d.pop(k, None)\<close>.
\<close>

fun al_put :: "'k \<Rightarrow> 'v \<Rightarrow> ('k \<times> 'v) list \<Rightarrow> ('k \<times> 'v) list" where
  "al_put k v [] = [(k, v)]"
| "al_put k v ((a, b) # ps) = (if a = k then (a, v) # ps else (a, b) # al_put k v ps)"

definition al_del :: "'k \<Rightarrow> ('k \<times> 'v) list \<Rightarrow> ('k \<times> 'v) list" where
  "al_del k ps = filter (\<lambda>p. fst p \<noteq> k) ps"

definition al_keys :: "('k \<times> 'v) list \<Rightarrow> 'k list" where
  "al_keys ps = map fst ps"

lemma map_of_al_put [simp]: "map_of (al_put k v ps) = (map_of ps)(k \<mapsto> v)"
  by (induction k v ps rule: al_put.induct) auto

lemma map_of_al_del [simp]: "map_of (al_del k ps) = (map_of ps)(k := None)"
  unfolding al_del_def by (induction ps) auto

lemma set_keys_al_put [simp]: "set (al_keys (al_put k v ps)) = insert k (set (al_keys ps))"
  unfolding al_keys_def by (induction k v ps rule: al_put.induct) auto

lemma set_keys_al_del [simp]: "set (al_keys (al_del k ps)) = set (al_keys ps) - {k}"
  unfolding al_keys_def al_del_def by auto

lemma set_al_put: "set (al_put k v ps) \<subseteq> insert (k, v) (set ps)"
  by (induction k v ps rule: al_put.induct) auto

lemma distinct_al_put [simp]: "distinct (al_keys ps) \<Longrightarrow> distinct (al_keys (al_put k v ps))"
proof (induction k v ps rule: al_put.induct)
  case (2 k v a b ps)
  then have "a = k \<or> a \<notin> set (al_keys (al_put k v ps))"
    unfolding set_keys_al_put by (auto simp: al_keys_def)
  with 2 show ?case by (auto simp: al_keys_def)
qed (simp add: al_keys_def)

lemma distinct_al_del [simp]: "distinct (al_keys ps) \<Longrightarrow> distinct (al_keys (al_del k ps))"
  unfolding al_keys_def al_del_def by (induction ps) auto

lemma al_put_new: "k \<notin> set (al_keys ps) \<Longrightarrow> al_put k v ps = ps @ [(k, v)]"
  unfolding al_keys_def by (induction k v ps rule: al_put.induct) auto

lemma al_del_absent [simp]: "k \<notin> set (al_keys ps) \<Longrightarrow> al_del k ps = ps"
  unfolding al_keys_def al_del_def by (induction ps) auto

lemma map_of_in_keys: "(map_of ps k \<noteq> None) \<longleftrightarrow> k \<in> set (al_keys ps)"
  by (induction ps) (auto simp: al_keys_def)

section \<open>Numbers\<close>

text \<open>\<open>int(x)\<close> truncates towards zero.\<close>

definition py_int :: "'a::floor_ceiling \<Rightarrow> int" where
  "py_int x = (if 0 \<le> x then \<lfloor>x\<rfloor> else \<lceil>x\<rceil>)"

lemma py_int_bounds: "\<bar>of_int (py_int x) - x\<bar> < 1"
proof (cases "0 \<le> x")
  case True
  then show ?thesis using floor_correct [of x] by (simp add: py_int_def)
next
  case False
  then show ?thesis using ceiling_correct [of x] by (simp add: py_int_def abs_less_iff)
qed

lemma py_int_of_int [simp]: "py_int (of_int n) = n"
  by (simp add: py_int_def)

section \<open>Decimal numbers\<close>

text \<open>\<open>str(n)\<close> on an integer.\<close>

definition digit_char :: "nat \<Rightarrow> char" where
  "digit_char d = char_of (d + 48)"

function nat_str :: "nat \<Rightarrow> string" where
  "nat_str n = (if n < 10 then [digit_char n] else nat_str (n div 10) @ [digit_char (n mod 10)])"
  by pat_completeness auto
termination by (relation "measure id") auto

declare nat_str.simps [simp del]

definition int_str :: "int \<Rightarrow> string" where
  "int_str i = (if i < 0 then ''-'' @ nat_str (nat (- i)) else nat_str (nat i))"

section \<open>JSON values\<close>

text \<open>
  A JSON value of a column or payload: null, a boolean, a string, a time stamp (its ISO text), or
  any other value, of which the code only sees \<open>bool(v)\<close> and \<open>str(v)\<close>.
\<close>

datatype json_val = JNull | JBool bool | JStr string | JTime int | JOther bool string

fun json_truthy :: "json_val \<Rightarrow> bool" where
  "json_truthy JNull = False"
| "json_truthy (JBool b) = b"
| "json_truthy (JStr s) = (s \<noteq> [])"
| "json_truthy (JTime t) = True"
| "json_truthy (JOther b s) = b"

text \<open>\<open>isof\<close> renders a time stamp; the argument of \<open>str\<close> on a time value.\<close>

fun json_str :: "(int \<Rightarrow> string) \<Rightarrow> json_val \<Rightarrow> string" where
  "json_str isof JNull = ''None''"
| "json_str isof (JBool b) = (if b then ''True'' else ''False'')"
| "json_str isof (JStr s) = s"
| "json_str isof (JTime t) = isof t"
| "json_str isof (JOther b s) = s"

section \<open>Slices and substrings\<close>

text \<open>The slice \<open>xs[:n]\<close>, for any n, and \<open>a in s\<close> on strings.\<close>

definition py_first :: "int \<Rightarrow> 'a list \<Rightarrow> 'a list" where
  "py_first n xs = (if n \<ge> 0 then take (nat n) xs else take (length xs - nat (- n)) xs)"

fun py_in :: "string \<Rightarrow> string \<Rightarrow> bool" where
  "py_in a [] \<longleftrightarrow> a = []"
| "py_in a (c # cs) \<longleftrightarrow> py_startswith (c # cs) a \<or> py_in a cs"

lemma set_py_first: "set (py_first n xs) \<subseteq> set xs"
  by (auto simp: py_first_def dest: in_set_takeD)

lemma py_first_all: "int (length xs) \<le> n \<Longrightarrow> py_first n xs = xs"
  by (simp add: py_first_def)

lemma py_in_iff_sublist: "py_in a s \<longleftrightarrow> sublist a s"
  by (induction s) (simp_all add: py_startswith_iff_prefix sublist_Cons_right)

section \<open>Query results\<close>

text \<open>
  \<open>ORDER BY key LIMIT n\<close> over the rows that pass a filter: the filtered rows in table order,
  stably sorted by the key, cut to the first n.
\<close>

definition query_rows :: "('r \<Rightarrow> bool) \<Rightarrow> ('r \<Rightarrow> 'k::linorder) \<Rightarrow> 'r list \<Rightarrow> 'r list" where
  "query_rows p key rows = sort_key key (filter p rows)"

declare query_rows_def [py_defs]

lemma sort_key_Nil_iff [simp]: "sort_key f xs = [] \<longleftrightarrow> xs = []"
  by (metis length_0_conv length_sort)

lemma set_query_rows [simp]: "set (query_rows p key rows) = {r \<in> set rows. p r}"
  by (simp add: query_rows_def)

lemma sorted_query_rows [simp]: "sorted (map key (query_rows p key rows))"
  by (simp add: query_rows_def)

lemma query_rows_append_other:
  "\<forall>r \<in> set new. \<not> p r \<Longrightarrow> query_rows p key (rows @ new) = query_rows p key rows"
  by (simp add: query_rows_def filter_empty_conv)

lemma distinct_query_rows:
  "distinct (map f rows) \<Longrightarrow> distinct (map f (query_rows p key rows))"
  by (auto simp: query_rows_def distinct_map inj_on_def)

text \<open>A row whose key is above all others comes last.\<close>

lemma sort_key_snoc_max:
  assumes "\<forall>r \<in> set rows. key r < key x"
  shows "sort_key key (rows @ [x]) = sort_key key rows @ [x]"
proof (rule properties_for_sort_key)
  show "sorted (map key (sort_key key rows @ [x]))"
    using assms by (auto simp: sorted_append less_imp_le)
  show "mset (sort_key key rows @ [x]) = mset (rows @ [x])" by simp
  fix k
  have "filter (\<lambda>y. key k = key y) (sort_key key rows) = filter (\<lambda>y. key k = key y) rows"
    using sort_key_stable [of key "key k" rows] by (simp add: eq_commute)
  then show "filter (\<lambda>y. key k = key y) (sort_key key rows @ [x])
      = filter (\<lambda>y. key k = key y) (rows @ [x])" by simp
qed

lemma query_rows_snoc_max:
  assumes "\<forall>r \<in> set rows. p r \<longrightarrow> key r < key x"
  shows "query_rows p key (rows @ [x]) = query_rows p key rows @ (if p x then [x] else [])"
  using assms by (simp add: query_rows_def sort_key_snoc_max)

text \<open>Collecting rows in groups by a key, in the order of the keys, is a stable sort.\<close>

lemma concat_groups_sort:
  assumes "distinct ks" "sorted ks" "f ` set xs \<subseteq> set ks"
  shows "concat (map (\<lambda>k. filter (\<lambda>x. f x = k) xs) ks) = sort_key f xs"
proof (rule properties_for_sort_key [symmetric])
  have cat: "mset (concat (map (\<lambda>k. filter (\<lambda>x. f x = k) xs) ks')) = mset (filter (\<lambda>x. f x \<in> set ks') xs)"
    if "distinct ks'" for ks' using that
  proof (induction ks')
    case (Cons k ks')
    have "k \<notin> set ks'" using Cons.prems by simp
    then have "mset (filter (\<lambda>x. f x \<in> set (k # ks')) xs)
        = mset (filter (\<lambda>x. f x = k) xs) + mset (filter (\<lambda>x. f x \<in> set ks') xs)"
      by (induction xs) auto
    with Cons show ?case by simp
  qed simp
  have "filter (\<lambda>x. f x \<in> set ks) xs = xs" using assms(3) by (auto simp: filter_id_conv)
  with cat [OF assms(1)] show "mset (concat (map (\<lambda>k. filter (\<lambda>x. f x = k) xs) ks)) = mset xs" by simp
  show "sorted (map f (concat (map (\<lambda>k. filter (\<lambda>x. f x = k) xs) ks)))"
    using assms(2)
  proof (induction ks)
    case (Cons k ks)
    have "sorted (map f (filter (\<lambda>x. f x = k) xs))" by (induction xs) auto
    with Cons show ?case by (auto simp: sorted_append)
  qed simp
  fix k
  assume "k \<in> set (concat (map (\<lambda>k. filter (\<lambda>x. f x = k) xs) ks))"
  then have "f k \<in> set ks" by auto
  then show "filter (\<lambda>x. f k = f x) (concat (map (\<lambda>k. filter (\<lambda>x. f x = k) xs) ks)) = filter (\<lambda>x. f k = f x) xs"
    using assms(1)
  proof (induction ks)
    case (Cons k' ks)
    have other: "filter (\<lambda>x. f k = f x) (concat (map (\<lambda>k. filter (\<lambda>x. f x = k) xs) ks')) = []" if "f k \<notin> set ks'" for ks'
      using that by (auto simp: filter_empty_conv)
    show ?case
    proof (cases "f k = k'")
      case True
      with Cons.prems have "f k \<notin> set ks" by auto
      with True show ?thesis by (auto simp: other intro!: filter_cong)
    next
      case False
      then have "filter (\<lambda>x. f k = f x) (filter (\<lambda>x. f x = k') xs) = []" by (auto simp: filter_empty_conv)
      with False Cons show ?thesis by simp
    qed
  qed simp
qed

lemma concat_buckets_sort:
  assumes "\<forall>x \<in> set xs. f x < n"
  shows "concat (map (\<lambda>i. filter (\<lambda>x. f x = i) xs) [0..<n]) = sort_key f xs"
  using assms by (intro concat_groups_sort) auto

lemma sort_key_same_order:
  assumes "\<And>x y. f x \<le> f y \<longleftrightarrow> g x \<le> g y"
  shows "sort_key f xs = sort_key g xs"
proof -
  have "insort_key f x ys = insort_key g x ys" for x ys
    using assms by (induction ys) auto
  then have "insort_key f = insort_key g" by blast
  then show ?thesis by (simp add: sort_key_def)
qed

text \<open>What a limit keeps of a sorted result is not above what it cuts off.\<close>

lemma sort_take_drop:
  assumes "x \<in> set (take k (sort_key f xs))" "y \<in> set (drop k (sort_key f xs))"
  shows "f x \<le> f y"
proof -
  have "sorted (map f (take k (sort_key f xs)) @ map f (drop k (sort_key f xs)))"
    by (simp only: map_append [symmetric] append_take_drop_id sorted_sort_key)
  then show ?thesis using assms by (auto simp: sorted_append)
qed

section \<open>Generic lemmas\<close>

lemma find_SomeD: "find p xs = Some x \<Longrightarrow> x \<in> set xs \<and> p x"
  by (induction xs) (auto split: if_splits)

lemma filter_map_other:
  "(\<And>x. x \<in> set xs \<Longrightarrow> P x \<Longrightarrow> f x = x) \<Longrightarrow> (\<And>x. x \<in> set xs \<Longrightarrow> P (f x) = P x) \<Longrightarrow>
     filter P (map f xs) = filter P xs"
  by (induction xs) auto

lemma sorted_wrt_snoc:
  "sorted_wrt R (xs @ [y]) \<longleftrightarrow> sorted_wrt R xs \<and> (\<forall>x \<in> set xs. R x y)"
  by (simp add: sorted_wrt_append)

lemma list_all2_mem1: "list_all2 R xs ys \<Longrightarrow> x \<in> set xs \<Longrightarrow> \<exists>y \<in> set ys. R x y"
  by (induction rule: list_all2_induct) auto

lemma list_all2_mem2: "list_all2 R xs ys \<Longrightarrow> y \<in> set ys \<Longrightarrow> \<exists>x \<in> set xs. R x y"
  by (induction rule: list_all2_induct) auto

lemma prefix_take_iff: "prefix a b \<longleftrightarrow> length a \<le> length b \<and> take (length a) b = a"
  by (metis append_eq_conv_conj prefix_def prefix_length_le take_is_prefix)

lemma mset_eq_map: "mset xs = mset (map f ps) \<Longrightarrow> \<exists>qs. mset qs = mset ps \<and> map f qs = xs"
proof (induction xs arbitrary: ps)
  case (Cons x xs)
  then have "x \<in> set (map f ps)" by (metis list.set_intros(1) set_mset_mset)
  then obtain p where p: "p \<in> set ps" "x = f p" by auto
  then have m: "mset ps = add_mset p (mset (remove1 p ps))" by simp
  then have "mset (map f ps) = add_mset x (mset (map f (remove1 p ps)))"
    using p(2) by (metis image_mset_add_mset mset_map)
  with Cons.prems have "mset xs = mset (map f (remove1 p ps))" by simp
  from Cons.IH [OF this] obtain qs where "mset qs = mset (remove1 p ps)" "map f qs = xs" by blast
  with m p(2) show ?case by (intro exI [of _ "p # qs"]) simp
qed simp

lemma find_Some_split:
  "find P xs = Some x \<Longrightarrow> \<exists>pre post. xs = pre @ x # post \<and> P x \<and> \<not> (\<exists>y \<in> set pre. P y)"
proof (induction xs)
  case (Cons a xs)
  show ?case
  proof (cases "P a")
    case True
    with Cons.prems show ?thesis by (intro exI [of _ "[]"] exI [of _ xs]) simp
  next
    case False
    with Cons obtain pre post where "xs = pre @ x # post" "P x" "\<not> (\<exists>y \<in> set pre. P y)" by auto
    with False show ?thesis by (intro exI [of _ "a # pre"] exI [of _ post]) simp
  qed
qed simp

end
