(* ===== verification/FM_Stemmer.thy ===== *)
theory FM_Stemmer
  imports FM_Prelude
begin

text \<open>
  The Porter stemmer of \<open>encoding/porter_stemmer.py\<close>: the vowel and measure helpers, the eight
  steps in the order \<open>stem\<close> runs them, and \<open>stem_text\<close> over the tokens of a text. The rule
  tables are the source's lists, walked in order; a rule whose suffix matches but whose stem
  is too short does not stop the walk, as in the code.

  The lemmas show that no step lengthens a word, empties it or adds a character that is not a
  lower case letter of a rule, so stemming a text works token by token.
\<close>

definition STOP_WORDS :: "string list" where
  "STOP_WORDS =
     [''the'', ''is'', ''at'', ''which'', ''on'', ''a'', ''an'', ''and'', ''or'', ''of'', ''to'',
      ''in'', ''for'', ''with'', ''that'', ''this'', ''it'', ''be'', ''as'', ''by'', ''from'',
      ''are'', ''was'', ''were'']"

definition is_vowel :: "char \<Rightarrow> bool" where
  "is_vowel c \<longleftrightarrow> c \<in> set ''aeiouy''"

text \<open>The loop of \<open>_measure\<close>: the flag is \<open>prev_is_vowel\<close>.\<close>

fun measure_loop :: "bool \<Rightarrow> nat \<Rightarrow> string \<Rightarrow> nat" where
  "measure_loop prev n [] = n"
| "measure_loop prev n (c # cs) =
     measure_loop (is_vowel c) (if \<not> prev \<and> is_vowel c then Suc n else n) cs"

definition vc_measure :: "string \<Rightarrow> nat" where
  "vc_measure w =
     (if length w < 2 then 0 else measure_loop (is_vowel (hd w)) 0 (tl w))"

definition ends_with_double :: "string \<Rightarrow> bool" where
  "ends_with_double w =
     (if length w < 2 then False
      else w ! (length w - 1) = w ! (length w - 2) \<and> \<not> is_vowel (w ! (length w - 1)))"

definition is_cvc :: "string \<Rightarrow> bool" where
  "is_cvc w =
     (if length w < 3 then False
      else \<not> is_vowel (w ! (length w - 3)) \<and> is_vowel (w ! (length w - 2))
         \<and> \<not> is_vowel (w ! (length w - 1)) \<and> w ! (length w - 1) \<notin> set ''wxy'')"

definition step1a :: "string \<Rightarrow> string" where
  "step1a w =
     (if py_endswith w ''sses'' then py_drop_last 2 w
      else if py_endswith w ''ies'' then py_drop_last 3 w @ ''i''
      else if py_endswith w ''ss'' then w
      else if py_endswith w ''s'' then py_drop_last 1 w
      else w)"

definition step1b :: "string \<Rightarrow> string" where
  "step1b w =
     (if py_endswith w ''eed'' then
        (let s = py_drop_last 3 w in if vc_measure s > 0 then s @ ''ee'' else w)
      else if py_endswith w ''ed'' \<or> py_endswith w ''ing'' then
        (let s = (if py_endswith w ''ed'' then py_drop_last 2 w else py_drop_last 3 w) in
         if list_ex is_vowel s then
           (if py_endswith s ''at'' \<or> py_endswith s ''bl'' \<or> py_endswith s ''iz'' then s @ ''e''
            else if ends_with_double s \<and> last s \<notin> set ''lsz'' then py_drop_last 1 s
            else if vc_measure s = 1 \<and> is_cvc s then s @ ''e''
            else s)
         else w)
      else w)"

definition step1c :: "string \<Rightarrow> string" where
  "step1c w =
     (if length w > 1 \<and> py_endswith w ''y'' then
        (let s = py_drop_last 1 w in
         if list_ex is_vowel (py_drop_last 1 s) then s @ ''i'' else w)
      else w)"

text \<open>The loop of \<open>_step2\<close> and \<open>_step3\<close> over their rule tables.\<close>

fun apply_rules :: "(string \<times> string) list \<Rightarrow> string \<Rightarrow> string" where
  "apply_rules [] w = w"
| "apply_rules ((suf, rep) # rs) w =
     (if py_endswith w suf \<and> vc_measure (py_drop_last (length suf) w) > 0
      then py_drop_last (length suf) w @ rep
      else apply_rules rs w)"

definition step2_rules :: "(string \<times> string) list" where
  "step2_rules =
     [(''ational'', ''ate''), (''tional'', ''tion''), (''enci'', ''ence''), (''anci'', ''ance''),
      (''izer'', ''ize''), (''bli'', ''ble''), (''alli'', ''al''), (''entli'', ''ent''),
      (''eli'', ''e''), (''ousli'', ''ous''), (''ization'', ''ize''), (''ation'', ''ate''),
      (''ator'', ''ate''), (''alism'', ''al''), (''iveness'', ''ive''), (''fulness'', ''ful''),
      (''ousness'', ''ous''), (''aliti'', ''al''), (''iviti'', ''ive''), (''biliti'', ''ble'')]"

definition step2 :: "string \<Rightarrow> string" where
  "step2 w = apply_rules step2_rules w"

definition step3_rules :: "(string \<times> string) list" where
  "step3_rules =
     [(''icate'', ''ic''), (''ative'', ''''), (''alize'', ''al''), (''iciti'', ''ic''),
      (''ical'', ''ic''), (''ful'', ''''), (''ness'', '''')]"

definition step3 :: "string \<Rightarrow> string" where
  "step3 w = apply_rules step3_rules w"

definition step4_suffixes :: "string list" where
  "step4_suffixes =
     [''al'', ''ance'', ''ence'', ''er'', ''ic'', ''able'', ''ible'', ''ant'', ''ement'', ''ment'',
      ''ent'', ''ou'', ''ion'', ''ou'']"

fun step4_loop :: "string list \<Rightarrow> string \<Rightarrow> string" where
  "step4_loop [] w = w"
| "step4_loop (suf # sufs) w =
     (let s = py_drop_last (length suf) w in
      if py_endswith w suf \<and> vc_measure s > 1
         \<and> (suf = ''ion'' \<longrightarrow> length s > 0 \<and> last s \<in> set ''st'')
      then s else step4_loop sufs w)"

definition step4 :: "string \<Rightarrow> string" where
  "step4 w = step4_loop step4_suffixes w"

definition step5a :: "string \<Rightarrow> string" where
  "step5a w =
     (if py_endswith w ''e'' then
        (let s = py_drop_last 1 w; m = vc_measure s in
         if m > 1 then s else if m = 1 \<and> \<not> is_cvc s then s else w)
      else w)"

definition step5b :: "string \<Rightarrow> string" where
  "step5b w =
     (if py_endswith w ''ll'' \<and> vc_measure (py_drop_last 1 w) > 1 then py_drop_last 1 w else w)"

definition stem :: "string \<Rightarrow> string" where
  "stem w =
     (if length w \<le> 2 then w
      else step5b (step5a (step4 (step3 (step2 (step1c (step1b (step1a w))))))))"

definition stem_token :: "string \<Rightarrow> string" where
  "stem_token t = (if t \<in> set STOP_WORDS then t else stem t)"

definition stem_text :: "string \<Rightarrow> string" where
  "stem_text txt = py_join '' '' (map stem_token (py_split_ws txt))"

named_theorems stem_defs "the definitions of the stemmer, for evaluation"

declare is_vowel_def [stem_defs] vc_measure_def [stem_defs] ends_with_double_def [stem_defs]
  is_cvc_def [stem_defs] step1a_def [stem_defs] step1b_def [stem_defs] step1c_def [stem_defs]
  step2_rules_def [stem_defs] step2_def [stem_defs] step3_rules_def [stem_defs]
  step3_def [stem_defs] step4_suffixes_def [stem_defs] step4_def [stem_defs]
  step5a_def [stem_defs] step5b_def [stem_defs] stem_def [stem_defs]

section \<open>The measure\<close>

text \<open>What the loop counts: the positions where a consonant is followed by a vowel.\<close>

definition cv_count :: "string \<Rightarrow> nat" where
  "cv_count w = card {i. Suc i < length w \<and> \<not> is_vowel (w ! i) \<and> is_vowel (w ! Suc i)}"

lemma cv_count_Cons:
  "cv_count (c # d # w) = (if \<not> is_vowel c \<and> is_vowel d then 1 else 0) + cv_count (d # w)"
proof -
  let ?P = "\<lambda>w i. Suc i < length w \<and> \<not> is_vowel (w ! i) \<and> is_vowel (w ! Suc i)"
  have fin: "finite {i. ?P (d # w) i}" by (rule finite_subset [of _ "{..length w}"]) auto
  have "{i. ?P (c # d # w) i} =
      (if \<not> is_vowel c \<and> is_vowel d then {0} else {}) \<union> Suc ` {i. ?P (d # w) i}"
  proof (rule set_eqI)
    fix i
    show "i \<in> {i. ?P (c # d # w) i} \<longleftrightarrow>
        i \<in> (if \<not> is_vowel c \<and> is_vowel d then {0} else {}) \<union> Suc ` {i. ?P (d # w) i}"
      by (cases i) (auto simp: inj_image_mem_iff)
  qed
  moreover have "card (Suc ` {i. ?P (d # w) i}) = card {i. ?P (d # w) i}"
    by (rule card_image) simp
  ultimately show ?thesis using fin by (auto simp: cv_count_def)
qed

lemma measure_loop_cv_count: "measure_loop (is_vowel c) n w = n + cv_count (c # w)"
proof (induction w arbitrary: c n)
  case Nil
  then show ?case by (simp add: cv_count_def)
next
  case (Cons d w)
  show ?case by (simp add: Cons.IH cv_count_Cons)
qed

lemma vc_measure_cv_count: "vc_measure w = cv_count w"
proof (cases w)
  case (Cons c cs)
  then show ?thesis
    by (cases cs) (simp_all add: vc_measure_def measure_loop_cv_count cv_count_Cons,
        simp_all add: cv_count_def)
qed (simp add: vc_measure_def cv_count_def)

lemma vc_measure_pos_ne: "vc_measure w > 0 \<Longrightarrow> 2 \<le> length w"
  by (auto simp: vc_measure_def split: if_splits)

section \<open>Length, non-emptiness, alphabet\<close>

text \<open>
  Each step keeps a word at most as long, keeps it non-empty and adds only the characters
  below; \<open>shrinks\<close> bundles the three so that the steps compose.
\<close>

definition rule_chars :: "char set" where
  "rule_chars = set ''abcdefghijklmnopqrstuvwxyz''"

definition shrinks :: "string \<Rightarrow> string \<Rightarrow> bool" where
  "shrinks w v \<longleftrightarrow>
     length v \<le> length w \<and> (w \<noteq> [] \<longrightarrow> v \<noteq> []) \<and> set v \<subseteq> set w \<union> rule_chars"

lemma shrinks_refl [simp, intro!]: "shrinks w w"
  by (simp add: shrinks_def)

lemma shrinks_trans [trans]: "shrinks u v \<Longrightarrow> shrinks v w \<Longrightarrow> shrinks u w"
  unfolding shrinks_def by fastforce

lemma set_py_drop_last: "set (py_drop_last n w) \<subseteq> set w"
  unfolding py_drop_last_def by (rule set_take_subset)

lemma shrinks_replace:
  assumes "n \<le> length w" "length rep \<le> n" "set rep \<subseteq> rule_chars" "rep \<noteq> [] \<or> n < length w"
  shows "shrinks w (py_drop_last n w @ rep)"
proof -
  have "length (py_drop_last n w @ rep) \<le> length w" using assms(1,2) by simp
  moreover have "py_drop_last n w @ rep \<noteq> []"
    using assms(4) by (auto simp: py_drop_last_def)
  moreover have "set (py_drop_last n w @ rep) \<subseteq> set w \<union> rule_chars"
    using set_py_drop_last [of n w] assms(3) by auto
  ultimately show ?thesis by (simp add: shrinks_def)
qed

lemma shrinks_drop: "n < length w \<Longrightarrow> shrinks w (py_drop_last n w)"
  using shrinks_replace [of n w "[]"] by simp

lemma endswith_length: "py_endswith w suf \<Longrightarrow> length suf \<le> length w"
  by (simp add: py_endswith_def)

lemma step1a_shrinks: "2 < length w \<Longrightarrow> shrinks w (step1a w)"
  by (auto simp: step1a_def rule_chars_def intro!: shrinks_replace shrinks_drop
      dest: endswith_length)

lemma list_ex_vowel_ne: "list_ex is_vowel s \<Longrightarrow> s \<noteq> []"
  by auto

lemma step1b_shrinks: "w \<noteq> [] \<Longrightarrow> shrinks w (step1b w)"
proof -
  assume w: "w \<noteq> []"
  have ed: "shrinks w (s @ ''e'') \<and> shrinks w s \<and> (2 \<le> length s \<longrightarrow> shrinks w (py_drop_last 1 s))"
    if "s = py_drop_last n w" "n \<le> length w" "0 < n" "s \<noteq> []" for s n
  proof -
    have n: "n < length w" using that by (auto simp: py_drop_last_def)
    have 1: "shrinks w (s @ ''e'')"
      using that n by (auto simp: rule_chars_def intro!: shrinks_replace)
    have 2: "shrinks w s" using that n by (auto intro: shrinks_drop)
    have "2 \<le> length s \<Longrightarrow> shrinks s (py_drop_last 1 s)" by (rule shrinks_drop) simp
    with 1 2 show ?thesis by (blast intro: shrinks_trans)
  qed
  show ?thesis
  proof (cases "py_endswith w ''eed''")
    case True
    then have "3 \<le> length w" by (auto dest: endswith_length)
    with True show ?thesis
      by (auto simp: step1b_def Let_def rule_chars_def intro!: shrinks_replace)
  next
    case eed: False
    define s where "s = (if py_endswith w ''ed'' then py_drop_last 2 w else py_drop_last 3 w)"
    show ?thesis
    proof (cases "(py_endswith w ''ed'' \<or> py_endswith w ''ing'') \<and> list_ex is_vowel s")
      case True
      then have "shrinks w (s @ ''e'') \<and> shrinks w s
          \<and> (2 \<le> length s \<longrightarrow> shrinks w (py_drop_last 1 s))"
        using ed [of s 2] ed [of s 3] list_ex_vowel_ne [of s]
        by (auto simp: s_def dest: endswith_length split: if_splits)
      moreover have "ends_with_double s \<Longrightarrow> 2 \<le> length s"
        by (simp add: ends_with_double_def split: if_splits)
      ultimately show ?thesis
        using True eed by (auto simp: step1b_def Let_def simp flip: s_def)
    next
      case False
      with eed show ?thesis by (auto simp: step1b_def Let_def simp flip: s_def)
    qed
  qed
qed

lemma step1c_shrinks: "shrinks w (step1c w)"
  by (auto simp: step1c_def Let_def rule_chars_def intro!: shrinks_replace)

lemma apply_rules_shrinks:
  "\<forall>(suf, rep) \<in> set rs. length rep \<le> length suf \<and> set rep \<subseteq> rule_chars \<Longrightarrow>
     shrinks w (apply_rules rs w)"
proof (induction rs w rule: apply_rules.induct)
  case (2 suf rep rs w)
  show ?case
  proof (cases "py_endswith w suf \<and> vc_measure (py_drop_last (length suf) w) > 0")
    case True
    then have "2 \<le> length (py_drop_last (length suf) w)"
      by (intro vc_measure_pos_ne) simp
    with True "2.prems" show ?thesis by (auto intro!: shrinks_replace)
  next
    case False
    with 2 show ?thesis by auto
  qed
qed simp

lemma step2_shrinks: "shrinks w (step2 w)"
  unfolding step2_def by (rule apply_rules_shrinks) (simp add: step2_rules_def rule_chars_def)

lemma step3_shrinks: "shrinks w (step3 w)"
  unfolding step3_def by (rule apply_rules_shrinks) (simp add: step3_rules_def rule_chars_def)

lemma step4_loop_shrinks: "[] \<notin> set sufs \<Longrightarrow> shrinks w (step4_loop sufs w)"
proof (induction sufs w rule: step4_loop.induct)
  case (2 suf sufs w)
  let ?s = "py_drop_last (length suf) w"
  let ?C = "py_endswith w suf \<and> vc_measure ?s > 1
      \<and> (suf = ''ion'' \<longrightarrow> length ?s > 0 \<and> last ?s \<in> set ''st'')"
  have eq: "step4_loop (suf # sufs) w = (if ?C then ?s else step4_loop sufs w)"
    by (simp only: step4_loop.simps Let_def)
  show ?case
  proof (cases ?C)
    case True
    then have "2 \<le> length ?s" by (intro vc_measure_pos_ne) simp
    then have "shrinks w ?s" using "2.prems" by (intro shrinks_drop) simp
    then show ?thesis unfolding eq if_P [OF True] .
  next
    case False
    then have "shrinks w (step4_loop sufs w)" using "2.IH" [OF refl] "2.prems" by simp
    then show ?thesis unfolding eq if_not_P [OF False] .
  qed
qed simp

lemma step4_shrinks: "shrinks w (step4 w)"
  unfolding step4_def by (rule step4_loop_shrinks) (simp add: step4_suffixes_def)

lemma drop1_shrinks:
  "vc_measure (py_drop_last (Suc 0) w) > 0 \<Longrightarrow> shrinks w (py_drop_last (Suc 0) w)"
  using vc_measure_pos_ne [of "py_drop_last (Suc 0) w"] by (intro shrinks_drop) auto

lemma step5a_shrinks: "shrinks w (step5a w)"
  by (auto simp: step5a_def Let_def intro!: drop1_shrinks)

lemma step5b_shrinks: "shrinks w (step5b w)"
  by (auto simp: step5b_def intro!: drop1_shrinks)

lemma stem_shrinks: "shrinks w (stem w)"
proof (cases "length w \<le> 2")
  case False
  then have w: "2 < length w" by simp
  have a: "shrinks w (step1a w)" by (rule step1a_shrinks [OF w])
  then have ne: "step1a w \<noteq> []" using w by (auto simp: shrinks_def)
  note a
  also have "shrinks (step1a w) (step1b (step1a w))" by (rule step1b_shrinks [OF ne])
  also have "shrinks (step1b (step1a w)) (step1c (step1b (step1a w)))" by (rule step1c_shrinks)
  also have "shrinks (step1c (step1b (step1a w))) (step2 (step1c (step1b (step1a w))))"
    by (rule step2_shrinks)
  finally have b: "shrinks w (step2 (step1c (step1b (step1a w))))" .
  have c: "shrinks u (step5b (step5a (step4 (step3 u))))" for u
    by (rule shrinks_trans [OF shrinks_trans [OF step3_shrinks step4_shrinks]
          shrinks_trans [OF step5a_shrinks step5b_shrinks]])
  show ?thesis using shrinks_trans [OF b c] False by (simp add: stem_def)
qed (simp add: stem_def)

lemma stem_token_shrinks: "shrinks t (stem_token t)"
  by (simp add: stem_token_def stem_shrinks)

section \<open>The text\<close>

lemma rule_chars_not_space: "c \<in> rule_chars \<Longrightarrow> \<not> py_isspace c"
  by (auto simp: rule_chars_def py_isspace_def)

lemma stem_token_word:
  assumes "w \<noteq> []" "\<forall>c \<in> set w. \<not> py_isspace c"
  shows "stem_token w \<noteq> [] \<and> (\<forall>c \<in> set (stem_token w). \<not> py_isspace c)"
  using assms stem_token_shrinks [of w] rule_chars_not_space by (auto simp: shrinks_def)

lemma split_ws_join:
  "\<forall>w \<in> set ws. w \<noteq> [] \<and> (\<forall>c \<in> set w. \<not> py_isspace c) \<Longrightarrow>
     py_split_ws (py_join '' '' ws) = ws"
proof (induction "'' ''" ws rule: py_join.induct)
  case 1
  then show ?case by (simp add: py_split_ws_def)
next
  case (2 x)
  then show ?case by (simp add: py_split_ws_def split_by_plain)
next
  case (3 x y ys)
  have "split_by py_isspace (x @ CHR '' '' # py_join '' '' (y # ys))
      = x # split_by py_isspace (py_join '' '' (y # ys))"
    using "3.prems" by (intro split_by_append_sep) (auto simp: py_isspace_def)
  with 3 show ?case by (simp add: py_split_ws_def)
qed

text \<open>
  Stemming works token by token: splitting the stemmed text on white space gives exactly the
  stems of the tokens of the input (stop words kept), in order, none lost, merged or split.
\<close>

theorem stem_text_tokenwise:
  "py_split_ws (stem_text txt) = map stem_token (py_split_ws txt)"
  unfolding stem_text_def
  by (rule split_ws_join) (use split_by_words stem_token_word in force)

text \<open>
  A stem is never longer than its word, is empty only for the empty word, and every character
  of it is a character of the word or a lower case letter.
\<close>

theorem stem_bounds:
  "length (stem w) \<le> length w \<and> (stem w = [] \<longleftrightarrow> w = [])
     \<and> set (stem w) \<subseteq> set w \<union> set ''abcdefghijklmnopqrstuvwxyz''"
  using stem_shrinks [of w] by (auto simp: shrinks_def rule_chars_def)

text \<open>
  The module's documentation gives running, runs and runner the common stem run; the code
  stems runner to itself (its measure counts the stem runn once, and step 4 wants more than one).
\<close>

theorem stem_runner:
  "stem ''running'' = ''run'' \<and> stem ''runs'' = ''run'' \<and> stem ''runner'' = ''runner''"
  by (simp add: stem_defs py_defs)

end
