(* ===== verification/FM_Interfaces.thy ===== *)
theory FM_Interfaces
  imports FM_Prelude
begin

text \<open>
  The contracts between components, as locales. A client relies only on the laws; each locale is
  interpreted on the model's own operations in the theory of the component that provides them.

  \<open>keyed_log\<close>: an append-only log read per key; \<open>paged_log\<close>: a log read by pages from a cursor. \<open>kv_store\<close>: a key-value store with an invariant,
  and \<open>kv_delete\<close>, which adds deletion.
\<close>

section \<open>Append-only logs\<close>

text \<open>
  \<open>append k a l\<close> writes a record made from \<open>a\<close> under the key \<open>k\<close>; \<open>entries k l\<close> reads the
  records of \<open>k\<close>; \<open>content\<close> is the part of a record the writer supplied.
\<close>

locale keyed_log =
  fixes append :: "'k \<Rightarrow> 'a \<Rightarrow> 'l \<Rightarrow> 'l"
    and entries :: "'k \<Rightarrow> 'l \<Rightarrow> 'e list"
    and record_of :: "'k \<Rightarrow> 'a \<Rightarrow> 'l \<Rightarrow> 'e"
    and content :: "'e \<Rightarrow> 'c"
    and given :: "'a \<Rightarrow> 'c"
  assumes append_here: "entries k (append k a l) = entries k l @ [record_of k a l]"
    and append_there: "k \<noteq> k' \<Longrightarrow> entries k' (append k a l) = entries k' l"
    and content_record: "content (record_of k a l) = given a"
begin

definition append_all :: "('k \<times> 'a) list \<Rightarrow> 'l \<Rightarrow> 'l" where
  "append_all xs l = fold (\<lambda>(k, a). append k a) xs l"

lemma append_all_simps [simp]:
  "append_all [] l = l" "append_all ((k, a) # xs) l = append_all xs (append k a l)"
  by (simp_all add: append_all_def)

lemma append_all_prefix: "prefix (entries k l) (entries k (append_all xs l))"
proof (induction xs arbitrary: l)
  case (Cons x xs)
  obtain k' a where x: "x = (k', a)" by (cases x)
  have "prefix (entries k l) (entries k (append k' a l))"
    by (cases "k' = k") (simp_all add: append_here append_there)
  also have "prefix \<dots> (entries k (append_all xs (append k' a l)))" by (rule Cons.IH)
  finally show ?case by (simp add: x)
qed simp

lemma append_all_content:
  "map content (entries k (append_all xs l)) =
     map content (entries k l) @ map (given \<circ> snd) (filter (\<lambda>x. fst x = k) xs)"
proof (induction xs arbitrary: l)
  case (Cons x xs)
  obtain k' a where "x = (k', a)" by (cases x)
  with Cons show ?case
    by (cases "k' = k") (simp_all add: append_here append_there content_record)
qed simp

lemma append_all_other: "\<forall>x \<in> set xs. fst x \<noteq> k \<Longrightarrow> entries k (append_all xs l) = entries k l"
proof (induction xs arbitrary: l)
  case (Cons x xs)
  then show ?case by (cases x) (simp add: append_there)
qed simp

end

section \<open>Logs read by pages\<close>

text \<open>
  \<open>entries s\<close> are the entries of a log in the order of their keys; \<open>page a n s\<close> reads the first
  \<open>n\<close> entries with a key above the cursor \<open>a\<close>.
\<close>

locale paged_log =
  fixes ok :: "'s \<Rightarrow> bool"
    and entries :: "'s \<Rightarrow> 'e list"
    and key :: "'e \<Rightarrow> int"
    and page :: "int \<Rightarrow> nat \<Rightarrow> 's \<Rightarrow> 'e list"
  assumes keys_increase: "ok s \<Longrightarrow> sorted_wrt (<) (map key (entries s))"
    and page_eq: "page a n s = take n (filter (\<lambda>e. a < key e) (entries s))"
begin

lemma above_increase: "ok s \<Longrightarrow> sorted_wrt (<) (map key (filter (\<lambda>e. a < key e) (entries s)))"
  using keys_increase [of s] by (simp add: sorted_wrt_map sorted_wrt_filter)

text \<open>A page is followed by what lies above its last key: no entry is skipped or repeated.\<close>

lemma page_next:
  assumes "ok s" "page a n s \<noteq> []"
  shows "filter (\<lambda>e. key (last (page a n s)) < key e) (entries s)
    = drop n (filter (\<lambda>e. a < key e) (entries s))"
proof -
  let ?f = "filter (\<lambda>e. a < key e) (entries s)"
  obtain ys y where y: "take n ?f = ys @ [y]"
    using assms(2) by (cases "take n ?f" rule: rev_cases) (auto simp: page_eq)
  have split: "?f = ys @ y # drop n ?f" using append_take_drop_id [of n ?f] y by simp
  have inc: "sorted_wrt (\<lambda>x y. key x < key y) (ys @ y # drop n ?f)"
    using above_increase [OF assms(1), of a] split by (simp add: sorted_wrt_map)
  have "y \<in> set ?f" using split by (metis in_set_conv_decomp)
  then have "filter (\<lambda>e. key y < key e) (entries s) = filter (\<lambda>e. key y < key e) ?f"
    by (auto intro!: filter_cong)
  also have "\<dots> = filter (\<lambda>e. key y < key e) (ys @ y # drop n ?f)" using split by simp
  also have "\<dots> = drop n ?f"
    using inc by (auto simp: sorted_wrt_append filter_empty_conv filter_id_conv not_less less_imp_le)
  finally have "filter (\<lambda>e. key y < key e) (entries s) = drop n ?f" .
  then show ?thesis by (simp add: page_eq y)
qed

lemma page_full_iff: "length (page a n s) < n \<longleftrightarrow> length (filter (\<lambda>e. a < key e) (entries s)) < n"
  by (auto simp: page_eq)

lemma page_increases: "ok s \<Longrightarrow> sorted_wrt (<) (map key (page a n s)) \<and> (\<forall>e \<in> set (page a n s). a < key e)"
  using above_increase [of s a] by (auto simp: page_eq sorted_wrt_map sorted_wrt_take dest: in_set_takeD)

end

section \<open>Key-value stores\<close>

locale kv_store =
  fixes get :: "'k \<Rightarrow> 's \<Rightarrow> 'v option"
    and put :: "'k \<Rightarrow> 'v \<Rightarrow> 's \<Rightarrow> 's"
    and inv :: "'s \<Rightarrow> bool"
  assumes inv_put: "inv s \<Longrightarrow> inv (put k v s)"
    and get_put_same: "inv s \<Longrightarrow> get k (put k v s) = Some v"
    and get_put_other: "inv s \<Longrightarrow> k \<noteq> k' \<Longrightarrow> get k' (put k v s) = get k' s"
begin

definition put_all :: "('k \<times> 'v) list \<Rightarrow> 's \<Rightarrow> 's" where
  "put_all xs s = fold (\<lambda>(k, v). put k v) xs s"

definition update :: "'k \<Rightarrow> ('v option \<Rightarrow> 'v) \<Rightarrow> 's \<Rightarrow> 's" where
  "update k f s = put k (f (get k s)) s"

lemma inv_put_all: "inv s \<Longrightarrow> inv (put_all xs s)"
  unfolding put_all_def by (induction xs arbitrary: s) (auto simp: inv_put)

text \<open>The last write of a key wins; a key that is not written keeps its value.\<close>

lemma get_put_all:
  "inv s \<Longrightarrow> get k (put_all xs s) = (case map_of (rev xs) k of Some v \<Rightarrow> Some v | None \<Rightarrow> get k s)"
  unfolding put_all_def
proof (induction xs arbitrary: s)
  case (Cons x xs)
  obtain k' v where x: "x = (k', v)" by (cases x)
  have "get k (put k' v s) = (if k = k' then Some v else get k s)"
    using Cons.prems by (simp add: get_put_same get_put_other)
  moreover have "get k (fold (\<lambda>(k, v). put k v) xs (put k' v s))
      = (case map_of (rev xs) k of Some v \<Rightarrow> Some v | None \<Rightarrow> get k (put k' v s))"
    using Cons.prems by (intro Cons.IH inv_put)
  ultimately show ?case by (auto simp: x map_add_def split: option.split)
qed simp

lemma get_update:
  "inv s \<Longrightarrow> get k' (update k f s) = (if k' = k then Some (f (get k s)) else get k' s)"
  by (simp add: update_def get_put_same get_put_other)

end

locale kv_delete = kv_store get put inv
  for get :: "'k \<Rightarrow> 's \<Rightarrow> 'v option" and put :: "'k \<Rightarrow> 'v \<Rightarrow> 's \<Rightarrow> 's" and inv :: "'s \<Rightarrow> bool" +
  fixes del :: "'k \<Rightarrow> 's \<Rightarrow> 's"
  assumes inv_del: "inv s \<Longrightarrow> inv (del k s)"
    and get_del_same: "inv s \<Longrightarrow> get k (del k s) = None"
    and get_del_other: "inv s \<Longrightarrow> k \<noteq> k' \<Longrightarrow> get k' (del k s) = get k' s"
begin

lemma get_put_del: "inv s \<Longrightarrow> get k' (del k (put k v s)) = get k' (del k s)"
  by (cases "k = k'") (simp_all add: get_del_same get_del_other get_put_other inv_put)

lemma get_fold_del:
  "inv s \<Longrightarrow> get k (fold del ks s) = (if k \<in> set ks then None else get k s)"
proof (induction ks arbitrary: s)
  case (Cons a ks)
  then show ?case by (cases "k = a") (simp_all add: inv_del get_del_same get_del_other)
qed simp

end

text \<open>Association lists are the reference instance.\<close>

interpretation alist: kv_delete "\<lambda>k ps. map_of ps k" al_put "\<lambda>ps. distinct (al_keys ps)" al_del
  by unfold_locales simp_all

end
