(* ===== verification/FM_Job_Store.thy ===== *)
theory FM_Job_Store
  imports FM_Interfaces "HOL-Library.Product_Lexorder"
begin

text \<open>
  The durable job queue of \<open>orchestration/jobs/job_store.py\<close>. The tables \<open>jobs\<close> and
  \<open>job_events\<close> are lists of rows in scan order; each operation is one transaction, reads the
  clock once (\<open>now\<close>) and returns the new tables. Row locks of other transactions
  (\<open>FOR UPDATE SKIP LOCKED\<close>) are the predicate \<open>locked\<close>; a fresh \<open>uuid4\<close> is an argument.

  The lemmas show that the claim loop terminates and equals a one-pass reference, that a claim
  protects its job until the timeout, and, over the step relation of all operations, what a
  cancel request guarantees.
\<close>

section \<open>Rows\<close>

datatype job_status = Pending | Running | Done | Failed | Cancelled

record job =
  job_id :: nat
  job_tenant :: string
  job_graph :: string
  job_kind :: string
  job_payload :: "string \<rightharpoonup> json_val"
  job_status :: job_status
  job_error :: "string option"
  job_created :: int
  job_updated :: int
  job_started :: "int option"
  job_completed :: "int option"

record job_event =
  je_seq :: int
  je_job :: nat
  je_kind :: string
  je_payload :: "string \<rightharpoonup> json_val"

record job_db =
  jobs :: "job list"
  job_events :: "job_event list"

definition upd_job :: "nat \<Rightarrow> (job \<Rightarrow> job) \<Rightarrow> job list \<Rightarrow> job list" where
  "upd_job i f js = map (\<lambda>j. if job_id j = i then f j else j) js"

definition find_job :: "nat \<Rightarrow> job list \<Rightarrow> job option" where
  "find_job i js = find (\<lambda>j. job_id j = i) js"

section \<open>Operations\<close>

definition is_cancel_requested :: "job \<Rightarrow> bool" where
  "is_cancel_requested j =
     (case job_payload j ''cancel_requested'' of None \<Rightarrow> False | Some v \<Rightarrow> json_truthy v)"

definition cancel_reason :: "(int \<Rightarrow> string) \<Rightarrow> job \<Rightarrow> string option" where
  "cancel_reason isof j =
     (case job_payload j ''cancel_reason'' of
        None \<Rightarrow> None | Some JNull \<Rightarrow> None | Some v \<Rightarrow> Some (json_str isof v))"

definition enqueue :: "nat \<Rightarrow> int \<Rightarrow> string \<Rightarrow> string \<Rightarrow> string \<Rightarrow> (string \<rightharpoonup> json_val) \<Rightarrow>
    job_db \<Rightarrow> job_db \<times> nat" where
  "enqueue new_id now tenant graph kind payload db =
     (db\<lparr>jobs := jobs db @
        [\<lparr>job_id = new_id, job_tenant = tenant, job_graph = graph, job_kind = kind,
          job_payload = payload, job_status = Pending, job_error = None, job_created = now,
          job_updated = now, job_started = None, job_completed = None\<rparr>]\<rparr>, new_id)"

definition claimable :: "(nat \<Rightarrow> bool) \<Rightarrow> int \<Rightarrow> string list \<Rightarrow> job \<Rightarrow> bool" where
  "claimable locked stale_time allowed j \<longleftrightarrow>
     (job_status j = Pending \<or> (job_status j = Running \<and> job_updated j < stale_time))
     \<and> (allowed \<noteq> [] \<longrightarrow> job_kind j \<in> set allowed) \<and> \<not> locked (job_id j)"

definition job_order :: "job \<Rightarrow> int \<times> nat" where
  "job_order j = (job_created j, job_id j)"

text \<open>The acknowledged cancellation before a claim, and the claim itself.\<close>

definition cancel_before_claim :: "(int \<Rightarrow> string) \<Rightarrow> int \<Rightarrow> job \<Rightarrow> job" where
  "cancel_before_claim isof now j =
     (let j' = j\<lparr>job_status := Cancelled, job_completed := Some now, job_updated := now\<rparr> in
      if job_error j = None \<or> job_error j = Some [] then
        j'\<lparr>job_error := Some (take 1024
             (case cancel_reason isof j of
                None \<Rightarrow> ''Cancelled before execution''
              | Some r \<Rightarrow> if r = [] then ''Cancelled before execution'' else r))\<rparr>
      else j')"

definition start_job :: "int \<Rightarrow> job \<Rightarrow> job" where
  "start_job now j = j\<lparr>job_status := Running, job_started := Some now, job_updated := now\<rparr>"

lemma upd_job_claimable_less:
  assumes "j \<in> set js" "claimable lk st al j" "\<And>j. job_status (f j) = Cancelled"
  shows "length (filter (claimable lk st al) (upd_job (job_id j) f js))
    < length (filter (claimable lk st al) js)"
proof -
  have not: "\<not> claimable lk st al (f i)" for i using assms(3) by (simp add: claimable_def)
  have "length (filter P (upd_job i f js)) \<le> length (filter P js)"
    if "\<And>x. \<not> P (f x)" for P i js
    using that by (induction js) (auto simp: upd_job_def)
  note le = this [of "claimable lk st al", OF not]
  from assms(1) show ?thesis
  proof (induction js)
    case (Cons a js)
    show ?case
    proof (cases "a = j")
      case True
      then show ?thesis using le [of "job_id j" js] assms(2) not
        by (simp add: upd_job_def less_Suc_eq_le)
    next
      case False
      with Cons have "j \<in> set js" by simp
      with Cons.IH not show ?thesis by (auto simp: upd_job_def)
    qed
  qed simp
qed

lemma cancel_before_claim_status [simp]:
  "job_status (cancel_before_claim isof now j) = Cancelled"
  by (simp add: cancel_before_claim_def Let_def)

lemma query_rows_hd_mem:
  "query_rows p key js = j # rest \<Longrightarrow> j \<in> set js \<and> p j"
  by (metis (mono_tags, lifting) list.set_intros(1) mem_Collect_eq set_query_rows)

text \<open>The \<open>while True\<close> loop of \<open>_claim_next_internal\<close>, on the rows.\<close>

function claim_loop :: "(int \<Rightarrow> string) \<Rightarrow> (nat \<Rightarrow> bool) \<Rightarrow> int \<Rightarrow> int \<Rightarrow> string list \<Rightarrow>
    job list \<Rightarrow> job list \<times> job option" where
  "claim_loop isof locked now stale_time allowed js =
     (case query_rows (claimable locked stale_time allowed) job_order js of
        [] \<Rightarrow> (js, None)
      | j # _ \<Rightarrow>
          if is_cancel_requested j
          then claim_loop isof locked now stale_time allowed
                 (upd_job (job_id j) (cancel_before_claim isof now) js)
          else (upd_job (job_id j) (start_job now) js, Some (start_job now j)))"
  by pat_completeness auto
termination
  by (relation "measure (\<lambda>(isof, lk, now, st, al, js). length (filter (claimable lk st al) js))")
     (auto dest!: query_rows_hd_mem intro: upd_job_claimable_less)

declare claim_loop.simps [simp del]

definition claim_next_internal :: "(int \<Rightarrow> string) \<Rightarrow> (nat \<Rightarrow> bool) \<Rightarrow> int \<Rightarrow> int \<Rightarrow>
    string list option \<Rightarrow> job_db \<Rightarrow> job_db \<times> job option" where
  "claim_next_internal isof locked now timeout kinds db =
     (let allowed = filter (\<lambda>k. k \<noteq> [])
            (map py_strip (case kinds of None \<Rightarrow> [] | Some ks \<Rightarrow> ks));
          r = claim_loop isof locked now (now - timeout) allowed (jobs db)
      in (db\<lparr>jobs := fst r\<rparr>, snd r))"

definition claim_next :: "(int \<Rightarrow> string) \<Rightarrow> (nat \<Rightarrow> bool) \<Rightarrow> int \<Rightarrow> int \<Rightarrow> job_db \<Rightarrow>
    job_db \<times> job option" where
  "claim_next isof locked now timeout db = claim_next_internal isof locked now timeout None db"

definition claim_next_of_kinds :: "(int \<Rightarrow> string) \<Rightarrow> (nat \<Rightarrow> bool) \<Rightarrow> int \<Rightarrow> int \<Rightarrow>
    string list \<Rightarrow> job_db \<Rightarrow> job_db \<times> job option" where
  "claim_next_of_kinds isof locked now timeout kinds db =
     (if kinds = [] then (db, None)
      else claim_next_internal isof locked now timeout (Some kinds) db)"

definition heartbeat :: "int \<Rightarrow> nat \<Rightarrow> job_db \<Rightarrow> job_db" where
  "heartbeat now i db = db\<lparr>jobs := upd_job i (\<lambda>j. j\<lparr>job_updated := now\<rparr>) (jobs db)\<rparr>"

text \<open>\<open>mark_cancelled\<close> on one row; \<open>reason\<close> is falsy when None or empty.\<close>

definition cancel_row :: "int \<Rightarrow> string option \<Rightarrow> job \<Rightarrow> job" where
  "cancel_row now reason j =
     (let p1 = (job_payload j)(''cancel_requested'' \<mapsto> JBool True);
          p2 = (case reason of Some (c # cs) \<Rightarrow> p1(''cancel_reason'' \<mapsto> JStr (take 1024 (c # cs)))
                | _ \<Rightarrow> p1);
          p3 = (if p2 ''cancel_requested_at'' = None
                then p2(''cancel_requested_at'' \<mapsto> JTime now) else p2);
          p4 = p3(''cancelled_at'' \<mapsto> JTime now)
      in j\<lparr>job_payload := p4, job_status := Cancelled, job_completed := Some now,
           job_updated := now,
           job_error := (case reason of Some (c # cs) \<Rightarrow> Some (take 1024 (c # cs))
             | _ \<Rightarrow> (if job_error j = None \<or> job_error j = Some [] then Some ''Cancelled''
                     else job_error j))\<rparr>)"

definition mark_cancelled :: "int \<Rightarrow> nat \<Rightarrow> string option \<Rightarrow> job_db \<Rightarrow> job_db" where
  "mark_cancelled now i reason db = db\<lparr>jobs := upd_job i (cancel_row now reason) (jobs db)\<rparr>"

definition mark_done :: "(int \<Rightarrow> string) \<Rightarrow> int \<Rightarrow> nat \<Rightarrow> job_db \<Rightarrow> job_db" where
  "mark_done isof now i db =
     (case find_job i (jobs db) of
        None \<Rightarrow> db
      | Some j \<Rightarrow>
          if is_cancel_requested j then mark_cancelled now i (cancel_reason isof j) db
          else db\<lparr>jobs := upd_job i (\<lambda>j. j\<lparr>job_status := Done, job_completed := Some now,
                 job_updated := now\<rparr>) (jobs db)\<rparr>)"

definition mark_failed :: "(int \<Rightarrow> string) \<Rightarrow> int \<Rightarrow> nat \<Rightarrow> string \<Rightarrow> job_db \<Rightarrow> job_db" where
  "mark_failed isof now i err db =
     (case find_job i (jobs db) of
        None \<Rightarrow> db
      | Some j \<Rightarrow>
          if is_cancel_requested j then mark_cancelled now i (cancel_reason isof j) db
          else db\<lparr>jobs := upd_job i (\<lambda>j. j\<lparr>job_status := Failed, job_error := Some err,
                 job_completed := Some now, job_updated := now\<rparr>) (jobs db)\<rparr>)"

definition request_row :: "int \<Rightarrow> string option \<Rightarrow> job \<Rightarrow> job" where
  "request_row now reason j =
     (let p1 = (job_payload j)(''cancel_requested'' \<mapsto> JBool True,
                 ''cancel_requested_at'' \<mapsto> JTime now);
          p2 = (case reason of Some (c # cs) \<Rightarrow> p1(''cancel_reason'' \<mapsto> JStr (take 1024 (c # cs)))
                | _ \<Rightarrow> p1)
      in j\<lparr>job_payload := p2, job_updated := now\<rparr>)"

definition request_cancel :: "int \<Rightarrow> nat \<Rightarrow> string option \<Rightarrow> job_db \<Rightarrow> job_db \<times> job option" where
  "request_cancel now i reason db =
     (case find_job i (jobs db) of
        None \<Rightarrow> (db, None)
      | Some j \<Rightarrow>
          if job_status j \<in> {Done, Failed, Cancelled} then (db, Some j)
          else (db\<lparr>jobs := upd_job i (request_row now reason) (jobs db)\<rparr>,
                Some (request_row now reason j)))"

text \<open>
  \<open>append_event\<close>: on SQLite the sequence number is the maximum plus one, elsewhere the database
  draws it (\<open>db_seq\<close>).
\<close>

definition next_event_seq :: "job_event list \<Rightarrow> int" where
  "next_event_seq es = (if es = [] then 0 else Max (je_seq ` set es)) + 1"

definition append_event :: "bool \<Rightarrow> int \<Rightarrow> int \<Rightarrow> nat \<Rightarrow> string \<Rightarrow> (string \<rightharpoonup> json_val) \<Rightarrow>
    job_db \<Rightarrow> job_db" where
  "append_event sqlite db_seq now i kind payload db =
     db\<lparr>job_events := job_events db @
          [\<lparr>je_seq = (if sqlite then next_event_seq (job_events db) else db_seq), je_job = i,
            je_kind = kind, je_payload = payload\<rparr>],
        jobs := upd_job i (\<lambda>j. j\<lparr>job_updated := now\<rparr>) (jobs db)\<rparr>"

definition get_job :: "nat \<Rightarrow> job_db \<Rightarrow> job option" where
  "get_job i db = find_job i (jobs db)"

definition get_job_events :: "nat \<Rightarrow> job_db \<Rightarrow> job_event list" where
  "get_job_events i db = query_rows (\<lambda>e. je_job e = i) je_seq (job_events db)"

definition cancel_requested_of :: "nat \<Rightarrow> job_db \<Rightarrow> bool" where
  "cancel_requested_of i db =
     (case get_job i db of None \<Rightarrow> False | Some j \<Rightarrow> is_cancel_requested j)"

definition get_cancel_reason :: "(int \<Rightarrow> string) \<Rightarrow> nat \<Rightarrow> job_db \<Rightarrow> string option" where
  "get_cancel_reason isof i db =
     (case get_job i db of None \<Rightarrow> None | Some j \<Rightarrow> cancel_reason isof j)"

section \<open>Row updates\<close>

named_theorems job_defs "the operations of the job store, for unfolding"

declare enqueue_def [job_defs] heartbeat_def [job_defs] mark_cancelled_def [job_defs]
  mark_done_def [job_defs] mark_failed_def [job_defs] request_cancel_def [job_defs]
  append_event_def [job_defs] claim_next_internal_def [job_defs]

lemma row_ids [simp]:
  "job_id (cancel_before_claim isof now j) = job_id j" "job_id (start_job now j) = job_id j"
  "job_id (cancel_row now reason j) = job_id j" "job_id (request_row now reason j) = job_id j"
  by (simp_all add: cancel_before_claim_def start_job_def cancel_row_def request_row_def Let_def)

lemma map_id_upd_job [simp]:
  "(\<And>j. job_id (f j) = job_id j) \<Longrightarrow> map job_id (upd_job i f js) = map job_id js"
  by (simp add: upd_job_def)

lemma upd_job_mem:
  "j' \<in> set (upd_job i f js) \<Longrightarrow>
     \<exists>j \<in> set js. j' = (if job_id j = i then f j else j)"
  by (auto simp: upd_job_def)

lemma upd_job_all:
  assumes "\<forall>j \<in> set js. P j" "\<And>j. j \<in> set js \<Longrightarrow> job_id j = i \<Longrightarrow> P j \<Longrightarrow> P (f j)"
  shows "\<forall>j \<in> set (upd_job i f js). P j"
  using assms by (auto simp: upd_job_def)

lemma job_unique:
  "distinct (map job_id js) \<Longrightarrow> a \<in> set js \<Longrightarrow> b \<in> set js \<Longrightarrow> job_id a = job_id b \<Longrightarrow> a = b"
  by (metis distinct_map inj_onD)

lemma find_jobD: "find_job i js = Some j \<Longrightarrow> j \<in> set js \<and> job_id j = i"
  unfolding find_job_def by (drule find_SomeD) simp

lemma find_job_None: "find_job i js = None \<longleftrightarrow> i \<notin> job_id ` set js"
  by (auto simp: find_job_def find_None_iff)

lemma find_job_Some:
  "distinct (map job_id js) \<Longrightarrow> j \<in> set js \<Longrightarrow> find_job (job_id j) js = Some j"
  by (metis find_jobD find_job_None imageI job_unique not_None_eq)

lemma find_job_upd:
  "(\<And>j. job_id (f j) = job_id j) \<Longrightarrow> find_job k (upd_job i f js) =
     (if k = i then map_option f (find_job i js) else find_job k js)"
  by (induction js) (auto simp: find_job_def upd_job_def)

text \<open>The query of the claim after the oldest candidate has been taken out.\<close>

lemma candidates_after:
  assumes "query_rows (claimable lk st al) job_order js = j # rest"
    and "distinct (map job_id js)" and "\<not> claimable lk st al (f j)"
  shows "query_rows (claimable lk st al) job_order (upd_job (job_id j) f js) = rest"
proof -
  let ?c = "claimable lk st al" and ?i = "job_id j"
  have j: "j \<in> set js" using query_rows_hd_mem [OF assms(1)] by simp
  have "filter ?c (upd_job ?i f js) = filter (\<lambda>x. job_id x \<noteq> ?i) (filter ?c js)"
    unfolding upd_job_def using assms(2) j
  proof (induction js)
    case (Cons a js)
    then show ?case
    proof (cases "a = j")
      case True
      with Cons.prems have *: "\<forall>x \<in> set js. job_id x \<noteq> ?i" by (force simp: image_iff)
      then have "map (\<lambda>x. if job_id x = ?i then f x else x) js = js"
        by (simp add: map_idI)
      moreover from * have "filter (\<lambda>x. job_id x \<noteq> ?i) (filter ?c js) = filter ?c js"
        by (simp only: filter_id_conv) auto
      ultimately show ?thesis using True assms(3) by simp
    next
      case False
      with Cons.prems have "job_id a \<noteq> ?i" "j \<in> set js" by (auto dest: job_unique)
      with Cons show ?thesis by simp
    qed
  qed simp
  then have "query_rows ?c job_order (upd_job ?i f js)
      = filter (\<lambda>x. job_id x \<noteq> ?i) (query_rows ?c job_order js)"
    by (simp add: query_rows_def filter_sort)
  also have "\<dots> = filter (\<lambda>x. job_id x \<noteq> ?i) rest" using assms(1) by simp
  also have "\<dots> = rest"
  proof -
    have "distinct (map job_id (query_rows ?c job_order js))"
      using assms(2) by (rule distinct_query_rows)
    with assms(1) show ?thesis by (force simp: filter_id_conv image_iff)
  qed
  finally show ?thesis .
qed

section \<open>The claim loop in one pass\<close>

definition claim_ref :: "(int \<Rightarrow> string) \<Rightarrow> (nat \<Rightarrow> bool) \<Rightarrow> int \<Rightarrow> int \<Rightarrow> string list \<Rightarrow>
    job list \<Rightarrow> job list \<times> job option" where
  "claim_ref isof locked now stale_time allowed js =
     (let cand = query_rows (claimable locked stale_time allowed) job_order js;
          dead = set (map job_id (takeWhile is_cancel_requested cand));
          js' = map (\<lambda>j. if job_id j \<in> dead then cancel_before_claim isof now j else j) js
      in case dropWhile is_cancel_requested cand of
           [] \<Rightarrow> (js', None)
         | j # _ \<Rightarrow> (upd_job (job_id j) (start_job now) js', Some (start_job now j)))"

lemma claim_loop_eq_ref:
  "distinct (map job_id js) \<Longrightarrow> claim_loop isof lk now st al js = claim_ref isof lk now st al js"
proof (induction isof lk now st al js rule: claim_loop.induct)
  case (1 isof lk now st al js)
  show ?case
  proof (cases "query_rows (claimable lk st al) job_order js")
    case Nil
    then show ?thesis by (simp add: claim_loop.simps [of isof lk now st al js] claim_ref_def)
  next
    case (Cons j rest)
    show ?thesis
    proof (cases "is_cancel_requested j")
      case False
      with Cons show ?thesis
        by (simp add: claim_loop.simps [of isof lk now st al js] claim_ref_def)
    next
      case True
      let ?f = "cancel_before_claim isof now" and ?js = "upd_job (job_id j) (cancel_before_claim isof now) js"
      have after: "query_rows (claimable lk st al) job_order ?js = rest"
        by (rule candidates_after [OF Cons "1.prems"]) (simp add: claimable_def)
      have rest: "job_id j \<notin> job_id ` set rest"
      proof -
        have "distinct (map job_id (query_rows (claimable lk st al) job_order js))"
          using "1.prems" by (rule distinct_query_rows)
        with Cons show ?thesis by simp
      qed
      have dead: "map (\<lambda>j. if job_id j \<in> D then ?f j else j) ?js
          = map (\<lambda>i. if job_id i \<in> insert (job_id j) D then ?f i else i) js"
        if "job_id j \<notin> D" for D
        using that by (auto simp: upd_job_def)
      have "job_id j \<notin> set (map job_id (takeWhile is_cancel_requested rest))"
        using rest by (auto dest: set_takeWhileD)
      note dead = dead [OF this]
      have "claim_loop isof lk now st al js = claim_loop isof lk now st al ?js"
        using Cons True by (simp add: claim_loop.simps [of isof lk now st al js])
      also have "\<dots> = claim_ref isof lk now st al ?js"
        using "1.IH" [OF Cons True] "1.prems" by simp
      also have "\<dots> = claim_ref isof lk now st al js"
        unfolding claim_ref_def Let_def after dead using Cons True
        by (simp del: dropWhile_eq_Nil_conv split: list.split)
      finally show ?thesis .
    qed
  qed
qed

text \<open>
  The claim loop, which restarts its query after each cancellation it acknowledges, terminates
  and equals one pass over the claimable jobs in (created_at, job_id) order: the leading jobs
  with a pending cancel request become cancelled, the first other one is started and returned.
\<close>

theorem claim_next_one_pass:
  assumes "distinct (map job_id (jobs db))"
  shows "claim_next_internal isof locked now timeout kinds db =
     (let allowed = filter (\<lambda>k. k \<noteq> []) (map py_strip (case kinds of None \<Rightarrow> [] | Some ks \<Rightarrow> ks));
          r = claim_ref isof locked now (now - timeout) allowed (jobs db)
      in (db\<lparr>jobs := fst r\<rparr>, snd r))"
  using assms by (simp add: claim_next_internal_def claim_loop_eq_ref)

section \<open>What a claim leaves behind\<close>

lemma claim_loop_ids: "map job_id (fst (claim_loop isof lk now st al js)) = map job_id js"
proof (induction isof lk now st al js rule: claim_loop.induct)
  case (1 isof lk now st al js)
  then show ?case
    by (auto simp: claim_loop.simps [of isof lk now st al js] split: list.split)
qed

text \<open>
  What the loop does to the rows, for any reflexive and transitive relation that covers its two
  updates.
\<close>

lemma upd_job_rel:
  assumes "distinct (map job_id js)" "j \<in> set js" "\<And>j. R j j" "R j (f j)"
  shows "list_all2 R js (upd_job (job_id j) f js)"
proof -
  have "R i (if job_id i = job_id j then f i else i)" if "i \<in> set js" for i
    using job_unique [OF assms(1) that assms(2)] assms(3,4) by auto
  then show ?thesis by (simp add: upd_job_def list.rel_map list_all2_same)
qed

lemma claim_loop_rel:
  assumes "distinct (map job_id js)" "\<And>j. R j j" "\<And>a b c. R a b \<Longrightarrow> R b c \<Longrightarrow> R a c"
    and "\<And>j. claimable lk st al j \<Longrightarrow> is_cancel_requested j \<Longrightarrow> R j (cancel_before_claim isof now j)"
    and "\<And>j. claimable lk st al j \<Longrightarrow> \<not> is_cancel_requested j \<Longrightarrow> R j (start_job now j)"
  shows "list_all2 R js (fst (claim_loop isof lk now st al js))"
  using assms
proof (induction isof lk now st al js rule: claim_loop.induct)
  case (1 isof lk now st al js)
  note unf = claim_loop.simps [of isof lk now st al js]
  show ?case
  proof (cases "query_rows (claimable lk st al) job_order js")
    case Nil
    with "1.prems"(2) show ?thesis by (simp add: unf list_all2_refl)
  next
    case (Cons j rest)
    have j: "j \<in> set js" "claimable lk st al j" using query_rows_hd_mem [OF Cons] by simp_all
    note upd = upd_job_rel [where R = R, OF "1.prems"(1) j(1) "1.prems"(2)]
    show ?thesis
    proof (cases "is_cancel_requested j")
      case True
      let ?js = "upd_job (job_id j) (cancel_before_claim isof now) js"
      from True j "1.prems"(4) have "list_all2 R js ?js" by (intro upd) blast
      moreover have "list_all2 R ?js (fst (claim_loop isof lk now st al ?js))"
        using "1.IH" [OF Cons True] "1.prems" by simp
      ultimately have "list_all2 R js (fst (claim_loop isof lk now st al ?js))"
        by (rule list_all2_trans [rotated]) (rule "1.prems"(3))
      with Cons True show ?thesis by (simp add: unf)
    next
      case False
      with j "1.prems"(5) have "R j (start_job now j)" by blast
      from upd [of "start_job now", OF this] Cons False show ?thesis by (simp add: unf)
    qed
  qed
qed

lemma claim_loop_Some:
  assumes "claim_loop isof lk now st al js = (js', Some j)"
  shows "\<exists>j0. j = start_job now j0 \<and> claimable lk st al j0 \<and> \<not> is_cancel_requested j0
     \<and> job_id j0 \<in> job_id ` set js \<and> j \<in> set js'
     \<and> (job_id j0 \<in> job_id ` {i \<in> set js. claimable lk st al i})"
  using assms
proof (induction isof lk now st al js rule: claim_loop.induct)
  case (1 isof lk now st al js)
  show ?case
  proof (cases "query_rows (claimable lk st al) job_order js")
    case Nil
    with "1.prems" show ?thesis by (simp add: claim_loop.simps [of isof lk now st al js])
  next
    case (Cons j1 rest)
    have j1: "j1 \<in> set js" "claimable lk st al j1" using query_rows_hd_mem [OF Cons] by simp_all
    show ?thesis
    proof (cases "is_cancel_requested j1")
      case True
      let ?js = "upd_job (job_id j1) (cancel_before_claim isof now) js"
      have "claim_loop isof lk now st al ?js = (js', Some j)"
        using "1.prems" Cons True by (simp add: claim_loop.simps [of isof lk now st al js])
      from "1.IH" [OF Cons True this] obtain j0 where
        j0: "j = start_job now j0" "claimable lk st al j0" "\<not> is_cancel_requested j0"
          "job_id j0 \<in> job_id ` set ?js" "j \<in> set js'"
          "job_id j0 \<in> job_id ` {i \<in> set ?js. claimable lk st al i}" by blast
      have "job_id ` set ?js = job_id ` set js"
        by (metis list.set_map map_id_upd_job row_ids(1))
      moreover have "{i \<in> set ?js. claimable lk st al i} \<subseteq> {i \<in> set js. claimable lk st al i}"
        by (auto simp: upd_job_def claimable_def split: if_splits)
      ultimately show ?thesis using j0 by blast
    next
      case False
      then have "js' = upd_job (job_id j1) (start_job now) js" "j = start_job now j1"
        using "1.prems" Cons by (simp_all add: claim_loop.simps [of isof lk now st al js])
      moreover from j1 have "start_job now j1 \<in> set (upd_job (job_id j1) (start_job now) js)"
        by (force simp: upd_job_def)
      ultimately show ?thesis using False j1 by blast
    qed
  qed
qed

text \<open>
  Single execution: a job that has just been claimed is not handed out by a second claim whose
  staleness threshold is not later than the first claim, whatever locks, kinds and clock it has.
\<close>

theorem claim_exclusive:
  assumes "distinct (map job_id (jobs db))"
    and "claim_next_internal isof lk now timeout kinds db = (db1, Some j)"
    and "claim_next_internal isof lk2 now2 timeout2 kinds2 db1 = (db2, Some j2)"
    and "now2 - timeout2 \<le> now"
  shows "job_id j2 \<noteq> job_id j"
proof
  assume same: "job_id j2 = job_id j"
  obtain al where c1: "claim_loop isof lk now (now - timeout) al (jobs db) = (jobs db1, Some j)"
    using assms(2) by (auto simp: claim_next_internal_def Let_def prod_eq_iff)
  obtain al2 where
    c2: "claim_loop isof lk2 now2 (now2 - timeout2) al2 (jobs db1) = (jobs db2, Some j2)"
    using assms(3) by (auto simp: claim_next_internal_def Let_def prod_eq_iff)
  have ids: "distinct (map job_id (jobs db1))"
    using claim_loop_ids [of isof lk now "now - timeout" al "jobs db"] c1 assms(1) by simp
  from claim_loop_Some [OF c1] obtain j0 where j: "j = start_job now j0" "j \<in> set (jobs db1)"
    by blast
  from claim_loop_Some [OF c2] obtain k where k: "k \<in> set (jobs db1)"
    "claimable lk2 (now2 - timeout2) al2 k" "job_id k = job_id j2"
    by (force simp: image_iff)
  then have "k = j" using job_unique [OF ids] j(2) same by auto
  with k(2) j(1) assms(4) show False by (simp add: claimable_def start_job_def)
qed

section \<open>The state machine of a job\<close>

text \<open>
  The abstract machine: status and cancel flag. A cancel request sets the flag of an unfinished
  job; completion is only reached without the flag; cancellation always sets it.
\<close>

inductive status_step :: "job_status \<times> bool \<Rightarrow> job_status \<times> bool \<Rightarrow> bool" where
  start: "s \<in> {Pending, Running} \<Longrightarrow> status_step (s, False) (Running, False)"
| request: "s \<in> {Pending, Running} \<Longrightarrow> status_step (s, b) (s, True)"
| finish: "t \<in> {Done, Failed} \<Longrightarrow> status_step (s, False) (t, False)"
| cancel: "status_step (s, b) (Cancelled, True)"

inductive_simps status_step_iff: "status_step (s, b) (t, c)"

abbreviation job_view :: "job \<Rightarrow> job_status \<times> bool" where
  "job_view j \<equiv> (job_status j, is_cancel_requested j)"

text \<open>The operations of any number of API handlers and workers, in any order.\<close>

inductive job_step :: "job_db \<Rightarrow> job_db \<Rightarrow> bool" where
  enqueue: "i \<notin> job_id ` set (jobs db) \<Longrightarrow> job_step db (fst (enqueue i now t g k p db))"
| claim: "job_step db (fst (claim_next_internal isof lk now timeout kinds db))"
| heartbeat: "job_step db (heartbeat now i db)"
| mark_done: "job_step db (mark_done isof now i db)"
| mark_failed: "job_step db (mark_failed isof now i err db)"
| request: "job_step db (fst (request_cancel now i reason db))"
| cancel: "job_step db (mark_cancelled now i reason db)"
| event: "job_step db (append_event sqlite db_seq now i k p db)"

definition empty_jobs :: job_db where
  "empty_jobs = \<lparr>jobs = [], job_events = []\<rparr>"

abbreviation job_reachable :: "job_db \<Rightarrow> bool" where
  "job_reachable \<equiv> job_step\<^sup>*\<^sup>* empty_jobs"

text \<open>Well-formed rows: completion time exactly on finished jobs, cancelled jobs carry the flag.\<close>

definition job_ok :: "job \<Rightarrow> bool" where
  "job_ok j \<longleftrightarrow> (job_completed j = None \<longleftrightarrow> job_status j \<in> {Pending, Running})
     \<and> (job_status j = Cancelled \<longrightarrow> is_cancel_requested j)"

definition row_evolves :: "job \<Rightarrow> job \<Rightarrow> bool" where
  "row_evolves j j' \<longleftrightarrow> job_id j' = job_id j \<and> job_created j' = job_created j
     \<and> job_kind j' = job_kind j \<and> job_tenant j' = job_tenant j \<and> job_graph j' = job_graph j
     \<and> status_step\<^sup>*\<^sup>* (job_view j) (job_view j') \<and> (job_ok j \<longrightarrow> job_ok j')"

lemma row_evolves_refl [simp]: "row_evolves j j"
  by (simp add: row_evolves_def)

lemma row_evolves_trans: "row_evolves a b \<Longrightarrow> row_evolves b c \<Longrightarrow> row_evolves a c"
  unfolding row_evolves_def by (auto intro: rtranclp_trans)

lemma row_evolves_ok: "row_evolves a b \<Longrightarrow> job_ok a \<Longrightarrow> job_ok b"
  by (simp add: row_evolves_def)

lemma is_cancel_requested_payload:
  "job_payload j' ''cancel_requested'' = job_payload j ''cancel_requested'' \<Longrightarrow>
     is_cancel_requested j' = is_cancel_requested j"
  by (simp add: is_cancel_requested_def)

lemma is_cancel_requested_set [simp]:
  "is_cancel_requested (cancel_row now reason j)"
  "is_cancel_requested (request_row now reason j)"
  by (auto simp: is_cancel_requested_def cancel_row_def request_row_def Let_def
      split: option.splits list.splits)

lemma cancel_row_view [simp]: "job_status (cancel_row now reason j) = Cancelled"
  "job_completed (cancel_row now reason j) = Some now"
  by (simp_all add: cancel_row_def Let_def)

lemma row_fields [simp]:
  "job_created (cancel_row now reason j) = job_created j"
  "job_kind (cancel_row now reason j) = job_kind j"
  "job_tenant (cancel_row now reason j) = job_tenant j"
  "job_graph (cancel_row now reason j) = job_graph j"
  "job_created (request_row now reason j) = job_created j"
  "job_kind (request_row now reason j) = job_kind j"
  "job_tenant (request_row now reason j) = job_tenant j"
  "job_graph (request_row now reason j) = job_graph j"
  "job_status (request_row now reason j) = job_status j"
  "job_completed (request_row now reason j) = job_completed j"
  by (simp_all add: cancel_row_def request_row_def Let_def)

lemma row_evolves_cancel: "row_evolves j (cancel_row now reason j)"
proof -
  have "status_step (job_view j) (job_view (cancel_row now reason j))"
    by (simp add: status_step_iff)
  then show ?thesis by (auto simp: row_evolves_def job_ok_def)
qed

lemma row_evolves_request:
  assumes "job_status j \<in> {Pending, Running}"
  shows "row_evolves j (request_row now reason j)"
proof -
  have "status_step (job_view j) (job_view (request_row now reason j))"
    using assms by (auto simp: status_step_iff)
  then show ?thesis using assms by (auto simp: row_evolves_def job_ok_def)
qed

lemma row_evolves_before_claim:
  assumes "is_cancel_requested j"
  shows "row_evolves j (cancel_before_claim isof now j)"
proof -
  have same: "is_cancel_requested (cancel_before_claim isof now j) = is_cancel_requested j"
    by (rule is_cancel_requested_payload) (simp add: cancel_before_claim_def Let_def)
  moreover have "job_completed (cancel_before_claim isof now j) = Some now"
    by (simp add: cancel_before_claim_def Let_def)
  moreover from same assms
  have "status_step (job_view j) (job_view (cancel_before_claim isof now j))"
    by (simp add: status_step_iff)
  ultimately show ?thesis using assms
    by (auto simp: row_evolves_def job_ok_def) (simp_all add: cancel_before_claim_def Let_def)
qed

lemma row_evolves_start:
  assumes "claimable lk st al j" "\<not> is_cancel_requested j"
  shows "row_evolves j (start_job now j)"
proof -
  have same: "is_cancel_requested (start_job now j) = is_cancel_requested j"
    by (rule is_cancel_requested_payload) (simp add: start_job_def)
  with assms have "status_step (job_view j) (job_view (start_job now j))"
    by (auto simp: status_step_iff start_job_def claimable_def)
  with same assms show ?thesis
    by (auto simp: row_evolves_def job_ok_def claimable_def) (auto simp: start_job_def)
qed

lemma row_evolves_finish:
  assumes "\<not> is_cancel_requested j" "s \<in> {Done, Failed}"
  shows "row_evolves j (j\<lparr>job_status := s, job_completed := Some now, job_updated := now\<rparr>)"
    "row_evolves j (j\<lparr>job_status := s, job_error := e, job_completed := Some now,
       job_updated := now\<rparr>)"
proof -
  have "status_step\<^sup>*\<^sup>* (job_view j) (s, False)"
    using assms by (auto simp: status_step_iff)
  with assms show "row_evolves j (j\<lparr>job_status := s, job_completed := Some now,
      job_updated := now\<rparr>)"
    "row_evolves j (j\<lparr>job_status := s, job_error := e, job_completed := Some now,
       job_updated := now\<rparr>)"
    by (auto simp: row_evolves_def job_ok_def is_cancel_requested_def)
qed

lemma row_evolves_touch: "row_evolves j (j\<lparr>job_updated := now\<rparr>)"
  by (simp add: row_evolves_def job_ok_def is_cancel_requested_def)

text \<open>Every operation moves every row along the machine and only adds pending rows.\<close>

definition jobs_evolve :: "job_db \<Rightarrow> job_db \<Rightarrow> bool" where
  "jobs_evolve db db' \<longleftrightarrow> distinct (map job_id (jobs db'))
     \<and> (\<exists>old new. jobs db' = old @ new \<and> list_all2 row_evolves (jobs db) old
          \<and> (\<forall>j \<in> set new. job_ok j))"

lemma ids_evolve: "list_all2 row_evolves js js' \<Longrightarrow> map job_id js' = map job_id js"
  by (induction rule: list_all2_induct) (auto simp: row_evolves_def)

lemma jobs_evolve_parts:
  "jobs db' = old @ new \<Longrightarrow> list_all2 row_evolves (jobs db) old \<Longrightarrow> \<forall>j \<in> set new. job_ok j \<Longrightarrow>
     distinct (map job_id (jobs db')) \<Longrightarrow> jobs_evolve db db'"
  unfolding jobs_evolve_def by blast

lemma jobs_evolveI:
  "distinct (map job_id (jobs db)) \<Longrightarrow> list_all2 row_evolves (jobs db) (jobs db') \<Longrightarrow>
     jobs_evolve db db'"
  by (rule jobs_evolve_parts [where new = "[]"]) (simp_all add: ids_evolve)

lemma jobs_evolve_refl [simp]: "distinct (map job_id (jobs db)) \<Longrightarrow> jobs_evolve db db"
  by (rule jobs_evolveI) (auto intro: list_all2_refl)

lemma jobs_evolveE:
  assumes "jobs_evolve db db'"
  obtains old new where "jobs db' = old @ new" "list_all2 row_evolves (jobs db) old"
    "\<forall>j \<in> set new. job_ok j" "distinct (map job_id (jobs db'))"
  using assms unfolding jobs_evolve_def by blast

lemma jobs_evolve_snoc:
  assumes "distinct (map job_id (jobs db))" "jobs db' = jobs db @ [r]"
    and "job_id r \<notin> job_id ` set (jobs db)" "job_ok r"
  shows "jobs_evolve db db'"
proof -
  have "list_all2 row_evolves (jobs db) (jobs db)" by (simp add: list_all2_refl)
  moreover have "\<forall>j \<in> set [r]. job_ok j" "distinct (map job_id (jobs db'))"
    using assms by simp_all
  ultimately show ?thesis unfolding jobs_evolve_def using assms(2) by blast
qed

lemma jobs_evolve_trans: "jobs_evolve a b \<Longrightarrow> jobs_evolve b c \<Longrightarrow> jobs_evolve a c"
proof -
  assume ab: "jobs_evolve a b" and bc: "jobs_evolve b c"
  from ab obtain old1 new1 where
    b: "jobs b = old1 @ new1" "list_all2 row_evolves (jobs a) old1" "\<forall>j \<in> set new1. job_ok j"
    by (rule jobs_evolveE)
  from bc obtain old2 new2 where
    c: "jobs c = old2 @ new2" "list_all2 row_evolves (jobs b) old2" "\<forall>j \<in> set new2. job_ok j"
      "distinct (map job_id (jobs c))"
    by (rule jobs_evolveE)
  from c(2) b(1) obtain old3 new3 where
    o: "old2 = old3 @ new3" "list_all2 row_evolves old1 old3" "list_all2 row_evolves new1 new3"
    unfolding b(1) list_all2_append1 by blast
  have "\<forall>j \<in> set new3. job_ok j"
    using list_all2_mem2 [OF o(3)] b(3) row_evolves_ok by blast
  moreover have "list_all2 row_evolves (jobs a) old3"
    by (rule list_all2_trans [OF row_evolves_trans b(2) o(2)])
  moreover have "jobs c = old3 @ (new3 @ new2)" using c(1) o(1) by simp
  ultimately show "jobs_evolve a c"
    using c(3,4) by (intro jobs_evolve_parts [where new = "new3 @ new2"]) auto
qed

lemma upd_evolves:
  assumes "distinct (map job_id (jobs db))" "jobs db' = upd_job i f (jobs db)"
    and "\<And>j. j \<in> set (jobs db) \<Longrightarrow> job_id j = i \<Longrightarrow> row_evolves j (f j)"
  shows "jobs_evolve db db'"
  using assms by (intro jobs_evolveI) (simp_all add: upd_job_def list.rel_map list_all2_same)

lemma upd_found_evolves:
  assumes "distinct (map job_id (jobs db))" "jobs db' = upd_job i f (jobs db)"
    and "find_job i (jobs db) = Some j" "row_evolves j (f j)"
  shows "jobs_evolve db db'"
  using assms find_job_Some [OF assms(1)] by (intro upd_evolves [OF assms(1,2)]) auto

lemma mark_cancelled_evolves:
  "distinct (map job_id (jobs db)) \<Longrightarrow> jobs_evolve db (mark_cancelled now i reason db)"
  by (rule upd_evolves [where i = i]) (auto simp: mark_cancelled_def row_evolves_cancel)

lemma claim_evolves:
  assumes "distinct (map job_id (jobs db))"
  shows "jobs_evolve db (fst (claim_next_internal isof lk now timeout kinds db))"
proof (rule jobs_evolveI [OF assms])
  show "list_all2 row_evolves (jobs db) (jobs (fst (claim_next_internal isof lk now timeout kinds db)))"
    unfolding claim_next_internal_def Let_def
    using claim_loop_rel [where R = row_evolves, OF assms row_evolves_refl row_evolves_trans
        row_evolves_before_claim row_evolves_start] by simp
qed

lemma step_evolves:
  assumes "job_step db db'" "distinct (map job_id (jobs db))"
  shows "jobs_evolve db db'"
  using assms
proof (induction rule: job_step.induct)
  case (enqueue i db now t g k p)
  then show ?case by (intro jobs_evolve_snoc) (simp add: enqueue_def job_ok_def)+
next
  case (mark_done db isof now i)
  show ?case
  proof (cases "find_job i (jobs db)")
    case (Some j)
    with mark_done show ?thesis
      by (auto simp: mark_done_def mark_cancelled_evolves row_evolves_finish
          intro: upd_found_evolves [OF _ _ Some])
  qed (simp add: mark_done_def mark_done)
next
  case (mark_failed db isof now i err)
  show ?case
  proof (cases "find_job i (jobs db)")
    case (Some j)
    with mark_failed show ?thesis
      by (auto simp: mark_failed_def mark_cancelled_evolves row_evolves_finish
          intro: upd_found_evolves [OF _ _ Some])
  qed (simp add: mark_failed_def mark_failed)
next
  case (request db now i reason)
  show ?case
  proof (cases "find_job i (jobs db)")
    case (Some j)
    with request show ?thesis
      by (cases "job_status j") (auto simp: request_cancel_def row_evolves_request
          intro!: upd_found_evolves [OF _ _ Some])
  qed (simp add: request_cancel_def request)
next
  case (heartbeat db now i)
  then show ?case by (auto intro!: upd_evolves simp: heartbeat_def row_evolves_touch)
next
  case (event db sqlite db_seq now i k p)
  then show ?case by (auto intro!: upd_evolves simp: append_event_def row_evolves_touch)
qed (simp_all add: claim_evolves mark_cancelled_evolves)

lemma steps_evolve:
  "job_step\<^sup>*\<^sup>* db db' \<Longrightarrow> distinct (map job_id (jobs db)) \<Longrightarrow> jobs_evolve db db'"
proof (induction rule: rtranclp_induct)
  case (step y z)
  then have "jobs_evolve db y" "jobs_evolve y z"
    using step_evolves by (auto simp: jobs_evolve_def)
  then show ?case by (rule jobs_evolve_trans)
qed simp

lemma evolves_found:
  assumes "jobs_evolve db db'" "find_job i (jobs db) = Some j"
  shows "\<exists>j'. find_job i (jobs db') = Some j' \<and> row_evolves j j'"
proof -
  from assms(1) obtain old new where d: "distinct (map job_id (jobs db'))" "jobs db' = old @ new"
    "list_all2 row_evolves (jobs db) old" unfolding jobs_evolve_def by blast
  have "j \<in> set (jobs db)" "job_id j = i" using find_jobD [OF assms(2)] by simp_all
  with list_all2_mem1 [OF d(3)] obtain j' where "j' \<in> set old" "row_evolves j j'" by blast
  moreover from this have "find_job (job_id j') (jobs db') = Some j'"
    using d(2) by (intro find_job_Some [OF d(1)]) simp
  ultimately show ?thesis using \<open>job_id j = i\<close> by (auto simp: row_evolves_def)
qed

lemma reachable_ok:
  assumes "job_reachable db"
  shows "distinct (map job_id (jobs db))" "\<forall>j \<in> set (jobs db). job_ok j"
  using steps_evolve [OF assms] by (auto simp: jobs_evolve_def empty_jobs_def)

text \<open>Unfinished with the flag, or cancelled: the abstract machine never leaves these.\<close>

lemma flag_absorbing:
  "status_step\<^sup>*\<^sup>* (s, True) (t, c) \<Longrightarrow> s \<notin> {Done, Failed} \<Longrightarrow>
     c \<and> t \<notin> {Done, Failed} \<and> (s = Cancelled \<longrightarrow> t = Cancelled)"
proof (induction "(t, c)" arbitrary: t c rule: rtranclp_induct)
  case (step y)
  then show ?case by (cases y) (auto simp: status_step_iff)
qed simp

section \<open>What the job store guarantees\<close>


text \<open>
  Invariant of every reachable store: job ids are unique, a job has a completion time exactly
  when it is done, failed or cancelled, and a cancelled job carries the cancel flag.
\<close>

theorem job_store_invariant:
  assumes "job_reachable db"
  shows "distinct (map job_id (jobs db)) \<and>
    (\<forall>i j. get_job i db = Some j \<longrightarrow>
      ((job_completed j = None) = (job_status j \<in> {Pending, Running}))
      \<and> (job_status j = Cancelled \<longrightarrow> is_cancel_requested j))"
  using reachable_ok [OF assms] find_jobD
  by (simp_all add: get_job_def job_ok_def)


text \<open>
  C35 Completion by a worker: on a stored job, \<open>mark_done\<close> and \<open>mark_failed\<close> acknowledge a pending
  cancel request by cancelling the job, and otherwise set done or failed with the error message,
  whatever the status was; every other job is untouched.
\<close>

theorem finish_job:
  assumes "get_job i db = Some j"
  shows "(\<exists>d f. get_job i (mark_done isof now i db) = Some d
     \<and> get_job i (mark_failed isof now i err db) = Some f
     \<and> job_status d = (if is_cancel_requested j then Cancelled else Done)
     \<and> job_status f = (if is_cancel_requested j then Cancelled else Failed)
     \<and> job_completed d = Some now \<and> job_completed f = Some now
     \<and> (\<not> is_cancel_requested j \<longrightarrow> job_error d = job_error j \<and> job_error f = Some err))
     \<and> (k \<noteq> i \<longrightarrow> get_job k (mark_done isof now i db) = get_job k db
          \<and> get_job k (mark_failed isof now i err db) = get_job k db)"
  using assms
  by (auto simp: get_job_def mark_done_def mark_failed_def mark_cancelled_def find_job_upd
      split: option.split)

text \<open>
  C36 Claiming by kind: a job handed out by \<open>claim_next_of_kinds\<close> was claimable, is returned
  running with no cancel request pending, and, when some requested kind is not blank, its kind is
  one of the stripped requested kinds; an empty request claims nothing.
\<close>

theorem claim_of_kinds:
  assumes "claim_next_of_kinds isof lk now timeout kinds db = (db', Some j)"
  shows "kinds \<noteq> [] \<and> job_status j = Running \<and> job_updated j = now \<and> \<not> is_cancel_requested j
     \<and> \<not> lk (job_id j)
     \<and> ((\<exists>k \<in> set kinds. py_strip k \<noteq> []) \<longrightarrow> job_kind j \<in> py_strip ` set kinds)"
proof -
  let ?al = "filter (\<lambda>k. k \<noteq> []) (map py_strip kinds)"
  have ne: "kinds \<noteq> []" using assms by (auto simp: claim_next_of_kinds_def)
  with assms have "claim_loop isof lk now (now - timeout) ?al (jobs db) = (jobs db', Some j)"
    by (auto simp: claim_next_of_kinds_def claim_next_internal_def Let_def prod_eq_iff)
  from claim_loop_Some [OF this] obtain j0 where j: "j = start_job now j0"
    "claimable lk (now - timeout) ?al j0" "\<not> is_cancel_requested j0" by blast
  then have run: "job_status j = Running \<and> job_updated j = now \<and> \<not> is_cancel_requested j
      \<and> \<not> lk (job_id j)"
    by (simp add: start_job_def claimable_def is_cancel_requested_def)
  have "job_kind j \<in> py_strip ` set kinds" if "\<exists>k \<in> set kinds. py_strip k \<noteq> []"
  proof -
    from that have "?al \<noteq> []" by (simp add: filter_empty_conv)
    with j show ?thesis by (auto simp: claimable_def start_job_def)
  qed
  with run ne show ?thesis by blast
qed

section \<open>The event journal of a job\<close>

lemma next_event_seq_greater: "e \<in> set es \<Longrightarrow> je_seq e < next_event_seq es"
  by (auto simp: next_event_seq_def intro: Max_ge le_imp_less_Suc le_less_trans)

lemma get_job_events_append:
  "get_job_events k (append_event True d now i kind p db) = get_job_events k db @
     (if i = k then [\<lparr>je_seq = next_event_seq (job_events db), je_job = i, je_kind = kind,
        je_payload = p\<rparr>] else [])"
proof -
  let ?e = "\<lparr>je_seq = next_event_seq (job_events db), je_job = i, je_kind = kind, je_payload = p\<rparr>"
  have "\<forall>r \<in> set (job_events db). je_job r = k \<longrightarrow> je_seq r < je_seq ?e"
    by (simp add: next_event_seq_greater)
  from query_rows_snoc_max [OF this] show ?thesis
    by (simp add: get_job_events_def append_event_def)
qed

text \<open>On SQLite the job events are an append-only log keyed by the job.\<close>

interpretation job_log: keyed_log
  "\<lambda>i (now, kind, p). append_event True 0 now i kind p" get_job_events
  "\<lambda>i (now, kind, p) db. \<lparr>je_seq = next_event_seq (job_events db), je_job = i, je_kind = kind,
     je_payload = p\<rparr>"
  "\<lambda>e. (je_kind e, je_payload e)" snd
  by unfold_locales (auto simp: get_job_events_append)

text \<open>
  C37 Job journal on SQLite: after any sequence of \<open>append_event\<close> calls for any jobs, the events of
  a job are the ones it had before, followed by exactly the appended kinds and payloads of that
  job in call order.
\<close>

theorem job_events_in_order:
  "prefix (get_job_events i db)
     (get_job_events i (fold (\<lambda>(i, now, kind, p). append_event True 0 now i kind p) calls db)) \<and>
   map (\<lambda>e. (je_kind e, je_payload e))
     (get_job_events i (fold (\<lambda>(i, now, kind, p). append_event True 0 now i kind p) calls db)) =
   map (\<lambda>e. (je_kind e, je_payload e)) (get_job_events i db) @
     map (\<lambda>(i, now, kind, p). (kind, p)) (filter (\<lambda>c. fst c = i) calls)"
proof -
  have "(\<lambda>(i, now, kind, p). append_event True 0 now i kind p)
      = (\<lambda>(k, a). (\<lambda>(now, kind, p). append_event True 0 now k kind p) a)" by auto
  moreover have "(\<lambda>(i, now, kind, p). (kind, p)) = snd \<circ> snd" by auto
  ultimately show ?thesis
    using job_log.append_all_prefix [of i db calls] job_log.append_all_content [of i calls db]
    by (simp add: job_log.append_all_def)
qed

section \<open>Concrete instances\<close>

text \<open>Three jobs: one with a pending cancel request, two plain ones; created in that order.\<close>

definition ex_row :: "nat \<Rightarrow> (string \<rightharpoonup> json_val) \<Rightarrow> job" where
  "ex_row i p = \<lparr>job_id = i, job_tenant = ''t'', job_graph = ''g'', job_kind = ''ingest'',
     job_payload = p, job_status = Pending, job_error = None, job_created = int i,
     job_updated = int i, job_started = None, job_completed = None\<rparr>"

definition ex_db :: job_db where
  "ex_db = \<lparr>jobs = [ex_row 3 Map.empty, ex_row 1 [''cancel_requested'' \<mapsto> JBool True],
     ex_row 2 Map.empty], job_events = []\<rparr>"

lemmas ex_defs = ex_db_def ex_row_def claim_ref_def query_rows_def claimable_def job_order_def
  is_cancel_requested_def upd_job_def start_job_def claim_next_internal_def

lemma claim_next_one_pass_witness:
  "distinct (map job_id (jobs ex_db)) \<and>
   snd (claim_next_internal (\<lambda>t. ''now'') (\<lambda>i. False) 10 5 None ex_db)
     = Some (start_job 10 (ex_row 2 Map.empty)) \<and>
   map job_status (jobs (fst (claim_next_internal (\<lambda>t. ''now'') (\<lambda>i. False) 10 5 None ex_db)))
     = [Pending, Cancelled, Running]"
  using claim_next_one_pass [of ex_db "\<lambda>t. ''now''" "\<lambda>i. False" 10 5 None]
  by (simp add: ex_defs Let_def cancel_before_claim_def)

definition ex_db1 :: job_db where
  "ex_db1 = fst (claim_next_internal (\<lambda>t. ''now'') (\<lambda>i. False) 10 5 None ex_db)"

lemma ex_claims:
  "claim_next_internal (\<lambda>t. ''now'') (\<lambda>i. False) 10 5 None ex_db
     = (ex_db1, Some (start_job 10 (ex_row 2 Map.empty)))"
  "claim_next_internal (\<lambda>t. ''now'') (\<lambda>i. False) 12 5 None ex_db1
     = (ex_db1\<lparr>jobs := upd_job 3 (start_job 12) (jobs ex_db1)\<rparr>,
        Some (start_job 12 (ex_row 3 Map.empty)))"
  unfolding ex_db1_def
  by (simp_all add: claim_next_internal_def claim_loop_eq_ref ex_defs Let_def cancel_before_claim_def)

lemma claim_exclusive_witness:
  "job_id (start_job 12 (ex_row 3 Map.empty)) \<noteq> job_id (start_job 10 (ex_row 2 Map.empty))"
  by (rule claim_exclusive [OF _ ex_claims]) (simp_all add: ex_db_def ex_row_def)

lemma enqueue_reachable:
  "job_reachable db \<Longrightarrow> i \<notin> job_id ` set (jobs db) \<Longrightarrow>
     job_reachable (fst (enqueue i now t g k p db))"
  by (erule rtranclp.rtrancl_into_rtrancl) (rule job_step.enqueue)

lemma ex_reachable: "job_reachable ex_db"
proof -
  define db1 where "db1 = fst (enqueue 3 3 ''t'' ''g'' ''ingest'' Map.empty empty_jobs)"
  define db2 where
    "db2 = fst (enqueue 1 1 ''t'' ''g'' ''ingest'' [''cancel_requested'' \<mapsto> JBool True] db1)"
  have e: "jobs empty_jobs = []" "job_events empty_jobs = []" by (simp_all add: empty_jobs_def)
  have 1: "jobs db1 = [ex_row 3 Map.empty]" "job_events db1 = []"
    by (simp_all add: db1_def enqueue_def e ex_row_def)
  have 2: "jobs db2 = [ex_row 3 Map.empty, ex_row 1 [''cancel_requested'' \<mapsto> JBool True]]"
    "job_events db2 = []"
    by (simp_all add: db2_def enqueue_def 1 ex_row_def)
  have ids: "job_id (ex_row i p) = i" for i p by (simp add: ex_row_def)
  have "job_reachable db1" unfolding db1_def by (intro enqueue_reachable) (simp_all add: e)
  then have "job_reachable db2"
    unfolding db2_def by (intro enqueue_reachable) (simp_all add: 1 ids)
  then have 3: "job_reachable (fst (enqueue 2 2 ''t'' ''g'' ''ingest'' Map.empty db2))"
    by (intro enqueue_reachable) (simp_all add: 2 ids)
  have 4: "fst (enqueue 2 2 ''t'' ''g'' ''ingest'' Map.empty db2) = ex_db"
    by (cases db2) (use 2 in \<open>simp add: enqueue_def ex_db_def ex_row_def\<close>)
  show ?thesis using 3 by (simp only: 4)
qed


lemma job_store_invariant_witness:
  "distinct (map job_id (jobs ex_db)) \<and> ((job_completed (ex_row 3 Map.empty) = None)
     = (job_status (ex_row 3 Map.empty) \<in> {Pending, Running}))"
proof -
  have "get_job 3 ex_db = Some (ex_row 3 Map.empty)"
    by (simp add: get_job_def find_job_def ex_db_def) (simp add: ex_row_def)
  with job_store_invariant [OF ex_reachable] show ?thesis by blast
qed


lemma finish_job_witness:
  "map_option job_status (get_job 3 (mark_done (\<lambda>t. ''now'') 20 3 ex_db)) = Some Done \<and>
   map_option job_status (get_job 1 (mark_failed (\<lambda>t. ''now'') 20 1 ''e'' ex_db)) = Some Cancelled"
proof -
  have g: "get_job 3 ex_db = Some (ex_row 3 Map.empty)"
    "get_job 1 ex_db = Some (ex_row 1 [''cancel_requested'' \<mapsto> JBool True])"
    by (simp_all add: get_job_def find_job_def ex_db_def) (simp_all add: ex_row_def)
  show ?thesis
    using finish_job [OF g(1), of "\<lambda>t. ''now''" 20 "''e''" 0]
      finish_job [OF g(2), of "\<lambda>t. ''now''" 20 "''e''" 0]
    by (auto simp: is_cancel_requested_def ex_row_def)
qed

lemma claim_of_kinds_witness:
  "job_kind (start_job 10 (ex_row 2 Map.empty)) \<in> py_strip ` set ['' ingest '']"
proof -
  have strip: "py_strip '' ingest '' = ''ingest''" by (simp add: py_defs Let_def)
  have "claim_next_of_kinds (\<lambda>t. ''now'') (\<lambda>i. False) 10 5 ['' ingest ''] ex_db
    = (ex_db1, Some (start_job 10 (ex_row 2 Map.empty)))"
    unfolding ex_db1_def claim_next_of_kinds_def
    by (simp add: claim_loop_eq_ref ex_defs Let_def cancel_before_claim_def strip)
  from claim_of_kinds [OF this] show ?thesis by (simp add: strip)
qed

end
