(* ===== verification/FM_Tool_Policy.thy ===== *)
theory FM_Tool_Policy
  imports FM_Prelude "HOL-Library.Product_Lexorder"
begin

text \<open>
  The tool call policies of the agent, \<open>core/cortex/cortexagi/hooks/policy.py\<close>: the builders,
  workspace containment, the nine priority buckets, the decision hook and its construction by
  \<open>enforce\<close>. Predicates and approval handlers are arguments: pure functions that return a
  boolean or raise, an exception being its \<open>repr\<close>. The file system is the parameter \<open>fs\<close>.

  The lemmas show that walking the buckets is a first match over the policies stably sorted by
  class and severity, that a specific deny cannot be overridden and fails closed, what the builders
  allow, and that \<open>workspace_only\<close> confines the file tools.
\<close>

section \<open>Data\<close>

datatype decision = DENY | ASK_USER | APPROVE

text \<open>Within a class of targets the buckets go from the safest decision to the weakest.\<close>

fun severity :: "decision \<Rightarrow> nat" where
  "severity DENY = 0" | "severity ASK_USER = 1" | "severity APPROVE = 2"

fun decision_word :: "decision \<Rightarrow> string" where
  "decision_word DENY = ''deny''"
| "decision_word ASK_USER = ''ask_user''"
| "decision_word APPROVE = ''approve''"

instantiation decision :: linorder
begin

definition less_eq_decision :: "decision \<Rightarrow> decision \<Rightarrow> bool" where
  "less_eq_decision a b \<longleftrightarrow> severity a \<le> severity b"

definition less_decision :: "decision \<Rightarrow> decision \<Rightarrow> bool" where
  "less_decision a b \<longleftrightarrow> severity a < severity b"

instance
proof
  fix a b :: decision
  show "a \<le> b \<Longrightarrow> b \<le> a \<Longrightarrow> a = b"
    by (cases a; cases b) (simp_all add: less_eq_decision_def)
qed (auto simp: less_eq_decision_def less_decision_def)

end

type_synonym 'v args = "string \<rightharpoonup> 'v"

record 'v tool_call =
  tc_name :: string
  tc_args :: "'v args"
  tc_id :: "string option"
  tc_path :: "string option"
  tc_server :: "string option"

text \<open>
  A predicate by the annotation of its first parameter: none, the raw arguments, the tool call
  itself, or a model that is validated first (and may raise).
\<close>

datatype 'v predicate =
    PNullary "string + bool"
  | PArgs "'v args \<Rightarrow> string + bool"
  | PToolCall "'v tool_call \<Rightarrow> string + bool"
  | PModel "'v args \<Rightarrow> string + 'v args" "'v args \<Rightarrow> string + bool"

type_synonym 'v handler = "'v tool_call \<Rightarrow> string + bool"

record 'v policy =
  pol_tool :: string
  pol_decision :: decision
  pol_when :: "'v predicate option"
  pol_ask :: "'v handler option"
  pol_name :: string

record hook_result =
  hr_allow :: bool
  hr_message :: string

text \<open>What the builders accept, and the nested sequences \<open>enforce\<close> flattens.\<close>

datatype tool_arg = ToolName string | McpServer string
datatype mcp_tools = NoTools | OneString string | ToolSeq "string list"
datatype 'v elem = Pol "'v policy" | NotPol string
datatype 'v item = One "'v policy" | Many "'v elem list" | Other string

section \<open>Builders\<close>

definition py_or :: "string \<Rightarrow> string \<Rightarrow> string" where
  "py_or a b = (if a = [] then b else a)"

definition mcp_policies :: "decision \<Rightarrow> string \<Rightarrow> mcp_tools \<Rightarrow> 'v predicate option \<Rightarrow> string \<Rightarrow>
    'v handler option \<Rightarrow> string + 'v policy list" where
  "mcp_policies d server tools w nm h =
     (case tools of
        OneString t \<Rightarrow> Inl (''mcp_tools must be a sequence of strings (e.g., ['' @ [CHR 0x27] @ t
          @ [CHR 0x27] @ '']), not a single string.'')
      | NoTools \<Rightarrow> Inr [\<lparr>pol_tool = server @ ''/*'', pol_decision = d, pol_when = w, pol_ask = h,
          pol_name = py_or nm (decision_word d @ ''_'' @ server @ ''_all'')\<rparr>]
      | ToolSeq ts \<Rightarrow> Inr (map (\<lambda>t. \<lparr>pol_tool = server @ ''/'' @ t, pol_decision = d,
          pol_when = w, pol_ask = h,
          pol_name = (if nm \<noteq> [] then nm @ ''_'' @ t
                      else decision_word d @ ''_'' @ server @ ''_'' @ t)\<rparr>) ts))"

definition build_policy :: "decision \<Rightarrow> 'v handler option \<Rightarrow> tool_arg \<Rightarrow> mcp_tools \<Rightarrow>
    'v predicate option \<Rightarrow> string \<Rightarrow> string + 'v item" where
  "build_policy d h tool tools w nm =
     (case tool of
        ToolName t \<Rightarrow>
          if tools \<noteq> NoTools then Inl ''mcp_tools cannot be specified when tool is a string.''
          else Inr (One \<lparr>pol_tool = t, pol_decision = d, pol_when = w, pol_ask = h, pol_name = nm\<rparr>)
      | McpServer s \<Rightarrow>
          (case mcp_policies d s tools w nm h of
             Inl e \<Rightarrow> Inl e | Inr ps \<Rightarrow> Inr (Many (map Pol ps))))"

definition allow :: "tool_arg \<Rightarrow> mcp_tools \<Rightarrow> 'v predicate option \<Rightarrow> string \<Rightarrow> string + 'v item" where
  "allow = build_policy APPROVE None"

definition deny :: "tool_arg \<Rightarrow> mcp_tools \<Rightarrow> 'v predicate option \<Rightarrow> string \<Rightarrow> string + 'v item" where
  "deny = build_policy DENY None"

definition ask_user :: "'v handler \<Rightarrow> tool_arg \<Rightarrow> mcp_tools \<Rightarrow> 'v predicate option \<Rightarrow> string \<Rightarrow>
    string + 'v item" where
  "ask_user h = build_policy ASK_USER (Some h)"

text \<open>The builder calls below give a tool name and no list of tools, so they return one policy.\<close>

definition rule :: "decision \<Rightarrow> 'v handler option \<Rightarrow> string \<Rightarrow> 'v predicate option \<Rightarrow> string \<Rightarrow>
    'v policy" where
  "rule d h t w nm =
     \<lparr>pol_tool = t, pol_decision = d, pol_when = w, pol_ask = h, pol_name = nm\<rparr>"

lemma rule_sel [simp]:
  "pol_tool (rule d h t w nm) = t" "pol_decision (rule d h t w nm) = d"
  "pol_when (rule d h t w nm) = w" "pol_ask (rule d h t w nm) = h" "pol_name (rule d h t w nm) = nm"
  by (simp_all add: rule_def)

lemma builders_on_names [simp]:
  "allow (ToolName t) NoTools w nm = Inr (One (rule APPROVE None t w nm))"
  "deny (ToolName t) NoTools w nm = Inr (One (rule DENY None t w nm))"
  "ask_user h (ToolName t) NoTools w nm = Inr (One (rule ASK_USER (Some h) t w nm))"
  by (simp_all add: allow_def deny_def ask_user_def build_policy_def rule_def)

definition allow_all :: "'v policy" where
  "allow_all = rule APPROVE None ''*'' None ''allow_all''"

definition deny_all :: "'v policy" where
  "deny_all = rule DENY None ''*'' None ''deny_all''"

datatype builtin_tool = LIST_DIR | SEARCH_DIR | FIND_FILE | VIEW_FILE | CREATE_FILE | EDIT_FILE
  | RUN_COMMAND | ASK_QUESTION | START_SUBAGENT | GENERATE_IMAGE | SEARCH_WEB | READ_URL_CONTENT
  | FINISH

fun tool_value :: "builtin_tool \<Rightarrow> string" where
  "tool_value LIST_DIR = ''list_directory''" | "tool_value SEARCH_DIR = ''search_directory''"
| "tool_value FIND_FILE = ''find_file''" | "tool_value VIEW_FILE = ''view_file''"
| "tool_value CREATE_FILE = ''create_file''" | "tool_value EDIT_FILE = ''edit_file''"
| "tool_value RUN_COMMAND = ''run_command''" | "tool_value ASK_QUESTION = ''ask_question''"
| "tool_value START_SUBAGENT = ''start_subagent''"
| "tool_value GENERATE_IMAGE = ''generate_image''" | "tool_value SEARCH_WEB = ''search_web''"
| "tool_value READ_URL_CONTENT = ''read_url_content''" | "tool_value FINISH = ''finish''"

definition read_only_tools :: "builtin_tool list" where
  "read_only_tools = [LIST_DIR, SEARCH_DIR, FIND_FILE, VIEW_FILE, READ_URL_CONTENT, FINISH]"

definition file_tools :: "builtin_tool list" where
  "file_tools = [VIEW_FILE, CREATE_FILE, EDIT_FILE]"

definition safe_defaults :: "'v handler \<Rightarrow> 'v policy list" where
  "safe_defaults h = map (\<lambda>t. rule APPROVE None (tool_value t) None []) read_only_tools
     @ [rule ASK_USER (Some h) ''*'' None []]"

definition confirm_run_command :: "'v handler option \<Rightarrow> 'v policy list" where
  "confirm_run_command h =
     (case h of
        Some f \<Rightarrow> [rule ASK_USER (Some f) (tool_value RUN_COMMAND) None ''confirm_run_command'',
                   rule APPROVE None ''*'' None ''confirm_run_command'']
      | None \<Rightarrow> [rule DENY None (tool_value RUN_COMMAND) None ''confirm_run_command'',
                 rule APPROVE None ''*'' None ''confirm_run_command''])"

section \<open>Workspace containment\<close>

text \<open>
  The file system: \<open>resolve\<close> gives the parts of the canonical path or raises (None), \<open>exists\<close> and
  \<open>samefile\<close> may raise too; the platform default for case-insensitivity.
\<close>

record file_system =
  fs_resolve :: "string \<Rightarrow> string list option"
  fs_exists :: "string list \<Rightarrow> bool option"
  fs_samefile :: "string list \<Rightarrow> string list \<Rightarrow> bool option"
  fs_platform_ci :: bool

definition swapcase :: "string \<Rightarrow> string" where
  "swapcase s = map (\<lambda>c. if py_lower_char c \<noteq> c then py_lower_char c else py_upper_char c) s"

text \<open>A path is its parts, anchor first; \<open>name\<close> is empty for the anchor alone.\<close>

definition path_name :: "string list \<Rightarrow> string" where
  "path_name p = (if length p \<le> 1 then [] else last p)"

function is_case_insensitive :: "file_system \<Rightarrow> string list \<Rightarrow> bool" where
  "is_case_insensitive fs p =
     (if fs_exists fs p \<noteq> Some True then fs_platform_ci fs
      else if path_name p = [] then fs_platform_ci fs
      else if swapcase (path_name p) = path_name p then is_case_insensitive fs (butlast p)
      else (case fs_samefile fs p (butlast p @ [swapcase (path_name p)]) of
              Some b \<Rightarrow> b | None \<Rightarrow> False))"
  by pat_completeness auto
termination
  by (relation "measure (\<lambda>(fs, p). length p)") (auto simp: path_name_def split: if_splits)

declare is_case_insensitive.simps [simp del]

definition is_path_in_workspace :: "file_system \<Rightarrow> string \<Rightarrow> string \<Rightarrow> bool" where
  "is_path_in_workspace fs target ws =
     (case fs_resolve fs target of
        None \<Rightarrow> False
      | Some t \<Rightarrow>
          (case fs_resolve fs ws of
             None \<Rightarrow> False
           | Some w \<Rightarrow>
               let f = (if is_case_insensitive fs w then py_lower else id);
                   tp = map f t; wp = map f w
               in if length tp < length wp then False else take (length wp) tp = wp))"

lemma is_path_in_workspace_iff:
  "is_path_in_workspace fs p ws \<longleftrightarrow> (\<exists>t w. fs_resolve fs p = Some t \<and> fs_resolve fs ws = Some w
     \<and> (let f = (if is_case_insensitive fs w then py_lower else id) in prefix (map f w) (map f t)))"
  unfolding is_path_in_workspace_def
  by (cases "fs_resolve fs p"; cases "fs_resolve fs ws") (simp_all add: Let_def prefix_take_iff not_less)

definition outside_workspace :: "file_system \<Rightarrow> string list \<Rightarrow> 'v tool_call \<Rightarrow> bool" where
  "outside_workspace fs wss tc =
     (case tc_path tc of
        None \<Rightarrow> False
      | Some p \<Rightarrow> if p = [] then False else \<not> list_ex (is_path_in_workspace fs p) wss)"

definition workspace_only :: "file_system \<Rightarrow> string list \<Rightarrow> 'v policy list" where
  "workspace_only fs wss =
     map (\<lambda>t. rule DENY None (tool_value t) (Some (PToolCall (\<lambda>tc. Inr (outside_workspace fs wss tc))))
            ''workspace_only'') file_tools"

section \<open>Buckets\<close>

definition num_levels :: nat where "num_levels = 9"

definition is_prefix_wildcard :: "string \<Rightarrow> bool" where
  "is_prefix_wildcard t = py_endswith t ''/*''"

fun specific_level :: "decision \<Rightarrow> nat" where
  "specific_level DENY = 0" | "specific_level ASK_USER = 1" | "specific_level APPROVE = 2"

fun prefix_level :: "decision \<Rightarrow> nat" where
  "prefix_level DENY = 3" | "prefix_level ASK_USER = 4" | "prefix_level APPROVE = 5"

fun global_level :: "decision \<Rightarrow> nat" where
  "global_level DENY = 6" | "global_level ASK_USER = 7" | "global_level APPROVE = 8"

definition bucket_index :: "'v policy \<Rightarrow> nat" where
  "bucket_index p =
     (if pol_tool p = ''*'' then global_level (pol_decision p)
      else if is_prefix_wildcard (pol_tool p) then prefix_level (pol_decision p)
      else specific_level (pol_decision p))"

text \<open>\<open>call_target.split("/", 1)[0]\<close>; the call target of an MCP call always has a slash.\<close>

definition matches_target :: "string \<Rightarrow> string \<Rightarrow> bool \<Rightarrow> bool" where
  "matches_target pt target is_mcp =
     (if pt = ''*'' then True
      else if is_mcp then
        (if is_prefix_wildcard pt
         then py_drop_last 2 pt = takeWhile (\<lambda>c. c \<noteq> CHR ''/'') target
         else pt = target)
      else pt = target)"

section \<open>Evaluation\<close>

definition evaluate_predicate :: "'v policy \<Rightarrow> 'v tool_call \<Rightarrow> string + bool" where
  "evaluate_predicate p tc =
     (case pol_when p of
        None \<Rightarrow> Inr True
      | Some (PNullary r) \<Rightarrow> r
      | Some (PArgs f) \<Rightarrow> f (tc_args tc)
      | Some (PToolCall f) \<Rightarrow> f tc
      | Some (PModel v f) \<Rightarrow> (case v (tc_args tc) of Inl e \<Rightarrow> Inl e | Inr m \<Rightarrow> f m))"

text \<open>The missing handler is the failed assertion of \<open>_execute_ask_user\<close>.\<close>

definition execute_ask_user :: "'v policy \<Rightarrow> 'v tool_call \<Rightarrow> string + bool" where
  "execute_ask_user p tc =
     (case pol_ask p of None \<Rightarrow> Inl ''AssertionError()'' | Some h \<Rightarrow> h tc)"

definition quoted :: "string \<Rightarrow> string" where
  "quoted s = [CHR 0x27] @ s @ [CHR 0x27]"

definition label :: "'v policy \<Rightarrow> string" where
  "label p = py_or (pol_name p) (pol_tool p)"

definition apply_policy :: "'v policy \<Rightarrow> 'v tool_call \<Rightarrow> string + hook_result" where
  "apply_policy p tc =
     (case pol_decision p of
        DENY \<Rightarrow> Inr \<lparr>hr_allow = False, hr_message = ''Denied by policy '' @ quoted (label p) @ ''.''\<rparr>
      | APPROVE \<Rightarrow> Inr \<lparr>hr_allow = True, hr_message = []\<rparr>
      | ASK_USER \<Rightarrow>
          (case execute_ask_user p tc of
             Inl e \<Rightarrow> Inl e
           | Inr ok \<Rightarrow>
               if ok then Inr \<lparr>hr_allow = True, hr_message = []\<rparr>
               else Inr \<lparr>hr_allow = False, hr_message = ''User denied tool '' @ quoted (tc_name tc)
                      @ '' (policy '' @ quoted (label p) @ '').''\<rparr>))"

definition call_target :: "'v tool_call \<Rightarrow> string \<times> bool" where
  "call_target tc =
     (case tc_server tc of
        None \<Rightarrow> (tc_name tc, False)
      | Some s \<Rightarrow> if s = [] then (tc_name tc, False) else (s @ ''/'' @ tc_name tc, True))"

definition policy_failed :: "'v policy \<Rightarrow> string \<Rightarrow> hook_result" where
  "policy_failed p e = \<lparr>hr_allow = False,
     hr_message = ''Policy evaluation failed for policy '' @ quoted (label p) @ '': '' @ e\<rparr>"

definition evaluate_policy :: "'v policy \<Rightarrow> 'v tool_call \<Rightarrow> hook_result option" where
  "evaluate_policy p tc =
     (if \<not> matches_target (pol_tool p) (fst (call_target tc)) (snd (call_target tc)) then None
      else case evaluate_predicate p tc of
             Inl e \<Rightarrow> Some (policy_failed p e)
           | Inr False \<Rightarrow> None
           | Inr True \<Rightarrow>
               (case apply_policy p tc of Inl e \<Rightarrow> Some (policy_failed p e) | Inr r \<Rightarrow> Some r))"

fun run_bucket :: "'v policy list \<Rightarrow> 'v tool_call \<Rightarrow> hook_result option" where
  "run_bucket [] tc = None"
| "run_bucket (p # ps) tc =
     (case evaluate_policy p tc of Some r \<Rightarrow> Some r | None \<Rightarrow> run_bucket ps tc)"

fun run_hook :: "'v policy list list \<Rightarrow> 'v tool_call \<Rightarrow> hook_result" where
  "run_hook [] tc = \<lparr>hr_allow = True, hr_message = []\<rparr>"
| "run_hook (b # bs) tc =
     (case run_bucket b tc of Some r \<Rightarrow> r | None \<Rightarrow> run_hook bs tc)"

section \<open>Construction\<close>

fun flatten_elems :: "'v elem list \<Rightarrow> string + 'v policy list" where
  "flatten_elems [] = Inr []"
| "flatten_elems (NotPol t # es) = Inl (''Expected Policy, got '' @ t)"
| "flatten_elems (Pol p # es) = map_sum id ((#) p) (flatten_elems es)"

fun flatten_policies :: "'v item list \<Rightarrow> string + 'v policy list" where
  "flatten_policies [] = Inr []"
| "flatten_policies (One p # is) = map_sum id ((#) p) (flatten_policies is)"
| "flatten_policies (Many es # is) =
     (case flatten_elems es of
        Inl e \<Rightarrow> Inl e | Inr ps \<Rightarrow> map_sum id ((@) ps) (flatten_policies is))"
| "flatten_policies (Other t # is) = Inl (''Expected Policy or Sequence of Policies, got '' @ t)"

definition place :: "'v policy list list \<Rightarrow> 'v policy \<Rightarrow> 'v policy list list" where
  "place bs p = bs[bucket_index p := bs ! bucket_index p @ [p]]"

definition enforce :: "'v item list \<Rightarrow> string list \<Rightarrow> string + 'v policy list list" where
  "enforce items mcp_servers =
     (case flatten_policies items of
        Inl e \<Rightarrow> Inl e
      | Inr ps \<Rightarrow>
          if list_ex (\<lambda>p. CHR ''/'' \<in> set (pol_tool p) \<and> pol_tool p \<noteq> ''*'') ps \<and> mcp_servers = []
          then Inl (''MCP policies (containing '' @ quoted ''/'' @ '') were detected, but ''
            @ quoted ''mcp_servers'' @ '' was not provided to enforce(). You must pass the registered''
            @ '' MCP servers to enable secure policy matching and prevent silent bypasses.'')
          else case find (\<lambda>p. pol_decision p = ASK_USER \<and> pol_ask p = None) ps of
                 Some p \<Rightarrow> Inl (''ASK_USER policy '' @ quoted (label p) @ '' is missing an ask_user handler.''
                   @ '' Provide one via policy.ask_user(tool, handler=...).'')
               | None \<Rightarrow> Inr (foldl place (replicate num_levels []) ps))"

section \<open>Walking the buckets is a first match\<close>

definition policy_class :: "'v policy \<Rightarrow> nat" where
  "policy_class p = (if pol_tool p = ''*'' then 2 else if is_prefix_wildcard (pol_tool p) then 1 else 0)"

definition by_priority :: "'v policy list \<Rightarrow> 'v policy list" where
  "by_priority = sort_key (\<lambda>p. (policy_class p, pol_decision p))"

definition first_match :: "'v policy list \<Rightarrow> 'v tool_call \<Rightarrow> hook_result" where
  "first_match ps tc =
     (case run_bucket ps tc of Some r \<Rightarrow> r | None \<Rightarrow> \<lparr>hr_allow = True, hr_message = []\<rparr>)"

lemma bucket_index_class: "bucket_index p = 3 * policy_class p + severity (pol_decision p)"
  by (cases "pol_decision p") (simp_all add: bucket_index_def policy_class_def)

lemma bucket_index_bound: "bucket_index p < num_levels"
  by (cases "pol_decision p") (simp_all add: bucket_index_def num_levels_def)

lemma by_priority_buckets: "by_priority ps = sort_key bucket_index ps"
  unfolding by_priority_def
proof (rule sort_key_same_order)
  fix p q :: "'a policy"
  have "severity d \<le> 2" for d by (cases d) simp_all
  from this [of "pol_decision p"] this [of "pol_decision q"]
  show "(policy_class p, pol_decision p) \<le> (policy_class q, pol_decision q)
      \<longleftrightarrow> bucket_index p \<le> bucket_index q"
    by (auto simp: bucket_index_class less_eq_prod_def less_eq_decision_def)
qed

lemma place_all:
  "length bs = num_levels \<Longrightarrow> length (foldl place bs ps) = num_levels
     \<and> (\<forall>i < num_levels. foldl place bs ps ! i = bs ! i @ filter (\<lambda>p. bucket_index p = i) ps)"
proof (induction ps arbitrary: bs)
  case (Cons p ps)
  from Cons.IH [of "place bs p"] Cons.prems show ?case
    by (auto simp: place_def nth_list_update bucket_index_bound)
qed simp

lemma concat_place: "concat (foldl place (replicate num_levels []) ps) = by_priority ps"
proof -
  let ?bs = "foldl place (replicate num_levels []) ps"
  have *: "length ?bs = num_levels" "\<forall>i < num_levels. ?bs ! i = filter (\<lambda>p. bucket_index p = i) ps"
    using place_all [of "replicate num_levels []" ps] by simp_all
  then have "?bs = map (\<lambda>i. filter (\<lambda>p. bucket_index p = i) ps) [0..<num_levels]"
    by (intro nth_equalityI) simp_all
  then show ?thesis
    by (simp add: by_priority_buckets concat_buckets_sort bucket_index_bound)
qed

lemma run_bucket_append:
  "run_bucket (a @ b) tc = (case run_bucket a tc of Some r \<Rightarrow> Some r | None \<Rightarrow> run_bucket b tc)"
  by (induction a) (auto split: option.split)

lemma run_hook_concat: "run_hook bs tc = first_match (concat bs) tc"
  by (induction bs) (auto simp: first_match_def run_bucket_append split: option.splits)

lemma enforceD:
  assumes "enforce items servers = Inr hook"
  obtains ps where "flatten_policies items = Inr ps" "run_hook hook tc = first_match (by_priority ps) tc"
    "\<forall>p \<in> set ps. pol_decision p = ASK_USER \<longrightarrow> pol_ask p \<noteq> None"
    "(\<exists>p \<in> set ps. CHR ''/'' \<in> set (pol_tool p)) \<longrightarrow> servers \<noteq> []"
proof -
  from assms obtain ps where ps: "flatten_policies items = Inr ps"
    "hook = foldl place (replicate num_levels []) ps"
    "find (\<lambda>p. pol_decision p = ASK_USER \<and> pol_ask p = None) ps = None"
    "\<not> (list_ex (\<lambda>p. CHR ''/'' \<in> set (pol_tool p) \<and> pol_tool p \<noteq> ''*'') ps \<and> servers = [])"
    by (simp add: enforce_def split: sum.splits option.splits if_splits)
  from ps(4) have "servers \<noteq> [] \<or> (\<forall>p \<in> set ps. CHR ''/'' \<notin> set (pol_tool p))"
    by (force simp: list_ex_iff)
  with ps show ?thesis
    by (intro that) (auto simp: run_hook_concat concat_place find_None_iff)
qed

lemma run_bucket_Some:
  "run_bucket ps tc = Some r \<Longrightarrow> \<exists>a p b. ps = a @ p # b \<and> evaluate_policy p tc = Some r
     \<and> (\<forall>q \<in> set a. evaluate_policy q tc = None)"
proof (induction ps)
  case (Cons x ps)
  show ?case
  proof (cases "evaluate_policy x tc")
    case None
    with Cons obtain a p b where "ps = a @ p # b" "evaluate_policy p tc = Some r"
      "\<forall>q \<in> set a. evaluate_policy q tc = None" by auto
    with None show ?thesis by (intro exI [of _ "x # a"] exI [of _ p] exI [of _ b]) simp
  next
    case (Some s)
    with Cons.prems show ?thesis by (intro exI [of _ "[]"] exI [of _ x] exI [of _ ps]) simp
  qed
qed simp

lemma run_bucket_None: "run_bucket ps tc = None \<longleftrightarrow> (\<forall>p \<in> set ps. evaluate_policy p tc = None)"
  by (induction ps) (auto split: option.splits)

lemma set_by_priority [simp]: "set (by_priority ps) = set ps"
  by (simp add: by_priority_def)

text \<open>The verdict comes from a firing policy that no other firing policy precedes.\<close>

lemma first_match_minimal:
  assumes "p \<in> set ps" "evaluate_policy p tc \<noteq> None"
  obtains q where "q \<in> set ps" "evaluate_policy q tc = Some (first_match (by_priority ps) tc)"
    "(policy_class q, pol_decision q) \<le> (policy_class p, pol_decision p)"
proof -
  let ?k = "\<lambda>p. (policy_class p, pol_decision p)"
  from assms obtain r where r: "run_bucket (by_priority ps) tc = Some r"
    using run_bucket_None [of "by_priority ps" tc] by force
  from run_bucket_Some [OF this] obtain a q b where q: "by_priority ps = a @ q # b"
    "evaluate_policy q tc = Some r" "\<forall>q \<in> set a. evaluate_policy q tc = None" by blast
  have "sorted (map ?k (by_priority ps))" by (simp add: by_priority_def)
  then have le: "\<forall>x \<in> set (q # b). ?k q \<le> ?k x" by (simp add: q(1) sorted_append)
  have "p \<in> set (q # b)"
  proof -
    have "p \<in> set (a @ q # b)" using assms(1) q(1) by (metis set_by_priority)
    with assms(2) q(3) show ?thesis by auto
  qed
  with le have min: "?k q \<le> ?k p" by blast
  have "q \<in> set ps" using q(1) by (metis in_set_conv_decomp set_by_priority)
  moreover have "evaluate_policy q tc = Some (first_match (by_priority ps) tc)"
    using q(2) r by (simp add: first_match_def)
  ultimately show ?thesis using min by (rule that)
qed

lemma deny_blocks: "pol_decision p = DENY \<Longrightarrow> evaluate_policy p tc = Some r \<Longrightarrow> \<not> hr_allow r"
  by (auto simp: evaluate_policy_def apply_policy_def policy_failed_def
      split: if_splits sum.splits bool.splits)

lemma evaluate_policy_fires:
  "evaluate_policy p tc \<noteq> None \<longleftrightarrow>
     matches_target (pol_tool p) (fst (call_target tc)) (snd (call_target tc))
     \<and> evaluate_predicate p tc \<noteq> Inr False"
  by (auto simp: evaluate_policy_def split: sum.splits bool.splits)

lemma DENY_least [simp]: "DENY \<le> d" "d \<le> DENY \<longleftrightarrow> d = DENY"
  by (simp add: less_eq_decision_def, cases d) (simp_all add: less_eq_decision_def)

lemma specific_deny:
  assumes "enforce items servers = Inr hook" and "flatten_policies items = Inr ps"
    and "p \<in> set ps" "pol_decision p = DENY"
    and "pol_tool p \<noteq> ''*''" "\<not> is_prefix_wildcard (pol_tool p)"
    and "pol_tool p = fst (call_target tc)" "evaluate_predicate p tc \<noteq> Inr False"
  shows "\<not> hr_allow (run_hook hook tc)"
proof -
  from assms(1) have run: "run_hook hook tc = first_match (by_priority ps) tc"
    by (rule enforceD) (simp add: assms(2))
  have "evaluate_policy p tc \<noteq> None"
    unfolding evaluate_policy_fires using assms(5-8) by (simp add: matches_target_def)
  with assms(3) obtain q where
    q: "evaluate_policy q tc = Some (first_match (by_priority ps) tc)"
      "(policy_class q, pol_decision q) \<le> (policy_class p, pol_decision p)"
    by (rule first_match_minimal)
  have "policy_class p = 0" using assms(5,6) by (simp add: policy_class_def)
  with q(2) assms(4) have "pol_decision q = DENY" by (simp add: less_eq_prod_def)
  with q(1) run show ?thesis by (metis deny_blocks)
qed

section \<open>Guarantees of an enforced policy set\<close>

text \<open>
  C3 The nine buckets are a priority order: for every accepted policy set, the hook's answer is
  that of the first policy, in the flattened list stably sorted by target class (exact name,
  server wildcard, global wildcard) and then by decision (deny, ask, approve), whose target
  matches and whose predicate holds or raises; with no such policy the call is allowed.
\<close>

theorem enforce_first_match:
  assumes "enforce items servers = Inr hook"
  shows "\<exists>ps. flatten_policies items = Inr ps \<and>
    (let sorted_ps = sort_key (\<lambda>p. (policy_class p, pol_decision p)) ps;
         fires = (\<lambda>p. matches_target (pol_tool p) (fst (call_target tc)) (snd (call_target tc))
                    \<and> evaluate_predicate p tc \<noteq> Inr False)
     in case find fires sorted_ps of
          None \<Rightarrow> run_hook hook tc = \<lparr>hr_allow = True, hr_message = []\<rparr>
        | Some p \<Rightarrow> evaluate_policy p tc = Some (run_hook hook tc))"
proof -
  have find: "case find (\<lambda>p. evaluate_policy p tc \<noteq> None) qs of
      None \<Rightarrow> first_match qs tc = \<lparr>hr_allow = True, hr_message = []\<rparr>
    | Some p \<Rightarrow> evaluate_policy p tc = Some (first_match qs tc)" for qs
    by (induction qs) (auto simp: first_match_def split: option.splits)
  from assms obtain ps where "flatten_policies items = Inr ps"
    "run_hook hook tc = first_match (by_priority ps) tc" by (rule enforceD)
  with find [of "by_priority ps"] show ?thesis
    by (simp only: evaluate_policy_fires by_priority_def Let_def) blast
qed

text \<open>
  C1 A specific deny cannot be overridden and fails closed: if the set holds a deny policy for an
  exact tool name that matches the call, and its predicate holds or raises, then the call is
  blocked, whatever other policies, approval handlers and order the set has.
\<close>

theorem specific_deny_wins:
  assumes "enforce items servers = Inr hook" and "flatten_policies items = Inr ps"
    and "p \<in> set ps" "pol_decision p = DENY"
    and "pol_tool p \<noteq> ''*''" "\<not> is_prefix_wildcard (pol_tool p)"
    and "pol_tool p = fst (call_target tc)" "evaluate_predicate p tc \<noteq> Inr False"
  shows "\<not> hr_allow (run_hook hook tc)"
  by (rule specific_deny [OF assms])

text \<open>
  C29 Deny by default: \<open>deny_all\<close> with exact \<open>allow\<close> rules permits exactly the listed tools among the
  calls that go to no server.
\<close>

theorem deny_all_allow_list:
  fixes tc :: "'v tool_call"
  assumes "enforce (One deny_all # map (\<lambda>t. One (rule APPROVE None t None [])) ts) servers = Inr hook"
    and "\<forall>t \<in> set ts. t \<noteq> ''*'' \<and> \<not> is_prefix_wildcard t" and "tc_server tc = None"
  shows "hr_allow (run_hook hook tc) \<longleftrightarrow> tc_name tc \<in> set ts"
proof -
  let ?a = "\<lambda>t. rule APPROVE None t None [] :: 'v policy" let ?ps = "deny_all # map ?a ts"
  have flat: "flatten_policies (map (\<lambda>t. One (?a t)) ts) = Inr (map ?a ts)" for ts
    by (induction ts) simp_all
  from assms(1) have run: "run_hook hook tc = first_match (by_priority ?ps) tc"
    by (rule enforceD) (simp add: flat)
  have tgt: "call_target tc = (tc_name tc, False)" using assms(3) by (simp add: call_target_def)
  have deny: "evaluate_policy deny_all tc = Some \<lparr>hr_allow = False,
      hr_message = ''Denied by policy '' @ quoted ''deny_all'' @ ''.''\<rparr>"
    by (simp add: evaluate_policy_def deny_all_def matches_target_def evaluate_predicate_def
        apply_policy_def label_def py_or_def)
  have appr: "evaluate_policy (?a t) tc = (if t = ''*'' \<or> t = tc_name tc then
      Some \<lparr>hr_allow = True, hr_message = []\<rparr> else None)" for t
    by (simp add: evaluate_policy_def tgt matches_target_def evaluate_predicate_def
        apply_policy_def)
  show ?thesis
  proof
    assume "tc_name tc \<in> set ts"
    then have in_ps: "?a (tc_name tc) \<in> set ?ps" by simp
    have "evaluate_policy (?a (tc_name tc)) tc \<noteq> None" by (simp add: appr)
    from in_ps this obtain q where q: "q \<in> set ?ps"
      "evaluate_policy q tc = Some (first_match (by_priority ?ps) tc)"
      "(policy_class q, pol_decision q)
        \<le> (policy_class (?a (tc_name tc)), pol_decision (?a (tc_name tc)))"
      by (rule first_match_minimal)
    have "policy_class (?a (tc_name tc)) = 0"
      using assms(2) \<open>tc_name tc \<in> set ts\<close> by (simp add: policy_class_def)
    with q(3) have "q \<noteq> deny_all" by (auto simp: deny_all_def policy_class_def less_eq_prod_def)
    with q(1) obtain t where "q = ?a t" by auto
    with q(2) have "first_match (by_priority ?ps) tc = \<lparr>hr_allow = True, hr_message = []\<rparr>"
      by (metis appr option.discI option.inject)
    then show "hr_allow (run_hook hook tc)" by (simp add: run)
  next
    assume allow: "hr_allow (run_hook hook tc)"
    have "deny_all \<in> set ?ps" "evaluate_policy deny_all tc \<noteq> None" by (simp_all add: deny)
    then obtain q where q: "q \<in> set ?ps"
      "evaluate_policy q tc = Some (first_match (by_priority ?ps) tc)"
      by (rule first_match_minimal)
    with allow run deny have "q \<noteq> deny_all" by auto
    with q(1) obtain t where "t \<in> set ts" "q = ?a t" by auto
    with q(2) assms(2) show "tc_name tc \<in> set ts" by (auto simp: appr split: if_splits)
  qed
qed

text \<open>The default policy of the local agent.\<close>

lemma flatten_pols [simp]: "flatten_elems (map Pol ps) = Inr ps"
  by (induction ps) simp_all

text \<open>
  C26 The default policy set: without a handler exactly the built-in \<open>run_command\<close> is blocked; with
  one, \<open>run_command\<close> runs iff the handler returns true (an exception blocks it) and every other
  call is allowed without asking.
\<close>

theorem confirm_run_command_default:
  assumes "enforce [Many (map Pol (confirm_run_command h))] [] = Inr hook"
  shows "hr_allow (run_hook hook tc) \<longleftrightarrow>
    fst (call_target tc) \<noteq> tool_value RUN_COMMAND \<or> (\<exists>f. h = Some f \<and> f tc = Inr True)"
proof -
  let ?ps = "confirm_run_command h"
  from assms have run: "run_hook hook tc = first_match (by_priority ?ps) tc"
    by (rule enforceD) simp
  have "by_priority ?ps = ?ps"
    unfolding by_priority_def
    by (rule sort_key_id_if_sorted)
      (simp add: confirm_run_command_def policy_class_def is_prefix_wildcard_def py_endswith_def
        split: option.split)
  moreover have "matches_target (tool_value RUN_COMMAND) t m \<longleftrightarrow> tool_value RUN_COMMAND = t" for t m
    by (simp add: matches_target_def is_prefix_wildcard_def py_endswith_def)
  moreover have "matches_target ''*'' t m" for t m by (simp add: matches_target_def)
  ultimately show ?thesis
    unfolding run
    by (cases h; cases "fst (call_target tc) = tool_value RUN_COMMAND")
      (auto simp: confirm_run_command_def first_match_def evaluate_policy_def
        evaluate_predicate_def apply_policy_def execute_ask_user_def policy_failed_def
        split: sum.split simp del: tool_value.simps)
qed

text \<open>
  C5 \<open>workspace_only\<close> confines the file tools: in any accepted policy set that contains its
  policies, a file tool call with a path is only allowed when the canonical path lies, part by
  part (case folded where the file system ignores case), under some configured workspace; a path
  that cannot be resolved is blocked.
\<close>

theorem workspace_only_confines:
  fixes tc :: "'v tool_call"
  assumes "enforce items servers = Inr hook" and "flatten_policies items = Inr ps"
    and "set (workspace_only fs wss) \<subseteq> set ps"
    and "fst (call_target tc) \<in> tool_value ` set file_tools" and "tc_path tc = Some p" "p \<noteq> []"
    and "hr_allow (run_hook hook tc)"
  shows "\<exists>ws \<in> set wss. \<exists>t w. fs_resolve fs p = Some t \<and> fs_resolve fs ws = Some w
     \<and> (let f = (if is_case_insensitive fs w then py_lower else id) in prefix (map f w) (map f t))"
proof -
  from assms(4) obtain b where b: "b \<in> set file_tools" "fst (call_target tc) = tool_value b"
    by blast
  define q :: "'v policy" where "q = rule DENY None (tool_value b)
    (Some (PToolCall (\<lambda>tc. Inr (outside_workspace fs wss tc)))) ''workspace_only''"
  have "q \<in> set ps" using assms(3) b(1) by (auto simp: workspace_only_def q_def)
  moreover have "pol_tool q \<noteq> ''*''" "\<not> is_prefix_wildcard (pol_tool q)"
    using b(1) by (auto simp: q_def file_tools_def is_prefix_wildcard_def py_endswith_def)
  ultimately have "evaluate_predicate q tc = Inr False"
    using specific_deny [OF assms(1,2), of q tc] b(2) assms(7) by (auto simp: q_def)
  then have "list_ex (is_path_in_workspace fs p) wss"
    using assms(5,6) by (simp add: q_def evaluate_predicate_def outside_workspace_def)
  then obtain ws where "ws \<in> set wss" "is_path_in_workspace fs p ws" by (auto simp: list_ex_iff)
  then show ?thesis
    unfolding is_path_in_workspace_iff by blast
qed

text \<open>Server policies: the name before the slash is compared, so names hold no slash.\<close>

lemma takeWhile_server: "CHR ''/'' \<notin> set s \<Longrightarrow> takeWhile (\<lambda>c. c \<noteq> CHR ''/'') (s @ CHR ''/'' # t) = s"
  by (induction s) auto

lemma server_target_eq:
  "CHR ''/'' \<notin> set s \<Longrightarrow> CHR ''/'' \<notin> set s' \<Longrightarrow> s @ CHR ''/'' # t = s' @ CHR ''/'' # t' \<longleftrightarrow> s = s' \<and> t = t'"
  by (metis append_same_eq list.inject same_append_eq takeWhile_server)

text \<open>
  Server policies have exactly their server's scope: the policy built for a whole server
  matches a call iff the call goes to that server, and the policies built for a list of its tools
  match iff the call goes to that server and names a listed tool (server names have no slash, as
  the configuration type enforces; tool names are not wildcards).
\<close>

theorem mcp_policy_scope:
  assumes "CHR ''/'' \<notin> set server" "server \<noteq> []" and "tc_server tc = Some s" "CHR ''/'' \<notin> set s" "s \<noteq> []"
    and "mcp_policies d server tools w nm h = Inr ps"
    and "\<forall>ts t. tools = ToolSeq ts \<and> t \<in> set ts \<longrightarrow> t \<noteq> ''*'' \<and> \<not> is_prefix_wildcard t"
  shows "(\<exists>p \<in> set ps. matches_target (pol_tool p) (fst (call_target tc)) (snd (call_target tc)))
    \<longleftrightarrow> s = server \<and> (tools = NoTools \<or> (\<exists>ts. tools = ToolSeq ts \<and> tc_name tc \<in> set ts))"
proof -
  have tgt: "call_target tc = (s @ ''/'' @ tc_name tc, True)"
    using assms(3,5) by (simp add: call_target_def)
  have star: "server @ ''/'' @ t \<noteq> ''*''" for t using assms(2) by (cases server) auto
  have m: "matches_target (server @ ''/'' @ t) (s @ ''/'' @ tc_name tc) True
      \<longleftrightarrow> s = server \<and> tc_name tc = t" if "t \<noteq> ''*''" "\<not> is_prefix_wildcard t" for t
  proof -
    have "\<not> is_prefix_wildcard (server @ ''/'' @ t)"
    proof
      assume "is_prefix_wildcard (server @ ''/'' @ t)"
      then have suf: "suffix ''/*'' ((server @ ''/'') @ t)"
        by (simp add: is_prefix_wildcard_def py_endswith_iff_suffix)
      then have "suffix ''/*'' t \<or> suffix t ''/*''"
        using suffix_same_cases by (metis suffixI)
      with that have "suffix t ''/*''" "t \<noteq> ''/*''"
        by (auto simp: is_prefix_wildcard_def py_endswith_iff_suffix)
      with that(1) have "t = []" by (auto simp: suffix_Cons)
      with suf show False by (auto simp: suffix_def)
    qed
    with star [of t] server_target_eq [OF assms(1,4)] show ?thesis
      by (auto simp: matches_target_def)
  qed
  have w: "matches_target (server @ ''/*'') (s @ ''/'' @ tc_name tc) True \<longleftrightarrow> s = server"
    using star [of "''*''"] takeWhile_server [OF assms(4)]
    by (auto simp: matches_target_def is_prefix_wildcard_def py_endswith_iff_suffix suffix_def
        py_drop_last_def)
  show ?thesis
  proof (cases tools)
    case NoTools
    with assms(6) show ?thesis using w by (auto simp: mcp_policies_def tgt)
  next
    case (ToolSeq ts)
    with assms(6,7) m show ?thesis by (fastforce simp: mcp_policies_def tgt)
  next
    case (OneString t)
    with assms(6) show ?thesis by (simp add: mcp_policies_def)
  qed
qed

text \<open>
  C33 \<open>enforce\<close> rejects exactly the bad sets: nested items that are not policies, a policy with a
  slash in its target when no server is given, or an ask policy without a handler; every other
  set yields a hook.
\<close>

theorem enforce_rejects:
  "(\<exists>e. enforce items servers = Inl e) \<longleftrightarrow>
     (\<exists>t. Other t \<in> set items) \<or> (\<exists>es t. Many es \<in> set items \<and> NotPol t \<in> set es) \<or>
     (\<exists>ps. flatten_policies items = Inr ps \<and>
        ((servers = [] \<and> (\<exists>p \<in> set ps. CHR ''/'' \<in> set (pol_tool p)))
          \<or> (\<exists>p \<in> set ps. pol_decision p = ASK_USER \<and> pol_ask p = None)))"
proof -
  have es: "(\<exists>e. flatten_elems es = Inl e) \<longleftrightarrow> (\<exists>t. NotPol t \<in> set es)" for es :: "'a elem list"
  proof (induction es)
    case (Cons x xs)
    then show ?case by (cases x; cases "flatten_elems xs") auto
  qed simp
  have flat: "(\<exists>e. flatten_policies items = Inl e) \<longleftrightarrow>
     (\<exists>t. Other t \<in> set items) \<or> (\<exists>es t. Many es \<in> set items \<and> NotPol t \<in> set es)"
  proof (induction items)
    case (Cons x xs)
    show ?case
    proof (cases x)
      case (Many ys)
      with Cons es [of ys] show ?thesis by (cases "flatten_elems ys"; cases "flatten_policies xs") auto
    qed (use Cons in \<open>cases "flatten_policies xs"; auto\<close>)+
  qed simp
  have slash: "CHR ''/'' \<in> set t \<and> t \<noteq> ''*'' \<longleftrightarrow> CHR ''/'' \<in> set t" for t by auto
  show ?thesis
  proof (cases "flatten_policies items")
    case (Inl e)
    with flat show ?thesis by (auto simp: enforce_def)
  next
    case (Inr ps)
    moreover from this have "\<not> (\<exists>e. flatten_policies items = Inl e)" by simp
    ultimately show ?thesis unfolding flat
      by (auto simp: enforce_def list_ex_iff slash find_None_iff find_Some_iff split: option.split)
  qed
qed

section \<open>Concrete instances\<close>

definition ex_call :: "string \<Rightarrow> string option \<Rightarrow> string option \<Rightarrow> nat tool_call" where
  "ex_call t server path = \<lparr>tc_name = t, tc_args = Map.empty, tc_id = None, tc_path = path,
     tc_server = server\<rparr>"

definition ex_rules :: "nat policy list" where
  "ex_rules = [rule APPROVE None ''*'' None [], rule DENY None ''rm'' (Some (PNullary (Inl ''boom''))) ''x'']"

definition ex_hook :: "nat policy list list" where
  "ex_hook = foldl place (replicate num_levels []) ex_rules"

lemma enforce_flat:
  "\<forall>p \<in> set ps. CHR ''/'' \<notin> set (pol_tool p) \<and> (pol_decision p = ASK_USER \<longrightarrow> pol_ask p \<noteq> None) \<Longrightarrow>
     enforce [Many (map Pol ps)] servers = Inr (foldl place (replicate num_levels []) ps)"
  by (auto simp: enforce_def list_ex_iff find_None_iff split: option.split)

lemma ex_enforce: "enforce [Many (map Pol ex_rules)] [] = Inr ex_hook"
  unfolding ex_hook_def by (rule enforce_flat) (simp add: ex_rules_def)

lemma ex_rm: "call_target (ex_call ''rm'' None None) = (''rm'', False)"
  by (simp add: call_target_def ex_call_def)

lemma enforce_first_match_witness:
  "run_hook ex_hook (ex_call ''rm'' None None)
     = policy_failed (rule DENY None ''rm'' (Some (PNullary (Inl ''boom''))) ''x'' :: nat policy) ''boom''"
proof -
  let ?tc = "ex_call ''rm'' None None"
  let ?d = "rule DENY None ''rm'' (Some (PNullary (Inl ''boom''))) ''x'' :: nat policy"
  have order: "sort_key (\<lambda>p. (policy_class p, pol_decision p)) ex_rules = ?d # [rule APPROVE None ''*'' None []]"
    by (simp add: ex_rules_def policy_class_def is_prefix_wildcard_def py_endswith_def)
  have fires: "matches_target (pol_tool ?d) (fst (call_target ?tc)) (snd (call_target ?tc))
      \<and> evaluate_predicate ?d ?tc \<noteq> Inr False"
    by (simp add: ex_rm matches_target_def evaluate_predicate_def)
  have "evaluate_policy ?d ?tc = Some (run_hook ex_hook ?tc)"
    using enforce_first_match [OF ex_enforce, of ?tc] fires
    by (simp only: Let_def flatten_policies.simps flatten_pols) (simp add: order)
  then have "policy_failed ?d ''boom'' = run_hook ex_hook ?tc"
    by (simp add: evaluate_policy_def ex_rm matches_target_def evaluate_predicate_def)
  then show ?thesis by (rule sym)
qed

lemma specific_deny_wins_witness: "\<not> hr_allow (run_hook ex_hook (ex_call ''rm'' None None))"
  by (rule specific_deny_wins [OF ex_enforce, of ex_rules
        "rule DENY None ''rm'' (Some (PNullary (Inl ''boom''))) ''x''"])
    (simp_all add: ex_rules_def ex_rm is_prefix_wildcard_def py_endswith_def evaluate_predicate_def)

definition ex_allow_items :: "nat item list" where
  "ex_allow_items = One deny_all # map (\<lambda>t. One (rule APPROVE None t None [])) [''ls'', ''cat'']"

definition ex_allow_hook :: "nat policy list list" where
  "ex_allow_hook = foldl place (replicate num_levels [])
     (deny_all # map (\<lambda>t. rule APPROVE None t None []) [''ls'', ''cat''])"

lemma ex_allow: "enforce ex_allow_items [] = Inr ex_allow_hook"
  by (simp add: enforce_def ex_allow_items_def ex_allow_hook_def deny_all_def)

lemma deny_all_allow_list_witness:
  "hr_allow (run_hook ex_allow_hook (ex_call ''ls'' None None)) \<and>
   \<not> hr_allow (run_hook ex_allow_hook (ex_call ''rm'' None None))"
  using deny_all_allow_list [OF ex_allow [unfolded ex_allow_items_def], of "ex_call ''ls'' None None"]
    deny_all_allow_list [OF ex_allow [unfolded ex_allow_items_def], of "ex_call ''rm'' None None"]
  by (simp add: ex_call_def is_prefix_wildcard_def py_endswith_def)

lemma confirm_run_command_default_witness:
  "\<not> hr_allow (run_hook (foldl place (replicate num_levels []) (confirm_run_command None))
     (ex_call ''run_command'' None None))"
proof -
  have e: "enforce [Many (map Pol (confirm_run_command None :: nat policy list))] []
      = Inr (foldl place (replicate num_levels []) (confirm_run_command None))"
    by (rule enforce_flat) (simp add: confirm_run_command_def)
  show ?thesis
    using confirm_run_command_default [OF e, of "ex_call ''run_command'' None None"]
    by (simp add: call_target_def ex_call_def)
qed

text \<open>A file system without links: a path resolves to the root and its components.\<close>

definition ex_fs :: file_system where
  "ex_fs = \<lparr>fs_resolve = (\<lambda>p. Some (''/'' # filter (\<lambda>c. c \<noteq> []) (py_split CHR ''/'' p))),
     fs_exists = (\<lambda>p. Some False), fs_samefile = (\<lambda>p q. Some False), fs_platform_ci = False\<rparr>"

lemma workspace_only_confines_witness:
  "prefix [''/'', ''w''] [''/'', ''w'', ''f'']"
proof -
  let ?ps = "workspace_only ex_fs [''/w''] :: nat policy list"
  let ?hook = "foldl place (replicate num_levels []) ?ps"
  let ?tc = "ex_call ''view_file'' None (Some ''/w/f'')"
  have e: "enforce [Many (map Pol ?ps)] [] = Inr ?hook"
    by (rule enforce_flat) (auto simp: workspace_only_def file_tools_def)
  have tgt: "call_target ?tc = (''view_file'', False)" by (simp add: call_target_def ex_call_def)
  have res: "fs_resolve ex_fs ''/w/f'' = Some [''/'', ''w'', ''f'']"
    "fs_resolve ex_fs ''/w'' = Some [''/'', ''w'']"
    by (simp_all add: ex_fs_def py_split_def)
  have ci: "\<not> is_case_insensitive ex_fs [''/'', ''w'']"
    by (subst is_case_insensitive.simps) (simp add: ex_fs_def)
  have in_ws: "\<not> outside_workspace ex_fs [''/w''] ?tc"
    by (simp add: outside_workspace_def ex_call_def is_path_in_workspace_iff res ci)
  have none: "evaluate_policy p ?tc = None" if "p \<in> set ?ps" for p
    using that in_ws evaluate_policy_fires [of p ?tc]
    by (auto simp: workspace_only_def evaluate_predicate_def)
  have "hr_allow (run_hook ?hook ?tc)"
    using none run_bucket_None [of "by_priority ?ps" ?tc]
    by (simp add: run_hook_concat concat_place first_match_def)
  from workspace_only_confines [OF e _ subset_refl _ _ _ this, where p = "''/w/f''"] show ?thesis
    by (simp add: tgt file_tools_def ex_call_def res ci)
qed

lemma mcp_policy_scope_witness:
  "matches_target ''gh/*'' ''gh/push'' True"
proof -
  have "mcp_policies DENY ''gh'' NoTools (None :: nat predicate option) [] None
      = Inr [rule DENY None ''gh/*'' None ''deny_gh_all'']"
    by (simp add: mcp_policies_def py_or_def rule_def)
  from mcp_policy_scope [OF _ _ _ _ _ this, of "ex_call ''push'' (Some ''gh'') None" "''gh''"]
  show ?thesis by (simp add: ex_call_def call_target_def)
qed

end
