(* ===== verification/FM_State_Store.thy ===== *)
theory FM_State_Store
  imports FM_Interfaces "HOL-Library.Monad_Syntax"
begin

text \<open>
  The hierarchical state store of the agent, \<open>core/cortex/cortexagi/utils/state.py\<close>, with the
  session, turn and operation contexts of \<open>hooks/hooks.py\<close>. A store is an object with a parent
  reference, so the model keeps an object heap: the address of a store is its index, and a new
  object is appended. \<open>get_state\<close> follows parent references and may not return on a cyclic heap
  (\<open>None\<close>); on every heap the constructors can build, it is shown to return.
\<close>

record 'v store =
  st_parent :: "nat option"
  st_items :: "string \<rightharpoonup> 'v"

type_synonym 'v heap = "'v store list"

section \<open>Operations\<close>

definition new_store :: "nat option \<Rightarrow> 'v heap \<Rightarrow> 'v heap \<times> nat" where
  "new_store parent h = (h @ [\<lparr>st_parent = parent, st_items = Map.empty\<rparr>], length h)"

partial_function (option) get_state :: "'v heap \<Rightarrow> nat \<Rightarrow> string \<Rightarrow> 'v \<Rightarrow> 'v option" where
  [code]: "get_state h a key dflt =
     (case st_items (h ! a) key of
        Some v \<Rightarrow> Some v
      | None \<Rightarrow> (case st_parent (h ! a) of
                  Some p \<Rightarrow> get_state h p key dflt
                | None \<Rightarrow> Some dflt))"

definition set_state :: "nat \<Rightarrow> string \<Rightarrow> 'v \<Rightarrow> 'v heap \<Rightarrow> 'v heap" where
  "set_state a key v h = h[a := (h ! a)\<lparr>st_items := (st_items (h ! a))(key \<mapsto> v)\<rparr>]"

text \<open>\<open>updater_fn\<close> may raise; then nothing is stored.\<close>

definition update_state :: "nat \<Rightarrow> string \<Rightarrow> ('v \<Rightarrow> string + 'v) \<Rightarrow> 'v \<Rightarrow> 'v heap \<Rightarrow>
    ((string + 'v) \<times> 'v heap) option" where
  "update_state a key f dflt h =
     do { v \<leftarrow> get_state h a key dflt;
          case f v of
            Inl e \<Rightarrow> Some (Inl e, h)
          | Inr w \<Rightarrow> Some (Inr w, set_state a key w h) }"

definition session_context :: "'v heap \<Rightarrow> 'v heap \<times> nat" where
  "session_context = new_store None"

definition turn_context :: "nat \<Rightarrow> 'v heap \<Rightarrow> 'v heap \<times> nat" where
  "turn_context session = new_store (Some session)"

definition operation_context :: "nat \<Rightarrow> 'v heap \<Rightarrow> 'v heap \<times> nat" where
  "operation_context turn = new_store (Some turn)"

section \<open>Well-formed heaps\<close>

text \<open>Every parent was allocated before its child.\<close>

definition heap_ok :: "'v heap \<Rightarrow> bool" where
  "heap_ok h \<longleftrightarrow> (\<forall>a < length h. \<forall>p. st_parent (h ! a) = Some p \<longrightarrow> p < a)"

lemma heap_ok_Nil [simp]: "heap_ok []"
  by (simp add: heap_ok_def)

lemma heap_ok_parent: "heap_ok h \<Longrightarrow> a < length h \<Longrightarrow> st_parent (h ! a) = Some p \<Longrightarrow> p < a"
  by (simp add: heap_ok_def)

lemma heap_ok_new:
  "heap_ok h \<Longrightarrow> (\<And>p. parent = Some p \<Longrightarrow> p < length h) \<Longrightarrow> heap_ok (fst (new_store parent h))"
  by (auto simp: heap_ok_def new_store_def nth_append less_Suc_eq)

lemma heap_ok_set [simp]: "a < length h \<Longrightarrow> heap_ok (set_state a key v h) \<longleftrightarrow> heap_ok h"
  by (auto simp: heap_ok_def set_state_def nth_list_update split: if_splits)

lemma length_set_state [simp]: "length (set_state a key v h) = length h"
  by (simp add: set_state_def)

lemma parent_set_state [simp]:
  "b < length h \<Longrightarrow> st_parent (set_state a key v h ! b) = st_parent (h ! b)"
  by (cases "a = b") (simp_all add: set_state_def)

lemma items_set_state:
  "a < length h \<Longrightarrow> b < length h \<Longrightarrow> st_items (set_state a key v h ! b)
     = (if b = a then (st_items (h ! a))(key \<mapsto> v) else st_items (h ! b))"
  by (simp add: set_state_def nth_list_update)

section \<open>The chain of scopes\<close>

text \<open>A store and its ancestors, nearest first, and the reference lookup along them.\<close>

inductive scope_chain :: "'v heap \<Rightarrow> nat \<Rightarrow> nat list \<Rightarrow> bool" for h where
  root: "st_parent (h ! a) = None \<Longrightarrow> scope_chain h a [a]"
| up: "st_parent (h ! a) = Some p \<Longrightarrow> scope_chain h p as \<Longrightarrow> scope_chain h a (a # as)"

inductive_cases scope_chainE: "scope_chain h a as"

lemma scope_chain_unique: "scope_chain h a as \<Longrightarrow> scope_chain h a bs \<Longrightarrow> bs = as"
proof (induction arbitrary: bs rule: scope_chain.induct)
  case (root a)
  from root.prems show ?case by (cases rule: scope_chainE) (use root.hyps in \<open>auto\<close>)
next
  case (up a p as)
  from up.prems have "\<exists>cs. bs = a # cs \<and> scope_chain h p cs"
    by (cases rule: scope_chainE) (use up.hyps(1) in \<open>auto\<close>)
  with up.IH show ?case by blast
qed

fun first_of :: "(string \<rightharpoonup> 'v) list \<Rightarrow> string \<Rightarrow> 'v \<Rightarrow> 'v" where
  "first_of [] key dflt = dflt"
| "first_of (m # ms) key dflt = (case m key of Some v \<Rightarrow> v | None \<Rightarrow> first_of ms key dflt)"

lemma scope_chain_exists: "heap_ok h \<Longrightarrow> a < length h \<Longrightarrow> \<exists>as. scope_chain h a as"
proof (induction a rule: less_induct)
  case (less a)
  show ?case
  proof (cases "st_parent (h ! a)")
    case None
    then show ?thesis by (blast intro: scope_chain.root)
  next
    case (Some p)
    with less.prems have "p < a" by (rule heap_ok_parent)
    with less.IH [of p] less.prems Some show ?thesis
      by (meson less_trans scope_chain.up)
  qed
qed

lemma scope_chain_bound: "scope_chain h a as \<Longrightarrow> heap_ok h \<Longrightarrow> a < length h \<Longrightarrow>
    set as \<subseteq> {..a} \<and> a \<in> set as"
proof (induction rule: scope_chain.induct)
  case (up a p as)
  then have "p < a" by (blast dest: heap_ok_parent)
  with up show ?case by force
qed simp

lemma get_state_chain:
  "scope_chain h a as \<Longrightarrow> get_state h a key dflt = Some (first_of (map (\<lambda>a. st_items (h ! a)) as) key dflt)"
proof (induction rule: scope_chain.induct)
  case (root a)
  then show ?case by (subst get_state.simps) (simp split: option.split)
next
  case (up a p as)
  then show ?case by (subst get_state.simps) (simp split: option.split)
qed

text \<open>Walking the parents gives back the value of the nearest store that has the key.\<close>

lemma get_state_own: "st_items (h ! a) key = Some v \<Longrightarrow> get_state h a key dflt = Some v"
  by (subst get_state.simps) simp

lemma chain_after_set:
  "scope_chain h a as \<Longrightarrow> heap_ok h \<Longrightarrow> a < length h \<Longrightarrow> scope_chain (set_state b key v h) a as"
proof (induction rule: scope_chain.induct)
  case (root a)
  then show ?case by (intro scope_chain.root) simp
next
  case (up a p as)
  then have "p < a" by (blast dest: heap_ok_parent)
  with up show ?case by (intro scope_chain.up) simp_all
qed

lemma get_state_set_outside:
  assumes "heap_ok h" "a < length h" "b < length h" "scope_chain h a as" "b \<notin> set as"
  shows "get_state (set_state b key v h) a k dflt = get_state h a k dflt"
proof -
  have eq: "map (\<lambda>a. st_items (set_state b key v h ! a)) as = map (\<lambda>a. st_items (h ! a)) as"
    using assms scope_chain_bound [OF assms(4,1,2)]
    by (auto simp: items_set_state dest!: subsetD)
  show ?thesis
    by (simp only: get_state_chain [OF assms(4)] eq
        get_state_chain [OF chain_after_set [OF assms(4,1,2)]])
qed

section \<open>What the store guarantees\<close>

text \<open>
  C21 Lookup returns on every heap the constructors build, and gives the value of the nearest
  store in the chain store, parent, grandparent that holds the key, or the default when none
  does.
\<close>

theorem get_state_nearest:
  assumes "heap_ok h" and "a < length h"
  shows "\<exists>as. scope_chain h a as \<and> get_state h a key dflt =
    Some (case find (\<lambda>b. st_items (h ! b) key \<noteq> None) as of
            None \<Rightarrow> dflt | Some b \<Rightarrow> the (st_items (h ! b) key))"
proof -
  obtain as where "scope_chain h a as" using scope_chain_exists [OF assms] by blast
  moreover have "first_of (map (\<lambda>a. st_items (h ! a)) as) key dflt
      = (case find (\<lambda>b. st_items (h ! b) key \<noteq> None) as of
           None \<Rightarrow> dflt | Some b \<Rightarrow> the (st_items (h ! b) key))"
    by (induction as) (auto split: option.split)
  ultimately show ?thesis using get_state_chain by metis
qed

text \<open>
  C35 Scoped update: \<open>update_state\<close> in a store returns on a well-formed heap, computes from the
  value visible there, stores only locally, and is invisible from every store that is not the
  store itself or one of its descendants; in particular parents keep their values, and a raising
  updater changes nothing.
\<close>

theorem update_state_local:
  assumes "heap_ok h" and "a < length h" and "get_state h a key dflt = Some v"
  shows "case f v of
      Inl e \<Rightarrow> update_state a key f dflt h = Some (Inl e, h)
    | Inr w \<Rightarrow> \<exists>h'. update_state a key f dflt h = Some (Inr w, h') \<and> heap_ok h'
        \<and> get_state h' a key d = Some w
        \<and> (\<forall>b < length h. \<forall>k d. (\<exists>as. scope_chain h b as \<and> a \<notin> set as) \<longrightarrow>
             get_state h' b k d = get_state h b k d)"
proof (cases "f v")
  case (Inl e)
  with assms(3) show ?thesis by (simp add: update_state_def)
next
  case (Inr w)
  let ?h = "set_state a key w h"
  have "update_state a key f dflt h = Some (Inr w, ?h)"
    using assms(3) Inr by (simp add: update_state_def)
  moreover have "get_state ?h a key d = Some w"
    using assms(2) by (intro get_state_own) (simp add: items_set_state)
  moreover have "\<forall>b < length h. \<forall>k d. (\<exists>as. scope_chain h b as \<and> a \<notin> set as) \<longrightarrow>
      get_state ?h b k d = get_state h b k d"
    using get_state_set_outside [OF assms(1) _ assms(2)] by blast
  ultimately show ?thesis using assms(1,2) Inr by simp
qed

section \<open>Concrete instances\<close>

text \<open>A session holding a key, and a turn below it.\<close>

definition ex_heap :: "nat heap" where
  "ex_heap = set_state 0 ''k'' 7 (fst (turn_context 0 (fst (session_context []))))"

lemma ex_heap: "ex_heap = [\<lparr>st_parent = None, st_items = [''k'' \<mapsto> 7]\<rparr>,
    \<lparr>st_parent = Some 0, st_items = Map.empty\<rparr>]"
  by (simp add: ex_heap_def set_state_def turn_context_def session_context_def new_store_def)

lemma ex_heap_ok: "heap_ok ex_heap" "length ex_heap = 2"
  by (simp_all add: ex_heap heap_ok_def less_Suc_eq numeral_2_eq_2)

lemma ex_chain: "scope_chain ex_heap 0 [0]" "scope_chain ex_heap 1 [1, 0]"
  by (auto intro!: scope_chain.intros simp: ex_heap)

lemma get_state_nearest_witness: "get_state ex_heap 1 ''k'' 0 = Some 7"
proof -
  from get_state_nearest [OF ex_heap_ok(1), of 1 "''k''" 0] obtain as where
    "scope_chain ex_heap 1 as" and g: "get_state ex_heap 1 ''k'' 0 = Some
       (case find (\<lambda>b. st_items (ex_heap ! b) ''k'' \<noteq> None) as of
          None \<Rightarrow> 0 | Some b \<Rightarrow> the (st_items (ex_heap ! b) ''k''))"
    by (auto simp: ex_heap_ok)
  then have "as = [1, 0]" using scope_chain_unique ex_chain(2) by blast
  with g show ?thesis by (simp add: ex_heap)
qed

lemma update_state_local_witness:
  "\<exists>h'. update_state 1 ''k'' (\<lambda>v. Inr (v + 1)) 0 ex_heap = Some (Inr 8, h')
     \<and> get_state h' 1 ''k'' 0 = Some 8 \<and> get_state h' 0 ''k'' 0 = Some 7"
proof -
  have g: "get_state ex_heap 1 ''k'' 0 = Some 7" "get_state ex_heap 0 ''k'' 0 = Some 7"
    using get_state_chain [OF ex_chain(2)] get_state_chain [OF ex_chain(1)] by (simp_all add: ex_heap)
  from update_state_local [OF ex_heap_ok(1) _ g(1), of "\<lambda>v. Inr (v + 1)" 0] obtain h' where
    h: "update_state 1 ''k'' (\<lambda>v. Inr (v + 1)) 0 ex_heap = Some (Inr 8, h')"
      "get_state h' 1 ''k'' 0 = Some 8"
      "\<forall>b < length ex_heap. \<forall>k d. (\<exists>as. scope_chain ex_heap b as \<and> 1 \<notin> set as) \<longrightarrow>
         get_state h' b k d = get_state ex_heap b k d"
    by (auto simp: ex_heap_ok)
  have "\<exists>as. scope_chain ex_heap 0 as \<and> 1 \<notin> set as" using ex_chain(1) by fastforce
  with h(3) g(2) have "get_state h' 0 ''k'' 0 = Some 7" by (simp add: ex_heap_ok)
  with h show ?thesis by blast
qed

end
