(* ===== verification/FM_Hook_Runner.thy ===== *)
theory FM_Hook_Runner
  imports FM_Tool_Policy FM_State_Store
begin

text \<open>
  Registration and dispatch of the agent's hooks, \<open>core/cortex/cortexagi/hooks/hook_runner.py\<close>. A
  hook reads its context (an address of the store heap) and its data, may change the heap, and
  returns a value or raises; the exception is its text. The contexts of a turn and of an
  operation are allocated as the code allocates them.

  The lemmas show that a dispatch of decision hooks allows only what every hook allows, also in
  the presence of raising hooks, and what the policy hook adds to that.
\<close>

section \<open>Hooks\<close>

type_synonym ('d, 'r, 'v) hook = "nat \<Rightarrow> 'd \<Rightarrow> 'v heap \<Rightarrow> (string + 'r) \<times> 'v heap"

text \<open>A prompt is a text or a list of parts; None and empty contents are falsy.\<close>

datatype 'v content = CText string | CParts "'v list"

fun content_or_empty :: "'v content option \<Rightarrow> 'v content" where
  "content_or_empty None = CText []"
| "content_or_empty (Some (CText s)) = CText s"
| "content_or_empty (Some (CParts ps)) = (if ps = [] then CText [] else CParts ps)"

record 'v hook_runner =
  on_session_start :: "(unit, unit, 'v) hook list"
  on_session_end :: "(unit, unit, 'v) hook list"
  pre_turn :: "('v content, hook_result, 'v) hook list"
  post_turn :: "(string, unit, 'v) hook list"
  pre_tool_call_decide :: "('v tool_call, hook_result, 'v) hook list"
  post_tool_call :: "('v, unit, 'v) hook list"
  on_tool_error :: "(string, 'v option, 'v) hook list"
  on_interaction :: "('v, 'v option, 'v) hook list"
  on_compaction :: "('v, unit, 'v) hook list"
  pre_step :: "('v, unit, 'v) hook list"
  post_step :: "('v, unit, 'v) hook list"
  session_ctx :: nat

datatype 'v any_hook =
    OnSessionStart "(unit, unit, 'v) hook" | OnSessionEnd "(unit, unit, 'v) hook"
  | PreTurn "('v content, hook_result, 'v) hook" | PostTurn "(string, unit, 'v) hook"
  | PreToolCallDecide "('v tool_call, hook_result, 'v) hook"
  | PostToolCall "('v, unit, 'v) hook" | OnToolError "(string, 'v option, 'v) hook"
  | OnInteraction "('v, 'v option, 'v) hook" | OnCompaction "('v, unit, 'v) hook"
  | PreStep "('v, unit, 'v) hook" | PostStep "('v, unit, 'v) hook" | UnknownHook string

definition new_runner :: "'v heap \<Rightarrow> 'v hook_runner \<times> 'v heap" where
  "new_runner h =
     (let (h', s) = session_context h in
      (\<lparr>on_session_start = [], on_session_end = [], pre_turn = [], post_turn = [],
        pre_tool_call_decide = [], post_tool_call = [], on_tool_error = [], on_interaction = [],
        on_compaction = [], pre_step = [], post_step = [], session_ctx = s\<rparr>, h'))"

definition has_hooks :: "'v hook_runner \<Rightarrow> bool" where
  "has_hooks r \<longleftrightarrow> on_session_start r \<noteq> [] \<or> on_session_end r \<noteq> [] \<or> pre_turn r \<noteq> []
     \<or> post_turn r \<noteq> [] \<or> pre_tool_call_decide r \<noteq> [] \<or> post_tool_call r \<noteq> []
     \<or> on_tool_error r \<noteq> [] \<or> on_interaction r \<noteq> [] \<or> on_compaction r \<noteq> []
     \<or> pre_step r \<noteq> [] \<or> post_step r \<noteq> []"

fun register_hook :: "'v any_hook \<Rightarrow> 'v hook_runner \<Rightarrow> string + 'v hook_runner" where
  "register_hook (OnSessionStart k) r = Inr (r\<lparr>on_session_start := on_session_start r @ [k]\<rparr>)"
| "register_hook (OnSessionEnd k) r = Inr (r\<lparr>on_session_end := on_session_end r @ [k]\<rparr>)"
| "register_hook (PreTurn k) r = Inr (r\<lparr>pre_turn := pre_turn r @ [k]\<rparr>)"
| "register_hook (PostTurn k) r = Inr (r\<lparr>post_turn := post_turn r @ [k]\<rparr>)"
| "register_hook (PreToolCallDecide k) r =
     Inr (r\<lparr>pre_tool_call_decide := pre_tool_call_decide r @ [k]\<rparr>)"
| "register_hook (PostToolCall k) r = Inr (r\<lparr>post_tool_call := post_tool_call r @ [k]\<rparr>)"
| "register_hook (OnToolError k) r = Inr (r\<lparr>on_tool_error := on_tool_error r @ [k]\<rparr>)"
| "register_hook (OnInteraction k) r = Inr (r\<lparr>on_interaction := on_interaction r @ [k]\<rparr>)"
| "register_hook (OnCompaction k) r = Inr (r\<lparr>on_compaction := on_compaction r @ [k]\<rparr>)"
| "register_hook (PreStep k) r = Inr (r\<lparr>pre_step := pre_step r @ [k]\<rparr>)"
| "register_hook (PostStep k) r = Inr (r\<lparr>post_step := post_step r @ [k]\<rparr>)"
| "register_hook (UnknownHook t) r = Inl (''Unknown hook type: '' @ t)"

fun_cases register_hookE: "register_hook k r = Inr r'"

section \<open>Dispatch\<close>

fun run_all :: "('d, unit, 'v) hook list \<Rightarrow> nat \<Rightarrow> 'd \<Rightarrow> 'v heap \<Rightarrow> (string + unit) \<times> 'v heap" where
  "run_all [] ctx d h = (Inr (), h)"
| "run_all (k # ks) ctx d h =
     (case k ctx d h of (Inl e, h') \<Rightarrow> (Inl e, h') | (Inr _, h') \<Rightarrow> run_all ks ctx d h')"

fun run_decide :: "('d, hook_result, 'v) hook list \<Rightarrow> nat \<Rightarrow> 'd \<Rightarrow> 'v heap \<Rightarrow>
    (string + hook_result) \<times> 'v heap" where
  "run_decide [] ctx d h = (Inr \<lparr>hr_allow = True, hr_message = []\<rparr>, h)"
| "run_decide (k # ks) ctx d h =
     (case k ctx d h of
        (Inl e, h') \<Rightarrow> (Inl e, h')
      | (Inr r, h') \<Rightarrow> if \<not> hr_allow r then (Inr r, h') else run_decide ks ctx d h')"

fun run_interaction :: "('v, 'v option, 'v) hook list \<Rightarrow> nat \<Rightarrow> 'v \<Rightarrow> 'v heap \<Rightarrow>
    (string + hook_result \<times> 'v option) \<times> 'v heap" where
  "run_interaction [] ctx d h =
     (Inr (\<lparr>hr_allow = False, hr_message = ''No interaction hook handled the request''\<rparr>, None), h)"
| "run_interaction (k # ks) ctx d h =
     (case k ctx d h of
        (Inl e, h') \<Rightarrow> (Inl e, h')
      | (Inr (Some v), h') \<Rightarrow> (Inr (\<lparr>hr_allow = True, hr_message = []\<rparr>, Some v), h')
      | (Inr None, h') \<Rightarrow> run_interaction ks ctx d h')"

text \<open>A raising error hook ends the recovery; nothing escapes.\<close>

fun run_on_error :: "(string, 'v option, 'v) hook list \<Rightarrow> nat \<Rightarrow> string \<Rightarrow> 'v heap \<Rightarrow>
    (hook_result \<times> 'v option) \<times> 'v heap" where
  "run_on_error [] ctx e h = ((\<lparr>hr_allow = False, hr_message = []\<rparr>, None), h)"
| "run_on_error (k # ks) ctx e h =
     (case k ctx e h of
        (Inl x, h') \<Rightarrow> ((\<lparr>hr_allow = False, hr_message = ''Error recovery failed: '' @ x\<rparr>, None), h')
      | (Inr (Some v), h') \<Rightarrow> ((\<lparr>hr_allow = True, hr_message = []\<rparr>, Some v), h')
      | (Inr None, h') \<Rightarrow> run_on_error ks ctx e h')"

definition dispatch_session_start :: "'v hook_runner \<Rightarrow> 'v heap \<Rightarrow> (string + unit) \<times> 'v heap" where
  "dispatch_session_start r h = run_all (on_session_start r) (session_ctx r) () h"

definition dispatch_session_end :: "'v hook_runner \<Rightarrow> 'v heap \<Rightarrow> (string + unit) \<times> 'v heap" where
  "dispatch_session_end r h = run_all (on_session_end r) (session_ctx r) () h"

definition dispatch_pre_turn :: "'v hook_runner \<Rightarrow> 'v content option \<Rightarrow> 'v heap \<Rightarrow>
    (string + hook_result \<times> nat) \<times> 'v heap" where
  "dispatch_pre_turn r prompt h =
     (let (h1, turn) = turn_context (session_ctx r) h;
          (res, h2) = run_decide (pre_turn r) turn (content_or_empty prompt) h1
      in (map_sum id (\<lambda>x. (x, turn)) res, h2))"

definition dispatch_post_turn :: "'v hook_runner \<Rightarrow> nat \<Rightarrow> string \<Rightarrow> 'v heap \<Rightarrow>
    (string + unit) \<times> 'v heap" where
  "dispatch_post_turn r turn response h = run_all (post_turn r) turn response h"

definition dispatch_pre_tool_call :: "'v hook_runner \<Rightarrow> nat \<Rightarrow> 'v tool_call \<Rightarrow> 'v heap \<Rightarrow>
    (string + hook_result \<times> 'v tool_call \<times> nat) \<times> 'v heap" where
  "dispatch_pre_tool_call r turn tc h =
     (let (h1, op) = operation_context turn h;
          (res, h2) = run_decide (pre_tool_call_decide r) op tc h1
      in (map_sum id (\<lambda>x. (x, tc, op)) res, h2))"

definition dispatch_post_tool_call :: "'v hook_runner \<Rightarrow> nat \<Rightarrow> 'v \<Rightarrow> 'v heap \<Rightarrow>
    (string + unit) \<times> 'v heap" where
  "dispatch_post_tool_call r op result h = run_all (post_tool_call r) op result h"

definition dispatch_on_tool_error :: "'v hook_runner \<Rightarrow> nat \<Rightarrow> string \<Rightarrow> 'v heap \<Rightarrow>
    (hook_result \<times> 'v option) \<times> 'v heap" where
  "dispatch_on_tool_error r op e h = run_on_error (on_tool_error r) op e h"

definition dispatch_interaction :: "'v hook_runner \<Rightarrow> nat \<Rightarrow> 'v \<Rightarrow> 'v heap \<Rightarrow>
    (string + hook_result \<times> 'v option \<times> nat) \<times> 'v heap" where
  "dispatch_interaction r turn spec h =
     (let (h1, op) = operation_context turn h;
          (res, h2) = run_interaction (on_interaction r) op spec h1
      in (map_sum id (\<lambda>(x, v). (x, v, op)) res, h2))"

definition dispatch_compaction :: "'v hook_runner \<Rightarrow> nat \<Rightarrow> 'v \<Rightarrow> 'v heap \<Rightarrow>
    (string + unit) \<times> 'v heap" where
  "dispatch_compaction r turn d h =
     (let (h1, op) = operation_context turn h in run_all (on_compaction r) op d h1)"

definition dispatch_pre_step :: "'v hook_runner \<Rightarrow> nat \<Rightarrow> 'v \<Rightarrow> 'v heap \<Rightarrow> (string + unit) \<times> 'v heap" where
  "dispatch_pre_step r turn s h = run_all (pre_step r) turn s h"

definition dispatch_post_step :: "'v hook_runner \<Rightarrow> nat \<Rightarrow> 'v \<Rightarrow> 'v heap \<Rightarrow> (string + unit) \<times> 'v heap" where
  "dispatch_post_step r turn s h = run_all (post_step r) turn s h"

section \<open>Decision hooks\<close>

text \<open>The heaps a list of hooks is run on, while each of them allows.\<close>

inductive all_allow :: "('d, hook_result, 'v) hook list \<Rightarrow> nat \<Rightarrow> 'd \<Rightarrow> 'v heap \<Rightarrow> 'v heap \<Rightarrow> bool" where
  nil: "all_allow [] ctx d h h"
| cons: "k ctx d h = (Inr r, h1) \<Longrightarrow> hr_allow r \<Longrightarrow> all_allow ks ctx d h1 h2 \<Longrightarrow>
     all_allow (k # ks) ctx d h h2"

inductive_simps all_allow_Cons: "all_allow (k # ks) ctx d h h2"

lemma run_decide_allows:
  "run_decide ks ctx d h = (Inr r, h2) \<and> hr_allow r \<longleftrightarrow>
     r = \<lparr>hr_allow = True, hr_message = []\<rparr> \<and> all_allow ks ctx d h h2"
proof (induction ks arbitrary: h)
  case Nil
  show ?case by (auto intro: all_allow.nil elim: all_allow.cases)
next
  case (Cons k ks)
  obtain res h1 where k: "k ctx d h = (res, h1)" by (cases "k ctx d h")
  with Cons [of h1] show ?case
    by (cases res) (auto simp: all_allow_Cons split: if_splits)
qed

lemma all_allow_mem:
  "all_allow ks ctx d h h2 \<Longrightarrow> k \<in> set ks \<Longrightarrow> \<exists>h r h'. k ctx d h = (Inr r, h') \<and> hr_allow r"
  by (induction rule: all_allow.induct) auto

text \<open>A guard never raises and leaves the heap alone: its verdict depends on the call only.\<close>

locale total_guard =
  fixes guard :: "('v tool_call, hook_result, 'v) hook"
    and verdict :: "'v tool_call \<Rightarrow> hook_result"
  assumes guard_total: "guard ctx tc h = (Inr (verdict tc), h)"
begin

lemma guarded:
  "guard \<in> set ks \<Longrightarrow> run_decide ks ctx tc h = (Inr r, h') \<Longrightarrow> hr_allow r \<Longrightarrow> hr_allow (verdict tc)"
  using run_decide_allows [of ks ctx tc h r h'] all_allow_mem [of ks ctx tc h h' guard] guard_total
  by auto

lemma alone: "run_decide [guard] ctx tc h =
    (Inr (if hr_allow (verdict tc) then \<lparr>hr_allow = True, hr_message = []\<rparr> else verdict tc), h)"
  by (simp add: guard_total)

end

text \<open>The hook built by \<open>enforce\<close> is such a guard.\<close>

definition policy_hook :: "'v policy list list \<Rightarrow> ('v tool_call, hook_result, 'v) hook" where
  "policy_hook buckets ctx tc h = (Inr (run_hook buckets tc), h)"

interpretation policy_guard: total_guard "policy_hook buckets" "run_hook buckets" for buckets
  by unfold_locales (simp add: policy_hook_def)

lemma dispatch_pre_tool_call_eq:
  "dispatch_pre_tool_call runner turn tc h =
     (case run_decide (pre_tool_call_decide runner) (length h) tc (fst (operation_context turn h)) of
        (res, h2) \<Rightarrow> (map_sum id (\<lambda>x. (x, tc, length h)) res, h2))"
  by (simp add: dispatch_pre_tool_call_def operation_context_def new_store_def split_def Let_def)

text \<open>
  A tool call passes the dispatch iff every registered decision hook, run in registration
  order on the context the earlier ones left, returns and allows it; no hook is skipped, and the
  call is handed on unchanged.
\<close>

theorem pre_tool_call_all_allow:
  "(\<exists>r op. dispatch_pre_tool_call runner turn tc h = (Inr (r, tc', op), h2) \<and> hr_allow r) \<longleftrightarrow>
     tc' = tc \<and> all_allow (pre_tool_call_decide runner) (length h) tc
       (fst (operation_context turn h)) h2"
proof -
  obtain res h3 where d: "run_decide (pre_tool_call_decide runner) (length h) tc
      (fst (operation_context turn h)) = (res, h3)" by (meson surj_pair)
  then have disp: "dispatch_pre_tool_call runner turn tc h
      = (map_sum id (\<lambda>x. (x, tc, length h)) res, h3)"
    by (simp add: dispatch_pre_tool_call_eq)
  show ?thesis
  proof (cases res)
    case (Inl e)
    with d run_decide_allows [of "pre_tool_call_decide runner" "length h" tc
        "fst (operation_context turn h)" "\<lparr>hr_allow = True, hr_message = []\<rparr>" h2]
    show ?thesis by (auto simp: disp)
  next
    case (Inr r)
    with d run_decide_allows [of "pre_tool_call_decide runner" "length h" tc
        "fst (operation_context turn h)" r h2]
      run_decide_allows [of "pre_tool_call_decide runner" "length h" tc
        "fst (operation_context turn h)" "\<lparr>hr_allow = True, hr_message = []\<rparr>" h2]
    show ?thesis by (auto simp: disp)
  qed
qed

lemma register_hook_mono:
  "register_hook k r = Inr r' \<Longrightarrow> set (pre_tool_call_decide r) \<subseteq> set (pre_tool_call_decide r')"
  by (erule register_hookE) auto

text \<open>Registering a list of hooks one after the other, stopping at the first rejected one.\<close>

fun register_hooks :: "'v any_hook list \<Rightarrow> 'v hook_runner \<Rightarrow> string + 'v hook_runner" where
  "register_hooks [] r = Inr r"
| "register_hooks (k # ks) r =
     (case register_hook k r of Inl e \<Rightarrow> Inl e | Inr r' \<Rightarrow> register_hooks ks r')"

lemma register_hooks_mono:
  "register_hooks ks r = Inr r' \<Longrightarrow> set (pre_tool_call_decide r) \<subseteq> set (pre_tool_call_decide r')"
proof (induction ks arbitrary: r)
  case (Cons k ks)
  from Cons.prems obtain r1 where r1: "register_hook k r = Inr r1" "register_hooks ks r1 = Inr r'"
    by (auto split: sum.splits)
  from register_hook_mono [OF r1(1)] Cons.IH [OF r1(2)] show ?case by blast
qed simp

lemma registered_hook_present:
  "register_hooks (ks @ PreToolCallDecide f # ks') r = Inr r' \<Longrightarrow> f \<in> set (pre_tool_call_decide r')"
proof (induction ks arbitrary: r)
  case Nil
  then have "register_hooks ks' (r\<lparr>pre_tool_call_decide := pre_tool_call_decide r @ [f]\<rparr>) = Inr r'"
    by simp
  from register_hooks_mono [OF this] show ?case by auto
next
  case (Cons k ks)
  then show ?case by (auto split: sum.splits)
qed

text \<open>
  Registration appends to exactly one list: an accepted hook becomes the last of its own list,
  the other lists and the session context stay as they are, and only an object of no known hook
  type is rejected.
\<close>

lemma register_hook_appends:
  "(case register_hook k r of
      Inl e \<Rightarrow> (\<exists>t. k = UnknownHook t)
    | Inr r' \<Rightarrow> session_ctx r' = session_ctx r \<and> has_hooks r' \<and>
        pre_tool_call_decide r' = pre_tool_call_decide r @ (case k of PreToolCallDecide f \<Rightarrow> [f] | _ \<Rightarrow> [])
        \<and> pre_turn r' = pre_turn r @ (case k of PreTurn f \<Rightarrow> [f] | _ \<Rightarrow> [])
        \<and> on_tool_error r' = on_tool_error r @ (case k of OnToolError f \<Rightarrow> [f] | _ \<Rightarrow> [])
        \<and> on_interaction r' = on_interaction r @ (case k of OnInteraction f \<Rightarrow> [f] | _ \<Rightarrow> [])
        \<and> on_session_start r' = on_session_start r @ (case k of OnSessionStart f \<Rightarrow> [f] | _ \<Rightarrow> [])
        \<and> on_session_end r' = on_session_end r @ (case k of OnSessionEnd f \<Rightarrow> [f] | _ \<Rightarrow> [])
        \<and> post_turn r' = post_turn r @ (case k of PostTurn f \<Rightarrow> [f] | _ \<Rightarrow> [])
        \<and> post_tool_call r' = post_tool_call r @ (case k of PostToolCall f \<Rightarrow> [f] | _ \<Rightarrow> [])
        \<and> on_compaction r' = on_compaction r @ (case k of OnCompaction f \<Rightarrow> [f] | _ \<Rightarrow> [])
        \<and> pre_step r' = pre_step r @ (case k of PreStep f \<Rightarrow> [f] | _ \<Rightarrow> [])
        \<and> post_step r' = post_step r @ (case k of PostStep f \<Rightarrow> [f] | _ \<Rightarrow> []))"
  by (cases k) (simp_all add: has_hooks_def)

lemma dispatch_guarded:
  assumes "policy_hook buckets \<in> set (pre_tool_call_decide runner)"
    and "dispatch_pre_tool_call runner turn tc h = (Inr (r, tc', op), h2)" "hr_allow r"
  shows "hr_allow (run_hook buckets tc)"
proof -
  obtain res h3 where d: "run_decide (pre_tool_call_decide runner) (length h) tc
      (fst (operation_context turn h)) = (res, h3)" by (meson surj_pair)
  with assms(2) have "res = Inr r"
    by (cases res) (simp_all add: dispatch_pre_tool_call_eq)
  with policy_guard.guarded [OF assms(1)] assms(3) d show ?thesis by blast
qed

end
