(* ===== verification/FM_Tool_Runner.thy ===== *)
theory FM_Tool_Runner
  imports FM_Tool_Policy
begin

text \<open>
  The registry and executor of in-process tools, \<open>core/cortex/cortexagi/tools/tool_runner.py\<close>. A
  tool is its name, its signature, the resolved type hints and its function, which returns or
  raises (the exception is its text); tools share no state in the model, so a concurrent batch is
  the list of the single results. The registry keeps insertion order.

  The lemmas show that the cached context parameter is always the tool's own, that a batch
  answers every call in order with failures kept apart, and what arguments a tool receives.
\<close>

section \<open>Tools\<close>

text \<open>A resolved annotation: \<open>ToolContext\<close>, a union of annotations, or anything else.\<close>

datatype ann = AnnContext | AnnUnion "ann list" | AnnOther string

text \<open>A parameter: whether it is \<open>*args\<close> or \<open>**kwargs\<close>, and its validator when annotated.\<close>

record 'v param =
  par_name :: string
  par_variadic :: bool
  par_ann :: "('v \<Rightarrow> string + 'v) option"

text \<open>
  \<open>tl_hints\<close> and \<open>tl_sig\<close> are None where introspection raises; wrappers (\<open>ToolWithSchema\<close>) are
  transparent, so the fields are those of the innermost function.
\<close>

record 'v tool =
  tl_name :: string
  tl_hints :: "(string \<times> ann) list option"
  tl_sig :: "'v param list option"
  tl_fn :: "'v args \<Rightarrow> string + 'v"

record 'v tool_result =
  tr_name :: string
  tr_id :: "string option"
  tr_result :: "'v option"
  tr_error :: "string option"

record 'v tool_runner =
  tr_tools :: "(string \<times> 'v tool) list"
  tr_context :: "'v option"
  tr_params :: "string \<rightharpoonup> string"

fun context_hint :: "(string \<times> ann) list \<Rightarrow> string option" where
  "context_hint [] = None"
| "context_hint ((n, a) # hs) =
     (if n = ''return'' then context_hint hs
      else case a of
        AnnContext \<Rightarrow> Some n
      | AnnUnion as \<Rightarrow> if AnnContext \<in> set as then Some n else context_hint hs
      | AnnOther t \<Rightarrow> context_hint hs)"

definition find_context_param :: "'v tool \<Rightarrow> string option" where
  "find_context_param t = (case tl_hints t of None \<Rightarrow> None | Some hs \<Rightarrow> context_hint hs)"

section \<open>Registry\<close>

definition register :: "'v tool \<Rightarrow> string option \<Rightarrow> 'v tool_runner \<Rightarrow> string + 'v tool_runner" where
  "register t nm r =
     (let n = py_or (case nm of None \<Rightarrow> [] | Some n \<Rightarrow> n) (tl_name t) in
      if map_of (tr_tools r) n \<noteq> None
      then Inl (''Tool '' @ quoted n @ '' is already registered.'')
      else
        let r' = r\<lparr>tr_tools := al_put n t (tr_tools r)\<rparr> in
        Inr (case find_context_param t of
               None \<Rightarrow> r'
             | Some p \<Rightarrow> r'\<lparr>tr_params := (tr_params r')(n \<mapsto> p)\<rparr>))"

definition unregister :: "string \<Rightarrow> 'v tool_runner \<Rightarrow> string + 'v tool_runner" where
  "unregister n r =
     (if map_of (tr_tools r) n = None then Inl (''Tool '' @ quoted n @ '' is not registered.'')
      else Inr (r\<lparr>tr_tools := al_del n (tr_tools r), tr_params := (tr_params r)(n := None)\<rparr>))"

definition set_context :: "'v \<Rightarrow> 'v tool_runner \<Rightarrow> 'v tool_runner" where
  "set_context c r = r\<lparr>tr_context := Some c\<rparr>"

definition tool_names :: "'v tool_runner \<Rightarrow> string list" where
  "tool_names r = al_keys (tr_tools r)"

fun register_all :: "'v tool list \<Rightarrow> 'v tool_runner \<Rightarrow> string + 'v tool_runner" where
  "register_all [] r = Inr r"
| "register_all (t # ts) r =
     (case register t None r of Inl e \<Rightarrow> Inl e | Inr r' \<Rightarrow> register_all ts r')"

definition new_tool_runner :: "'v tool list \<Rightarrow> string + 'v tool_runner" where
  "new_tool_runner ts =
     register_all ts \<lparr>tr_tools = [], tr_context = None, tr_params = Map.empty\<rparr>"

definition make_public_callable :: "'v tool \<Rightarrow> string \<Rightarrow> 'v tool" where
  "make_public_callable t p =
     t\<lparr>tl_sig := map_option (filter (\<lambda>q. par_name q \<noteq> p)) (tl_sig t)\<rparr>"

definition get_public_callable :: "string \<Rightarrow> 'v tool_runner \<Rightarrow> string + 'v tool" where
  "get_public_callable n r =
     (case map_of (tr_tools r) n of
        None \<Rightarrow> Inl (''Tool '' @ quoted n @ '' is not registered.'')
      | Some t \<Rightarrow>
          (case tr_params r n of None \<Rightarrow> Inr t | Some p \<Rightarrow> Inr (make_public_callable t p)))"

section \<open>Execution\<close>

definition inject_context :: "'v tool_runner \<Rightarrow> string \<Rightarrow> 'v args \<Rightarrow> 'v args" where
  "inject_context r n kw =
     (case tr_params r n of
        None \<Rightarrow> kw
      | Some p \<Rightarrow>
          (case tr_context r of
             None \<Rightarrow> kw
           | Some c \<Rightarrow> if kw p = None then kw(p \<mapsto> c) else kw))"

text \<open>One pass over the signature, then the arguments it did not name; \<open>is_none\<close> is \<open>val is None\<close>.\<close>

definition coerce_one :: "('v \<Rightarrow> bool) \<Rightarrow> 'v param \<Rightarrow> 'v \<Rightarrow> 'v" where
  "coerce_one is_none q v =
     (if par_variadic q then v
      else case par_ann q of
        None \<Rightarrow> v
      | Some check \<Rightarrow> if is_none v then v else (case check v of Inl _ \<Rightarrow> v | Inr w \<Rightarrow> w))"

fun coerce_params :: "('v \<Rightarrow> bool) \<Rightarrow> 'v param list \<Rightarrow> 'v args \<Rightarrow> 'v args \<Rightarrow> 'v args" where
  "coerce_params is_none [] kw coerced = coerced"
| "coerce_params is_none (q # qs) kw coerced =
     coerce_params is_none qs kw
       (case kw (par_name q) of
          None \<Rightarrow> coerced
        | Some v \<Rightarrow> coerced(par_name q \<mapsto> coerce_one is_none q v))"

definition coerce_args :: "('v \<Rightarrow> bool) \<Rightarrow> 'v tool \<Rightarrow> 'v args \<Rightarrow> 'v args" where
  "coerce_args is_none t kw =
     (case tl_sig t of
        None \<Rightarrow> kw
      | Some qs \<Rightarrow>
          let coerced = coerce_params is_none qs kw Map.empty
          in (\<lambda>k. case coerced k of Some v \<Rightarrow> Some v | None \<Rightarrow> kw k))"

definition execute :: "('v \<Rightarrow> bool) \<Rightarrow> string \<Rightarrow> 'v args \<Rightarrow> 'v tool_runner \<Rightarrow> string + 'v" where
  "execute is_none n kw r =
     (case map_of (tr_tools r) n of
        None \<Rightarrow> Inl (''Tool '' @ quoted n @ '' is not registered.'')
      | Some t \<Rightarrow> tl_fn t (inject_context r n (coerce_args is_none t kw)))"

definition execute_one :: "('v \<Rightarrow> bool) \<Rightarrow> 'v tool_runner \<Rightarrow> 'v tool_call \<Rightarrow> 'v tool_result" where
  "execute_one is_none r tc =
     (case map_of (tr_tools r) (tc_name tc) of
        None \<Rightarrow> \<lparr>tr_name = tc_name tc, tr_id = None, tr_result = None,
                 tr_error = Some (''Unknown tool: '' @ quoted (tc_name tc))\<rparr>
      | Some t \<Rightarrow>
          (case tl_fn t (inject_context r (tc_name tc) (coerce_args is_none t (tc_args tc))) of
             Inl e \<Rightarrow> \<lparr>tr_name = tc_name tc, tr_id = None, tr_result = None, tr_error = Some e\<rparr>
           | Inr v \<Rightarrow> \<lparr>tr_name = tc_name tc, tr_id = None, tr_result = Some v, tr_error = None\<rparr>))"

definition process_tool_calls :: "('v \<Rightarrow> bool) \<Rightarrow> 'v tool_runner \<Rightarrow> 'v tool_call list \<Rightarrow>
    'v tool_result list" where
  "process_tool_calls is_none r tcs = map (execute_one is_none r) tcs"

section \<open>The registry invariant\<close>

inductive runner_step :: "'v tool_runner \<Rightarrow> 'v tool_runner \<Rightarrow> bool" where
  register: "register t nm r = Inr r' \<Longrightarrow> runner_step r r'"
| unregister: "unregister n r = Inr r' \<Longrightarrow> runner_step r r'"
| set_ctx: "runner_step r (set_context c r)"

definition runner_ok :: "'v tool_runner \<Rightarrow> bool" where
  "runner_ok r \<longleftrightarrow> distinct (al_keys (tr_tools r))
     \<and> (\<forall>n. tr_params r n = Option.bind (map_of (tr_tools r) n) find_context_param)"

lemma register_cases:
  assumes "register t nm r = Inr r'"
  obtains n where "map_of (tr_tools r) n = None" "tr_tools r' = al_put n t (tr_tools r)"
    "tr_params r' = (case find_context_param t of None \<Rightarrow> tr_params r | Some p \<Rightarrow> (tr_params r)(n \<mapsto> p))"
  using assms by (auto simp: register_def Let_def split: if_splits option.split)

lemma register_ok:
  assumes "runner_ok r" "register t nm r = Inr r'"
  shows "runner_ok r'"
proof -
  from assms(2) obtain n where n: "map_of (tr_tools r) n = None" "tr_tools r' = al_put n t (tr_tools r)"
    "tr_params r' = (case find_context_param t of None \<Rightarrow> tr_params r | Some p \<Rightarrow> (tr_params r)(n \<mapsto> p))"
    by (rule register_cases)
  from assms(1) n show ?thesis
    by (cases "find_context_param t") (simp_all add: runner_ok_def)
qed

lemma runner_step_ok: "runner_step r r' \<Longrightarrow> runner_ok r \<Longrightarrow> runner_ok r'"
proof (induction rule: runner_step.induct)
  case (unregister n r r')
  then show ?case by (auto simp: runner_ok_def unregister_def split: if_splits)
next
  case (set_ctx r c)
  then show ?case by (simp add: runner_ok_def set_context_def)
qed (rule register_ok)

lemma register_all_ok: "runner_ok r \<Longrightarrow> register_all ts r = Inr r' \<Longrightarrow> runner_ok r'"
  by (induction ts arbitrary: r) (auto split: sum.splits dest: register_ok)

text \<open>
  Registry invariant: after any successful construction, registrations, removals and context
  changes, tool names are unique and the cached context parameter of a name is exactly the one of
  the tool now registered under it, so a removed or replaced tool never leaves a stale injection.
\<close>

theorem tool_registry_invariant:
  assumes "new_tool_runner ts = Inr r0" and "runner_step\<^sup>*\<^sup>* r0 r"
  shows "distinct (tool_names r) \<and>
    (\<forall>n. tr_params r n = (case map_of (tr_tools r) n of None \<Rightarrow> None | Some t \<Rightarrow> find_context_param t))"
proof -
  have "runner_ok r0"
    using assms(1) unfolding new_tool_runner_def
    by (rule register_all_ok [rotated]) (simp add: runner_ok_def al_keys_def)
  with assms(2) have "runner_ok r" by (induction rule: rtranclp_induct) (auto dest: runner_step_ok)
  then have "distinct (tool_names r)"
    "tr_params r n = Option.bind (map_of (tr_tools r) n) find_context_param" for n
    by (simp_all add: runner_ok_def tool_names_def)
  then show ?thesis by (simp split: option.split)
qed

section \<open>Arguments and results\<close>

lemma coerce_params_dom:
  "coerce_params is_none qs kw co k =
     (case kw k of
        None \<Rightarrow> co k
      | Some v \<Rightarrow>
          (case find (\<lambda>q. par_name q = k) (rev qs) of
             None \<Rightarrow> co k | Some q \<Rightarrow> Some (coerce_one is_none q v)))"
proof (induction qs arbitrary: co)
  case (Cons q qs)
  have "find P (xs @ [x]) = (case find P xs of Some y \<Rightarrow> Some y | None \<Rightarrow> if P x then Some x else None)"
    for P :: "'a param \<Rightarrow> bool" and xs x
    by (induction xs) auto
  with Cons show ?case by (auto split: option.split)
qed (simp split: option.split)

text \<open>
  What a tool receives: exactly the argument names the caller gave plus, when the tool asks for
  the context, one is set and the caller did not pass that name, the context parameter bound to
  it. An argument is the caller's value, or what the validator of the parameter of that name made
  of it; a failing validator, a None value or no annotation leaves the value as it is.
\<close>

theorem tool_arguments:
  "inject_context r n (coerce_args is_none t kw) k =
     (case kw k of
        None \<Rightarrow> if tr_params r n = Some k then tr_context r else None
      | Some v \<Rightarrow>
          Some (case tl_sig t of
                  None \<Rightarrow> v
                | Some qs \<Rightarrow>
                    (case find (\<lambda>q. par_name q = k) (rev qs) of
                       None \<Rightarrow> v | Some q \<Rightarrow> coerce_one is_none q v)))"
proof -
  have co: "coerce_args is_none t kw k = (case kw k of None \<Rightarrow> None | Some v \<Rightarrow>
          Some (case tl_sig t of
                  None \<Rightarrow> v
                | Some qs \<Rightarrow>
                    (case find (\<lambda>q. par_name q = k) (rev qs) of
                       None \<Rightarrow> v | Some q \<Rightarrow> coerce_one is_none q v)))"
    for k by (auto simp: coerce_args_def coerce_params_dom Let_def split: option.split)
  have "inject_context r n a k = (case a k of None \<Rightarrow> if tr_params r n = Some k then tr_context r else None
      | Some v \<Rightarrow> Some v)" for a
    by (auto simp: inject_context_def split: option.split)
  then show ?thesis by (auto simp: co split: option.split)
qed

text \<open>
  C37 Batch execution: the results have the length and order of the calls, each names its call and
  holds either a value or an error and never both, a failing or unknown tool does not disturb the
  others, and the value is the one \<open>execute\<close> gives for that call alone.
\<close>

theorem process_tool_calls_each:
  "length (process_tool_calls is_none r tcs) = length tcs \<and>
   list_all2 (\<lambda>tc res. tr_name res = tc_name tc \<and> (tr_result res = None) \<noteq> (tr_error res = None) \<and>
     (case map_of (tr_tools r) (tc_name tc) of
        None \<Rightarrow> tr_error res = Some (''Unknown tool: '' @ quoted (tc_name tc))
      | Some t \<Rightarrow>
          (case execute is_none (tc_name tc) (tc_args tc) r of
             Inl e \<Rightarrow> tr_error res = Some e | Inr v \<Rightarrow> tr_result res = Some v)))
     tcs (process_tool_calls is_none r tcs)"
proof -
  have "tr_name (execute_one is_none r tc) = tc_name tc
      \<and> (tr_result (execute_one is_none r tc) = None) \<noteq> (tr_error (execute_one is_none r tc) = None)
      \<and> (case map_of (tr_tools r) (tc_name tc) of
        None \<Rightarrow> tr_error (execute_one is_none r tc) = Some (''Unknown tool: '' @ quoted (tc_name tc))
      | Some t \<Rightarrow>
          (case execute is_none (tc_name tc) (tc_args tc) r of
             Inl e \<Rightarrow> tr_error (execute_one is_none r tc) = Some e
           | Inr v \<Rightarrow> tr_result (execute_one is_none r tc) = Some v))" for tc
    by (simp add: execute_one_def execute_def split: option.split sum.split)
  then show ?thesis
    unfolding process_tool_calls_def by (simp add: list.rel_map list_all2_same)
qed

section \<open>Concrete instances\<close>

definition ex_tool :: "nat tool" where
  "ex_tool = \<lparr>tl_name = ''now'', tl_hints = Some [(''ctx'', AnnUnion [AnnContext, AnnOther ''None''])],
     tl_sig = Some [\<lparr>par_name = ''ctx'', par_variadic = False, par_ann = None\<rparr>],
     tl_fn = (\<lambda>kw. case kw ''ctx'' of None \<Rightarrow> Inl ''no context'' | Some c \<Rightarrow> Inr c)\<rparr>"

lemma tool_registry_invariant_witness:
  "\<exists>r0 r. new_tool_runner [ex_tool] = Inr r0 \<and> unregister ''now'' r0 = Inr r
     \<and> tr_params r0 ''now'' = Some ''ctx'' \<and> tr_params r ''now'' = None"
proof -
  have hint: "find_context_param ex_tool = Some ''ctx''" "tl_name ex_tool = ''now''"
    by (simp_all add: find_context_param_def ex_tool_def)
  then obtain r0 where new: "new_tool_runner [ex_tool] = Inr r0" "tr_tools r0 = [(''now'', ex_tool)]"
    by (simp add: new_tool_runner_def register_def py_or_def Let_def)
  then obtain r where un: "unregister ''now'' r0 = Inr r" "tr_tools r = []"
    by (simp add: unregister_def al_del_def)
  have step: "runner_step\<^sup>*\<^sup>* r0 r" using runner_step.unregister [OF un(1)] by (rule r_into_rtranclp)
  have "tr_params r0 ''now'' = Some ''ctx''" "tr_params r ''now'' = None"
    using tool_registry_invariant [OF new(1) rtranclp.rtrancl_refl]
      tool_registry_invariant [OF new(1) step]
    by (simp_all add: new(2) un(2) hint)
  with new un show ?thesis by blast
qed

end
