(* ===== verification/FM_Rate_Limit.thy ===== *)
theory FM_Rate_Limit
  imports FM_Interfaces
begin

text \<open>
  Per-tenant rate limiting, \<open>api/middleware/ratelimit.py\<close>: token buckets, the in-memory limiter,
  endpoint classification and the middleware's decision. Clock readings are arguments; the float
  arithmetic of the bucket is idealised to exact rationals.

  The lemmas bound the number of admitted requests over any time span, show that identities do
  not share buckets, and what the classification returns.
\<close>

section \<open>Token buckets\<close>

record bucket =
  bk_capacity :: int
  bk_rate :: rat
  bk_tokens :: rat
  bk_last :: rat

definition create_bucket :: "rat \<Rightarrow> int \<Rightarrow> int \<Rightarrow> bucket" where
  "create_bucket now capacity refill_per_minute =
     \<lparr>bk_capacity = capacity, bk_rate = of_int refill_per_minute / 60,
      bk_tokens = of_int capacity, bk_last = now\<rparr>"

definition refill :: "rat \<Rightarrow> bucket \<Rightarrow> bucket" where
  "refill now b =
     b\<lparr>bk_tokens := min (of_int (bk_capacity b)) (bk_tokens b + (now - bk_last b) * bk_rate b),
       bk_last := now\<rparr>"

definition try_consume :: "rat \<Rightarrow> int \<Rightarrow> bucket \<Rightarrow> bucket \<times> bool \<times> int" where
  "try_consume now n b =
     (let b' = refill now b in
      if of_int n \<le> bk_tokens b'
      then (b'\<lparr>bk_tokens := bk_tokens b' - of_int n\<rparr>, True, py_int (bk_tokens b' - of_int n))
      else (b', False, py_int (bk_tokens b')))"

section \<open>The limiter\<close>

record limiter =
  lm_buckets :: "string \<rightharpoonup> bucket"
  lm_limits :: "string \<rightharpoonup> int"

definition default_limits :: "(string \<times> int) list" where
  "default_limits = [(''ingest'', 60), (''query'', 120), (''events'', 300), (''storage'', 60),
     (''api_keys'', 30), (''ingest_write'', 60), (''query_read'', 120), (''events_stream'', 300),
     (''storage_read'', 120), (''storage_write'', 60), (''api_keys_read'', 60),
     (''api_keys_write'', 20), (''memory_search'', 120), (''memory_read'', 120),
     (''memory_write'', 60)]"

definition new_limiter :: limiter where
  "new_limiter = \<lparr>lm_buckets = Map.empty, lm_limits = map_of default_limits\<rparr>"

text \<open>\<open>set_limits\<close> looks up \<open><name>_per_minute\<close> for each of the fifteen names.\<close>

definition set_limits :: "(string \<rightharpoonup> int) \<Rightarrow> limiter \<Rightarrow> limiter" where
  "set_limits conf l =
     l\<lparr>lm_limits := foldl (\<lambda>m n. case conf (n @ ''_per_minute'') of None \<Rightarrow> m | Some v \<Rightarrow> m(n \<mapsto> v))
        (lm_limits l) (map fst default_limits)\<rparr>"

definition get_bucket_key :: "string \<Rightarrow> string \<Rightarrow> string \<Rightarrow> string" where
  "get_bucket_key tenant endpoint identity = tenant @ '':'' @ identity @ '':'' @ endpoint"

definition get_or_create_bucket :: "rat \<Rightarrow> string \<Rightarrow> string \<Rightarrow> string \<Rightarrow> limiter \<Rightarrow> limiter \<times> bucket" where
  "get_or_create_bucket now tenant endpoint identity l =
     (let k = get_bucket_key tenant endpoint identity in
      case lm_buckets l k of
        Some b \<Rightarrow> (l, b)
      | None \<Rightarrow>
          let limit = (case lm_limits l endpoint of None \<Rightarrow> 60 | Some v \<Rightarrow> v);
              b = create_bucket now limit limit
          in (l\<lparr>lm_buckets := (lm_buckets l)(k \<mapsto> b)\<rparr>, b))"

text \<open>The clock is read at creation (\<open>now\<close>) and again by \<open>try_consume\<close> (\<open>now'\<close>).\<close>

definition check_rate_limit :: "rat \<Rightarrow> rat \<Rightarrow> string \<Rightarrow> string \<Rightarrow> string option \<Rightarrow> limiter \<Rightarrow>
    limiter \<times> bool \<times> int" where
  "check_rate_limit now now' tenant endpoint identity l =
     (let ident = (case identity of
            None \<Rightarrow> ''tenant:'' @ tenant
          | Some i \<Rightarrow> if i = [] then ''tenant:'' @ tenant else i);
          (l1, b) = get_or_create_bucket now tenant endpoint ident l;
          (b', res) = try_consume now' 1 b
      in (l1\<lparr>lm_buckets := (lm_buckets l1)(get_bucket_key tenant endpoint ident \<mapsto> b')\<rparr>, res))"

section \<open>Endpoint classification\<close>

definition endpoint_categories :: "(string \<times> string) list" where
  "endpoint_categories = [(''/api/v1/storage'', ''storage''), (''/api/v1/ingest'', ''ingest''),
     (''/api/v1/query'', ''query''), (''/api/v1/events'', ''events''),
     (''/api/v1/api-keys'', ''api_keys''), (''/api/v1/evolve'', ''query''),
     (''/api/v1/memory/search'', ''query''), (''/api/v1/memory/write'', ''ingest''),
     (''/api/v1/memory'', ''query''), (''/v1/ingest'', ''ingest''), (''/v1/query'', ''query''),
     (''/v1/events'', ''events'')]"

definition endpoint_rules :: "(string \<times> string \<times> string) list" where
  "endpoint_rules = [(''POST'', ''/api/v1/ingest/upload'', ''ingest_write''),
     (''POST'', ''/api/v1/ingest'', ''ingest_write''), (''POST'', ''/api/v1/query'', ''query_read''),
     (''GET'', ''/api/v1/events'', ''events_stream''),
     (''POST'', ''/api/v1/storage'', ''storage_write''),
     (''DELETE'', ''/api/v1/storage'', ''storage_write''),
     (''GET'', ''/api/v1/storage'', ''storage_read''),
     (''POST'', ''/api/v1/api-keys'', ''api_keys_write''),
     (''GET'', ''/api/v1/api-keys'', ''api_keys_read''),
     (''POST'', ''/api/v1/evolve'', ''ingest_write''), (''GET'', ''/api/v1/evolve'', ''query_read''),
     (''POST'', ''/api/v1/memory/search'', ''memory_search''),
     (''GET'', ''/api/v1/memory'', ''memory_read''),
     (''POST'', ''/api/v1/memory/write'', ''memory_write''),
     (''PATCH'', ''/api/v1/memory'', ''memory_write''), (''POST'', ''/v1/ingest'', ''ingest_write''),
     (''POST'', ''/v1/query'', ''query_read''), (''GET'', ''/v1/events'', ''events_stream''),
     (''POST'', ''/v1/evolve'', ''ingest_write''), (''GET'', ''/v1/evolve'', ''query_read'')]"

definition path_matches :: "string \<Rightarrow> string \<Rightarrow> bool" where
  "path_matches path pre =
     (let n = py_rstrip_char CHR ''/'' pre in
      if path = n then True else py_startswith path (n @ ''/''))"

definition classify :: "string \<Rightarrow> string \<Rightarrow> string option" where
  "classify meth path =
     (case find (\<lambda>(m, p, c). m = py_upper meth \<and> path_matches path p) endpoint_rules of
        Some (_, _, c) \<Rightarrow> Some c
      | None \<Rightarrow>
          (case find (\<lambda>p. path_matches path p)
                  (sort_key (\<lambda>p. - int (length p)) (map fst endpoint_categories)) of
             Some p \<Rightarrow> map_of endpoint_categories p
           | None \<Rightarrow> None))"

section \<open>The middleware\<close>

record request =
  rq_method :: string
  rq_path :: string
  rq_tenant :: "string option"
  rq_header_tenant :: string
  rq_auth :: "string option"
  rq_user :: "string option"
  rq_key :: "string option"

datatype rate_decision = NotLimited | Admit int | Reject string int

definition or_empty :: "string option \<Rightarrow> string" where
  "or_empty x = (case x of None \<Rightarrow> [] | Some s \<Rightarrow> s)"

definition request_tenant :: "request \<Rightarrow> string" where
  "request_tenant rq =
     (if or_empty (rq_tenant rq) \<noteq> [] then or_empty (rq_tenant rq) else rq_header_tenant rq)"

definition request_identity :: "request \<Rightarrow> string" where
  "request_identity rq =
     (if rq_auth rq = Some ''jwt''
      then ''jwt:'' @ (if or_empty (rq_user rq) = [] then ''unknown'' else or_empty (rq_user rq))
      else if rq_auth rq \<in> {Some ''api_key_db'', Some ''api_key_env'', Some ''api_key''}
      then (if or_empty (rq_key rq) \<noteq> [] then ''key:'' @ or_empty (rq_key rq)
            else ''tenant:'' @ request_tenant rq)
      else ''tenant:'' @ request_tenant rq)"

definition rate_dispatch :: "rat \<Rightarrow> rat \<Rightarrow> request \<Rightarrow> limiter \<Rightarrow> limiter \<times> rate_decision" where
  "rate_dispatch now now' rq l =
     (if request_tenant rq = [] then (l, NotLimited)
      else case classify (rq_method rq) (rq_path rq) of
        None \<Rightarrow> (l, NotLimited)
      | Some c \<Rightarrow>
          if c = [] then (l, NotLimited)
          else case check_rate_limit now now' (request_tenant rq) c (Some (request_identity rq)) l of
            (l', ok, remaining) \<Rightarrow> (l', if ok then Admit remaining else Reject c remaining))"

section \<open>Admission bound\<close>

fun consume_all :: "rat list \<Rightarrow> bucket \<Rightarrow> bucket \<times> nat" where
  "consume_all [] b = (b, 0)"
| "consume_all (t # ts) b =
     (let (b', ok, _) = try_consume t 1 b; (b'', n) = consume_all ts b'
      in (b'', if ok then Suc n else n))"

lemma try_consume_cases:
  obtains (ok) "try_consume now 1 b
      = ((refill now b)\<lparr>bk_tokens := bk_tokens (refill now b) - 1\<rparr>, True,
         py_int (bk_tokens (refill now b) - 1))" "1 \<le> bk_tokens (refill now b)"
  | (no) "try_consume now 1 b = (refill now b, False, py_int (bk_tokens (refill now b)))"
      "bk_tokens (refill now b) < 1"
  by (cases "1 \<le> bk_tokens (refill now b)") (simp_all add: try_consume_def Let_def)

lemma refill_tokens: "bk_tokens (refill now b) \<le> bk_tokens b + (now - bk_last b) * bk_rate b"
  "bk_tokens (refill now b) \<le> of_int (bk_capacity b)"
  by (simp_all add: refill_def)

lemma refill_same [simp]: "bk_rate (refill now b) = bk_rate b"
  "bk_capacity (refill now b) = bk_capacity b" "bk_last (refill now b) = now"
  by (simp_all add: refill_def)

lemma consume_all_budget:
  "consume_all ts b = (b', n) \<Longrightarrow>
     bk_tokens b' + of_nat n \<le> bk_tokens b + (bk_last b' - bk_last b) * bk_rate b
     \<and> bk_rate b' = bk_rate b \<and> bk_capacity b' = bk_capacity b
     \<and> bk_last b' = last (bk_last b # ts)"
proof (induction ts arbitrary: b n)
  case (Cons t ts)
  define b1 where "b1 = fst (try_consume t 1 b)"
  define k :: nat where "k = (if fst (snd (try_consume t 1 b)) then 1 else 0)"
  have b1: "bk_tokens b1 + of_nat k \<le> bk_tokens b + (t - bk_last b) * bk_rate b"
    "bk_rate b1 = bk_rate b" "bk_capacity b1 = bk_capacity b" "bk_last b1 = t"
    using refill_tokens(1) [of t b]
    by (cases t b rule: try_consume_cases; simp add: b1_def k_def)+
  obtain m where m: "consume_all ts b1 = (b', m)" "n = m + k"
    using Cons.prems
    by (cases t b rule: try_consume_cases; cases "consume_all ts b1")
      (auto simp: b1_def k_def Let_def split: prod.splits)
  have "(bk_last b' - t) * bk_rate b + (t - bk_last b) * bk_rate b = (bk_last b' - bk_last b) * bk_rate b"
    by (simp add: algebra_simps)
  with Cons.IH [OF m(1)] b1 show ?case by (auto simp: m(2))
qed simp

lemma tokens_nonneg:
  assumes "sorted (bk_last b # ts)" "0 \<le> bk_tokens b" "0 \<le> bk_rate b" "0 \<le> bk_capacity b"
    and "consume_all ts b = (b', n)"
  shows "0 \<le> bk_tokens b'"
  using assms
proof (induction ts arbitrary: b n)
  case (Cons t ts)
  define b1 where "b1 = fst (try_consume t 1 b)"
  have "0 \<le> bk_tokens (refill t b)" using Cons.prems by (simp add: refill_def)
  then have "0 \<le> bk_tokens b1 \<and> bk_rate b1 = bk_rate b \<and> bk_capacity b1 = bk_capacity b \<and> bk_last b1 = t"
    by (cases t b rule: try_consume_cases) (simp_all add: b1_def)
  moreover obtain m where "consume_all ts b1 = (b', m)"
    using Cons.prems(5) by (auto simp: b1_def Let_def split: prod.splits)
  ultimately show ?case using Cons.prems by (intro Cons.IH [of b1 m]) simp_all
qed simp

text \<open>
  C34 Admission bound: a bucket made for \<open>limit\<close> requests per minute admits, over any sequence of
  requests at non-decreasing times, at most \<open>limit\<close> requests plus \<open>limit/60\<close> for every second
  since its creation.
\<close>

theorem bucket_admits_at_most:
  assumes "0 \<le> limit" and "sorted (now # ts)"
    and "consume_all ts (create_bucket now limit limit) = (b', n)"
  shows "of_nat n \<le> of_int limit + (last (now # ts) - now) * (of_int limit / 60)"
proof -
  let ?b = "create_bucket now limit limit"
  have "bk_last ?b = now" "bk_tokens ?b = of_int limit" "bk_rate ?b = of_int limit / 60"
    "bk_capacity ?b = limit" by (simp_all add: create_bucket_def)
  note b = this
  have n: "bk_tokens b' + of_nat n \<le> of_int limit + (last (now # ts) - now) * (of_int limit / 60)"
    using consume_all_budget [OF assms(3), unfolded b] by (metis times_divide_eq_right)
  have "0 \<le> bk_tokens b'"
    by (rule tokens_nonneg [OF _ _ _ _ assms(3)]) (use assms(1,2) b in simp_all)
  with n show ?thesis by linarith
qed

text \<open>A full second of the refill rate brings the token back: no starvation.\<close>

lemma refilled_after:
  assumes "1 \<le> bk_capacity b" "0 < bk_rate b" "0 \<le> bk_tokens b" "bk_last b + 1 / bk_rate b \<le> now"
  shows "fst (snd (try_consume now 1 b))"
proof -
  have "1 = (1 / bk_rate b) * bk_rate b" using assms(2) by simp
  also have "\<dots> \<le> (now - bk_last b) * bk_rate b"
    using assms(2,4) by (intro mult_right_mono) simp_all
  finally have "1 \<le> bk_tokens (refill now b)" using assms(1,3) by (simp add: refill_def)
  then show ?thesis by (cases now b rule: try_consume_cases) simp_all
qed

section \<open>Buckets are not shared\<close>

text \<open>The limiter's buckets are a key-value store.\<close>

interpretation buckets: kv_store "\<lambda>k l. lm_buckets l k"
    "\<lambda>k b l. l\<lparr>lm_buckets := (lm_buckets l)(k \<mapsto> b)\<rparr>" "\<lambda>l. True"
  by unfold_locales simp_all

lemma check_touches_one:
  "k \<noteq> get_bucket_key tenant endpoint
      (case identity of None \<Rightarrow> ''tenant:'' @ tenant | Some i \<Rightarrow> if i = [] then ''tenant:'' @ tenant else i) \<Longrightarrow>
     lm_buckets (fst (check_rate_limit now now' tenant endpoint identity l)) k = lm_buckets l k"
  by (auto simp: check_rate_limit_def get_or_create_bucket_def Let_def buckets.get_put_other
      split: option.split prod.split)

lemma key_injective:
  assumes "get_bucket_key t e i = get_bucket_key t' e' i'"
    and "CHR '':'' \<notin> set t" "CHR '':'' \<notin> set t'" "CHR '':'' \<notin> set e" "CHR '':'' \<notin> set e'"
  shows "t = t' \<and> e = e' \<and> i = i'"
proof -
  have cut: "a = b \<and> xs = ys" if "a @ CHR '':'' # xs = b @ CHR '':'' # ys" "CHR '':'' \<notin> set a" "CHR '':'' \<notin> set b"
    for a b xs ys
    using that by (induction a arbitrary: b) (case_tac b; auto)+
  from cut [of t "i @ '':'' @ e" t' "i' @ '':'' @ e'"] assms(1-3)
  have 1: "t = t'" "i @ CHR '':'' # e = i' @ CHR '':'' # e'" by (simp_all add: get_bucket_key_def)
  then have "rev e @ CHR '':'' # rev i = rev e' @ CHR '':'' # rev i'"
    by (metis append_Cons append_Nil append_assoc rev.simps(2) rev_append)
  from cut [OF this] assms(4,5) 1 show ?thesis by simp
qed

lemma classify_category:
  assumes "classify m p = Some c"
  shows "c \<in> set (map (\<lambda>r. snd (snd r)) endpoint_rules) \<union> set (map snd endpoint_categories)"
  using assms unfolding classify_def
  by (auto split: option.splits dest!: find_SomeD map_of_SomeD simp: image_iff) force+

lemma categories_plain:
  "\<forall>c \<in> set (map (\<lambda>r. snd (snd r)) endpoint_rules) \<union> set (map snd endpoint_categories).
     c \<noteq> [] \<and> CHR '':'' \<notin> set c"
  by (simp add: endpoint_rules_def endpoint_categories_def)

text \<open>
  Isolation: a request of one tenant, identity and category never changes the bucket another
  triple is charged to, so no tenant or identity can exhaust the budget of another (tenant ids
  without a colon).
\<close>

theorem rate_limit_isolation:
  assumes "rate_dispatch now now' rq l = (l', d)"
    and "CHR '':'' \<notin> set (request_tenant rq)" "CHR '':'' \<notin> set tenant" "CHR '':'' \<notin> set category"
    and "(tenant, identity) \<noteq> (request_tenant rq, request_identity rq)
      \<or> classify (rq_method rq) (rq_path rq) \<noteq> Some category"
  shows "lm_buckets l' (get_bucket_key tenant category identity)
    = lm_buckets l (get_bucket_key tenant category identity)"
proof (cases "request_tenant rq = [] \<or> classify (rq_method rq) (rq_path rq) = None
    \<or> classify (rq_method rq) (rq_path rq) = Some []")
  case True
  with assms(1) have "l' = l" by (auto simp: rate_dispatch_def split: if_splits)
  then show ?thesis by simp
next
  case False
  then obtain c where c: "classify (rq_method rq) (rq_path rq) = Some c" "c \<noteq> []" by auto
  have ne: "request_identity rq \<noteq> []" by (simp add: request_identity_def)
  have "get_bucket_key tenant category identity
      \<noteq> get_bucket_key (request_tenant rq) c (request_identity rq)"
    using key_injective [of tenant category identity "request_tenant rq" c "request_identity rq"]
      classify_category [OF c(1)] categories_plain assms(2-5) c(1) by blast
  moreover have "l' = fst (check_rate_limit now now' (request_tenant rq) c (Some (request_identity rq)) l)"
    using assms(1) False c by (auto simp: rate_dispatch_def split: prod.splits)
  ultimately show ?thesis using ne by (simp add: check_touches_one)
qed

section \<open>Classification\<close>

lemma find_sorted_minimal:
  "find P xs = Some x \<Longrightarrow> sorted (map f xs) \<Longrightarrow> y \<in> set xs \<Longrightarrow> P y \<Longrightarrow> f x \<le> f y"
  by (induction xs) (auto split: if_splits)

lemma path_matches_iff:
  "path_matches path pre \<longleftrightarrow>
     (let n = py_rstrip_char CHR ''/'' pre in path = n \<or> prefix (n @ ''/'') path)"
  by (simp add: path_matches_def Let_def py_startswith_iff_prefix)

text \<open>
  Classification: a method rule that matches wins (the first in table order), otherwise the
  category is that of the longest matching path prefix, and a path is unlimited only when nothing
  matches; a prefix only matches at a path segment boundary.
\<close>

theorem classify_endpoint:
  "case classify meth path of
     None \<Rightarrow> \<not> (\<exists>(m, p, c) \<in> set endpoint_rules. m = py_upper meth \<and> path_matches path p)
       \<and> \<not> (\<exists>p \<in> set (map fst endpoint_categories). path_matches path p)
   | Some c \<Rightarrow> (\<exists>pre post p. endpoint_rules = pre @ (py_upper meth, p, c) # post \<and> path_matches path p
          \<and> \<not> (\<exists>(m, q, d) \<in> set pre. m = py_upper meth \<and> path_matches path q))
       \<or> (\<not> (\<exists>(m, p, c) \<in> set endpoint_rules. m = py_upper meth \<and> path_matches path p)
          \<and> (\<exists>p. map_of endpoint_categories p = Some c \<and> path_matches path p
               \<and> \<not> (\<exists>q \<in> set (map fst endpoint_categories). path_matches path q \<and> length p < length q)))"
proof -
  let ?P = "\<lambda>(m, p, c). m = py_upper meth \<and> path_matches path p"
  let ?ks = "sort_key (\<lambda>p. - int (length p)) (map fst endpoint_categories)"
  show ?thesis
  proof (cases "find ?P endpoint_rules")
    case (Some r)
    obtain m p c where r: "r = (m, p, c)" by (cases r)
    from find_Some_split [OF Some] have "\<exists>pre post p. endpoint_rules = pre @ (py_upper meth, p, c) # post
        \<and> path_matches path p \<and> \<not> (\<exists>x \<in> set pre. ?P x)" by (auto simp only: r prod.case)
    moreover have "classify meth path = Some c" using Some r by (simp add: classify_def)
    ultimately show ?thesis by (simp only: option.case simp_thms)
  next
    case None
    then have no: "\<not> (\<exists>x \<in> set endpoint_rules. ?P x)" by (auto simp: find_None_iff)
    show ?thesis
    proof (cases "find (path_matches path) ?ks")
      case None
      with \<open>find ?P endpoint_rules = None\<close> have "classify meth path = None" by (simp add: classify_def)
      moreover have "\<forall>p \<in> set ?ks. \<not> path_matches path p" using None by (auto simp: find_None_iff)
      ultimately show ?thesis using no by auto
    next
      case (Some p)
      then have p: "p \<in> set ?ks" "path_matches path p" using find_SomeD by fast+
      then obtain c where c: "map_of endpoint_categories p = Some c"
        by (metis image_set map_of_eq_None_iff not_None_eq set_sort)
      have "\<not> (\<exists>q \<in> set (map fst endpoint_categories). path_matches path q \<and> length p < length q)"
        using find_sorted_minimal [OF Some, where f = "\<lambda>p. - int (length p)"] by force
      moreover have "classify meth path = Some c"
        using \<open>find ?P endpoint_rules = None\<close> Some c by (simp add: classify_def)
      ultimately show ?thesis using no p c by auto
    qed
  qed
qed

section \<open>Concrete instances\<close>

lemma bucket_admits_at_most_witness:
  "consume_all [0, 0, 20] (create_bucket 0 3 3)
     = (\<lparr>bk_capacity = 3, bk_rate = 1 / 20, bk_tokens = 1, bk_last = 20\<rparr>, 3)
   \<and> (of_nat 3 :: rat) \<le> of_int 3 + (20 - 0) * (of_int 3 / 60)"
proof -
  have c: "consume_all [0, 0, 20] (create_bucket 0 3 3)
     = (\<lparr>bk_capacity = 3, bk_rate = 1 / 20, bk_tokens = 1, bk_last = 20\<rparr>, 3)"
    by (simp add: create_bucket_def try_consume_def refill_def Let_def)
  from bucket_admits_at_most [OF _ _ c] show ?thesis using c by simp
qed

definition ex_request :: request where
  "ex_request = \<lparr>rq_method = ''post'', rq_path = ''/api/v1/query'', rq_tenant = Some ''a'',
     rq_header_tenant = [], rq_auth = Some ''jwt'', rq_user = Some ''u'', rq_key = None\<rparr>"

lemma rate_limit_isolation_witness:
  "lm_buckets (fst (rate_dispatch 0 0 ex_request new_limiter))
     (get_bucket_key ''b'' ''query_read'' ''jwt:u'') = None"
proof -
  obtain l' d where d: "rate_dispatch 0 0 ex_request new_limiter = (l', d)" by (meson surj_pair)
  have t: "request_tenant ex_request = ''a''" by (simp add: request_tenant_def ex_request_def or_empty_def)
  have "lm_buckets l' (get_bucket_key ''b'' ''query_read'' ''jwt:u'')
      = lm_buckets new_limiter (get_bucket_key ''b'' ''query_read'' ''jwt:u'')"
    by (rule rate_limit_isolation [OF d]) (simp_all add: t)
  with d show ?thesis by (simp add: new_limiter_def)
qed

end
