(* ===== verification/FM_Locks.thy ===== *)
theory FM_Locks
  imports FM_Prelude
begin

text \<open>
  The distributed locks of \<open>cache/locks.py\<close>: the Redis lock, the file lock and the manager that
  tries one after the other. The Redis client is the parameter \<open>rd\<close>, a record of the three calls
  the code makes, with the documented behaviour of SET NX PX, GET and DEL as the hypothesis
  \<open>redis_laws\<close>; a call may raise (None). The file locks are the kernel's: at most one open file
  description holds a path. Times are integers in milliseconds and each attempt has its own
  reading.

  The lemmas show mutual exclusion within each kind of lock, and that the manager loses it: it
  falls back to the file lock also when the Redis lock is held by somebody else, and a release
  that is interrupted after its ownership check can delete another holder's lock.
\<close>

section \<open>The Redis client\<close>

record 'r redis =
  rd_set_nx :: "string \<Rightarrow> string \<Rightarrow> int \<Rightarrow> int \<Rightarrow> 'r \<Rightarrow> bool option \<times> 'r"
  rd_get :: "string \<Rightarrow> int \<Rightarrow> 'r \<Rightarrow> string option option"
  rd_delete :: "string \<Rightarrow> int \<Rightarrow> 'r \<Rightarrow> bool \<times> 'r"

text \<open>
  \<open>view s t\<close> is the live content at time t. A successful SET NX PX finds the key absent and makes
  it live for \<open>px\<close>; a refused one finds it present and changes nothing; expired keys stay expired.
\<close>

definition redis_laws :: "'r redis \<Rightarrow> ('r \<Rightarrow> int \<Rightarrow> string \<rightharpoonup> string) \<Rightarrow> bool" where
  "redis_laws rd view \<longleftrightarrow>
     (\<forall>k v px t s s'. rd_set_nx rd k v px t s = (Some True, s') \<longrightarrow> view s t k = None
        \<and> (\<forall>t' \<ge> t. \<forall>k'. view s' t' k' =
             (if k' = k then (if t' < t + px then Some v else None) else view s t' k')))
   \<and> (\<forall>k v px t s s'. rd_set_nx rd k v px t s = (Some False, s') \<longrightarrow> view s t k \<noteq> None
        \<and> (\<forall>t' \<ge> t. view s' t' = view s t'))
   \<and> (\<forall>k t s r. rd_get rd k t s = Some r \<longrightarrow> r = view s t k)
   \<and> (\<forall>k t s s'. rd_delete rd k t s = (True, s') \<longrightarrow>
        (\<forall>t' \<ge> t. view s' t' = (view s t')(k := None)))
   \<and> (\<forall>s t t' k. t \<le> t' \<longrightarrow> view s t' k = None \<or> view s t' k = view s t k)"

section \<open>The Redis lock\<close>

record redis_lock =
  rl_key :: string
  rl_timeout :: int
  rl_retry :: int
  rl_max_retries :: nat
  rl_value :: string
  rl_acquired :: bool

definition new_redis_lock :: "string \<Rightarrow> string \<Rightarrow> int \<Rightarrow> int \<Rightarrow> nat \<Rightarrow> redis_lock" where
  "new_redis_lock uuid key timeout_ms retry_ms max_retries =
     \<lparr>rl_key = ''faim:lock:'' @ key, rl_timeout = timeout_ms, rl_retry = retry_ms,
      rl_max_retries = max_retries, rl_value = uuid, rl_acquired = False\<rparr>"

text \<open>The loop over the attempts; \<open>clock n\<close> is the time when n attempts are left.\<close>

fun redis_attempts :: "'r redis \<Rightarrow> (nat \<Rightarrow> int) \<Rightarrow> nat \<Rightarrow> redis_lock \<Rightarrow> 'r \<Rightarrow>
    bool \<times> redis_lock \<times> 'r" where
  "redis_attempts rd clock 0 l s = (False, l, s)"
| "redis_attempts rd clock (Suc n) l s =
     (case rd_set_nx rd (rl_key l) (rl_value l) (rl_timeout l) (clock n) s of
        (None, s') \<Rightarrow> (False, l, s')
      | (Some True, s') \<Rightarrow> (True, l\<lparr>rl_acquired := True\<rparr>, s')
      | (Some False, s') \<Rightarrow> redis_attempts rd clock n l s')"

text \<open>\<open>client\<close> is None when no Redis is configured.\<close>

definition redis_acquire :: "'r redis option \<Rightarrow> (nat \<Rightarrow> int) \<Rightarrow> redis_lock \<Rightarrow> 'r \<Rightarrow>
    bool \<times> redis_lock \<times> 'r" where
  "redis_acquire client clock l s =
     (case client of
        None \<Rightarrow> (False, l, s)
      | Some rd \<Rightarrow> redis_attempts rd clock (rl_max_retries l) l s)"

text \<open>
  The release: the ownership check (GET) at time \<open>t\<close> on the state then, and the DEL at time
  \<open>t'\<close>; between the two other clients may run, so the state is an argument of each step.
\<close>

definition release_check :: "'r redis option \<Rightarrow> int \<Rightarrow> redis_lock \<Rightarrow> 'r \<Rightarrow> bool" where
  "release_check client t l s =
     (rl_acquired l \<and> (case client of
        None \<Rightarrow> False
      | Some rd \<Rightarrow>
          (case rd_get rd (rl_key l) t s of
             Some (Some v) \<Rightarrow> v \<noteq> [] \<and> v = rl_value l
           | _ \<Rightarrow> False)))"

definition release_delete :: "'r redis \<Rightarrow> int \<Rightarrow> redis_lock \<Rightarrow> 'r \<Rightarrow> bool \<times> redis_lock \<times> 'r" where
  "release_delete rd t l s =
     (case rd_delete rd (rl_key l) t s of
        (True, s') \<Rightarrow> (True, l\<lparr>rl_acquired := False\<rparr>, s')
      | (False, s') \<Rightarrow> (False, l, s'))"

definition redis_release :: "'r redis option \<Rightarrow> int \<Rightarrow> int \<Rightarrow> redis_lock \<Rightarrow> 'r \<Rightarrow>
    bool \<times> redis_lock \<times> 'r" where
  "redis_release client t t' l s =
     (case client of
        None \<Rightarrow> (False, l, s)
      | Some rd \<Rightarrow> if release_check client t l s then release_delete rd t' l s else (False, l, s))"

section \<open>The file lock\<close>

text \<open>The kernel's lock table: the open file description that holds a path.\<close>

type_synonym flocks = "string \<rightharpoonup> nat"

record file_lock =
  fl_file :: string
  fl_max_retries :: nat
  fl_fd :: "nat option"
  fl_acquired :: bool

definition safe_key :: "string \<Rightarrow> string" where
  "safe_key k = map (\<lambda>c. if c = CHR ''/'' \<or> c = CHR '':'' then CHR ''_'' else c) k"

definition new_file_lock :: "string \<Rightarrow> string \<Rightarrow> nat \<Rightarrow> file_lock" where
  "new_file_lock lock_dir key max_retries =
     \<lparr>fl_file = lock_dir @ ''/'' @ safe_key key @ ''.lock'', fl_max_retries = max_retries,
      fl_fd = None, fl_acquired = False\<rparr>"

text \<open>
  Each attempt opens a new description (\<open>fds n\<close> when n attempts are left, None if \<open>open\<close> fails) and
  asks for the lock without blocking; on failure it closes the description.
\<close>

fun file_attempts :: "(nat \<Rightarrow> nat option) \<Rightarrow> nat \<Rightarrow> file_lock \<Rightarrow> flocks \<Rightarrow>
    bool \<times> file_lock \<times> flocks" where
  "file_attempts fds 0 l fs = (False, l, fs)"
| "file_attempts fds (Suc n) l fs =
     (case fds n of
        None \<Rightarrow> file_attempts fds n (l\<lparr>fl_fd := None\<rparr>) fs
      | Some fd \<Rightarrow>
          if fs (fl_file l) = None
          then (True, l\<lparr>fl_fd := Some fd, fl_acquired := True\<rparr>, fs(fl_file l \<mapsto> fd))
          else file_attempts fds n (l\<lparr>fl_fd := None\<rparr>) fs)"

definition file_acquire :: "(nat \<Rightarrow> nat option) \<Rightarrow> file_lock \<Rightarrow> flocks \<Rightarrow>
    bool \<times> file_lock \<times> flocks" where
  "file_acquire fds l fs = file_attempts fds (fl_max_retries l) l fs"

text \<open>\<open>LOCK_UN\<close> drops the lock if this description holds it.\<close>

definition file_release :: "file_lock \<Rightarrow> flocks \<Rightarrow> bool \<times> file_lock \<times> flocks" where
  "file_release l fs =
     (case fl_fd l of
        None \<Rightarrow> (False, l, fs)
      | Some fd \<Rightarrow>
          if \<not> fl_acquired l then (False, l, fs)
          else (True, l\<lparr>fl_fd := None, fl_acquired := False\<rparr>,
                if fs (fl_file l) = Some fd then fs(fl_file l := None) else fs))"

section \<open>The manager\<close>

datatype held = NoLock | HeldRedis redis_lock | HeldFile file_lock

definition manager_acquire :: "'r redis option \<Rightarrow> (nat \<Rightarrow> int) \<Rightarrow> (nat \<Rightarrow> nat option) \<Rightarrow> string \<Rightarrow>
    string \<Rightarrow> string \<Rightarrow> int \<Rightarrow> int \<Rightarrow> nat \<Rightarrow> 'r \<Rightarrow> flocks \<Rightarrow> held \<times> 'r \<times> flocks" where
  "manager_acquire client clock fds uuid lock_dir key timeout_ms retry_ms retries s fs =
     (case redis_acquire client clock (new_redis_lock uuid key timeout_ms retry_ms retries) s of
        (True, l, s') \<Rightarrow> (HeldRedis l, s', fs)
      | (False, _, s') \<Rightarrow>
          (case file_acquire fds (new_file_lock lock_dir key retries) fs of
             (True, l, fs') \<Rightarrow> (HeldFile l, s', fs')
           | (False, _, fs') \<Rightarrow> (NoLock, s', fs')))"

definition try_lock :: "'r redis option \<Rightarrow> (nat \<Rightarrow> int) \<Rightarrow> (nat \<Rightarrow> nat option) \<Rightarrow> string \<Rightarrow> string \<Rightarrow>
    string \<Rightarrow> int \<Rightarrow> int \<Rightarrow> 'r \<Rightarrow> flocks \<Rightarrow> held \<times> 'r \<times> flocks" where
  "try_lock client clock fds uuid lock_dir key timeout_ms retry_ms s fs =
     manager_acquire client clock fds uuid lock_dir key timeout_ms retry_ms 1 s fs"

text \<open>The \<open>finally\<close> of the context manager.\<close>

definition manager_release :: "'r redis option \<Rightarrow> int \<Rightarrow> int \<Rightarrow> held \<Rightarrow> 'r \<Rightarrow> flocks \<Rightarrow> 'r \<times> flocks" where
  "manager_release client t t' h s fs =
     (case h of
        NoLock \<Rightarrow> (s, fs)
      | HeldRedis l \<Rightarrow> (snd (snd (redis_release client t t' l s)), fs)
      | HeldFile l \<Rightarrow> (s, snd (snd (file_release l fs))))"

definition graph_evolve_lock_key :: "string \<Rightarrow> string" where
  "graph_evolve_lock_key g = ''graph:'' @ g @ '':evolve''"

definition graph_reindex_lock_key :: "string \<Rightarrow> string" where
  "graph_reindex_lock_key g = ''graph:'' @ g @ '':reindex''"

definition graph_write_lock_key :: "string \<Rightarrow> string" where
  "graph_write_lock_key g = ''graph:'' @ g @ '':write''"

text \<open>\<open>evolve_lock\<close> and \<open>reindex_lock\<close> use a manager with 30 s, 100 ms and ten attempts.\<close>

definition evolve_lock :: "'r redis option \<Rightarrow> (nat \<Rightarrow> int) \<Rightarrow> (nat \<Rightarrow> nat option) \<Rightarrow> string \<Rightarrow>
    string \<Rightarrow> string \<Rightarrow> 'r \<Rightarrow> flocks \<Rightarrow> held \<times> 'r \<times> flocks" where
  "evolve_lock client clock fds uuid lock_dir g s fs =
     manager_acquire client clock fds uuid lock_dir (graph_evolve_lock_key g) 30000 100 10 s fs"

definition reindex_lock :: "'r redis option \<Rightarrow> (nat \<Rightarrow> int) \<Rightarrow> (nat \<Rightarrow> nat option) \<Rightarrow> string \<Rightarrow>
    string \<Rightarrow> string \<Rightarrow> 'r \<Rightarrow> flocks \<Rightarrow> held \<times> 'r \<times> flocks" where
  "reindex_lock client clock fds uuid lock_dir g s fs =
     manager_acquire client clock fds uuid lock_dir (graph_reindex_lock_key g) 30000 100 10 s fs"

section \<open>Exclusion within one kind of lock\<close>

lemma set_ok: "redis_laws rd view \<Longrightarrow> rd_set_nx rd k v px t s = (Some True, s') \<Longrightarrow> view s t k = None
    \<and> (\<forall>t' \<ge> t. \<forall>k'. view s' t' k' =
         (if k' = k then (if t' < t + px then Some v else None) else view s t' k'))"
  unfolding redis_laws_def by (elim conjE) blast

lemma set_refused: "redis_laws rd view \<Longrightarrow> rd_set_nx rd k v px t s = (Some False, s') \<Longrightarrow>
    view s t k \<noteq> None \<and> (\<forall>t' \<ge> t. view s' t' = view s t')"
  unfolding redis_laws_def by (elim conjE) blast

lemma get_view: "redis_laws rd view \<Longrightarrow> rd_get rd k t s = Some r \<Longrightarrow> r = view s t k"
  unfolding redis_laws_def by (elim conjE) blast

lemma del_ok:
  assumes "redis_laws rd view" "rd_delete rd k t s = (True, s')" "t \<le> t'"
  shows "view s' t' = (view s t')(k := None)"
proof -
  have "\<forall>k t s s'. rd_delete rd k t s = (True, s') \<longrightarrow> (\<forall>t' \<ge> t. view s' t' = (view s t')(k := None))"
    using assms(1) unfolding redis_laws_def by (elim conjE)
  with assms(2,3) show ?thesis by simp
qed

text \<open>The clock does not run backwards during the attempts.\<close>

definition steady :: "(nat \<Rightarrow> int) \<Rightarrow> nat \<Rightarrow> bool" where
  "steady clock n \<longleftrightarrow> (\<forall>i j. i \<le> j \<and> j < n \<longrightarrow> clock j \<le> clock i)"

text \<open>A successful acquisition found the key free and leaves it owned until the timeout.\<close>

lemma redis_attempts_True:
  assumes "redis_laws rd view" "steady clock n"
    and "redis_attempts rd clock n l s = (True, l', s')"
  shows "l' = l\<lparr>rl_acquired := True\<rparr> \<and> (\<exists>m < n. view s (clock m) (rl_key l) = None
    \<and> (\<forall>t \<ge> clock m. t < clock m + rl_timeout l \<longrightarrow> view s' t (rl_key l) = Some (rl_value l)))"
  using assms(2-)
proof (induction n arbitrary: s)
  case (Suc n)
  obtain res s1 where set: "rd_set_nx rd (rl_key l) (rl_value l) (rl_timeout l) (clock n) s = (res, s1)"
    by (meson surj_pair)
  consider "res = None" | "res = Some True" | "res = Some False" by (cases res) auto
  then show ?case
  proof cases
    case 1
    with Suc.prems set show ?thesis by simp
  next
    case 2
    with set Suc.prems have "l' = l\<lparr>rl_acquired := True\<rparr>" "s' = s1" by simp_all
    with set_ok [OF assms(1), of "rl_key l" "rl_value l" "rl_timeout l" "clock n" s s1] set 2
    show ?thesis by auto
  next
    case 3
    with set Suc.prems have "redis_attempts rd clock n l s1 = (True, l', s')" by simp
    moreover have "steady clock n" using Suc.prems(1) by (simp add: steady_def)
    ultimately obtain m where m: "l' = l\<lparr>rl_acquired := True\<rparr>" "m < n" "view s1 (clock m) (rl_key l) = None"
      "\<forall>t \<ge> clock m. t < clock m + rl_timeout l \<longrightarrow> view s' t (rl_key l) = Some (rl_value l)"
      using Suc.IH by blast
    from set_refused [OF assms(1), of "rl_key l" "rl_value l" "rl_timeout l" "clock n" s s1] set 3
    have "\<forall>t \<ge> clock n. view s1 t = view s t" by simp
    moreover have "clock n \<le> clock m" using Suc.prems(1) m(2) by (simp add: steady_def)
    ultimately show ?thesis using m less_SucI by metis
  qed
qed simp

lemma redis_acquire_True:
  assumes "redis_laws rd view" "steady clock (rl_max_retries l)"
    and "redis_acquire (Some rd) clock l s = (True, l', s')"
  shows "\<exists>m < rl_max_retries l. \<forall>t \<ge> clock m. t < clock m + rl_timeout l \<longrightarrow>
    view s' t (rl_key l) = Some (rl_value l)"
proof -
  have "redis_attempts rd clock (rl_max_retries l) l s = (True, l', s')"
    using assms(3) by (simp add: redis_acquire_def)
  from redis_attempts_True [OF assms(1,2) this] show ?thesis by blast
qed

text \<open>While the key is live no attempt succeeds, and the state the others see is unchanged.\<close>

lemma redis_attempts_held:
  assumes "redis_laws rd view" "steady clock n" "\<forall>m < n. view s (clock m) (rl_key l) \<noteq> None"
  shows "\<not> fst (redis_attempts rd clock n l s)"
  using assms(2-)
proof (induction n arbitrary: s)
  case (Suc n)
  obtain res s1 where set: "rd_set_nx rd (rl_key l) (rl_value l) (rl_timeout l) (clock n) s = (res, s1)"
    by (meson surj_pair)
  consider "res = None" | "res = Some True" | "res = Some False" by (cases res) auto
  then show ?case
  proof cases
    case 1
    with set show ?thesis by simp
  next
    case 2
    with set set_ok [OF assms(1)] Suc.prems(2) show ?thesis by fastforce
  next
    case 3
    with set have eq: "\<forall>t \<ge> clock n. view s1 t = view s t"
      using set_refused [OF assms(1), of "rl_key l" "rl_value l" "rl_timeout l" "clock n" s s1] by simp
    have st: "steady clock n" using Suc.prems(1) by (simp add: steady_def)
    have "view s1 (clock m) (rl_key l) \<noteq> None" if "m < n" for m
    proof -
      have "clock n \<le> clock m" using Suc.prems(1) that by (simp add: steady_def)
      with eq Suc.prems(2) that show ?thesis by simp
    qed
    with Suc.IH [OF st] set 3 show ?thesis by simp
  qed
qed simp

lemma redis_exclusion:
  assumes "redis_laws rd view" and "steady clockA (rl_max_retries a)" "steady clockB (rl_max_retries b)"
    and "redis_acquire (Some rd) clockA a s = (True, a', s1)" and "rl_key b = rl_key a"
    and "\<forall>i < rl_max_retries a. \<forall>j < rl_max_retries b.
      clockA i \<le> clockB j \<and> clockB j < clockA i + rl_timeout a"
  shows "\<not> fst (redis_acquire (Some rd) clockB b s1)"
proof -
  from redis_acquire_True [OF assms(1,2,4)] obtain m where m: "m < rl_max_retries a"
    "\<forall>t \<ge> clockA m. t < clockA m + rl_timeout a \<longrightarrow> view s1 t (rl_key a) = Some (rl_value a)"
    by blast
  then have "\<forall>j < rl_max_retries b. view s1 (clockB j) (rl_key b) \<noteq> None"
    using assms(5,6) by simp
  with redis_attempts_held [OF assms(1,3)] show ?thesis by (simp add: redis_acquire_def)
qed

text \<open>
  Mutual exclusion of the Redis lock: after one client has acquired a key, no other acquisition
  of that key succeeds while all its attempts fall between the acquisition and the timeout, for
  every client library that keeps the documented laws of SET NX PX.
\<close>

theorem redis_lock_exclusive:
  assumes "redis_laws rd view" and "steady clockA (rl_max_retries a)" "steady clockB (rl_max_retries b)"
    and "redis_acquire (Some rd) clockA a s = (True, a', s1)" and "rl_key b = rl_key a"
    and "\<forall>i < rl_max_retries a. \<forall>j < rl_max_retries b.
      clockA i \<le> clockB j \<and> clockB j < clockA i + rl_timeout a"
  shows "\<not> fst (redis_acquire (Some rd) clockB b s1)"
  by (rule redis_exclusion [OF assms])

lemma file_attempts_held:
  "fs (fl_file l) \<noteq> None \<Longrightarrow> \<exists>l'. file_attempts fds n l fs = (False, l', fs)"
proof (induction n arbitrary: l)
  case (Suc n)
  from Suc.IH [of "l\<lparr>fl_fd := None\<rparr>"] Suc.prems show ?case by (auto split: option.split)
qed simp

lemma file_attempts_True:
  "file_attempts fds n l fs = (True, l', fs') \<Longrightarrow> \<exists>fd. fs (fl_file l) = None
     \<and> l' = l\<lparr>fl_fd := Some fd, fl_acquired := True\<rparr> \<and> fs' = fs(fl_file l \<mapsto> fd)"
proof (induction n arbitrary: l)
  case (Suc n)
  show ?case
  proof (cases "fds n")
    case None
    with Suc show ?thesis by fastforce
  next
    case (Some fd)
    with Suc show ?thesis by (cases "fs (fl_file l) = None") fastforce+
  qed
qed simp

lemma file_exclusion:
  assumes "file_acquire fds a fs = (True, a', fs1)" and "fl_file b = fl_file a"
  shows "\<not> fst (file_acquire fds' b fs1) \<and> snd (snd (file_acquire fds' b fs1)) = fs1
    \<and> snd (snd (file_release a' fs1)) = fs
    \<and> (fl_max_retries b = Suc n \<and> fds' n = Some fd \<longrightarrow> fst (file_acquire fds' b (snd (snd (file_release a' fs1)))))"
proof -
  from file_attempts_True assms(1) obtain f where f: "fs (fl_file a) = None"
    "a' = a\<lparr>fl_fd := Some f, fl_acquired := True\<rparr>" "fs1 = fs(fl_file a \<mapsto> f)"
    unfolding file_acquire_def by blast
  have "fs1 (fl_file b) \<noteq> None" using f assms(2) by simp
  from file_attempts_held [of fs1 b, OF this] have "\<not> fst (file_acquire fds' b fs1)
      \<and> snd (snd (file_acquire fds' b fs1)) = fs1"
    unfolding file_acquire_def by (metis fst_conv snd_conv)
  moreover have rel: "snd (snd (file_release a' fs1)) = fs"
    using f by (auto simp: file_release_def)
  ultimately show ?thesis using f(1) assms(2) by (auto simp: file_acquire_def)
qed

text \<open>
  Mutual exclusion of the file lock: after an acquisition nobody else acquires that file,
  whatever they try and however often, until the holder releases it, which frees it for the next
  first attempt.
\<close>

theorem file_lock_exclusive:
  assumes "file_acquire fds a fs = (True, a', fs1)" and "fl_file b = fl_file a"
  shows "\<not> fst (file_acquire fds' b fs1) \<and> snd (snd (file_acquire fds' b fs1)) = fs1
    \<and> snd (snd (file_release a' fs1)) = fs
    \<and> (fl_max_retries b = Suc n \<and> fds' n = Some fd \<longrightarrow> fst (file_acquire fds' b (snd (snd (file_release a' fs1)))))"
  by (rule file_exclusion [OF assms])

section \<open>Where the manager loses exclusion\<close>

text \<open>
  The manager is not exclusive while Redis is up: when one manager holds the Redis lock, a
  second one whose attempts are all refused because of that falls back to the file lock and
  acquires it, so both run their protected section.
\<close>

theorem lock_manager_not_exclusive:
  assumes "redis_laws rd view" and "steady clockA n" "steady clockB n"
    and "manager_acquire (Some rd) clockA fdsA uA lock_dir key timeout retry n s fs = (HeldRedis a, s1, fs1)"
    and "\<forall>i < n. \<forall>j < n. clockA i \<le> clockB j \<and> clockB j < clockA i + timeout"
    and "n = Suc k" "fdsB k = Some fd"
    and "fs (lock_dir @ ''/'' @ safe_key key @ ''.lock'') = None"
  shows "\<exists>b s2 fs2. manager_acquire (Some rd) clockB fdsB uB lock_dir key timeout retry n s1 fs1
    = (HeldFile b, s2, fs2) \<and> fl_acquired b"
proof -
  let ?a = "new_redis_lock uA key timeout retry n" and ?b = "new_redis_lock uB key timeout retry n"
  let ?f = "new_file_lock lock_dir key n"
  have A: "redis_acquire (Some rd) clockA ?a s = (True, a, s1)" "fs1 = fs"
    using assms(4) by (auto simp: manager_acquire_def split: prod.splits bool.splits)
  have "\<not> fst (redis_acquire (Some rd) clockB ?b s1)"
    by (rule redis_exclusion [OF assms(1) _ _ A(1)])
      (use assms(2,3,5) in \<open>simp_all add: new_redis_lock_def\<close>)
  then obtain b' s2 where B: "redis_acquire (Some rd) clockB ?b s1 = (False, b', s2)"
    by (cases "redis_acquire (Some rd) clockB ?b s1") auto
  have "file_acquire fdsB ?f fs = (True, ?f\<lparr>fl_fd := Some fd, fl_acquired := True\<rparr>,
      fs(fl_file ?f \<mapsto> fd))"
    using assms(6-8) by (simp add: file_acquire_def new_file_lock_def)
  with A(2) B show ?thesis by (simp add: manager_acquire_def)
qed

text \<open>
  The release is not atomic: if the lock expires after the ownership check and another client
  acquires it, the first client's DEL still runs and removes the other's lock before its timeout.
\<close>

theorem release_deletes_other_lock:
  assumes "redis_laws rd view" and "release_check (Some rd) t a s" and "steady clockB (rl_max_retries b)"
    and "redis_acquire (Some rd) clockB b s1 = (True, b', s2)" "rl_key b = rl_key a"
    and "\<forall>j < rl_max_retries b. clockB j \<le> t' \<and> t' < clockB j + rl_timeout b"
    and "release_delete rd t' a s2 = (True, a', s3)"
  shows "view s2 t' (rl_key b) = Some (rl_value b) \<and> view s3 t' (rl_key b) = None"
proof -
  from redis_acquire_True [OF assms(1,3,4)] obtain m where "m < rl_max_retries b"
    "\<forall>t \<ge> clockB m. t < clockB m + rl_timeout b \<longrightarrow> view s2 t (rl_key b) = Some (rl_value b)"
    by blast
  then have "view s2 t' (rl_key b) = Some (rl_value b)" using assms(6) by simp
  moreover have "rd_delete rd (rl_key a) t' s2 = (True, s3)"
    using assms(7) by (auto simp: release_delete_def split: prod.splits bool.splits)
  from del_ok [OF assms(1) this order_refl] have "view s3 t' (rl_key b) = None" using assms(5) by simp
  ultimately show ?thesis by simp
qed

text \<open>
  Without Redis the manager is exclusive: with no client, one manager holding a key keeps every
  other manager out of the same key until it releases, and the release restores the lock table.
\<close>

theorem lock_manager_exclusive_on_files:
  assumes "manager_acquire None clockA fdsA uA lock_dir key timeout retry n s fs = (h, s1, fs1)" "h \<noteq> NoLock"
  shows "manager_acquire None clockB fdsB uB lock_dir key timeout retry n s1 fs1 = (NoLock, s1, fs1)
    \<and> manager_release None t t' h s1 fs1 = (s, fs)"
proof -
  let ?f = "new_file_lock lock_dir key n"
  obtain l where l: "file_acquire fdsA ?f fs = (True, l, fs1)" "h = HeldFile l" "s1 = s"
    using assms by (auto simp: manager_acquire_def redis_acquire_def split: prod.splits bool.splits)
  from file_exclusion [OF l(1), of ?f fdsB] have
    x: "\<not> fst (file_acquire fdsB ?f fs1)" "snd (snd (file_acquire fdsB ?f fs1)) = fs1"
      "snd (snd (file_release l fs1)) = fs" by simp_all
  then show ?thesis
    by (cases "file_acquire fdsB ?f fs1")
      (simp add: manager_acquire_def redis_acquire_def manager_release_def l)
qed

section \<open>Concrete instances\<close>

text \<open>A client library that keeps the laws: a map with expiry times.\<close>

type_synonym ex_state = "string \<rightharpoonup> string \<times> int"

definition ex_view :: "ex_state \<Rightarrow> int \<Rightarrow> string \<rightharpoonup> string" where
  "ex_view s t k = (case s k of None \<Rightarrow> None | Some (v, e) \<Rightarrow> if t < e then Some v else None)"

definition ex_redis :: "ex_state redis" where
  "ex_redis = \<lparr>rd_set_nx = (\<lambda>k v px t s.
       if ex_view s t k = None then (Some True, s(k \<mapsto> (v, t + px))) else (Some False, s)),
     rd_get = (\<lambda>k t s. Some (ex_view s t k)),
     rd_delete = (\<lambda>k t s. (True, s(k := None)))\<rparr>"

lemma ex_redis_laws: "redis_laws ex_redis ex_view"
proof -
  have "ex_view (s(k := None)) t = (ex_view s t)(k := None)" for s k t
    by (rule ext) (simp add: ex_view_def)
  then show ?thesis
    unfolding redis_laws_def
    by (auto simp: ex_redis_def ex_view_def split: option.splits if_splits)
qed

lemma ex_steady [simp]: "steady (\<lambda>i. c) n"
  by (simp add: steady_def)

definition ex_lock :: "string \<Rightarrow> redis_lock" where
  "ex_lock u = new_redis_lock u ''g'' 10 1 1"

lemma ex_acquire: "redis_acquire (Some ex_redis) (\<lambda>i. t) (ex_lock u) Map.empty
    = (True, (ex_lock u)\<lparr>rl_acquired := True\<rparr>, [''faim:lock:g'' \<mapsto> (u, t + 10)])"
  by (simp add: redis_acquire_def ex_lock_def new_redis_lock_def ex_redis_def ex_view_def)

lemma redis_lock_exclusive_witness:
  "\<not> fst (redis_acquire (Some ex_redis) (\<lambda>i. 5) (ex_lock ''b'') [''faim:lock:g'' \<mapsto> (''a'', 0 + 10)])"
  by (rule redis_lock_exclusive [OF ex_redis_laws _ _ ex_acquire [of 0]])
    (simp_all add: ex_lock_def new_redis_lock_def)

definition ex_file :: file_lock where
  "ex_file = new_file_lock ''/tmp'' ''g'' 1"

lemma file_lock_exclusive_witness:
  "\<not> fst (file_acquire (\<lambda>n. Some 4) ex_file [fl_file ex_file \<mapsto> 3])"
proof -
  have "file_acquire (\<lambda>n. Some 3) ex_file Map.empty
      = (True, ex_file\<lparr>fl_fd := Some 3, fl_acquired := True\<rparr>, [fl_file ex_file \<mapsto> 3])"
    by (simp add: file_acquire_def ex_file_def new_file_lock_def)
  from file_lock_exclusive [OF this refl, of "\<lambda>n. Some 4" 0 3] show ?thesis by simp
qed

lemma lock_manager_not_exclusive_witness:
  "\<exists>a s1 b s2 fs2. manager_acquire (Some ex_redis) (\<lambda>i. 0) (\<lambda>n. Some 3) ''a'' ''/tmp'' ''g'' 10 1 1
       Map.empty Map.empty = (HeldRedis a, s1, Map.empty)
     \<and> manager_acquire (Some ex_redis) (\<lambda>i. 5) (\<lambda>n. Some 4) ''b'' ''/tmp'' ''g'' 10 1 1 s1 Map.empty
       = (HeldFile b, s2, fs2)"
proof -
  let ?s1 = "[''faim:lock:g'' \<mapsto> (''a'', 0 + 10)] :: ex_state"
  have A: "manager_acquire (Some ex_redis) (\<lambda>i. 0) (\<lambda>n. Some 3) ''a'' ''/tmp'' ''g'' 10 1 1
      Map.empty Map.empty = (HeldRedis ((ex_lock ''a'')\<lparr>rl_acquired := True\<rparr>), ?s1, Map.empty)"
    using ex_acquire [of 0 "''a''"] by (simp add: manager_acquire_def ex_lock_def)
  from lock_manager_not_exclusive [OF ex_redis_laws _ _ A, of "\<lambda>i. 5" 0 "\<lambda>n. Some 4" 4 "''b''"] A
  show ?thesis by (simp del: One_nat_def) blast
qed

lemma release_deletes_other_lock_witness:
  "\<exists>s2 s3 a'. ex_view s2 21 ''faim:lock:g'' = Some ''b'' \<and> ex_view s3 21 ''faim:lock:g'' = None
     \<and> release_delete ex_redis 21 ((ex_lock ''a'')\<lparr>rl_acquired := True\<rparr>) s2 = (True, a', s3)"
proof -
  let ?a = "(ex_lock ''a'')\<lparr>rl_acquired := True\<rparr>"
  have chk: "release_check (Some ex_redis) 9 ?a [''faim:lock:g'' \<mapsto> (''a'', 0 + 10)]"
    by (simp add: release_check_def ex_redis_def ex_view_def ex_lock_def new_redis_lock_def)
  have key: "rl_key ?a = ''faim:lock:g''" "rl_key (ex_lock ''b'') = ''faim:lock:g''"
    "rl_value (ex_lock ''b'') = ''b''" "rl_timeout (ex_lock ''b'') = 10"
    "rl_max_retries (ex_lock ''b'') = 1"
    by (simp_all add: ex_lock_def new_redis_lock_def)
  have del: "release_delete ex_redis 21 ?a [''faim:lock:g'' \<mapsto> (''b'', 20 + 10)]
      = (True, ?a\<lparr>rl_acquired := False\<rparr>, [''faim:lock:g'' \<mapsto> (''b'', 20 + 10)](''faim:lock:g'' := None))"
    unfolding release_delete_def key by (simp add: ex_redis_def)
  from release_deletes_other_lock [OF ex_redis_laws chk _ ex_acquire [of 20 "''b''"] _ _ del]
  show ?thesis using del by (simp add: key) blast
qed

lemma lock_manager_exclusive_on_files_witness:
  "manager_acquire (None :: ex_state redis option) (\<lambda>i. 1) (\<lambda>n. Some 4) ''b'' ''/tmp'' ''g'' 10 1 1 Map.empty
     [fl_file ex_file \<mapsto> 3] = (NoLock, Map.empty, [fl_file ex_file \<mapsto> 3])"
proof -
  have A: "manager_acquire (None :: ex_state redis option) (\<lambda>i. 0) (\<lambda>n. Some 3) ''a'' ''/tmp'' ''g'' 10 1 1
      Map.empty Map.empty
    = (HeldFile (ex_file\<lparr>fl_fd := Some 3, fl_acquired := True\<rparr>), Map.empty, [fl_file ex_file \<mapsto> 3])"
    by (simp add: manager_acquire_def redis_acquire_def file_acquire_def ex_file_def new_file_lock_def)
  from lock_manager_exclusive_on_files [OF A] show ?thesis by simp
qed

end
