(* ===== verification/FM_Hot_Cache.thy ===== *)
theory FM_Hot_Cache
  imports FM_Interfaces
begin

text \<open>
  The warm node cache, \<open>orchestration/perf/hot_cache.py\<close>: an LRU map with a hard size cap and
  counters. The ordered dictionary is an association list, least recently used first; a cached
  record may be Python's None, which reads as absent. Each public method holds the lock, so it is
  one step; loaders are arguments.

  The lemmas show the size and counter invariants, that the cached keys are exactly the most
  recently used ones, and that a cache that agrees with its backing store stays so and makes
  \<open>get_many\<close> transparent.
\<close>

record cache_stats =
  hits :: int
  misses :: int
  loads :: int
  puts :: int
  evictions :: int
  csize :: int

record ('k, 'v) hot_cache =
  hc_max :: nat
  hc_store :: "('k \<times> 'v option) list"
  hc_stats :: cache_stats

section \<open>Operations\<close>

text \<open>The capacity: the override if given, else the budget's; negative values are rejected.\<close>

definition new_cache :: "int \<Rightarrow> int option \<Rightarrow> string + ('k, 'v) hot_cache" where
  "new_cache budget override =
     (let m = (case override of None \<Rightarrow> budget | Some m \<Rightarrow> m) in
      if m < 0 then Inl ''max_warm_nodes must be non-negative''
      else Inr \<lparr>hc_max = nat m, hc_store = [],
        hc_stats = \<lparr>hits = 0, misses = 0, loads = 0, puts = 0, evictions = 0, csize = 0\<rparr>\<rparr>)"

definition total_requests :: "cache_stats \<Rightarrow> int" where
  "total_requests s = hits s + misses s"

definition clear :: "('k, 'v) hot_cache \<Rightarrow> ('k, 'v) hot_cache" where
  "clear c = c\<lparr>hc_store := [], hc_stats := (hc_stats c)\<lparr>csize := 0\<rparr>\<rparr>"

definition cache_len :: "('k, 'v) hot_cache \<Rightarrow> nat" where
  "cache_len c = length (hc_store c)"

text \<open>\<open>OrderedDict.get\<close> (None for an absent key) and \<open>move_to_end(k, last=True)\<close>.\<close>

definition od_get :: "('k \<times> 'v option) list \<Rightarrow> 'k \<Rightarrow> 'v option" where
  "od_get s k = (case map_of s k of None \<Rightarrow> None | Some r \<Rightarrow> r)"

definition move_to_end :: "'k \<Rightarrow> ('k \<times> 'v option) list \<Rightarrow> ('k \<times> 'v option) list" where
  "move_to_end k s =
     (case map_of s k of None \<Rightarrow> s | Some r \<Rightarrow> al_del k s @ [(k, r)])"

definition get_if_present :: "'k \<Rightarrow> ('k, 'v) hot_cache \<Rightarrow> ('k, 'v) hot_cache \<times> 'v option" where
  "get_if_present k c =
     (if hc_max c = 0 then (c, None)
      else case od_get (hc_store c) k of
        None \<Rightarrow> (c\<lparr>hc_stats := (hc_stats c)\<lparr>misses := misses (hc_stats c) + 1\<rparr>\<rparr>, None)
      | Some r \<Rightarrow> (c\<lparr>hc_store := move_to_end k (hc_store c),
                      hc_stats := (hc_stats c)\<lparr>hits := hits (hc_stats c) + 1\<rparr>\<rparr>, Some r))"

text \<open>\<open>popitem(last=False)\<close> while over capacity; the counters move with it.\<close>

function evict :: "('k, 'v) hot_cache \<Rightarrow> ('k, 'v) hot_cache" where
  "evict c =
     (if hc_max c < length (hc_store c)
      then evict (c\<lparr>hc_store := tl (hc_store c),
             hc_stats := (hc_stats c)\<lparr>evictions := evictions (hc_stats c) + 1\<rparr>\<rparr>)
      else c)"
  by pat_completeness auto
termination by (relation "measure (\<lambda>c. length (hc_store c))") auto

declare evict.simps [simp del]

text \<open>The eviction loop is written twice in a row in the code.\<close>

definition put_locked :: "'k \<Rightarrow> 'v option \<Rightarrow> ('k, 'v) hot_cache \<Rightarrow> ('k, 'v) hot_cache" where
  "put_locked k r c =
     (if hc_max c = 0 then c
      else if map_of (hc_store c) k \<noteq> None
      then c\<lparr>hc_store := move_to_end k (al_put k r (hc_store c)),
             hc_stats := (hc_stats c)\<lparr>puts := puts (hc_stats c) + 1\<rparr>\<rparr>
      else
        let c1 = c\<lparr>hc_store := move_to_end k (al_put k r (hc_store c)),
                   hc_stats := (hc_stats c)\<lparr>puts := puts (hc_stats c) + 1\<rparr>\<rparr>;
            c2 = evict (evict c1)
        in c2\<lparr>hc_stats := (hc_stats c2)\<lparr>csize := int (length (hc_store c2))\<rparr>\<rparr>)"

definition put :: "'k \<Rightarrow> 'v option \<Rightarrow> ('k, 'v) hot_cache \<Rightarrow> ('k, 'v) hot_cache" where
  "put k r c = (if hc_max c = 0 then c else put_locked k r c)"

definition remove :: "'k \<Rightarrow> ('k, 'v) hot_cache \<Rightarrow> ('k, 'v) hot_cache" where
  "remove k c =
     (if map_of (hc_store c) k \<noteq> None
      then c\<lparr>hc_store := al_del k (hc_store c),
             hc_stats := (hc_stats c)\<lparr>csize := int (length (al_del k (hc_store c)))\<rparr>\<rparr>
      else c)"

text \<open>A single loader raises KeyError (None) or returns a record.\<close>

type_synonym ('k, 'v) bulk = "'k list \<Rightarrow> ('k \<times> 'v option) list"
type_synonym ('k, 'v) single = "'k \<Rightarrow> 'v option option"

fun load_singles :: "('k, 'v) single \<Rightarrow> 'k list \<Rightarrow> ('k \<times> 'v option) list \<Rightarrow> ('k \<times> 'v option) list" where
  "load_singles f [] acc = acc"
| "load_singles f (k # ks) acc =
     (case f k of None \<Rightarrow> load_singles f ks acc | Some r \<Rightarrow> load_singles f ks (al_put k r acc))"

definition add_stats :: "int \<Rightarrow> int \<Rightarrow> ('k, 'v) hot_cache \<Rightarrow> ('k, 'v) hot_cache" where
  "add_stats m l c =
     c\<lparr>hc_stats := (hc_stats c)\<lparr>misses := misses (hc_stats c) + m, loads := loads (hc_stats c) + l\<rparr>\<rparr>"

definition load_all_no_cache :: "'k list \<Rightarrow> ('k, 'v) bulk option \<Rightarrow> ('k, 'v) single option \<Rightarrow>
    ('k, 'v) hot_cache \<Rightarrow> ('k, 'v) hot_cache \<times> (string + ('k \<rightharpoonup> 'v option))" where
  "load_all_no_cache ks bulk single c =
     (case bulk of
        Some f \<Rightarrow> (add_stats (int (length ks)) (int (length (f ks))) c, Inr (map_of (f ks)))
      | None \<Rightarrow>
          (case single of
             None \<Rightarrow> (c, Inl ''HotNodeCache: cache disabled and no loader provided'')
           | Some f \<Rightarrow>
               let r = load_singles f ks [] in
               (add_stats (int (length ks)) (int (length r)) c, Inr (map_of r))))"

text \<open>The first pass: hits are collected and marked recently used, the others are missing.\<close>

fun classify_ids :: "'k list \<Rightarrow> ('k, 'v) hot_cache \<Rightarrow> ('k \<times> 'v option) list \<Rightarrow> 'k list \<Rightarrow>
    ('k, 'v) hot_cache \<times> ('k \<times> 'v option) list \<times> 'k list" where
  "classify_ids [] c hs ms = (c, hs, ms)"
| "classify_ids (k # ks) c hs ms =
     (case od_get (hc_store c) k of
        Some r \<Rightarrow> classify_ids ks
          (c\<lparr>hc_store := move_to_end k (hc_store c),
             hc_stats := (hc_stats c)\<lparr>hits := hits (hc_stats c) + 1\<rparr>\<rparr>) (al_put k (Some r) hs) ms
      | None \<Rightarrow> classify_ids ks c hs (ms @ [k]))"

definition get_many :: "'k list \<Rightarrow> ('k, 'v) bulk option \<Rightarrow> ('k, 'v) single option \<Rightarrow>
    ('k, 'v) hot_cache \<Rightarrow> ('k, 'v) hot_cache \<times> (string + ('k \<rightharpoonup> 'v option))" where
  "get_many ks bulk single c =
     (if ks = [] then (c, Inr Map.empty)
      else if hc_max c = 0 then load_all_no_cache ks bulk single c
      else
        let (c1, hs, ms) = classify_ids ks c [] [];
            c2 = add_stats (int (length ms)) 0 c1
        in if ms = [] then (c2, Inr (map_of hs))
           else
             (case (case bulk of
                      Some f \<Rightarrow> Some (f ms)
                    | None \<Rightarrow> (case single of None \<Rightarrow> None | Some f \<Rightarrow> Some (load_singles f ms []))) of
                None \<Rightarrow> (c2, Inl ''either bulk_loader or single_loader must be provided'')
              | Some loaded \<Rightarrow>
                  let c3 = add_stats 0 (int (length loaded)) c2;
                      c4 = foldl (\<lambda>c (k, r). put_locked k r c) c3 loaded
                  in (c4, Inr (map_of hs ++ map_of loaded))))"

section \<open>Store lemmas\<close>

lemma length_al_del:
  assumes "distinct (al_keys s)" "k \<in> set (al_keys s)"
  shows "length (al_del k s) = length s - 1" "length s \<noteq> 0"
proof -
  have "al_keys (al_del k s) = removeAll k (al_keys s)"
    by (simp add: al_keys_def al_del_def removeAll_filter_not_eq filter_map o_def eq_commute)
  also have "\<dots> = remove1 k (al_keys s)" using assms(1) by (rule distinct_remove1_removeAll [symmetric])
  finally have "length (al_keys (al_del k s)) = length (al_keys s) - 1"
    using assms(2) by (simp add: length_remove1)
  then show "length (al_del k s) = length s - 1" by (simp add: al_keys_def)
  show "length s \<noteq> 0" using assms(2) by (auto simp: al_keys_def)
qed

lemma length_move_to_end [simp]:
  assumes "distinct (al_keys s)"
  shows "length (move_to_end k s) = length s"
proof (cases "map_of s k")
  case (Some r)
  then have "k \<in> set (al_keys s)" using map_of_in_keys [of s k] by simp
  from length_al_del [OF assms this] Some show ?thesis by (simp add: move_to_end_def)
qed (simp add: move_to_end_def)

lemma map_of_move_to_end [simp]: "map_of (move_to_end k s) = map_of s"
  by (auto simp: move_to_end_def map_add_def fun_eq_iff split: option.split)

lemma distinct_move_to_end [simp]: "distinct (al_keys s) \<Longrightarrow> distinct (al_keys (move_to_end k s))"
  using distinct_al_del [of s k]
  by (auto simp: move_to_end_def al_keys_def al_del_def split: option.split)

lemma keys_move_to_end:
  "map_of s k \<noteq> None \<Longrightarrow> al_keys (move_to_end k s) = filter (\<lambda>x. x \<noteq> k) (al_keys s) @ [k]"
  by (auto simp: move_to_end_def al_keys_def al_del_def filter_map o_def split: option.split)

lemma keys_touch:
  "al_keys (move_to_end k (al_put k r s)) = filter (\<lambda>x. x \<noteq> k) (al_keys s) @ [k]"
proof -
  have "filter (\<lambda>x. x \<noteq> k) (al_keys (al_put k r s)) = filter (\<lambda>x. x \<noteq> k) (al_keys s)"
    by (induction k r s rule: al_put.induct) (auto simp: al_keys_def)
  then show ?thesis by (simp add: keys_move_to_end)
qed

lemma evict_eq:
  "evict c = c\<lparr>hc_store := drop (length (hc_store c) - hc_max c) (hc_store c),
     hc_stats := (hc_stats c)\<lparr>evictions := evictions (hc_stats c)
        + int (length (hc_store c) - hc_max c)\<rparr>\<rparr>"
proof (induction c rule: evict.induct)
  case (1 c)
  show ?case
  proof (cases "hc_max c < length (hc_store c)")
    case True
    then have "length (hc_store c) - hc_max c = Suc (length (tl (hc_store c)) - hc_max c)" by simp
    with 1 True show ?thesis
      by (subst evict.simps) (simp add: drop_Suc)
  next
    case False
    then show ?thesis by (subst evict.simps) simp
  qed
qed

section \<open>Invariant\<close>

definition cache_ok :: "('k, 'v) hot_cache \<Rightarrow> bool" where
  "cache_ok c \<longleftrightarrow> distinct (al_keys (hc_store c)) \<and> length (hc_store c) \<le> hc_max c
     \<and> csize (hc_stats c) = int (length (hc_store c))"

lemma put_locked_store:
  assumes "cache_ok c" "hc_max c \<noteq> 0"
  shows "hc_store (put_locked k r c) = (let s = move_to_end k (al_put k r (hc_store c))
      in drop (length s - hc_max c) s)" "hc_max (put_locked k r c) = hc_max c"
proof -
  have "length (al_put k r s) = length s" if "map_of s k \<noteq> None" for s
    using that by (induction k r s rule: al_put.induct) auto
  then have "length (move_to_end k (al_put k r (hc_store c))) \<le> hc_max c" if "map_of (hc_store c) k \<noteq> None"
    using that assms(1) by (simp add: cache_ok_def)
  then show "hc_store (put_locked k r c) = (let s = move_to_end k (al_put k r (hc_store c))
      in drop (length s - hc_max c) s)"
    using assms(2) by (auto simp: put_locked_def evict_eq Let_def)
  show "hc_max (put_locked k r c) = hc_max c" by (simp add: put_locked_def evict_eq Let_def)
qed

lemma put_locked_ok: "cache_ok c \<Longrightarrow> cache_ok (put_locked k r c)"
proof (cases "hc_max c = 0")
  case False
  assume ok: "cache_ok c"
  have len: "length (al_put k r s) = length s" if "map_of s k \<noteq> None" for s
    using that by (induction k r s rule: al_put.induct) auto
  have "csize (hc_stats (put_locked k r c)) = int (length (hc_store (put_locked k r c)))"
    using False ok by (auto simp: put_locked_def Let_def cache_ok_def len)
  moreover have "distinct (al_keys (hc_store (put_locked k r c)))"
    "length (hc_store (put_locked k r c)) \<le> hc_max (put_locked k r c)"
    using ok False unfolding put_locked_store [OF ok False]
    by (simp_all add: Let_def cache_ok_def al_keys_def drop_map [symmetric])
       (metis al_keys_def distinct_al_put distinct_drop distinct_move_to_end)
  ultimately show ?thesis by (simp add: cache_ok_def)
qed (simp add: put_locked_def)

lemma put_ok: "cache_ok c \<Longrightarrow> cache_ok (put k r c)"
  by (simp add: put_def put_locked_ok)

lemma max_put_locked [simp]: "hc_max (put_locked k r c) = hc_max c"
  by (simp add: put_locked_def evict_eq Let_def)

lemma touch_ok: "cache_ok c \<Longrightarrow>
    cache_ok (c\<lparr>hc_store := move_to_end k (hc_store c), hc_stats := (hc_stats c)\<lparr>hits := h\<rparr>\<rparr>)"
  by (simp add: cache_ok_def)

lemma get_ok: "cache_ok c \<Longrightarrow> cache_ok (fst (get_if_present k c))"
  by (auto simp: get_if_present_def cache_ok_def split: option.split)

lemma remove_ok: "cache_ok c \<Longrightarrow> cache_ok (remove k c)"
  by (auto simp: remove_def cache_ok_def al_del_def intro: le_trans [OF length_filter_le]
      simp: al_keys_def distinct_map_filter)

lemma add_stats_ok [simp]: "cache_ok (add_stats m l c) = cache_ok c" "hc_max (add_stats m l c) = hc_max c"
  "hc_store (add_stats m l c) = hc_store c"
  by (simp_all add: add_stats_def cache_ok_def)

lemma classify_ids_ok:
  "cache_ok c \<Longrightarrow> cache_ok (fst (classify_ids ks c hs ms)) \<and> hc_max (fst (classify_ids ks c hs ms)) = hc_max c
     \<and> map_of (hc_store (fst (classify_ids ks c hs ms))) = map_of (hc_store c)"
proof (induction ks arbitrary: c hs ms)
  case (Cons k ks)
  show ?case
  proof (cases "od_get (hc_store c) k")
    case None
    with Cons show ?thesis by simp
  next
    case (Some r)
    with Cons.IH [OF touch_ok [OF Cons.prems, where k = k and h = "hits (hc_stats c) + 1"]] show ?thesis by simp
  qed
qed simp

lemma foldl_put_ok:
  "cache_ok c \<Longrightarrow> cache_ok (foldl (\<lambda>c (k, r). put_locked k r c) c xs)
     \<and> hc_max (foldl (\<lambda>c (k, r). put_locked k r c) c xs) = hc_max c"
  by (induction xs arbitrary: c) (auto simp: put_locked_ok split: prod.split)

lemma get_many_ok: "cache_ok c \<Longrightarrow> cache_ok (fst (get_many ks bulk single c))
    \<and> hc_max (fst (get_many ks bulk single c)) = hc_max c"
  using classify_ids_ok [of c ks "[]" "[]"]
  by (auto simp: get_many_def load_all_no_cache_def Let_def foldl_put_ok split: prod.split option.split)

datatype ('k, 'v) cache_op = Put 'k "'v option" | Get 'k | Remove 'k | Clear
  | GetMany "'k list" "('k, 'v) bulk option" "('k, 'v) single option"

fun run_op :: "('k, 'v) hot_cache \<Rightarrow> ('k, 'v) cache_op \<Rightarrow> ('k, 'v) hot_cache" where
  "run_op c (Put k r) = put k r c"
| "run_op c (Get k) = fst (get_if_present k c)"
| "run_op c (Remove k) = remove k c"
| "run_op c Clear = clear c"
| "run_op c (GetMany ks b s) = fst (get_many ks b s c)"

lemma clear_ok: "cache_ok c \<Longrightarrow> cache_ok (clear c)"
  by (simp add: clear_def cache_ok_def al_keys_def)

lemma run_op_ok: "cache_ok c \<Longrightarrow> cache_ok (run_op c op)"
  by (cases op) (simp_all add: put_ok get_ok remove_ok get_many_ok clear_ok)

lemma run_op_max: "cache_ok c \<Longrightarrow> hc_max (run_op c op) = hc_max c"
  by (cases op) (auto simp: get_many_ok clear_def put_def get_if_present_def remove_def
      split: option.split)

text \<open>
  Cache invariant: after any sequence of operations, with any loaders, the cache never holds
  more records than its capacity, no id twice, and the size counter is the number of records.
\<close>

theorem hot_cache_bounded:
  assumes "new_cache budget override = Inr c0"
  shows "let c = foldl run_op c0 ops in distinct (al_keys (hc_store c)) \<and>
    int (cache_len c) \<le> (case override of None \<Rightarrow> budget | Some m \<Rightarrow> m) \<and>
    csize (hc_stats c) = int (cache_len c)"
proof -
  have c0: "cache_ok c0" "int (hc_max c0) = (case override of None \<Rightarrow> budget | Some m \<Rightarrow> m)"
    using assms by (auto simp: new_cache_def cache_ok_def al_keys_def Let_def split: if_splits)
  have "cache_ok c \<Longrightarrow> cache_ok (foldl run_op c ops) \<and> hc_max (foldl run_op c ops) = hc_max c" for c
    by (induction ops arbitrary: c) (simp_all add: run_op_ok run_op_max)
  from this [OF c0(1)] c0(2) show ?thesis
    by (auto simp: cache_ok_def cache_len_def Let_def)
qed

section \<open>Least recently used\<close>

text \<open>The n most recently used distinct ids of a history, latest first.\<close>

definition recent :: "nat \<Rightarrow> 'k list \<Rightarrow> 'k list" where
  "recent n hist = take n (rev (remdups hist))"

lemma remdups_snoc: "remdups (ks @ [k]) = filter (\<lambda>x. x \<noteq> k) (remdups ks) @ [k]"
  by (induction ks) auto

lemma take_filter_distinct:
  "distinct xs \<Longrightarrow> take n (filter (\<lambda>x. x \<noteq> k) (take (Suc n) xs)) = take n (filter (\<lambda>x. x \<noteq> k) xs)"
proof (induction xs arbitrary: n)
  case (Cons x xs)
  show ?case
  proof (cases "x = k")
    case True
    with Cons.prems have "filter (\<lambda>y. y \<noteq> k) xs = xs" by (auto simp: filter_id_conv)
    moreover have "filter (\<lambda>y. y \<noteq> k) (take n xs) = take n xs"
      using Cons.prems True by (auto simp: filter_id_conv dest: in_set_takeD)
    ultimately show ?thesis using True by simp
  next
    case False
    with Cons show ?thesis by (cases n) simp_all
  qed
qed simp

lemma recent_snoc: "recent n (hist @ [k]) = take n (k # filter (\<lambda>x. x \<noteq> k) (recent n hist))"
proof (cases n)
  case (Suc m)
  have "take m (filter (\<lambda>x. x \<noteq> k) (take (Suc m) (rev (remdups hist))))
      = take m (filter (\<lambda>x. x \<noteq> k) (rev (remdups hist)))"
    by (rule take_filter_distinct) simp
  then show ?thesis by (simp add: recent_def remdups_snoc Suc rev_filter)
qed (simp add: recent_def)

lemma rev_drop_len: "rev (drop (length s - n) s) = take n (rev s)"
  by (cases "n \<le> length s") (simp_all add: rev_drop)

lemma put_locked_recent:
  assumes "cache_ok c" "hc_max c \<noteq> 0" "rev (al_keys (hc_store c)) = recent (hc_max c) hist"
  shows "rev (al_keys (hc_store (put_locked k r c))) = recent (hc_max c) (hist @ [k])"
proof -
  let ?s = "move_to_end k (al_put k r (hc_store c))"
  have "rev (al_keys (hc_store (put_locked k r c))) = rev (drop (length ?s - hc_max c) (al_keys ?s))"
    by (simp add: put_locked_store [OF assms(1,2)] Let_def al_keys_def drop_map)
  also have "length ?s = length (al_keys ?s)" by (simp add: al_keys_def)
  also have "rev (drop (length (al_keys ?s) - hc_max c) (al_keys ?s)) = take (hc_max c) (rev (al_keys ?s))"
    by (rule rev_drop_len)
  also have "\<dots> = take (hc_max c) (k # filter (\<lambda>x. x \<noteq> k) (rev (al_keys (hc_store c))))"
    by (simp add: keys_touch rev_filter)
  finally show ?thesis by (simp add: assms(3) recent_snoc)
qed

text \<open>The abstract LRU machine: a history of uses and the last value written per id.\<close>

datatype ('k, 'v) access = Write 'k 'v | Read 'k

fun lru_spec :: "nat \<Rightarrow> 'k list \<times> ('k \<rightharpoonup> 'v) \<Rightarrow> ('k, 'v) access \<Rightarrow> 'k list \<times> ('k \<rightharpoonup> 'v)" where
  "lru_spec n (hist, m) (Write k v) = (hist @ [k], m(k \<mapsto> v))"
| "lru_spec n (hist, m) (Read k) = (if k \<in> set (recent n hist) then hist @ [k] else hist, m)"

fun run_access :: "('k, 'v) hot_cache \<Rightarrow> ('k, 'v) access \<Rightarrow> ('k, 'v) hot_cache" where
  "run_access c (Write k v) = put k (Some v) c"
| "run_access c (Read k) = fst (get_if_present k c)"

definition lru_abs :: "('k, 'v) hot_cache \<Rightarrow> 'k list \<times> ('k \<rightharpoonup> 'v) \<Rightarrow> bool" where
  "lru_abs c a \<longleftrightarrow> cache_ok c \<and> rev (al_keys (hc_store c)) = recent (hc_max c) (fst a)
     \<and> (\<forall>k r. map_of (hc_store c) k = Some r \<longrightarrow> r = snd a k \<and> r \<noteq> None)"

lemma map_of_put_locked:
  assumes "cache_ok c" "hc_max c \<noteq> 0" "map_of (hc_store (put_locked k r c)) i = Some x"
  shows "x = (if i = k then r else x) \<and> (i \<noteq> k \<longrightarrow> map_of (hc_store c) i = Some x)"
proof -
  let ?s = "move_to_end k (al_put k r (hc_store c))"
  have d: "distinct (map fst ?s)"
    using assms(1) by (metis al_keys_def cache_ok_def distinct_al_put distinct_move_to_end)
  have "(i, x) \<in> set (drop (length ?s - hc_max c) ?s)"
    using assms(3) put_locked_store [OF assms(1,2), of k r] by (simp add: Let_def map_of_SomeD)
  then have "(i, x) \<in> set ?s" by (rule in_set_dropD)
  with d have "map_of ?s i = Some x" by (rule map_of_is_SomeI)
  then have "((map_of (hc_store c))(k \<mapsto> r)) i = Some x"
    by (simp only: map_of_move_to_end map_of_al_put)
  then show ?thesis by (simp split: if_splits)
qed

lemma lru_abs_step:
  assumes "lru_abs c a"
  shows "lru_abs (run_access c acc) (lru_spec (hc_max c) a acc) \<and> hc_max (run_access c acc) = hc_max c"
proof (cases "hc_max c = 0")
  case True
  with assms have "hc_store c = []" by (simp add: lru_abs_def cache_ok_def)
  with assms True show ?thesis
    by (cases acc; cases a) (auto simp: lru_abs_def put_def get_if_present_def recent_def al_keys_def)
next
  case False
  from assms have ok: "cache_ok c" and keys: "rev (al_keys (hc_store c)) = recent (hc_max c) (fst a)"
    and vals: "\<And>k r. map_of (hc_store c) k = Some r \<Longrightarrow> r = snd a k \<and> r \<noteq> None"
    by (auto simp: lru_abs_def)
  obtain hist m where a: "a = (hist, m)" by (cases a)
  show ?thesis
  proof (cases acc)
    case (Write k v)
    have "rev (al_keys (hc_store (put_locked k (Some v) c))) = recent (hc_max c) (hist @ [k])"
      using put_locked_recent [OF ok False] keys a by simp
    moreover have "x = (if i = k then Some v else m i) \<and> x \<noteq> None"
      if "map_of (hc_store (put_locked k (Some v) c)) i = Some x" for i x
      using map_of_put_locked [OF ok False that] vals [of i x] a by (auto split: if_splits)
    ultimately show ?thesis
      using False ok by (simp add: Write a lru_abs_def put_def put_locked_ok)
  next
    case (Read k)
    have mem: "k \<in> set (recent (hc_max c) hist) \<longleftrightarrow> map_of (hc_store c) k \<noteq> None"
      using keys a map_of_in_keys [of "hc_store c" k] by (metis fst_conv set_rev)
    show ?thesis
    proof (cases "map_of (hc_store c) k")
      case None
      then have "run_access c acc = c\<lparr>hc_stats := (hc_stats c)\<lparr>misses := misses (hc_stats c) + 1\<rparr>\<rparr>"
        using False by (simp add: Read get_if_present_def od_get_def)
      with None mem assms show ?thesis by (simp add: Read a lru_abs_def cache_ok_def)
    next
      case (Some r)
      with vals obtain v where r: "r = Some v" by blast
      have "rev (al_keys (move_to_end k (hc_store c)))
          = k # filter (\<lambda>x. x \<noteq> k) (rev (al_keys (hc_store c)))"
        using Some by (simp add: keys_move_to_end rev_filter)
      moreover have "length (k # filter (\<lambda>x. x \<noteq> k) (rev (al_keys (hc_store c)))) \<le> hc_max c"
        using calculation ok by (metis al_keys_def cache_ok_def length_map length_move_to_end length_rev)
      ultimately have "rev (al_keys (move_to_end k (hc_store c))) = recent (hc_max c) (hist @ [k])"
        using keys a by (simp add: recent_snoc)
      with Some r mem assms ok show ?thesis
        by (simp add: Read a lru_abs_def get_if_present_def od_get_def cache_ok_def False)
    qed
  qed
qed

text \<open>
  C28 The cache refines the LRU machine: after any sequence of writes and reads on an empty cache,
  the cached ids in order of use are exactly the \<open>max\<close> most recently used ones (a read uses an id
  only when it hits), and a lookup returns the last value written exactly for these ids.
\<close>

theorem hot_cache_is_lru:
  assumes "new_cache budget override = Inr c0"
  shows "let c = foldl run_access c0 accs; (hist, m) = foldl (lru_spec (hc_max c0)) ([], Map.empty) accs
    in rev (al_keys (hc_store c)) = take (hc_max c0) (rev (remdups hist)) \<and>
       (\<forall>k. snd (get_if_present k c) = (if k \<in> set (take (hc_max c0) (rev (remdups hist))) then m k else None))"
proof -
  let ?a = "foldl (lru_spec (hc_max c0)) ([], Map.empty) accs"
  have "lru_abs c0 ([], Map.empty)"
    using assms by (auto simp: new_cache_def lru_abs_def cache_ok_def recent_def al_keys_def Let_def
        split: if_splits)
  moreover have "lru_abs c a \<Longrightarrow> lru_abs (foldl run_access c accs) (foldl (lru_spec (hc_max c)) a accs)
      \<and> hc_max (foldl run_access c accs) = hc_max c" for c :: "('a, 'b) hot_cache" and a
  proof (induction accs arbitrary: c a)
    case (Cons x accs)
    from lru_abs_step [OF Cons.prems, of x] Cons.IH [of "run_access c x" "lru_spec (hc_max c) a x"]
    show ?case by simp
  qed simp
  ultimately have abs: "lru_abs (foldl run_access c0 accs) ?a"
    "hc_max (foldl run_access c0 accs) = hc_max c0" by blast+
  obtain hist m where a: "?a = (hist, m)" by (meson surj_pair)
  let ?c = "foldl run_access c0 accs"
  have keys: "rev (al_keys (hc_store ?c)) = take (hc_max c0) (rev (remdups hist))"
    using abs a by (simp add: lru_abs_def recent_def)
  have "snd (get_if_present k ?c) = (if k \<in> set (take (hc_max c0) (rev (remdups hist))) then m k else None)" for k
  proof (cases "map_of (hc_store ?c) k")
    case None
    then have "k \<notin> set (take (hc_max c0) (rev (remdups hist)))"
      using map_of_in_keys [of "hc_store ?c" k] by (simp flip: keys)
    with None show ?thesis by (simp add: get_if_present_def od_get_def)
  next
    case (Some r)
    then have "k \<in> set (take (hc_max c0) (rev (remdups hist)))"
      using map_of_in_keys [of "hc_store ?c" k] by (simp flip: keys)
    moreover from this have "hc_max ?c \<noteq> 0" using abs(2) by (cases "hc_max c0") auto
    moreover have "r = m k \<and> r \<noteq> None" using abs(1) Some a by (auto simp: lru_abs_def)
    ultimately show ?thesis using Some by (auto simp: get_if_present_def od_get_def)
  qed
  with keys a show ?thesis by simp
qed

section \<open>Transparency\<close>

text \<open>The cache agrees with the backing store: every cached record is the stored one.\<close>

definition agrees :: "('k, 'v) hot_cache \<Rightarrow> ('k \<rightharpoonup> 'v) \<Rightarrow> bool" where
  "agrees c back \<longleftrightarrow> (\<forall>k r. map_of (hc_store c) k = Some r \<longrightarrow> r = back k \<and> r \<noteq> None)"

lemma agrees_get: "agrees c back \<Longrightarrow> od_get (hc_store c) k = (if map_of (hc_store c) k = None then None else back k)"
  by (cases "map_of (hc_store c) k") (auto simp: agrees_def od_get_def)

lemma agrees_put:
  assumes "cache_ok c" "agrees c back" "v = back k" "v \<noteq> None"
  shows "agrees (put_locked k v c) back"
proof (cases "hc_max c = 0")
  case False
  show ?thesis
    unfolding agrees_def
  proof (intro allI impI)
    fix i x assume "map_of (hc_store (put_locked k v c)) i = Some x"
    from map_of_put_locked [OF assms(1) False this] assms(2-4)
    show "x = back i \<and> x \<noteq> None" by (auto simp: agrees_def split: if_splits)
  qed
qed (use assms in \<open>simp add: put_locked_def\<close>)

lemma agrees_foldl_put:
  "cache_ok c \<Longrightarrow> agrees c back \<Longrightarrow> \<forall>(k, v) \<in> set xs. v = back k \<and> v \<noteq> None \<Longrightarrow>
     agrees (foldl (\<lambda>c (k, r). put_locked k r c) c xs) back"
  by (induction xs arbitrary: c) (auto simp: put_locked_ok agrees_put split: prod.split)

lemma classify_ids_hits:
  "cache_ok c \<Longrightarrow> agrees c back \<Longrightarrow> classify_ids ks c hs ms = (c', hs', ms') \<Longrightarrow>
     (\<forall>k. map_of hs' k = (if k \<in> set ks \<and> map_of (hc_store c) k \<noteq> None then Some (back k) else map_of hs k))
     \<and> set ms' = set ms \<union> {k \<in> set ks. map_of (hc_store c) k = None}"
proof (induction ks arbitrary: c hs ms)
  case (Cons k ks)
  show ?case
  proof (cases "map_of (hc_store c) k")
    case None
    with Cons.prems have "classify_ids ks c hs (ms @ [k]) = (c', hs', ms')" by (simp add: od_get_def)
    from Cons.IH [OF Cons.prems(1,2) this] None show ?thesis by auto
  next
    case (Some r)
    with Cons.prems(2) obtain v where v: "r = Some v" "back k = Some v" by (auto simp: agrees_def)
    let ?c = "c\<lparr>hc_store := move_to_end k (hc_store c), hc_stats := (hc_stats c)\<lparr>hits := hits (hc_stats c) + 1\<rparr>\<rparr>"
    have "classify_ids ks ?c (al_put k (Some v) hs) ms = (c', hs', ms')"
      using Cons.prems(3) Some v by (simp add: od_get_def)
    moreover have "cache_ok ?c" using Cons.prems(1) by (rule touch_ok)
    moreover have "agrees ?c back" using Cons.prems(2) by (simp add: agrees_def)
    ultimately show ?thesis using Cons.IH [of ?c "al_put k (Some v) hs" ms] Some v by auto
  qed
qed simp

text \<open>
  C37 Transparency: if the cache agrees with the backing store and the bulk loader returns the
  stored records of the ids it is asked for, then \<open>get_many\<close> returns exactly the stored records of
  all requested ids, as if there were no cache, and the cache still agrees; so does the cache after
  a write that goes to the store and to \<open>put\<close>.
\<close>

theorem get_many_transparent:
  assumes "cache_ok c" and "agrees c back"
    and "\<forall>ms. distinct (map fst (load ms)) \<and>
      (\<forall>k. map_of (load ms) k = (if k \<in> set ms \<and> back k \<noteq> None then Some (back k) else None))"
  shows "(\<exists>c' m. get_many ks (Some load) single c = (c', Inr m) \<and> agrees c' back \<and> cache_ok c' \<and>
      (\<forall>k. m k = (if k \<in> set ks \<and> back k \<noteq> None then Some (back k) else None)))
    \<and> agrees (put k (Some v) c) (back(k \<mapsto> v))"
proof
  show "agrees (put k (Some v) c) (back(k \<mapsto> v))"
  proof (cases "hc_max c = 0")
    case True
    with assms(1) show ?thesis by (simp add: put_def agrees_def cache_ok_def)
  next
    case False
    show ?thesis
      unfolding agrees_def
    proof (intro allI impI)
      fix i x assume "map_of (hc_store (put k (Some v) c)) i = Some x"
      with False have "map_of (hc_store (put_locked k (Some v) c)) i = Some x" by (simp add: put_def)
      from map_of_put_locked [OF assms(1) False this] assms(2)
      show "x = (back(k \<mapsto> v)) i \<and> x \<noteq> None" by (auto simp: agrees_def split: if_splits)
    qed
  qed
  have load: "map_of (load ms) k = (if k \<in> set ms \<and> back k \<noteq> None then Some (back k) else None)" for ms k
    using assms(3) by blast
  have one: "v = back k \<and> v \<noteq> None" if "(k, v) \<in> set (load ms)" for k v ms
  proof -
    have "distinct (map fst (load ms))" using assms(3) by blast
    then have "map_of (load ms) k = Some v" using that by (rule map_of_is_SomeI)
    with load [of ms k] show ?thesis by (auto split: if_splits)
  qed
  have loaded: "\<forall>(k, v) \<in> set (load ms). v = back k \<and> v \<noteq> None" for ms
    using one by fast
  obtain c1 hs ms where cl: "classify_ids ks c [] [] = (c1, hs, ms)"
    by (cases "classify_ids ks c [] []")
  from classify_ids_hits [OF assms(1,2) cl] have
    hs: "map_of hs k = (if k \<in> set ks \<and> map_of (hc_store c) k \<noteq> None then Some (back k) else None)"
    and ms: "set ms = {k \<in> set ks. map_of (hc_store c) k = None}" for k by simp_all
  have c1: "cache_ok c1" "agrees c1 back"
    using classify_ids_ok [OF assms(1), of ks "[]" "[]"] cl assms(2) by (auto simp: agrees_def)
  have stored: "map_of (hc_store c) k \<noteq> None \<Longrightarrow> back k \<noteq> None" for k
    using assms(2) by (auto simp: agrees_def)
  have union: "(map_of hs ++ map_of (load ms)) k
      = (if k \<in> set ks \<and> back k \<noteq> None then Some (back k) else None)" for k
    using stored [of k] by (auto simp: map_add_def load hs ms)
  show "\<exists>c' m. get_many ks (Some load) single c = (c', Inr m) \<and> agrees c' back \<and> cache_ok c' \<and>
      (\<forall>k. m k = (if k \<in> set ks \<and> back k \<noteq> None then Some (back k) else None))"
  proof -
    consider "ks = []" | "ks \<noteq> []" "hc_max c = 0" | "ks \<noteq> []" "hc_max c \<noteq> 0" "ms = []"
      | "ks \<noteq> []" "hc_max c \<noteq> 0" "ms \<noteq> []" by blast
    then show ?thesis
    proof cases
      case 1
      with assms(1,2) show ?thesis by (simp add: get_many_def)
    next
      case 2
      with assms(1,2) show ?thesis
        by (simp add: get_many_def load_all_no_cache_def load agrees_def)
    next
      case 3
      have "map_of hs k = (if k \<in> set ks \<and> back k \<noteq> None then Some (back k) else None)" for k
        using stored [of k] ms 3(3) by (auto simp: hs)
      moreover have "get_many ks (Some load) single c = (add_stats 0 0 c1, Inr (map_of hs))"
        using 3 cl by (simp add: get_many_def Let_def)
      ultimately show ?thesis using c1 by (auto simp: agrees_def)
    next
      case 4
      let ?c = "foldl (\<lambda>c (k, r). put_locked k r c)
        (add_stats 0 (int (length (load ms))) (add_stats (int (length ms)) 0 c1)) (load ms)"
      have "get_many ks (Some load) single c = (?c, Inr (map_of hs ++ map_of (load ms)))"
        using 4 cl by (simp add: get_many_def Let_def)
      moreover have "agrees ?c back"
        by (rule agrees_foldl_put) (use c1 loaded in \<open>simp_all add: agrees_def\<close>)
      moreover have "cache_ok ?c" using foldl_put_ok c1(1) by (metis add_stats_ok(1))
      ultimately show ?thesis using union by blast
    qed
  qed
qed

section \<open>Concrete instances\<close>

definition ex_cache :: "(nat, nat) hot_cache" where
  "ex_cache = \<lparr>hc_max = 2, hc_store = [],
     hc_stats = \<lparr>hits = 0, misses = 0, loads = 0, puts = 0, evictions = 0, csize = 0\<rparr>\<rparr>"

definition ex_load :: "nat list \<Rightarrow> (nat \<times> nat option) list" where
  "ex_load ms = (if 1 \<in> set ms then [(1, Some 10)] else [])"

definition ex_back :: "nat \<rightharpoonup> nat" where
  "ex_back = [1 \<mapsto> 10]"

lemma ex_new: "new_cache 2 None = Inr ex_cache"
  by (simp add: new_cache_def ex_cache_def)

lemma hot_cache_bounded_witness:
  "int (cache_len (foldl run_op ex_cache (map (\<lambda>i. Put i (Some i)) [0..<5]))) \<le> 2"
  using hot_cache_bounded [OF ex_new, of "map (\<lambda>i. Put i (Some i)) [0..<5]"] by (simp add: Let_def)

lemma hot_cache_is_lru_witness:
  "rev (al_keys (hc_store (foldl run_access ex_cache [Write 1 10, Write 2 20, Read 1, Write 3 30]))) = [3, 1]"
proof -
  have "recent 2 [1, 2::nat] = [2, 1]" by (simp add: recent_def)
  then have "foldl (lru_spec (hc_max ex_cache)) ([] :: nat list, Map.empty) [Write 1 (10::nat), Write 2 20, Read 1, Write 3 30]
      = ([1, 2, 1, 3], [1 \<mapsto> 10, 2 \<mapsto> 20, 3 \<mapsto> 30])"
    by (simp add: ex_cache_def del: One_nat_def)
  then show ?thesis
    using hot_cache_is_lru [OF ex_new, of "[Write 1 10, Write 2 20, Read 1, Write 3 30]"]
    unfolding Let_def by (simp only: prod.case) (simp add: ex_cache_def)
qed

lemma get_many_transparent_witness:
  "\<exists>c' m. get_many [1, 2] (Some ex_load) None ex_cache = (c', Inr m) \<and> m 1 = Some (Some 10) \<and> m 2 = None"
proof -
  have c: "cache_ok ex_cache" "agrees ex_cache ex_back"
    by (simp_all add: cache_ok_def agrees_def al_keys_def ex_cache_def)
  have l: "\<forall>ms. distinct (map fst (ex_load ms)) \<and> (\<forall>k. map_of (ex_load ms) k =
      (if k \<in> set ms \<and> ex_back k \<noteq> None then Some (ex_back k) else None))"
    by (auto simp: ex_load_def ex_back_def)
  from get_many_transparent [OF c l, of "[1, 2]" None] obtain c' m where
    "get_many [1, 2] (Some ex_load) None ex_cache = (c', Inr m)"
    "\<forall>k. m k = (if k \<in> set [1, 2] \<and> ex_back k \<noteq> None then Some (ex_back k) else None)"
    by blast
  then show ?thesis by (intro exI [of _ c'] exI [of _ m]) (simp add: ex_back_def)
qed

end
