(* ===== verification/FM_Query_Cache.thy ===== *)
theory FM_Query_Cache
  imports FM_Prelude
begin

text \<open>
  The query and statistics caches of \<open>cache/query_cache.py\<close>: key generation and parsing, and the
  two caches over a Redis client. The client, SHA-256 and the JSON encoder are parameters; a call
  of the client or of the decoder may raise (None).

  The lemmas show that a key parses back to its parts, that keys of different parts differ when no
  part has a colon and may collide when one has, and that a cached result is only ever returned
  for the graph version it was stored under.
\<close>

section \<open>Decimal numbers\<close>

text \<open>\<open>int(s)\<close>, with surrounding white space, a sign and single underscores.\<close>

definition digit_value :: "char \<Rightarrow> nat option" where
  "digit_value c = (let n = of_char c in if 48 \<le> n \<and> n \<le> 57 then Some (n - 48) else None)"

text \<open>\<open>prev\<close> says that the previous character was a digit; an underscore stands between digits.\<close>

fun parse_digits :: "bool \<Rightarrow> nat \<Rightarrow> string \<Rightarrow> nat option" where
  "parse_digits prev acc [] = (if prev then Some acc else None)"
| "parse_digits prev acc (c # cs) =
     (case digit_value c of
        Some d \<Rightarrow> parse_digits True (10 * acc + d) cs
      | None \<Rightarrow> if c = CHR ''_'' \<and> prev then parse_digits False acc cs else None)"

definition parse_int :: "string \<Rightarrow> int option" where
  "parse_int s =
     (case py_strip s of
        [] \<Rightarrow> None
      | c # cs \<Rightarrow>
          if c = CHR ''-'' then map_option (\<lambda>n. - int n) (parse_digits False 0 cs)
          else if c = CHR ''+'' then map_option int (parse_digits False 0 cs)
          else map_option int (parse_digits False 0 (c # cs)))"

section \<open>Keys\<close>

record cache_key =
  ck_tenant :: string
  ck_graph :: string
  ck_version :: int
  ck_hash :: string
  ck_profile :: string
  ck_k :: int

definition make_cache_key :: "cache_key \<Rightarrow> string" where
  "make_cache_key p = ''faim:query:'' @ ck_tenant p @ '':'' @ ck_graph p @ '':v'' @ int_str (ck_version p)
     @ '':'' @ ck_hash p @ '':'' @ ck_profile p @ '':k'' @ int_str (ck_k p)"

definition parse_cache_key :: "string \<Rightarrow> cache_key option" where
  "parse_cache_key key =
     (if \<not> py_startswith key ''faim:query:'' then None
      else let parts = py_split CHR '':'' key in
        if length parts \<noteq> 8 then None
        else case parse_int (drop 1 (parts ! 4)) of
          None \<Rightarrow> None
        | Some v \<Rightarrow>
            (case parse_int (drop 1 (parts ! 7)) of
               None \<Rightarrow> None
             | Some k \<Rightarrow> Some \<lparr>ck_tenant = parts ! 2, ck_graph = parts ! 3, ck_version = v,
                  ck_hash = parts ! 5, ck_profile = parts ! 6, ck_k = k\<rparr>))"

definition stats_key :: "string \<Rightarrow> string \<Rightarrow> int \<Rightarrow> string" where
  "stats_key tenant graph version = ''faim:stats:'' @ tenant @ '':'' @ graph @ '':v'' @ int_str version"

section \<open>The caches\<close>

text \<open>GET, SETEX, SCAN with a pattern and DEL; each may raise.\<close>

record 'r redis_client =
  rc_get :: "string \<Rightarrow> 'r \<Rightarrow> string option option"
  rc_setex :: "string \<Rightarrow> int \<Rightarrow> string \<Rightarrow> 'r \<Rightarrow> bool \<times> 'r"
  rc_scan :: "string \<Rightarrow> 'r \<Rightarrow> string list option"
  rc_delete :: "string list \<Rightarrow> 'r \<Rightarrow> int option \<times> 'r"

text \<open>The hash of a vector: the first sixteen hex digits of the digest of its canonical JSON.\<close>

definition compute_query_hash :: "('q \<Rightarrow> string) \<Rightarrow> (string \<Rightarrow> string) \<Rightarrow> 'q \<Rightarrow> string" where
  "compute_query_hash canonical sha256 q = take 16 (sha256 (canonical q))"

definition cache_get :: "'r redis_client option \<Rightarrow> (string \<Rightarrow> 'x option) \<Rightarrow> string \<Rightarrow> 'r \<Rightarrow> 'x option" where
  "cache_get client loads key s =
     (case client of
        None \<Rightarrow> None
      | Some rc \<Rightarrow>
          (case rc_get rc key s of
             Some (Some data) \<Rightarrow> loads data
           | _ \<Rightarrow> None))"

text \<open>\<open>ttl or default\<close>: a missing or zero ttl means the default.\<close>

definition cache_set :: "'r redis_client option \<Rightarrow> ('x \<Rightarrow> string) \<Rightarrow> int \<Rightarrow> string \<Rightarrow> 'x \<Rightarrow> int option \<Rightarrow>
    'r \<Rightarrow> bool \<times> 'r" where
  "cache_set client dumps default_ttl key x ttl s =
     (case client of
        None \<Rightarrow> (False, s)
      | Some rc \<Rightarrow> rc_setex rc key (case ttl of None \<Rightarrow> default_ttl
            | Some t \<Rightarrow> if t = 0 then default_ttl else t) (dumps x) s)"

definition cache_drop :: "'r redis_client option \<Rightarrow> string \<Rightarrow> 'r \<Rightarrow> int \<times> 'r" where
  "cache_drop client pattern s =
     (case client of
        None \<Rightarrow> (0, s)
      | Some rc \<Rightarrow>
          (case rc_scan rc pattern s of
             None \<Rightarrow> (0, s)
           | Some ks \<Rightarrow>
               if ks = [] then (0, s)
               else (case rc_delete rc ks s of (None, s') \<Rightarrow> (0, s') | (Some n, s') \<Rightarrow> (n, s'))))"

text \<open>The query cache of one tenant.\<close>

definition query_get :: "'r redis_client option \<Rightarrow> ('q \<Rightarrow> string) \<Rightarrow> (string \<Rightarrow> string) \<Rightarrow>
    (string \<Rightarrow> 'x option) \<Rightarrow> string \<Rightarrow> string \<Rightarrow> int \<Rightarrow> 'q \<Rightarrow> string \<Rightarrow> int \<Rightarrow> 'r \<Rightarrow> 'x option" where
  "query_get client canonical sha loads tenant graph version q profile k s =
     cache_get client loads (make_cache_key \<lparr>ck_tenant = tenant, ck_graph = graph,
       ck_version = version, ck_hash = compute_query_hash canonical sha q, ck_profile = profile,
       ck_k = k\<rparr>) s"

definition query_set :: "'r redis_client option \<Rightarrow> ('q \<Rightarrow> string) \<Rightarrow> (string \<Rightarrow> string) \<Rightarrow>
    ('x \<Rightarrow> string) \<Rightarrow> int \<Rightarrow> string \<Rightarrow> string \<Rightarrow> int \<Rightarrow> 'q \<Rightarrow> string \<Rightarrow> int \<Rightarrow> 'x \<Rightarrow> int option \<Rightarrow> 'r \<Rightarrow>
    bool \<times> 'r" where
  "query_set client canonical sha dumps ttl0 tenant graph version q profile k x ttl s =
     cache_set client dumps ttl0 (make_cache_key \<lparr>ck_tenant = tenant, ck_graph = graph,
       ck_version = version, ck_hash = compute_query_hash canonical sha q, ck_profile = profile,
       ck_k = k\<rparr>) x ttl s"

definition query_invalidate_graph :: "'r redis_client option \<Rightarrow> string \<Rightarrow> string \<Rightarrow> 'r \<Rightarrow> int \<times> 'r" where
  "query_invalidate_graph client tenant graph s =
     cache_drop client (''faim:query:'' @ tenant @ '':'' @ graph @ '':*'') s"

definition query_clear :: "'r redis_client option \<Rightarrow> string \<Rightarrow> 'r \<Rightarrow> int \<times> 'r" where
  "query_clear client tenant s = cache_drop client (''faim:query:'' @ tenant @ '':*'') s"

definition stats_get :: "'r redis_client option \<Rightarrow> (string \<Rightarrow> 'x option) \<Rightarrow> string \<Rightarrow> string \<Rightarrow> int \<Rightarrow> 'r \<Rightarrow>
    'x option" where
  "stats_get client loads tenant graph version s =
     cache_get client loads (stats_key tenant graph version) s"

definition stats_set :: "'r redis_client option \<Rightarrow> ('x \<Rightarrow> string) \<Rightarrow> int \<Rightarrow> string \<Rightarrow> string \<Rightarrow> int \<Rightarrow> 'x \<Rightarrow>
    int option \<Rightarrow> 'r \<Rightarrow> bool \<times> 'r" where
  "stats_set client dumps ttl0 tenant graph version x ttl s =
     cache_set client dumps ttl0 (stats_key tenant graph version) x ttl s"

definition stats_invalidate :: "'r redis_client option \<Rightarrow> string \<Rightarrow> string \<Rightarrow> 'r \<Rightarrow> int \<times> 'r" where
  "stats_invalidate client tenant graph s =
     cache_drop client (''faim:stats:'' @ tenant @ '':'' @ graph @ '':*'') s"

section \<open>Numbers read back\<close>

lemma digit_value_char [simp]: "d < 10 \<Longrightarrow> digit_value (digit_char d) = Some d"
  by (simp add: digit_value_def digit_char_def Let_def)

definition is_digit :: "char \<Rightarrow> bool" where
  "is_digit c \<longleftrightarrow> digit_value c \<noteq> None"

lemma nat_str_digits: "\<forall>c \<in> set (nat_str n). is_digit c"
proof (induction n rule: nat_str.induct)
  case (1 n)
  then show ?case
    by (subst nat_str.simps) (auto simp: is_digit_def)
qed

lemma nat_str_ne [simp]: "nat_str n \<noteq> []"
  by (subst nat_str.simps) simp

lemma parse_digits_append:
  "\<forall>c \<in> set ds. is_digit c \<Longrightarrow> ds \<noteq> [] \<Longrightarrow> \<exists>a'. parse_digits p a ds = Some a'
     \<and> (\<forall>rest. parse_digits p a (ds @ rest) = parse_digits True a' rest)"
proof (induction ds arbitrary: p a)
  case (Cons c ds)
  then obtain d where d: "digit_value c = Some d" by (auto simp: is_digit_def)
  show ?case
  proof (cases "ds = []")
    case True
    with d show ?thesis by simp
  next
    case False
    from Cons.IH [of True "10 * a + d"] Cons.prems False d show ?thesis by simp
  qed
qed simp

lemma parse_digits_nat_str: "parse_digits p 0 (nat_str n) = Some n"
proof (induction n arbitrary: p rule: nat_str.induct)
  case (1 n)
  show ?case
  proof (cases "n < 10")
    case True
    then show ?thesis by (subst nat_str.simps) simp
  next
    case False
    from parse_digits_append [OF nat_str_digits nat_str_ne, of p 0 "n div 10"] 1 [OF False]
    have "parse_digits p 0 (nat_str (n div 10) @ [digit_char (n mod 10)])
        = parse_digits True (n div 10) [digit_char (n mod 10)]" by auto
    with False show ?thesis by (subst nat_str.simps) simp
  qed
qed

lemma is_digit_plain: "is_digit c \<Longrightarrow> \<not> py_isspace c \<and> c \<noteq> CHR ''-'' \<and> c \<noteq> CHR ''+'' \<and> c \<noteq> CHR '':''"
  by (auto simp: is_digit_def digit_value_def py_isspace_def Let_def split: if_splits)

lemma strip_plain: "\<forall>c \<in> set s. \<not> py_isspace c \<Longrightarrow> py_strip s = s"
proof -
  assume *: "\<forall>c \<in> set s. \<not> py_isspace c"
  then have "dropWhile py_isspace s = s" by (cases s) auto
  moreover have "dropWhile py_isspace (rev s) = rev s"
    using * by (cases "s = []") (simp_all add: dropWhile_eq_self_iff hd_rev)
  ultimately show ?thesis by (simp add: py_strip_def)
qed

lemma int_str_chars: "c \<in> set (int_str i) \<Longrightarrow> is_digit c \<or> c = CHR ''-''"
  using nat_str_digits by (auto simp: int_str_def split: if_splits)

lemma parse_int_str: "parse_int (int_str i) = Some i"
proof -
  have "\<not> py_isspace c" if "c \<in> set (int_str i)" for c
    using int_str_chars [OF that] is_digit_plain by (auto simp: py_isspace_def Let_def)
  then have "py_strip (int_str i) = int_str i" by (intro strip_plain) blast
  moreover obtain c cs where n: "nat_str (nat i) = c # cs" by (cases "nat_str (nat i)") simp_all
  moreover have "c \<noteq> CHR ''-'' \<and> c \<noteq> CHR ''+''"
    using nat_str_digits [of "nat i"] n is_digit_plain [of c] by simp
  moreover have "parse_digits False 0 (c # cs) = Some (nat i)"
    using parse_digits_nat_str [of False "nat i"] n by simp
  ultimately show ?thesis
    by (cases "i < 0") (simp_all add: parse_int_def int_str_def parse_digits_nat_str del: parse_digits.simps)
qed

section \<open>Keys\<close>

definition plain_key :: "cache_key \<Rightarrow> bool" where
  "plain_key p \<longleftrightarrow> CHR '':'' \<notin> set (ck_tenant p) \<union> set (ck_graph p) \<union> set (ck_hash p) \<union> set (ck_profile p)"

lemma make_cache_key_join: "make_cache_key p = py_join '':'' [''faim'', ''query'', ck_tenant p, ck_graph p,
    ''v'' @ int_str (ck_version p), ck_hash p, ck_profile p, ''k'' @ int_str (ck_k p)]"
  by (simp add: make_cache_key_def)

lemma parse_make:
  assumes "plain_key p"
  shows "parse_cache_key (make_cache_key p) = Some p"
proof -
  have colon: "CHR '':'' \<notin> set (int_str i)" for i
    using int_str_chars [of "CHR '':''" i] is_digit_plain [of "CHR '':''"] by auto
  have "py_split CHR '':'' (make_cache_key p) = [''faim'', ''query'', ck_tenant p, ck_graph p,
      ''v'' @ int_str (ck_version p), ck_hash p, ck_profile p, ''k'' @ int_str (ck_k p)]"
    unfolding make_cache_key_join py_split_def
    by (rule split_by_join) (use assms colon in \<open>auto simp: plain_key_def\<close>)
  moreover have "py_startswith (make_cache_key p) ''faim:query:''"
    by (simp add: make_cache_key_def py_startswith_def)
  ultimately show ?thesis by (cases p) (simp add: parse_cache_key_def parse_int_str)
qed

text \<open>
  Round trip: a key whose text parts have no colon parses back to exactly its tenant, graph,
  version, hash, profile and k, negative numbers included, so such keys never collide; with a
  colon in a tenant or graph id two different requests can have the same key.
\<close>

theorem cache_key_roundtrip:
  "(plain_key p \<longrightarrow> parse_cache_key (make_cache_key p) = Some p
      \<and> (\<forall>q. plain_key q \<and> make_cache_key q = make_cache_key p \<longrightarrow> q = p))
   \<and> make_cache_key (p\<lparr>ck_tenant := t @ '':'' @ u, ck_graph := g\<rparr>)
     = make_cache_key (p\<lparr>ck_tenant := t, ck_graph := u @ '':'' @ g\<rparr>)"
proof -
  have "q = p" if "plain_key p" "plain_key q" "make_cache_key q = make_cache_key p" for q
    using parse_make [OF that(1)] parse_make [OF that(2)] that(3) by simp
  then show ?thesis using parse_make by (simp add: make_cache_key_def)
qed

section \<open>Versions\<close>

text \<open>
  SETEX stores under its key and leaves the others; the key may already be gone again, and a read
  may raise.
\<close>

definition setex_law :: "'r redis_client \<Rightarrow> bool" where
  "setex_law rc \<longleftrightarrow> (\<forall>k ttl d s. (\<forall>k'. k' \<noteq> k \<longrightarrow> rc_get rc k' (snd (rc_setex rc k ttl d s)) = rc_get rc k' s)
     \<and> (fst (rc_setex rc k ttl d s) \<longrightarrow>
          rc_get rc k (snd (rc_setex rc k ttl d s)) \<in> {None, Some None, Some (Some d)}))"

text \<open>
  No stale results: storing a result for one graph version does not change what any lookup for
  another version, graph, profile, k or tenant returns, and a lookup for the same request returns
  the stored result or nothing (ids without a colon, a decoder that inverts the encoder).
\<close>

theorem query_cache_version_isolation:
  assumes "setex_law rc" and "\<forall>x. loads (dumps x) = Some x" and "\<forall>v. CHR '':'' \<notin> set (sha v)"
    and "CHR '':'' \<notin> set t1 \<union> set g1 \<union> set p1 \<union> set t2 \<union> set g2 \<union> set p2"
    and "query_set (Some rc) canonical sha dumps ttl0 t1 g1 v1 q1 p1 k1 x ttl s = (ok, s')"
  shows "((t2, g2, v2, p2, k2) \<noteq> (t1, g1, v1, p1, k1) \<longrightarrow>
      query_get (Some rc) canonical sha loads t2 g2 v2 q2 p2 k2 s'
        = query_get (Some rc) canonical sha loads t2 g2 v2 q2 p2 k2 s)
    \<and> (ok \<longrightarrow> query_get (Some rc) canonical sha loads t1 g1 v1 q1 p1 k1 s' \<in> {None, Some x})"
proof -
  let ?key = "\<lambda>t g v q p k. \<lparr>ck_tenant = t, ck_graph = g, ck_version = v,
    ck_hash = compute_query_hash canonical sha q, ck_profile = p, ck_k = k\<rparr>"
  obtain T where set: "rc_setex rc (make_cache_key (?key t1 g1 v1 q1 p1 k1)) T (dumps x) s = (ok, s')"
    using assms(5) by (simp add: query_set_def cache_set_def)
  have plain: "plain_key (?key t1 g1 v1 q1 p1 k1)" "plain_key (?key t2 g2 v2 q2 p2 k2)"
    using assms(3,4) by (auto simp: plain_key_def compute_query_hash_def dest!: in_set_takeD)
  have "make_cache_key (?key t2 g2 v2 q2 p2 k2) \<noteq> make_cache_key (?key t1 g1 v1 q1 p1 k1)"
    if "(t2, g2, v2, p2, k2) \<noteq> (t1, g1, v1, p1, k1)"
    using parse_make [OF plain(1)] parse_make [OF plain(2)] that by auto
  moreover have "k' \<noteq> make_cache_key (?key t1 g1 v1 q1 p1 k1) \<Longrightarrow> rc_get rc k' s' = rc_get rc k' s" for k'
    using assms(1) set unfolding setex_law_def by (metis snd_conv)
  moreover have "ok \<Longrightarrow> rc_get rc (make_cache_key (?key t1 g1 v1 q1 p1 k1)) s' \<in> {None, Some None, Some (Some (dumps x))}"
    using assms(1) set unfolding setex_law_def by (metis fst_conv snd_conv)
  ultimately show ?thesis
    using assms(2) by (auto simp: query_get_def cache_get_def)
qed

section \<open>Concrete instances\<close>

lemma cache_key_roundtrip_witness:
  "parse_cache_key (make_cache_key \<lparr>ck_tenant = ''t'', ck_graph = ''g'', ck_version = - 12,
     ck_hash = ''ab'', ck_profile = ''fast'', ck_k = 5\<rparr>)
   = Some \<lparr>ck_tenant = ''t'', ck_graph = ''g'', ck_version = - 12, ck_hash = ''ab'', ck_profile = ''fast'', ck_k = 5\<rparr>"
  using cache_key_roundtrip [of "\<lparr>ck_tenant = ''t'', ck_graph = ''g'', ck_version = - 12,
     ck_hash = ''ab'', ck_profile = ''fast'', ck_k = 5\<rparr>" "[]" "[]" "[]"]
  by (simp add: plain_key_def)

text \<open>A client over a map that keeps everything.\<close>

definition ex_client :: "(string \<rightharpoonup> string) redis_client" where
  "ex_client = \<lparr>rc_get = (\<lambda>k s. Some (s k)), rc_setex = (\<lambda>k t d s. (True, s(k \<mapsto> d))),
     rc_scan = (\<lambda>p s. Some []), rc_delete = (\<lambda>ks s. (Some 0, s))\<rparr>"

lemma query_cache_version_isolation_witness:
  "query_get (Some ex_client) id (\<lambda>v. ''abc'') Some ''t'' ''g'' 2 ''q'' ''fast'' 5
     (snd (query_set (Some ex_client) id (\<lambda>v. ''abc'') id 60 ''t'' ''g'' 1 ''q'' ''fast'' 5 ''r'' None Map.empty))
   = None"
proof -
  have law: "setex_law ex_client" by (simp add: setex_law_def ex_client_def)
  obtain ok s' where q: "query_set (Some ex_client) id (\<lambda>v. ''abc'') id 60 ''t'' ''g'' 1 ''q'' ''fast'' 5 ''r''
      None Map.empty = (ok, s')" by (meson surj_pair)
  have "query_get (Some ex_client) id (\<lambda>v. ''abc'') Some ''t'' ''g'' 2 ''q'' ''fast'' 5 s'
      = query_get (Some ex_client) id (\<lambda>v. ''abc'') Some ''t'' ''g'' 2 ''q'' ''fast'' 5 Map.empty"
    using query_cache_version_isolation [OF law _ _ _ q, where loads = Some and ?t2.0 = "''t''" and ?g2.0 = "''g''"
        and ?p2.0 = "''fast''" and ?v2.0 = 2 and ?k2.0 = 5 and ?q2.0 = "''q''"] by simp
  with q show ?thesis by (simp add: query_get_def cache_get_def ex_client_def)
qed

end
