(* ===== verification/FM_Write_Queue.thy ===== *)
theory FM_Write_Queue
  imports FM_Prelude
begin

text \<open>
  The write queue between the engine and the durability worker,
  \<open>orchestration/perf/write_queue.py\<close>. Each method runs under the queue's lock; where it would wait
  on a condition variable, one pass returns \<open>Wait\<close> and the caller tries again later, so that any
  interleaving of threads is a sequence of passes. \<open>expired\<close> says that the timeout has elapsed.

  The lemmas show that no write is lost, duplicated or reordered, that the capacity holds, and
  what a successful wait means for durability.
\<close>

record 'd write_task =
  wt_seq :: int
  wt_op :: string
  wt_graph :: string
  wt_node :: string
  wt_data :: 'd
  wt_ts :: int

record 'd write_queue =
  wq_maxsize :: int
  wq_queue :: "'d write_task list"
  wq_next :: int
  wq_committed :: int

datatype 'a pass = Done 'a | Wait | Raised string

section \<open>Operations\<close>

definition new_queue :: "int \<Rightarrow> 'd write_queue" where
  "new_queue maxsize = \<lparr>wq_maxsize = maxsize, wq_queue = [], wq_next = 1, wq_committed = 0\<rparr>"

definition qsize :: "'d write_queue \<Rightarrow> int" where
  "qsize q = int (length (wq_queue q))"

definition is_empty :: "'d write_queue \<Rightarrow> bool" where
  "is_empty q \<longleftrightarrow> length (wq_queue q) = 0"

definition stats :: "'d write_queue \<Rightarrow> int \<times> int" where
  "stats q = (qsize q, wq_committed q)"

definition enqueue_write :: "string \<Rightarrow> string \<Rightarrow> string \<Rightarrow> 'd \<Rightarrow> int \<Rightarrow> bool \<Rightarrow> bool \<Rightarrow>
    'd write_queue \<Rightarrow> 'd write_queue \<times> int pass" where
  "enqueue_write oper graph node data ts block expired q =
     (if wq_maxsize q > 0 \<and> qsize q \<ge> wq_maxsize q
      then (q, if \<not> block then Raised ''WriteQueue is full''
               else if expired then Raised ''WriteQueue.put timed out waiting for free slot'' else Wait)
      else (q\<lparr>wq_next := wq_next q + 1,
              wq_queue := wq_queue q @ [\<lparr>wt_seq = wq_next q, wt_op = oper, wt_graph = graph,
                wt_node = node, wt_data = data, wt_ts = ts\<rparr>]\<rparr>, Done (wq_next q)))"

definition take_batch :: "int \<Rightarrow> bool \<Rightarrow> bool \<Rightarrow> 'd write_queue \<Rightarrow>
    'd write_queue \<times> 'd write_task list pass" where
  "take_batch max_items timeout_zero expired q =
     (if max_items \<le> 0 then (q, Raised ''max_items must be positive'')
      else if wq_queue q = []
      then (q, if timeout_zero then Raised ''WriteQueue is empty'' else if expired then Done [] else Wait)
      else let n = min (nat max_items) (length (wq_queue q))
           in (q\<lparr>wq_queue := drop n (wq_queue q)\<rparr>, Done (take n (wq_queue q))))"

definition mark_committed :: "int \<Rightarrow> 'd write_queue \<Rightarrow> 'd write_queue" where
  "mark_committed s q = (if s > wq_committed q then q\<lparr>wq_committed := s\<rparr> else q)"

definition wait_until_committed :: "int \<Rightarrow> bool \<Rightarrow> 'd write_queue \<Rightarrow> bool pass" where
  "wait_until_committed s expired q =
     (if wq_committed q \<ge> s then Done True else if expired then Done False else Wait)"

text \<open>\<open>flush\<close> fixes its target first; None means that it returns True at once.\<close>

definition flush_target :: "'d write_queue \<Rightarrow> int option" where
  "flush_target q =
     (let target = wq_next q - 1 in
      if target \<le> 0 then None else if wq_committed q \<ge> target then None else Some target)"

definition drain :: "'d write_queue \<Rightarrow> 'd write_queue \<times> 'd write_task list" where
  "drain q = (q\<lparr>wq_queue := []\<rparr>, wq_queue q)"

section \<open>Runs\<close>

datatype 'd event = Enqueued "'d write_task" | Took "'d write_task list" | Committed int
  | WaitTrue int | Drained "'d write_task list" | Silent

inductive queue_step :: "'d write_queue \<Rightarrow> 'd event \<Rightarrow> 'd write_queue \<Rightarrow> bool" where
  enqueue: "enqueue_write oper g n d ts block expired q = (q', Done s) \<Longrightarrow>
    queue_step q (Enqueued (last (wq_queue q'))) q'"
| refused: "enqueue_write oper g n d ts block expired q = (q', r) \<Longrightarrow> \<forall>s. r \<noteq> Done s \<Longrightarrow>
    queue_step q Silent q'"
| took: "take_batch m tz expired q = (q', Done b) \<Longrightarrow> queue_step q (Took b) q'"
| none: "take_batch m tz expired q = (q', r) \<Longrightarrow> \<forall>b. r \<noteq> Done b \<Longrightarrow> queue_step q Silent q'"
| commit: "queue_step q (Committed s) (mark_committed s q)"
| waited: "wait_until_committed s expired q = Done True \<Longrightarrow> queue_step q (WaitTrue s) q"
| drained: "drain q = (q', b) \<Longrightarrow> queue_step q (Drained b) q'"

inductive_cases queue_stepE: "queue_step q e q'"

inductive queue_run :: "'d write_queue \<Rightarrow> 'd event list \<Rightarrow> 'd write_queue \<Rightarrow> bool" where
  start: "queue_run q [] q"
| step: "queue_run q es q' \<Longrightarrow> queue_step q' e q'' \<Longrightarrow> queue_run q (es @ [e]) q''"

text \<open>What went in, and what came out by batches or by draining, in order.\<close>

fun entered :: "'d event list \<Rightarrow> 'd write_task list" where
  "entered [] = []" | "entered (Enqueued t # es) = t # entered es" | "entered (_ # es) = entered es"

fun left :: "'d event list \<Rightarrow> 'd write_task list" where
  "left [] = []" | "left (Took b # es) = b @ left es" | "left (Drained b # es) = b @ left es"
| "left (_ # es) = left es"

lemma entered_append [simp]: "entered (xs @ ys) = entered xs @ entered ys"
  by (induction xs rule: entered.induct) simp_all

lemma left_append [simp]: "left (xs @ ys) = left xs @ left ys"
  by (induction xs rule: left.induct) simp_all

text \<open>The effect of a step on the queue, by event.\<close>

lemma step_effect:
  assumes "queue_step q e q'"
  shows "left [e] @ wq_queue q' = wq_queue q @ entered [e]"
    and "map wt_seq (entered [e]) = map int [nat (wq_next q)..<nat (wq_next q')] \<or> wq_next q < 0"
    and "wq_next q \<le> wq_next q'" "wq_maxsize q' = wq_maxsize q"
    and "wq_maxsize q > 0 \<Longrightarrow> qsize q \<le> wq_maxsize q \<Longrightarrow> qsize q' \<le> wq_maxsize q"
proof -
  have enq: "nat (wq_next q + 1) = Suc (nat (wq_next q))" if "\<not> wq_next q < 0" using that by simp
  have all: "left [e] @ wq_queue q' = wq_queue q @ entered [e]
    \<and> (map wt_seq (entered [e]) = map int [nat (wq_next q)..<nat (wq_next q')] \<or> wq_next q < 0)
    \<and> wq_next q \<le> wq_next q' \<and> wq_maxsize q' = wq_maxsize q
    \<and> (wq_maxsize q > 0 \<longrightarrow> qsize q \<le> wq_maxsize q \<longrightarrow> qsize q' \<le> wq_maxsize q)"
    using assms
    by (cases rule: queue_stepE)
      (auto simp: enqueue_write_def take_batch_def drain_def mark_committed_def qsize_def Let_def enq
        split: if_splits)
  then show "left [e] @ wq_queue q' = wq_queue q @ entered [e]"
    "map wt_seq (entered [e]) = map int [nat (wq_next q)..<nat (wq_next q')] \<or> wq_next q < 0"
    "wq_next q \<le> wq_next q'" "wq_maxsize q' = wq_maxsize q"
    "wq_maxsize q > 0 \<Longrightarrow> qsize q \<le> wq_maxsize q \<Longrightarrow> qsize q' \<le> wq_maxsize q" by blast+
qed

lemma upt_split: "i \<le> j \<Longrightarrow> j \<le> k \<Longrightarrow> [i..<j] @ [j..<k] = [i..<k]"
  by (metis le_add_diff_inverse upt_add_eq_append)

lemma run_effect:
  assumes "queue_run (new_queue m) es q"
  shows "left es @ wq_queue q = entered es \<and> map wt_seq (entered es) = map int [1..<nat (wq_next q)]
    \<and> 1 \<le> wq_next q \<and> wq_maxsize q = m \<and> (m > 0 \<longrightarrow> qsize q \<le> m)"
  using assms
proof (induction "new_queue m :: 'a write_queue" es q rule: queue_run.induct)
  case start
  show ?case by (simp add: new_queue_def qsize_def)
next
  case (step es q' e q'')
  note eff = step_effect [OF step.hyps(3)] and IH = step.hyps(2)
  have "map wt_seq (entered [e]) = map int [nat (wq_next q')..<nat (wq_next q'')]"
    using eff(2) IH by auto
  moreover have "[1..<nat (wq_next q')] @ [nat (wq_next q')..<nat (wq_next q'')] = [1..<nat (wq_next q'')]"
    using IH eff(3) by (intro upt_split) (auto simp: nat_mono)
  ultimately have "map wt_seq (entered (es @ [e])) = map int [1..<nat (wq_next q'')]"
    using IH by (metis entered_append map_append)
  moreover have "left (es @ [e]) @ wq_queue q'' = entered (es @ [e])"
    using IH eff(1) by (metis append.assoc entered_append left_append)
  ultimately show ?case using IH eff(3-5) by simp
qed

text \<open>
  C29 First in, first out, nothing lost: after any interleaving of producers, workers and drains,
  what has been taken or drained followed by what is still queued is exactly what was enqueued, in
  order, with the consecutive sequence numbers from one; a bounded queue never exceeds its bound.
\<close>

theorem write_queue_fifo:
  assumes "queue_run (new_queue m) es q"
  shows "left es @ wq_queue q = entered es \<and> map wt_seq (entered es) = map int [1..<nat (wq_next q)]
    \<and> (m > 0 \<longrightarrow> qsize q \<le> m)"
  using run_effect [OF assms] by blast

lemma run_split:
  "queue_run q0 es q \<Longrightarrow> es = pre @ e # post \<Longrightarrow> \<exists>q1 q2. queue_run q0 pre q1 \<and> queue_step q1 e q2"
proof (induction arbitrary: post rule: queue_run.induct)
  case (step q es q' e' q'')
  then show ?case by (cases post rule: rev_cases) auto
qed simp

text \<open>Committed sequence numbers cover removed tasks, if only removed tasks are committed.\<close>

definition commits_removed :: "'d event list \<Rightarrow> bool" where
  "commits_removed es \<longleftrightarrow>
     (\<forall>pre s post. es = pre @ Committed s # post \<longrightarrow> (\<exists>t \<in> set (left pre). wt_seq t = s))"

lemma commits_removed_prefix: "commits_removed (es @ fs) \<Longrightarrow> commits_removed es"
  unfolding commits_removed_def by (metis append.assoc append_Cons)

lemma step_committed:
  "queue_step q e q' \<Longrightarrow> wq_committed q' = (case e of Committed s \<Rightarrow> max s (wq_committed q) | _ \<Rightarrow> wq_committed q)
     \<and> (\<forall>t. e = Enqueued t \<longrightarrow> wt_seq t = wq_next q)"
  by (erule queue_stepE)
    (auto simp: enqueue_write_def take_batch_def drain_def mark_committed_def Let_def split: if_splits)

lemma seq_order:
  assumes "queue_run (new_queue m) es q" "t \<in> set (left es)" "u \<in> set (entered es)" "wt_seq u \<le> wt_seq t"
  shows "u \<in> set (left es)"
proof (rule ccontr)
  assume "u \<notin> set (left es)"
  note eff = run_effect [OF assms(1)]
  then have "entered es = left es @ wq_queue q" by simp
  moreover from this \<open>u \<notin> set (left es)\<close> assms(3) have "u \<in> set (wq_queue q)" by simp
  moreover have "sorted_wrt (<) (map wt_seq (entered es))" using eff by (simp add: sorted_wrt_map)
  ultimately have "wt_seq t < wt_seq u" using assms(2) by (simp add: sorted_wrt_append)
  with assms(4) show False by simp
qed

lemma committed_left:
  assumes "queue_run (new_queue m) es q" and "commits_removed es"
  shows "wq_committed q < wq_next q \<and>
    (\<forall>t \<in> set (entered es). wt_seq t \<le> wq_committed q \<longrightarrow> t \<in> set (left es))"
  using assms
proof (induction "new_queue m :: 'a write_queue" es q rule: queue_run.induct)
  case start
  show ?case by (simp add: new_queue_def)
next
  case (step es q' e q'')
  have IH: "wq_committed q' < wq_next q'"
    "\<forall>t \<in> set (entered es). wt_seq t \<le> wq_committed q' \<longrightarrow> t \<in> set (left es)"
    using step.hyps(2) [OF commits_removed_prefix [OF step.prems]] by simp_all
  note eff = run_effect [OF step.hyps(1)] and next_mono = step_effect(3) [OF step.hyps(3)]
    and com = step_committed [OF step.hyps(3)]
  show ?case
  proof (cases "\<exists>s. e = Committed s")
    case True
    then obtain s where e: "e = Committed s" by blast
    then obtain t where t: "t \<in> set (left es)" "wt_seq t = s"
      using step.prems unfolding commits_removed_def by blast
    have "t \<in> set (entered es)" using t(1) eff by (metis Un_iff set_append)
    then have "wt_seq t \<in> set (map int [1..<nat (wq_next q')])" using eff by (metis image_eqI list.set_map)
    then have "s < wq_next q'" using t(2) by auto
    moreover have "u \<in> set (left es)" if "u \<in> set (entered es)" "wt_seq u \<le> s" for u
      using seq_order [OF step.hyps(1) t(1) that(1)] that(2) t(2) by simp
    ultimately show ?thesis using IH com next_mono e by (auto simp: max_def)
  next
    case False
    with com have c: "wq_committed q'' = wq_committed q'" by (cases e) auto
    have "t \<in> set (left (es @ [e]))" if "t \<in> set (entered (es @ [e]))" "wt_seq t \<le> wq_committed q''" for t
      using that IH com c by (cases e) auto
    with IH(1) c next_mono show ?thesis by auto
  qed
qed

text \<open>
  Strict durability: if workers commit only sequence numbers of tasks that have been removed
  from the queue, then a wait for a sequence number returns true only when every task enqueued
  before with that or a smaller number has already been removed by a worker; without a commit it
  stays false.
\<close>

theorem wait_true_means_removed:
  assumes "queue_run (new_queue m) es q" and "commits_removed es"
    and "es = pre @ WaitTrue s # post" and "t \<in> set (entered pre)" "wt_seq t \<le> s"
  shows "t \<in> set (left pre)"
proof -
  obtain q1 q2 where q: "queue_run (new_queue m) pre q1" "queue_step q1 (WaitTrue s) q2"
    using run_split [OF assms(1,3)] by blast
  have "s \<le> wq_committed q1"
    using q(2) by (cases rule: queue_stepE) (auto simp: wait_until_committed_def split: if_splits)
  moreover have "commits_removed pre" using assms(2,3) by (auto intro: commits_removed_prefix)
  ultimately show ?thesis using committed_left [OF q(1)] assms(4,5) by fastforce
qed

section \<open>Concrete instances\<close>

definition ex_task :: "nat write_task" where
  "ex_task = \<lparr>wt_seq = 1, wt_op = ''upsert'', wt_graph = ''g'', wt_node = ''n'', wt_data = 0, wt_ts = 0\<rparr>"

lemma ex_queue_run:
  "queue_run (new_queue 2) (((([] @ [Enqueued ex_task]) @ [Took [ex_task]]) @ [Committed 1]) @ [WaitTrue 1])
     \<lparr>wq_maxsize = 2, wq_queue = [], wq_next = 2, wq_committed = 1\<rparr>"
proof -
  let ?q1 = "\<lparr>wq_maxsize = 2, wq_queue = [ex_task], wq_next = 2, wq_committed = 0\<rparr>"
  let ?q2 = "\<lparr>wq_maxsize = 2, wq_queue = [], wq_next = 2, wq_committed = 0\<rparr> :: nat write_queue"
  have e: "enqueue_write ''upsert'' ''g'' ''n'' 0 0 True False (new_queue 2) = (?q1, Done 1)"
    by (simp add: enqueue_write_def new_queue_def qsize_def ex_task_def)
  have 1: "queue_step (new_queue 2) (Enqueued ex_task) ?q1" using queue_step.enqueue [OF e] by simp
  have "take_batch 10 False False ?q1 = (?q2, Done [ex_task])" by (simp add: take_batch_def)
  then have 2: "queue_step ?q1 (Took [ex_task]) ?q2" by (rule queue_step.took)
  have 3: "queue_step ?q2 (Committed 1) (?q2\<lparr>wq_committed := 1\<rparr>)"
    using queue_step.commit [of ?q2 1] by (simp add: mark_committed_def)
  have 4: "queue_step (?q2\<lparr>wq_committed := 1\<rparr>) (WaitTrue 1) (?q2\<lparr>wq_committed := 1\<rparr>)"
    by (rule queue_step.waited [of _ False]) (simp add: wait_until_committed_def)
  have "queue_run (new_queue 2) (((([] @ [Enqueued ex_task]) @ [Took [ex_task]]) @ [Committed 1]) @ [WaitTrue 1])
      (?q2\<lparr>wq_committed := 1\<rparr>)"
    by (rule queue_run.step [OF queue_run.step [OF queue_run.step [OF queue_run.step
            [OF queue_run.start 1] 2] 3] 4])
  then show ?thesis by simp
qed

lemma write_queue_fifo_witness:
  "left (((([] @ [Enqueued ex_task]) @ [Took [ex_task]]) @ [Committed 1]) @ [WaitTrue 1]) = [ex_task]"
  using write_queue_fifo [OF ex_queue_run] by simp

lemma wait_true_means_removed_witness: "ex_task \<in> set (left [Enqueued ex_task, Took [ex_task], Committed 1])"
proof (rule wait_true_means_removed [OF ex_queue_run, where s = 1 and post = "[]"])
  show "commits_removed (((([] @ [Enqueued ex_task]) @ [Took [ex_task]]) @ [Committed 1]) @ [WaitTrue 1])"
    unfolding commits_removed_def
    by (auto simp: Cons_eq_append_conv ex_task_def)
  show "(((([] @ [Enqueued ex_task]) @ [Took [ex_task]]) @ [Committed 1]) @ [WaitTrue 1])
      = [Enqueued ex_task, Took [ex_task], Committed 1] @ WaitTrue 1 # []" by simp
  show "ex_task \<in> set (entered [Enqueued ex_task, Took [ex_task], Committed 1])" by simp
  show "wt_seq ex_task \<le> 1" by (simp add: ex_task_def)
qed

end
