(* ===== verification/FM_Graph_Tables.thy ===== *)
theory FM_Graph_Tables
  imports FM_Prelude "HOL-Library.List_Lexorder" "HOL-Library.Product_Lexorder" "HOL-Library.Char_ord"
begin

text \<open>
  The tables of the memory graph, \<open>store/pg/models_faim.py\<close>: the rows of \<open>nodes\<close> and \<open>edges\<close>.
  A table is a list of rows in scan order, shared by all tenants. A UUID is its canonical text,
  whose order is the order of the column; times are integers; vectors are lists of real numbers;
  weights and residuals are the stored integers (the value times one billion).
\<close>

section \<open>Rows\<close>

type_synonym json_dict = "(string \<times> json_val) list"

record edge_row =
  er_id :: string
  er_tenant :: string
  er_graph :: string
  er_src :: string
  er_dst :: string
  er_kind :: string
  er_weight :: int
  er_meta :: "json_dict option"
  er_created :: int

record node_row =
  nd_id :: string
  nd_tenant :: string
  nd_graph :: string
  nd_kind :: string
  nd_hash :: string
  nd_raw :: "string option"
  nd_block :: "string option"
  nd_anchor :: "json_dict option"
  nd_vector :: "real list"
  nd_embedding :: "real list option"
  nd_signature :: "json_dict option"
  nd_residual :: int
  nd_level :: int
  nd_touch :: int
  nd_access :: "int option"
  nd_valid_from :: "int option"
  nd_valid_to :: "int option"
  nd_long_term :: bool
  nd_cluster :: "int option"
  nd_cognitive :: "string option"
  nd_galaxy :: "string option"
  nd_created :: int
  nd_updated :: int

text \<open>\<open>int(x * 1e9)\<close> and \<open>n / 1e9\<close>\<close>

definition to_scaled :: "real \<Rightarrow> int" where
  "to_scaled x = py_int (x * 1000000000)"

definition from_scaled :: "int \<Rightarrow> real" where
  "from_scaled n = of_int n / 1000000000"

lemma scaled_error: "\<bar>from_scaled (to_scaled x) - x\<bar> < 1 / 1000000000"
  using py_int_bounds [of "x * 1000000000"]
  by (simp add: from_scaled_def to_scaled_def abs_less_iff field_simps)

lemma scaled_error_times: "\<bar>from_scaled (to_scaled x) - x\<bar> * 1000000000 < 1"
  using scaled_error [of x] by simp

lemma from_scaled_inject [simp]: "from_scaled m = from_scaled n \<longleftrightarrow> m = n"
  by (simp add: from_scaled_def)

section \<open>Table operations\<close>

text \<open>\<open>UPDATE\<close> and \<open>DELETE\<close> of the rows that pass a filter; deletion also counts them.\<close>

definition update_rows :: "('r \<Rightarrow> bool) \<Rightarrow> ('r \<Rightarrow> 'r) \<Rightarrow> 'r list \<Rightarrow> 'r list" where
  "update_rows p f rows = map (\<lambda>r. if p r then f r else r) rows"

definition delete_rows :: "('r \<Rightarrow> bool) \<Rightarrow> 'r list \<Rightarrow> 'r list \<times> nat" where
  "delete_rows p rows = (filter (\<lambda>r. \<not> p r) rows, length (filter p rows))"

lemma filter_update_other:
  "(\<And>r. p r \<Longrightarrow> \<not> q r) \<Longrightarrow> (\<And>r. p r \<Longrightarrow> \<not> q (f r)) \<Longrightarrow> filter q (update_rows p f rows) = filter q rows"
  by (induction rows) (auto simp: update_rows_def)

lemma filter_delete_other:
  "(\<And>r. p r \<Longrightarrow> \<not> q r) \<Longrightarrow> filter q (fst (delete_rows p rows)) = filter q rows"
  by (induction rows) (auto simp: delete_rows_def)

lemma map_update_rows:
  "(\<And>r. g (f r) = g r) \<Longrightarrow> map g (update_rows p f rows) = map g rows"
  by (induction rows) (auto simp: update_rows_def)

lemma distinct_delete_rows:
  "distinct (map g rows) \<Longrightarrow> distinct (map g (fst (delete_rows p rows)))"
  by (auto simp: delete_rows_def distinct_map inj_on_def)

lemma set_delete_rows [simp]: "set (fst (delete_rows p rows)) = {r \<in> set rows. \<not> p r}"
  by (auto simp: delete_rows_def)

lemma find_filter: "find p rows = (case filter p rows of [] \<Rightarrow> None | r # _ \<Rightarrow> Some r)"
  by (induction rows) auto

section \<open>UUID texts\<close>

text \<open>
  \<open>UUID(s)\<close> on a string: the prefixes, braces and hyphens are removed, the rest must be 32
  characters that \<open>int(s, 16)\<close> accepts. The result is the canonical text.
\<close>

definition hex_value :: "char \<Rightarrow> int option" where
  "hex_value c =
     (let n = of_char c in
      if 48 \<le> n \<and> n \<le> 57 then Some (n - 48) else if 97 \<le> n \<and> n \<le> 102 then Some (n - 87)
      else if 65 \<le> n \<and> n \<le> 70 then Some (n - 55) else None)"

text \<open>Underscores stand between digits; \<open>prev\<close> says that one may come.\<close>

fun hex_digits :: "bool \<Rightarrow> int \<Rightarrow> string \<Rightarrow> int option" where
  "hex_digits prev acc [] = (if prev then Some acc else None)"
| "hex_digits prev acc (c # cs) =
     (case hex_value c of
        Some d \<Rightarrow> hex_digits True (16 * acc + d) cs
      | None \<Rightarrow> if c = CHR ''_'' \<and> prev \<and> cs \<noteq> [] \<and> hd cs \<noteq> CHR ''_'' then hex_digits True acc cs else None)"

definition parse_hex :: "string \<Rightarrow> int option" where
  "parse_hex s =
     (let u = py_strip s; v = (if py_startswith u ''+'' then tl u else u) in
      if v = [] then None
      else if py_startswith (py_lower v) ''0x'' then
        (let w = drop 2 v in if py_startswith w ''_'' then (if tl w = [] \<or> hd (tl w) = CHR ''_'' then None
           else hex_digits False 0 (tl w)) else hex_digits False 0 w)
      else hex_digits False 0 v)"

function py_remove :: "string \<Rightarrow> string \<Rightarrow> string" where
  "py_remove a s =
     (case s of
        [] \<Rightarrow> []
      | c # cs \<Rightarrow> if a \<noteq> [] \<and> py_startswith s a then py_remove a (drop (length a) s)
                  else c # py_remove a cs)"
  by pat_completeness auto
termination by (relation "measure (\<lambda>(a, s). length s)") (auto simp: py_startswith_def)

declare py_remove.simps [simp del]

fun hex_text :: "nat \<Rightarrow> int \<Rightarrow> string" where
  "hex_text 0 v = []"
| "hex_text (Suc n) v = hex_text n (v div 16) @ [''0123456789abcdef'' ! nat (v mod 16)]"

definition uuid_of :: "string \<Rightarrow> string option" where
  "uuid_of s =
     (let h = py_remove ''uuid:'' (py_remove ''urn:'' s);
          braces = (\<lambda>c. c = CHR ''{'' \<or> c = CHR ''}'');
          h' = py_remove ''-'' (rev (dropWhile braces (rev (dropWhile braces h))))
      in if length h' \<noteq> 32 then None
         else map_option (\<lambda>v. let t = hex_text 32 v in
           take 8 t @ ''-'' @ take 4 (drop 8 t) @ ''-'' @ take 4 (drop 12 t) @ ''-'' @ take 4 (drop 16 t)
             @ ''-'' @ drop 20 t) (parse_hex h'))"

end
