(* ===== verification/FM_Traversal.thy ===== *)
theory FM_Traversal
  imports FM_Graph_Tables
begin

text \<open>
  The multi-hop traversal of the memory graph, \<open>core/reasoning/traversal.py\<close>: a bounded
  breadth-first search over the stored edges with confidence decay, its node and edge caches, and
  the causal queries built on it.

  The tables are lists of rows. SHA-256, the JSON encoder and the two-digit rendering of a number
  are parameters of the environment, floating point numbers are exact rationals, and a traversal
  reads the clock once. The lemmas show that every path returned is a simple walk over stored
  edges of the tenant and the graph with the stated confidence, that the caches do not change
  the result, and that a search that was not cut off finds every admissible walk to the goal.
\<close>

section \<open>Hops and paths\<close>

record hop =
  hop_edge :: string
  hop_node :: string
  hop_label :: string
  hop_kind :: string
  hop_weight :: rat
  hop_next :: string
  hop_next_label :: string
  hop_props :: "(string \<times> json_val) list"
  hop_reasoning :: string

record reasoning_path =
  p_id :: string
  p_start :: string
  p_end :: string
  p_hops :: "hop list"
  p_conf :: rat
  p_length :: nat
  p_explanation :: string
  p_time :: string
  p_tenant :: string
  p_graph :: "string option"
  p_goal :: string
  p_partial :: bool
  p_nodes :: "string list"
  p_edges :: "string list"

text \<open>What the cache holds of a node.\<close>

record node_info =
  ni_id :: string
  ni_label :: string
  ni_text :: string
  ni_cognitive :: "string option"
  ni_galaxy :: "string option"

text \<open>
  The traverser without its caches: the session, the tenant, the graph, and the library
  functions. \<open>en_digest\<close> is the first twelve hex digits of the SHA-256 of a JSON list.
\<close>

record env =
  en_edges :: "edge_row list"
  en_nodes :: "node_row list"
  en_tenant :: string
  en_graph :: "string option"
  en_dumps :: "(string \<times> json_val) list \<Rightarrow> string"
  en_digest :: "string list \<Rightarrow> string"
  en_fmt :: "rat \<Rightarrow> string"
  en_now :: string

text \<open>
  The two caches. The key of an edge list is the node and the sorted edge types, that is, the
  set of the types.
\<close>

record caches =
  nodes_cached :: "string \<rightharpoonup> node_info option"
  edges_cached :: "string \<times> string set \<rightharpoonup> edge_row list"

definition no_caches :: caches where
  "no_caches = \<lparr>nodes_cached = (\<lambda>_. None), edges_cached = (\<lambda>_. None)\<rparr>"

definition MAX_HOPS :: int where "MAX_HOPS = 24"
definition MIN_EDGE_WEIGHT :: rat where "MIN_EDGE_WEIGHT = 3 / 10"
definition MAX_PATHS_PER_QUERY :: nat where "MAX_PATHS_PER_QUERY = 10"
definition CONFIDENCE_DECAY :: rat where "CONFIDENCE_DECAY = 9 / 10"
definition MAX_FRONTIER_WIDTH :: int where "MAX_FRONTIER_WIDTH = 96"
definition MAX_TOTAL_EXPANSIONS :: int where "MAX_TOTAL_EXPANSIONS = 4096"

definition REASONING_EDGE_TYPES :: "string set" where
  "REASONING_EDGE_TYPES = {''implies'', ''causes'', ''enables'', ''leads_to'', ''supports'',
     ''contradicts'', ''part_of'', ''related_to'', ''temporal_before'', ''temporal_after''}"

section \<open>Lookups through the caches\<close>

definition edge_selected :: "env \<Rightarrow> string \<Rightarrow> string set \<Rightarrow> edge_row \<Rightarrow> bool" where
  "edge_selected en nid types e \<longleftrightarrow>
     er_tenant e = en_tenant en
     \<and> (case en_graph en of None \<Rightarrow> True | Some g \<Rightarrow> g = [] \<or> er_graph e = g)
     \<and> er_src e = nid \<and> er_kind e \<in> types"

definition query_edges :: "env \<Rightarrow> string \<Rightarrow> string set \<Rightarrow> edge_row list" where
  "query_edges en nid types = filter (edge_selected en nid types) (en_edges en)"

definition get_outgoing_edges :: "env \<Rightarrow> string \<Rightarrow> string set \<Rightarrow> caches \<Rightarrow> edge_row list \<times> caches" where
  "get_outgoing_edges en nid types c =
     (case edges_cached c (nid, types) of
        Some es \<Rightarrow> (es, c)
      | None \<Rightarrow> (let es = query_edges en nid types
                in (es, c\<lparr>edges_cached := (edges_cached c)((nid, types) \<mapsto> es)\<rparr>)))"

definition normalized_edge_weight :: "edge_row \<Rightarrow> rat" where
  "normalized_edge_weight e =
     (let raw = of_int (er_weight e);
          raw' = (if raw > 1 then raw / 1000000000 else raw)
      in max 0 (min 1 raw'))"

text \<open>\<open>a or b\<close> on optional strings, and the JSON filename in front.\<close>

definition node_label :: "node_row \<Rightarrow> string" where
  "node_label n =
     (let name = map_of (case nd_anchor n of None \<Rightarrow> [] | Some a \<Rightarrow> a) ''filename'' in
      case name of
        Some v \<Rightarrow> if json_truthy v then json_str (\<lambda>_. []) v else
          (case nd_block n of Some (c # b) \<Rightarrow> c # b | _ \<Rightarrow>
           (case nd_raw n of Some (c # r) \<Rightarrow> c # r | _ \<Rightarrow> nd_id n))
      | None \<Rightarrow>
          (case nd_block n of Some (c # b) \<Rightarrow> c # b | _ \<Rightarrow>
           (case nd_raw n of Some (c # r) \<Rightarrow> c # r | _ \<Rightarrow> nd_id n)))"

definition node_info_of :: "env \<Rightarrow> node_row \<Rightarrow> node_info" where
  "node_info_of en n =
     \<lparr>ni_id = nd_id n, ni_label = take 100 (node_label n),
      ni_text = (case nd_anchor n of Some (x # a) \<Rightarrow> en_dumps en (x # a) | _ \<Rightarrow> node_label n),
      ni_cognitive = nd_cognitive n, ni_galaxy = nd_galaxy n\<rparr>"

definition query_node :: "env \<Rightarrow> string \<Rightarrow> node_info option" where
  "query_node en nid = map_option (node_info_of en)
     (find (\<lambda>n. nd_tenant n = en_tenant en \<and> nd_id n = nid) (en_nodes en))"

definition get_node :: "env \<Rightarrow> string \<Rightarrow> caches \<Rightarrow> node_info option \<times> caches" where
  "get_node en nid c =
     (case nodes_cached c nid of
        Some i \<Rightarrow> (i, c)
      | None \<Rightarrow> (let i = query_node en nid
                in (i, c\<lparr>nodes_cached := (nodes_cached c)(nid \<mapsto> i)\<rparr>)))"

definition label_of :: "node_info option \<Rightarrow> string" where
  "label_of i = (case i of None \<Rightarrow> ''Unknown'' | Some i \<Rightarrow> ni_label i)"

text \<open>The arrow of the default template is its UTF-8 encoding.\<close>

definition generate_hop_reasoning :: "node_info option \<Rightarrow> string \<Rightarrow> node_info option \<Rightarrow> string" where
  "generate_hop_reasoning a kind b =
     (let f = label_of a; t = label_of b; arrow = '' '' @ [CHR 0xE2, CHR 0x86, CHR 0x92] @ '' '' in
      if kind = ''implies'' then f @ '' implies '' @ t
      else if kind = ''causes'' then f @ '' causes '' @ t
      else if kind = ''enables'' then f @ '' enables '' @ t
      else if kind = ''leads_to'' then f @ '' leads to '' @ t
      else if kind = ''supports'' then f @ '' supports '' @ t
      else if kind = ''contradicts'' then f @ '' contradicts '' @ t
      else if kind = ''part_of'' then f @ '' is part of '' @ t
      else if kind = ''related_to'' then f @ '' is related to '' @ t
      else if kind = ''temporal_before'' then f @ '' happened before '' @ t
      else if kind = ''temporal_after'' then f @ '' happened after '' @ t
      else f @ arrow @ kind @ arrow @ t)"

definition build_hop :: "env \<Rightarrow> string \<Rightarrow> edge_row \<Rightarrow> string \<Rightarrow> caches \<Rightarrow> hop \<times> caches" where
  "build_hop en a e b c =
     (let (fi, c1) = get_node en a c; (ti, c2) = get_node en b c1 in
      (\<lparr>hop_edge = er_id e, hop_node = a, hop_label = label_of fi, hop_kind = er_kind e,
        hop_weight = normalized_edge_weight e, hop_next = b, hop_next_label = label_of ti,
        hop_props = (case er_meta e of None \<Rightarrow> [] | Some m \<Rightarrow> m),
        hop_reasoning = generate_hop_reasoning fi (er_kind e) ti\<rparr>, c2))"

text \<open>The goal test on a node: a substring, or at least half of the key words.\<close>

definition info_matches :: "node_info option \<Rightarrow> string \<Rightarrow> bool" where
  "info_matches i goal =
     (case i of
        None \<Rightarrow> False
      | Some i \<Rightarrow>
          let g = py_lower goal; t = py_lower (ni_text i); l = py_lower (ni_label i);
              gk = set (py_split_ws g)
          in py_in g t \<or> py_in g l
             \<or> (gk \<noteq> {} \<and> 2 * card (gk \<inter> set (py_split_ws t)) \<ge> card gk))"

definition matches_goal :: "env \<Rightarrow> string \<Rightarrow> string \<Rightarrow> caches \<Rightarrow> bool \<times> caches" where
  "matches_goal en nid goal c = (let (i, c') = get_node en nid c in (info_matches i goal, c'))"

text \<open>\<open>if goal and self._matches_goal(next_id, goal)\<close>\<close>

definition goal_reached :: "env \<Rightarrow> string option \<Rightarrow> string \<Rightarrow> caches \<Rightarrow> bool \<times> caches" where
  "goal_reached en goal nid c =
     (case goal of Some g \<Rightarrow> if g = [] then (False, c) else matches_goal en nid g c | None \<Rightarrow> (False, c))"

text \<open>The lines of an explanation, joined by newlines.\<close>

definition hop_line :: "env \<Rightarrow> nat \<Rightarrow> hop \<Rightarrow> string" where
  "hop_line en i h = ''  '' @ nat_str i @ ''. '' @ hop_reasoning h @ '' (confidence: ''
     @ en_fmt en (hop_weight h) @ '')''"

definition explanation_lines :: "env \<Rightarrow> string \<Rightarrow> string \<Rightarrow> hop list \<Rightarrow> rat \<Rightarrow> string option \<Rightarrow> bool \<Rightarrow>
    string list" where
  "explanation_lines en start target hops conf goal partial =
     [''Starting from: '' @ (case hops of [] \<Rightarrow> start | h # _ \<Rightarrow> hop_label h)]
     @ map (\<lambda>(i, h). hop_line en i h) (enumerate 1 hops)
     @ [''Final conclusion: '' @ (if hops = [] then target else hop_next_label (last hops))]
     @ (if partial then [''Traversal stopped before exact goal match; best partial route toward ''
            @ [CHR 0x27] @ (case goal of Some (c # g) \<Rightarrow> c # g | _ \<Rightarrow> ''graph goal'') @ [CHR 0x27]
            @ '' returned.''] else [])
     @ [''Overall confidence: '' @ en_fmt en conf]"

definition walk_nodes :: "string \<Rightarrow> hop list \<Rightarrow> string list" where
  "walk_nodes start hops = start # map hop_next hops"

text \<open>\<open>_build_path\<close> with the clamp of \<open>__post_init__\<close>.\<close>

definition build_path :: "env \<Rightarrow> string \<Rightarrow> string \<Rightarrow> hop list \<Rightarrow> rat \<Rightarrow> string option \<Rightarrow> bool \<Rightarrow>
    reasoning_path" where
  "build_path en start target hops conf goal partial =
     \<lparr>p_id = ''path_'' @ en_digest en (walk_nodes start hops), p_start = start, p_end = target,
      p_hops = hops, p_conf = max 0 (min 1 conf), p_length = length hops,
      p_explanation = py_join [CHR 0x0A] (explanation_lines en start target hops conf goal partial),
      p_time = en_now en, p_tenant = en_tenant en, p_graph = en_graph en,
      p_goal = (case goal of None \<Rightarrow> [] | Some g \<Rightarrow> g), p_partial = partial,
      p_nodes = walk_nodes start hops, p_edges = map hop_edge hops\<rparr>"

section \<open>The search\<close>

record item =
  it_node :: string
  it_hops :: "hop list"
  it_conf :: rat
  it_visited :: "string set"

text \<open>The arguments of a search, and the local variables of its loops.\<close>

record search_args =
  sa_goal :: "string option"
  sa_hops :: int
  sa_min :: rat
  sa_types :: "string set"
  sa_width :: int
  sa_total :: int
  sa_partial :: bool

record search =
  se_paths :: "reasoning_path list"
  se_partials :: "reasoning_path list"
  se_expansions :: int
  se_next :: "item list"
  se_caches :: caches

text \<open>One edge of one frontier item.\<close>

definition expand_edge :: "env \<Rightarrow> search_args \<Rightarrow> string \<Rightarrow> item \<Rightarrow> edge_row \<Rightarrow> search \<Rightarrow> search" where
  "expand_edge en sa start it e s =
     (let nxt = er_dst e; w = normalized_edge_weight e in
      if nxt \<in> it_visited it then s
      else if w < MIN_EDGE_WEIGHT then s
      else
        let (h, c1) = build_hop en (it_node it) e nxt (se_caches s);
            hops = it_hops it @ [h];
            conf = it_conf it * w * CONFIDENCE_DECAY;
            (hit, c2) = goal_reached en (sa_goal sa) nxt c1
        in \<lparr>se_paths = se_paths s @ (if hit then [build_path en start nxt hops conf None False] else []),
            se_partials = se_partials s @ (if \<not> hit \<and> sa_partial sa
              then [build_path en start nxt hops conf (sa_goal sa) True] else []),
            se_expansions = se_expansions s + 1,
            se_next = se_next s @ [\<lparr>it_node = nxt, it_hops = hops, it_conf = conf,
              it_visited = insert nxt (it_visited it)\<rparr>],
            se_caches = c2\<rparr>)"

fun edge_loop :: "env \<Rightarrow> search_args \<Rightarrow> string \<Rightarrow> item \<Rightarrow> edge_row list \<Rightarrow> search \<Rightarrow> search" where
  "edge_loop en sa start it [] s = s"
| "edge_loop en sa start it (e # es) s =
     (if se_expansions s \<ge> sa_total sa then s
      else edge_loop en sa start it es (expand_edge en sa start it e s))"

definition expand_item :: "env \<Rightarrow> search_args \<Rightarrow> string \<Rightarrow> item \<Rightarrow> search \<Rightarrow> search" where
  "expand_item en sa start it s =
     (let (es, c) = get_outgoing_edges en (it_node it) (sa_types sa) (se_caches s)
      in edge_loop en sa start it es (s\<lparr>se_caches := c\<rparr>))"

fun frontier_loop :: "env \<Rightarrow> search_args \<Rightarrow> string \<Rightarrow> item list \<Rightarrow> search \<Rightarrow> search" where
  "frontier_loop en sa start [] s = s"
| "frontier_loop en sa start (it # its) s =
     (if it_conf it < sa_min sa then frontier_loop en sa start its s
      else if se_expansions s \<ge> sa_total sa then s
      else frontier_loop en sa start its (expand_item en sa start it s))"

definition item_key :: "item \<Rightarrow> rat \<times> nat \<times> string" where
  "item_key it = (- it_conf it, length (it_hops it), it_node it)"

definition path_key :: "reasoning_path \<Rightarrow> rat \<times> nat \<times> string" where
  "path_key p = (- p_conf p, p_length p, p_id p)"

fun depth_loop :: "env \<Rightarrow> search_args \<Rightarrow> string \<Rightarrow> nat \<Rightarrow> item list \<Rightarrow> search \<Rightarrow> search" where
  "depth_loop en sa start 0 frontier s = s"
| "depth_loop en sa start (Suc n) frontier s =
     (let s1 = frontier_loop en sa start frontier (s\<lparr>se_next := []\<rparr>);
          frontier' = py_first (sa_width sa) (sort_key item_key (se_next s1))
      in if frontier' = [] \<or> se_expansions s1 \<ge> sa_total sa then s1
         else depth_loop en sa start n frontier' s1)"

text \<open>\<open>deduped\<close> keeps the best path of every path id, in the order of first insertion.\<close>

definition keep_best :: "reasoning_path \<Rightarrow> (string \<times> reasoning_path) list \<Rightarrow>
    (string \<times> reasoning_path) list" where
  "keep_best p d =
     (case map_of d (p_id p) of
        None \<Rightarrow> al_put (p_id p) p d
      | Some q \<Rightarrow> if p_conf p > p_conf q then al_put (p_id p) p d else d)"

definition start_item :: "string \<Rightarrow> item" where
  "start_item start = \<lparr>it_node = start, it_hops = [], it_conf = 1, it_visited = {start}\<rparr>"

definition run_search :: "env \<Rightarrow> search_args \<Rightarrow> string \<Rightarrow> caches \<Rightarrow> search" where
  "run_search en sa start c =
     depth_loop en sa start (nat (sa_hops sa)) [start_item start]
       \<lparr>se_paths = [], se_partials = [], se_expansions = 0, se_next = [], se_caches = c\<rparr>"

definition traverse_from_start :: "env \<Rightarrow> search_args \<Rightarrow> string \<Rightarrow> caches \<Rightarrow> reasoning_path list \<times> caches" where
  "traverse_from_start en sa start c =
     (let s = run_search en sa start c;
          deduped = fold keep_best (se_paths s) [];
          deduped' = (if deduped = [] \<and> sa_partial sa
            then fold keep_best (take MAX_PATHS_PER_QUERY (sort_key path_key (se_partials s))) []
            else deduped)
      in (map snd deduped', se_caches s))"

text \<open>\<open>x or default\<close> on numbers: None and zero mean the default.\<close>

definition or_default :: "'a::zero option \<Rightarrow> 'a \<Rightarrow> 'a" where
  "or_default x d = (case x of None \<Rightarrow> d | Some y \<Rightarrow> if y = 0 then d else y)"

definition make_args :: "string option \<Rightarrow> int option \<Rightarrow> rat option \<Rightarrow> string set option \<Rightarrow> int option \<Rightarrow>
    int option \<Rightarrow> bool \<Rightarrow> search_args" where
  "make_args goal max_hops min_conf types width max_total partial =
     \<lparr>sa_goal = goal, sa_hops = or_default max_hops MAX_HOPS, sa_min = or_default min_conf (1 / 10),
      sa_types = (case types of None \<Rightarrow> REASONING_EDGE_TYPES
        | Some ts \<Rightarrow> if ts = {} then REASONING_EDGE_TYPES else ts),
      sa_width = or_default width MAX_FRONTIER_WIDTH,
      sa_total = or_default max_total MAX_TOTAL_EXPANSIONS, sa_partial = partial\<rparr>"

fun start_loop :: "env \<Rightarrow> search_args \<Rightarrow> string list \<Rightarrow> caches \<Rightarrow> reasoning_path list \<times> caches" where
  "start_loop en sa [] c = ([], c)"
| "start_loop en sa (n # ns) c =
     (let (ps, c1) = traverse_from_start en sa n c; (qs, c2) = start_loop en sa ns c1
      in (ps @ qs, c2))"

definition traverse :: "env \<Rightarrow> search_args \<Rightarrow> string list \<Rightarrow> caches \<Rightarrow> reasoning_path list \<times> caches" where
  "traverse en sa starts c =
     (let (ps, c') = start_loop en sa starts c
      in (take MAX_PATHS_PER_QUERY (sort_key path_key ps), c'))"

section \<open>Causal queries\<close>

definition causal_args :: "string \<Rightarrow> int \<Rightarrow> search_args" where
  "causal_args effect max_hops = make_args (Some effect) (Some max_hops) None
     (Some {''causes'', ''leads_to'', ''implies'', ''enables''}) None None True"

definition find_causal_chain :: "env \<Rightarrow> string \<Rightarrow> string \<Rightarrow> int \<Rightarrow> caches \<Rightarrow>
    reasoning_path option \<times> caches" where
  "find_causal_chain en cause effect max_hops c =
     (let (ps, c') = traverse en (causal_args effect max_hops) [cause] c
      in (case ps of [] \<Rightarrow> None | p # _ \<Rightarrow> Some p, c'))"

fun explain_loop :: "env \<Rightarrow> string \<Rightarrow> int \<Rightarrow> string list \<Rightarrow> caches \<Rightarrow> reasoning_path list \<times> caches" where
  "explain_loop en effect max_hops [] c = ([], c)"
| "explain_loop en effect max_hops (n # ns) c =
     (let (p, c1) = find_causal_chain en n effect max_hops c;
          (ps, c2) = explain_loop en effect max_hops ns c1
      in ((case p of None \<Rightarrow> [] | Some p \<Rightarrow> [p]) @ ps, c2))"

definition find_explanations :: "env \<Rightarrow> string \<Rightarrow> int \<Rightarrow> caches \<Rightarrow> reasoning_path list \<times> caches" where
  "find_explanations en effect max_hops c =
     (let causes = map er_src (filter (\<lambda>e. er_tenant e = en_tenant en \<and> er_dst e = effect
              \<and> er_kind e \<in> {''causes'', ''leads_to'', ''implies''}) (en_edges en));
          (ps, c') = explain_loop en effect max_hops causes c
      in (sort_key (\<lambda>p. - p_conf p) ps, c'))"

section \<open>The caches hold what the tables hold\<close>

definition coherent :: "env \<Rightarrow> caches \<Rightarrow> bool" where
  "coherent en c \<longleftrightarrow>
     (\<forall>nid i. nodes_cached c nid = Some i \<longrightarrow> i = query_node en nid)
     \<and> (\<forall>nid types es. edges_cached c (nid, types) = Some es \<longrightarrow> es = query_edges en nid types)"

lemma coherent_no_caches [simp]: "coherent en no_caches"
  by (simp add: coherent_def no_caches_def)

lemma get_outgoing_coherent:
  "coherent en c \<Longrightarrow> fst (get_outgoing_edges en n ts c) = query_edges en n ts
     \<and> coherent en (snd (get_outgoing_edges en n ts c))"
  by (auto simp: get_outgoing_edges_def coherent_def Let_def split: option.splits)

lemma get_node_coherent:
  "coherent en c \<Longrightarrow> fst (get_node en n c) = query_node en n \<and> coherent en (snd (get_node en n c))"
  by (auto simp: get_node_def coherent_def Let_def split: option.splits)

text \<open>What a hop and the goal test are, read from the tables.\<close>

definition hop_of :: "env \<Rightarrow> edge_row \<Rightarrow> hop" where
  "hop_of en e = fst (build_hop en (er_src e) e (er_dst e) no_caches)"

definition goal_hit :: "env \<Rightarrow> string option \<Rightarrow> string \<Rightarrow> bool" where
  "goal_hit en goal nid \<longleftrightarrow> (\<exists>g. goal = Some g \<and> g \<noteq> [] \<and> info_matches (query_node en nid) g)"

lemma build_hop_coherent:
  assumes "coherent en c"
  shows "fst (build_hop en (er_src e) e (er_dst e) c) = hop_of en e
    \<and> coherent en (snd (build_hop en (er_src e) e (er_dst e) c))"
proof -
  have *: "fst (build_hop en a e b c) = fst (build_hop en a e b no_caches)
    \<and> coherent en (snd (build_hop en a e b c))" for a b
    using get_node_coherent [OF assms, of a]
      get_node_coherent [of en "snd (get_node en a c)" b]
      get_node_coherent [OF coherent_no_caches, of en a]
      get_node_coherent [of en "snd (get_node en a no_caches)" b]
    by (simp add: build_hop_def case_prod_beta Let_def)
  then show ?thesis by (simp add: hop_of_def)
qed

lemma goal_reached_coherent:
  "coherent en c \<Longrightarrow> fst (goal_reached en goal n c) = goal_hit en goal n
     \<and> coherent en (snd (goal_reached en goal n c))"
  using get_node_coherent [of en c n]
  by (auto simp: goal_reached_def goal_hit_def matches_goal_def case_prod_beta Let_def
      split: option.splits)

section \<open>Walks of edges\<close>

fun edge_walk :: "env \<Rightarrow> string set \<Rightarrow> string \<Rightarrow> edge_row list \<Rightarrow> bool" where
  "edge_walk en types n [] \<longleftrightarrow> True"
| "edge_walk en types n (e # es) \<longleftrightarrow>
     e \<in> set (en_edges en) \<and> edge_selected en n types e \<and> MIN_EDGE_WEIGHT \<le> normalized_edge_weight e
     \<and> edge_walk en types (er_dst e) es"

definition visited_nodes :: "string \<Rightarrow> edge_row list \<Rightarrow> string list" where
  "visited_nodes start es = start # map er_dst es"

definition walk_end :: "string \<Rightarrow> edge_row list \<Rightarrow> string" where
  "walk_end start es = last (visited_nodes start es)"

definition confidence :: "edge_row list \<Rightarrow> rat" where
  "confidence es = prod_list (map (\<lambda>e. normalized_edge_weight e * CONFIDENCE_DECAY) es)"

text \<open>The walks the search admits: simple, over strong enough edges, confident enough before the last edge.\<close>

definition admissible :: "env \<Rightarrow> search_args \<Rightarrow> string \<Rightarrow> edge_row list \<Rightarrow> bool" where
  "admissible en sa start es \<longleftrightarrow>
     edge_walk en (sa_types sa) start es \<and> distinct (visited_nodes start es)
     \<and> (\<forall>n < length es. sa_min sa \<le> confidence (take n es))"

lemma walk_end_simps [simp]:
  "walk_end n [] = n" "walk_end n (e # es) = walk_end (er_dst e) es"
  by (simp_all add: walk_end_def visited_nodes_def)

lemma walk_end_snoc [simp]: "walk_end n (es @ [e]) = er_dst e"
  by (simp add: walk_end_def visited_nodes_def)

lemma edge_walk_snoc:
  "edge_walk en types n (es @ [e]) \<longleftrightarrow> edge_walk en types n es
     \<and> e \<in> set (query_edges en (walk_end n es) types) \<and> MIN_EDGE_WEIGHT \<le> normalized_edge_weight e"
  by (induction es arbitrary: n) (auto simp: query_edges_def)

lemma confidence_snoc [simp]:
  "confidence (es @ [e]) = confidence es * normalized_edge_weight e * CONFIDENCE_DECAY"
  by (simp add: confidence_def)

lemma confidence_Nil [simp]: "confidence [] = 1"
  by (simp add: confidence_def)

lemma admissible_Nil [simp]: "admissible en sa start []"
  by (simp add: admissible_def visited_nodes_def)

lemma admissible_snoc:
  "admissible en sa start (es @ [e]) \<longleftrightarrow> admissible en sa start es
     \<and> e \<in> set (query_edges en (walk_end start es) (sa_types sa))
     \<and> MIN_EDGE_WEIGHT \<le> normalized_edge_weight e \<and> er_dst e \<notin> set (visited_nodes start es)
     \<and> sa_min sa \<le> confidence es"
  by (auto simp: admissible_def edge_walk_snoc visited_nodes_def less_Suc_eq)

lemma normalized_bounds: "0 \<le> normalized_edge_weight e \<and> normalized_edge_weight e \<le> 1"
  by (simp add: normalized_edge_weight_def Let_def)

lemma confidence_bounds:
  "edge_walk en types n es \<Longrightarrow> 0 < confidence es \<and> confidence es \<le> CONFIDENCE_DECAY ^ length es"
proof (induction es arbitrary: n)
  case (Cons e es)
  let ?w = "normalized_edge_weight e * CONFIDENCE_DECAY"
  have w: "0 < ?w" "?w \<le> CONFIDENCE_DECAY"
    using Cons.prems normalized_bounds [of e]
    by (auto simp: MIN_EDGE_WEIGHT_def CONFIDENCE_DECAY_def)
  have IH: "0 < confidence es" "confidence es \<le> CONFIDENCE_DECAY ^ length es"
    using Cons by auto
  have c: "confidence (e # es) = ?w * confidence es" by (simp add: confidence_def)
  show ?case unfolding c using w IH mult_mono [OF w(2) IH(2)] by (simp add: CONFIDENCE_DECAY_def)
qed simp

text \<open>The frontier item and the path of a walk.\<close>

definition item_of :: "env \<Rightarrow> string \<Rightarrow> edge_row list \<Rightarrow> item" where
  "item_of en start es = \<lparr>it_node = walk_end start es, it_hops = map (hop_of en) es,
     it_conf = confidence es, it_visited = set (visited_nodes start es)\<rparr>"

definition path_of :: "env \<Rightarrow> search_args \<Rightarrow> string \<Rightarrow> edge_row list \<Rightarrow> reasoning_path" where
  "path_of en sa start es =
     (let hit = goal_hit en (sa_goal sa) (walk_end start es) in
      build_path en start (walk_end start es) (map (hop_of en) es) (confidence es)
        (if hit then None else sa_goal sa) (\<not> hit))"

lemma item_of_Nil: "item_of en start [] = start_item start"
  by (simp add: item_of_def start_item_def visited_nodes_def)

text \<open>Expanding an edge of the last node of a walk either skips it or adds the longer walk.\<close>

definition extends :: "string \<Rightarrow> edge_row list \<Rightarrow> edge_row \<Rightarrow> bool" where
  "extends start es e \<longleftrightarrow>
     er_dst e \<notin> set (visited_nodes start es) \<and> MIN_EDGE_WEIGHT \<le> normalized_edge_weight e"

lemma expand_edge_coherent:
  assumes "coherent en (se_caches s)" and "er_src e = walk_end start es"
  obtains c where "coherent en c" and
    "expand_edge en sa start (item_of en start es) e s =
       (if extends start es e then
          \<lparr>se_paths = se_paths s @ (if goal_hit en (sa_goal sa) (er_dst e)
             then [path_of en sa start (es @ [e])] else []),
           se_partials = se_partials s @ (if \<not> goal_hit en (sa_goal sa) (er_dst e) \<and> sa_partial sa
             then [path_of en sa start (es @ [e])] else []),
           se_expansions = se_expansions s + 1,
           se_next = se_next s @ [item_of en start (es @ [e])], se_caches = c\<rparr>
        else s\<lparr>se_caches := c\<rparr>)"
proof -
  let ?b = "build_hop en (er_src e) e (er_dst e) (se_caches s)"
  let ?g = "goal_reached en (sa_goal sa) (er_dst e) (snd ?b)"
  note b = build_hop_coherent [OF assms(1), of e]
  note g = goal_reached_coherent [OF conjunct2 [OF b], of "sa_goal sa" "er_dst e"]
  show thesis
  proof (cases "extends start es e")
    case True
    show thesis
      by (rule that [of "snd ?g"])
        (use True b g assms(2) in \<open>auto simp: expand_edge_def extends_def item_of_def path_of_def
          case_prod_beta Let_def visited_nodes_def\<close>)
  next
    case False
    show thesis
      by (rule that [of "se_caches s"])
        (use False assms in \<open>auto simp: expand_edge_def extends_def item_of_def Let_def\<close>)
  qed
qed

section \<open>Soundness of the loops\<close>

text \<open>The results are walks: frontier items of length d, and paths of length at most the bound.\<close>

definition sound_search :: "env \<Rightarrow> search_args \<Rightarrow> string \<Rightarrow> nat \<Rightarrow> search \<Rightarrow> bool" where
  "sound_search en sa start d s \<longleftrightarrow>
     coherent en (se_caches s)
     \<and> (\<forall>it \<in> set (se_next s). \<exists>es. it = item_of en start es \<and> admissible en sa start es \<and> length es = d)
     \<and> (\<forall>p \<in> set (se_paths s). \<exists>es. p = path_of en sa start es \<and> admissible en sa start es \<and> es \<noteq> []
          \<and> length es \<le> nat (sa_hops sa) \<and> goal_hit en (sa_goal sa) (walk_end start es))
     \<and> (\<forall>p \<in> set (se_partials s). \<exists>es. p = path_of en sa start es \<and> admissible en sa start es \<and> es \<noteq> []
          \<and> length es \<le> nat (sa_hops sa) \<and> \<not> goal_hit en (sa_goal sa) (walk_end start es))
     \<and> int (length (se_paths s)) \<le> se_expansions s \<and> int (length (se_next s)) \<le> se_expansions s"

lemma sound_expand_edge:
  assumes "sound_search en sa start (Suc (length es)) s" and "admissible en sa start es"
    and "sa_min sa \<le> confidence es" and "length es < nat (sa_hops sa)"
    and "e \<in> set (query_edges en (walk_end start es) (sa_types sa))"
  shows "sound_search en sa start (Suc (length es)) (expand_edge en sa start (item_of en start es) e s)"
proof -
  have src: "er_src e = walk_end start es" using assms(5) by (simp add: query_edges_def edge_selected_def)
  have coh: "coherent en (se_caches s)" using assms(1) by (simp add: sound_search_def)
  obtain c where c: "coherent en c" and eq: "expand_edge en sa start (item_of en start es) e s =
       (if extends start es e then
          \<lparr>se_paths = se_paths s @ (if goal_hit en (sa_goal sa) (er_dst e)
             then [path_of en sa start (es @ [e])] else []),
           se_partials = se_partials s @ (if \<not> goal_hit en (sa_goal sa) (er_dst e) \<and> sa_partial sa
             then [path_of en sa start (es @ [e])] else []),
           se_expansions = se_expansions s + 1,
           se_next = se_next s @ [item_of en start (es @ [e])], se_caches = c\<rparr>
        else s\<lparr>se_caches := c\<rparr>)"
    by (rule expand_edge_coherent [OF coh src])
  show ?thesis
  proof (cases "extends start es e")
    case True
    then have adm: "admissible en sa start (es @ [e])"
      using assms by (simp add: admissible_snoc extends_def)
    have len: "length (es @ [e]) = Suc (length es)" "length (es @ [e]) \<le> nat (sa_hops sa)"
      using assms(4) by simp_all
    have 1: "\<exists>xs. item_of en start (es @ [e]) = item_of en start xs \<and> admissible en sa start xs
        \<and> length xs = Suc (length es)"
      using adm len(1) by blast
    have 2: "\<exists>xs. path_of en sa start (es @ [e]) = path_of en sa start xs \<and> admissible en sa start xs
        \<and> xs \<noteq> [] \<and> length xs \<le> nat (sa_hops sa)
        \<and> goal_hit en (sa_goal sa) (walk_end start xs) = goal_hit en (sa_goal sa) (er_dst e)"
      using adm len(2) by (intro exI [of _ "es @ [e]"]) simp
    show ?thesis
      using assms(1) c True 1 2 unfolding eq sound_search_def by auto
  next
    case False
    then show ?thesis using assms(1) c unfolding eq sound_search_def by auto
  qed
qed

lemma sound_edge_loop:
  assumes "sound_search en sa start (Suc (length es)) s" and "admissible en sa start es"
    and "sa_min sa \<le> confidence es" and "length es < nat (sa_hops sa)"
    and "set xs \<subseteq> set (query_edges en (walk_end start es) (sa_types sa))"
  shows "sound_search en sa start (Suc (length es)) (edge_loop en sa start (item_of en start es) xs s)"
  using assms(1,5)
proof (induction xs arbitrary: s)
  case (Cons e xs)
  then show ?case using sound_expand_edge [OF Cons.prems(1) assms(2-4), of e] by auto
qed simp

lemma it_of_simps [simp]:
  "it_node (item_of en start es) = walk_end start es"
  "it_conf (item_of en start es) = confidence es"
  by (simp_all add: item_of_def)

lemma sound_caches:
  "sound_search en sa start d s \<Longrightarrow> coherent en c \<Longrightarrow> sound_search en sa start d (s\<lparr>se_caches := c\<rparr>)"
  by (simp add: sound_search_def)

lemma sound_expand_item:
  assumes "sound_search en sa start (Suc (length es)) s" and "admissible en sa start es"
    and "sa_min sa \<le> confidence es" and "length es < nat (sa_hops sa)"
  shows "sound_search en sa start (Suc (length es)) (expand_item en sa start (item_of en start es) s)"
proof -
  have coh: "coherent en (se_caches s)" using assms(1) by (simp add: sound_search_def)
  note g = get_outgoing_coherent [OF coh, of "walk_end start es" "sa_types sa"]
  show ?thesis
    using sound_edge_loop [OF sound_caches [OF assms(1) conjunct2 [OF g]] assms(2-4) order_refl] g
    by (simp add: expand_item_def case_prod_beta)
qed

lemma sound_frontier_loop:
  assumes "sound_search en sa start (Suc d) s" and "d < nat (sa_hops sa)"
    and "\<forall>it \<in> set its. \<exists>es. it = item_of en start es \<and> admissible en sa start es \<and> length es = d"
  shows "sound_search en sa start (Suc d) (frontier_loop en sa start its s)"
  using assms(1,3)
proof (induction its arbitrary: s)
  case (Cons it its)
  then obtain es where es: "it = item_of en start es" "admissible en sa start es" "length es = d" by auto
  show ?case
  proof (cases "sa_min sa \<le> confidence es")
    case True
    then have "sound_search en sa start (Suc d) (expand_item en sa start it s)"
      using sound_expand_item [of en sa start es s] Cons.prems(1) es assms(2) by simp
    then show ?thesis using Cons by auto
  qed (use Cons es in auto)
qed simp

lemma sound_next_reset:
  assumes "sound_search en sa start d s"
  shows "sound_search en sa start d' (s\<lparr>se_next := []\<rparr>)"
proof -
  have "0 \<le> se_expansions s" using assms unfolding sound_search_def
    by (meson of_nat_0_le_iff order_trans)
  with assms show ?thesis by (simp add: sound_search_def)
qed

lemma sound_depth_loop:
  assumes "sound_search en sa start d s" and "d + n = nat (sa_hops sa)"
    and "\<forall>it \<in> set frontier. \<exists>es. it = item_of en start es \<and> admissible en sa start es \<and> length es = d"
  shows "\<exists>d'. sound_search en sa start d' (depth_loop en sa start n frontier s)"
  using assms
proof (induction n arbitrary: d frontier s)
  case (Suc n)
  let ?s1 = "frontier_loop en sa start frontier (s\<lparr>se_next := []\<rparr>)"
  let ?fr = "py_first (sa_width sa) (sort_key item_key (se_next ?s1))"
  have s1: "sound_search en sa start (Suc d) ?s1"
    using sound_next_reset [OF Suc.prems(1)] Suc.prems(2,3) by (intro sound_frontier_loop) auto
  show ?case
  proof (cases "?fr = [] \<or> se_expansions ?s1 \<ge> sa_total sa")
    case True
    then show ?thesis using s1 by (auto simp: Let_def)
  next
    case False
    have "set ?fr \<subseteq> set (se_next ?s1)" using set_py_first by fastforce
    then have "\<forall>it \<in> set ?fr. \<exists>es. it = item_of en start es \<and> admissible en sa start es \<and> length es = Suc d"
      using s1 unfolding sound_search_def by blast
    with Suc.IH [OF s1] Suc.prems(2) False show ?thesis by (auto simp: Let_def)
  qed
qed auto

lemma run_search_sound:
  assumes "coherent en c"
  shows "\<exists>d. sound_search en sa start d (run_search en sa start c)"
  unfolding run_search_def
proof (rule sound_depth_loop [of _ _ _ 0])
  show "sound_search en sa start 0
     \<lparr>se_paths = [], se_partials = [], se_expansions = 0, se_next = [], se_caches = c\<rparr>"
    using assms by (simp add: sound_search_def)
  show "\<forall>it \<in> set [start_item start]. \<exists>es. it = item_of en start es \<and> admissible en sa start es
      \<and> length es = 0"
    by (auto intro: exI [of _ "[]"] simp: item_of_Nil)
qed simp

section \<open>Deduplication\<close>

lemma set_keep_best: "set (keep_best p d) \<subseteq> insert (p_id p, p) (set d)"
  using set_al_put [of "p_id p" p d] unfolding keep_best_def by (simp add: subset_insertI split: option.split)

lemma set_fold_keep_best: "set (fold keep_best ps d) \<subseteq> (\<lambda>p. (p_id p, p)) ` set ps \<union> set d"
proof (induction ps arbitrary: d)
  case (Cons p ps)
  from Cons.IH [of "keep_best p d"] set_keep_best [of p d] show ?case
    unfolding fold_simps comp_apply list.set image_insert by blast
qed simp

lemma fold_keep_best_get:
  "map_of d k = Some q \<Longrightarrow> \<exists>r. map_of (fold keep_best ps d) k = Some r \<and> p_conf q \<le> p_conf r"
proof (induction ps arbitrary: d q)
  case (Cons p ps)
  have "\<exists>q'. map_of (keep_best p d) k = Some q' \<and> p_conf q \<le> p_conf q'"
    using Cons.prems by (auto simp: keep_best_def split: option.splits)
  then obtain q' where q': "map_of (keep_best p d) k = Some q'" "p_conf q \<le> p_conf q'" by blast
  from Cons.IH [OF q'(1)] q'(2) show ?case by (auto intro: order_trans)
qed auto

lemma fold_keep_best_covers:
  "p \<in> set ps \<Longrightarrow> \<exists>q. map_of (fold keep_best ps d) (p_id p) = Some q \<and> p_conf p \<le> p_conf q"
proof (induction ps arbitrary: d)
  case (Cons a ps)
  show ?case
  proof (cases "p = a")
    case True
    have "\<exists>q. map_of (keep_best a d) (p_id a) = Some q \<and> p_conf a \<le> p_conf q"
      by (auto simp: keep_best_def split: option.splits)
    then obtain q where q: "map_of (keep_best a d) (p_id a) = Some q" "p_conf a \<le> p_conf q" by blast
    from fold_keep_best_get [OF q(1), of ps] q(2) True show ?thesis by (auto intro: order_trans)
  qed (use Cons in simp)
qed simp

section \<open>What a traversal returns\<close>

lemma from_start_coherent: "coherent en c \<Longrightarrow> coherent en (snd (traverse_from_start en sa start c))"
  using run_search_sound [of en c sa start]
  by (auto simp: traverse_from_start_def Let_def sound_search_def)

lemma from_start_sound:
  assumes "coherent en c" and "p \<in> set (fst (traverse_from_start en sa start c))"
  shows "\<exists>es. p = path_of en sa start es \<and> admissible en sa start es \<and> es \<noteq> []
    \<and> length es \<le> nat (sa_hops sa)"
proof -
  let ?s = "run_search en sa start c"
  have "p \<in> set (se_paths ?s) \<union> set (se_partials ?s)"
  proof -
    have best: "q \<in> set ps" if "q \<in> snd ` set (fold keep_best ps [])" for q ps
      using that set_fold_keep_best [of ps "[]"] by auto
    show ?thesis
      using assms(2) best [of p "se_paths ?s"]
        best [of p "take MAX_PATHS_PER_QUERY (sort_key path_key (se_partials ?s))"]
      by (auto simp: traverse_from_start_def Let_def dest: in_set_takeD split: if_splits)
  qed
  with run_search_sound [OF assms(1), of sa start] show ?thesis
    unfolding sound_search_def by blast
qed

lemma start_loop_sound:
  assumes "coherent en c"
  shows "coherent en (snd (start_loop en sa starts c)) \<and>
    (\<forall>p \<in> set (fst (start_loop en sa starts c)). \<exists>start \<in> set starts. \<exists>es.
       p = path_of en sa start es \<and> admissible en sa start es \<and> es \<noteq> [] \<and> length es \<le> nat (sa_hops sa))"
  using assms
proof (induction starts arbitrary: c)
  case (Cons n ns)
  let ?r = "traverse_from_start en sa n c"
  have "coherent en (snd ?r)" using Cons.prems by (rule from_start_coherent)
  note IH = Cons.IH [OF this]
  show ?case using IH from_start_sound [OF Cons.prems, of _ sa n]
    by (auto simp: case_prod_beta)
qed simp

text \<open>A path of a walk, read off its fields.\<close>

lemma path_of_fields:
  assumes "admissible en sa start es"
  shows "p_start (path_of en sa start es) = start" "p_end (path_of en sa start es) = walk_end start es"
    "p_edges (path_of en sa start es) = map er_id es"
    "p_nodes (path_of en sa start es) = visited_nodes start es"
    "p_conf (path_of en sa start es) = confidence es" "p_length (path_of en sa start es) = length es"
    "p_partial (path_of en sa start es) \<longleftrightarrow> \<not> goal_hit en (sa_goal sa) (walk_end start es)"
    "p_id (path_of en sa start es) = ''path_'' @ en_digest en (visited_nodes start es)"
proof -
  have "edge_walk en (sa_types sa) start es" using assms by (simp add: admissible_def)
  from confidence_bounds [OF this] have "0 < confidence es" "confidence es \<le> 1"
    by (auto intro: order_trans simp: CONFIDENCE_DECAY_def power_le_one)
  then show "p_conf (path_of en sa start es) = confidence es" by (simp add: path_of_def build_path_def Let_def)
  have "hop_next (hop_of en e) = er_dst e" "hop_edge (hop_of en e) = er_id e" for e
    by (simp_all add: hop_of_def build_hop_def case_prod_beta)
  then have "walk_nodes start (map (hop_of en) es) = visited_nodes start es"
    "map hop_edge (map (hop_of en) es) = map er_id es"
    by (simp_all add: walk_nodes_def visited_nodes_def)
  then show "p_edges (path_of en sa start es) = map er_id es"
    "p_nodes (path_of en sa start es) = visited_nodes start es"
    "p_id (path_of en sa start es) = ''path_'' @ en_digest en (visited_nodes start es)"
    by (simp_all add: path_of_def build_path_def Let_def)
qed (simp_all add: path_of_def build_path_def Let_def)

lemma traverse_paths:
  assumes "coherent en c" and "p \<in> set (fst (traverse en sa starts c))"
  obtains start es where "start \<in> set starts" "p = path_of en sa start es" "admissible en sa start es"
    "es \<noteq> []" "length es \<le> nat (sa_hops sa)"
proof -
  have "p \<in> set (fst (start_loop en sa starts c))"
    using assms(2) by (auto simp: traverse_def case_prod_beta dest: in_set_takeD)
  with start_loop_sound [OF assms(1), of sa starts] show thesis using that by blast
qed

text \<open>
  C22 Soundness of the traversal: every path returned is a simple walk from one of the start
  nodes over stored edges of the tenant (and of the graph, when one is given) with allowed kinds
  and sufficient weight, of at most the allowed number of hops; its confidence is the product of
  the decayed edge weights; it is marked partial exactly when its end does not match the goal;
  and the paths come ranked, at most ten.
\<close>

theorem traverse_sound:
  assumes "coherent en c"
  shows "length (fst (traverse en sa starts c)) \<le> 10
    \<and> sorted (map path_key (fst (traverse en sa starts c)))
    \<and> (\<forall>p \<in> set (fst (traverse en sa starts c)). \<exists>es.
         p_start p \<in> set starts \<and> es \<noteq> [] \<and> edge_walk en (sa_types sa) (p_start p) es
         \<and> p_edges p = map er_id es \<and> p_nodes p = p_start p # map er_dst es \<and> distinct (p_nodes p)
         \<and> p_end p = last (p_nodes p) \<and> int (length es) \<le> sa_hops sa
         \<and> p_conf p = prod_list (map (\<lambda>e. normalized_edge_weight e * CONFIDENCE_DECAY) es)
         \<and> (p_partial p \<longleftrightarrow> \<not> goal_hit en (sa_goal sa) (p_end p)))"
proof (intro conjI ballI)
  show "length (fst (traverse en sa starts c)) \<le> 10"
    by (simp add: traverse_def case_prod_beta MAX_PATHS_PER_QUERY_def)
  show "sorted (map path_key (fst (traverse en sa starts c)))"
    by (simp add: traverse_def case_prod_beta sorted_wrt_take flip: take_map)
next
  fix p assume "p \<in> set (fst (traverse en sa starts c))"
  then obtain start es where w: "start \<in> set starts" "p = path_of en sa start es"
    "admissible en sa start es" "es \<noteq> []" "length es \<le> nat (sa_hops sa)"
    by (rule traverse_paths [OF assms])
  show "\<exists>es. p_start p \<in> set starts \<and> es \<noteq> [] \<and> edge_walk en (sa_types sa) (p_start p) es
         \<and> p_edges p = map er_id es \<and> p_nodes p = p_start p # map er_dst es \<and> distinct (p_nodes p)
         \<and> p_end p = last (p_nodes p) \<and> int (length es) \<le> sa_hops sa
         \<and> p_conf p = prod_list (map (\<lambda>e. normalized_edge_weight e * CONFIDENCE_DECAY) es)
         \<and> (p_partial p \<longleftrightarrow> \<not> goal_hit en (sa_goal sa) (p_end p))"
  proof -
    have "int (length es) \<le> sa_hops sa" using w(4,5) by (cases es) auto
    with w path_of_fields [OF w(3)] show ?thesis
      by (intro exI [of _ es])
        (auto simp: admissible_def walk_end_def visited_nodes_def confidence_def)
  qed
qed

section \<open>Completeness of a search that was not cut off\<close>

lemma expand_edge_mono: "se_expansions s \<le> se_expansions (expand_edge en sa start it e s)"
  by (simp add: expand_edge_def case_prod_beta Let_def)

lemma edge_loop_mono: "se_expansions s \<le> se_expansions (edge_loop en sa start it es s)"
proof (induction es arbitrary: s)
  case (Cons e es)
  from Cons.IH [of "expand_edge en sa start it e s"] expand_edge_mono [of s en sa start it e]
  show ?case by (auto intro: order_trans)
qed simp

lemma expand_item_mono: "se_expansions s \<le> se_expansions (expand_item en sa start it s)"
  using edge_loop_mono by (auto simp: expand_item_def case_prod_beta intro: order_trans [OF _ edge_loop_mono])

lemma frontier_loop_mono: "se_expansions s \<le> se_expansions (frontier_loop en sa start its s)"
proof (induction its arbitrary: s)
  case (Cons it its)
  from Cons.IH [of "expand_item en sa start it s"] Cons.IH [of s] expand_item_mono [of s en sa start it]
  show ?case by (auto intro: order_trans)
qed simp

lemma depth_loop_mono: "se_expansions s \<le> se_expansions (depth_loop en sa start n fr s)"
proof (induction n arbitrary: fr s)
  case (Suc n)
  have "se_expansions s \<le> se_expansions (frontier_loop en sa start fr (s\<lparr>se_next := []\<rparr>))"
    using frontier_loop_mono [of "s\<lparr>se_next := []\<rparr>" en sa start fr] by simp
  with Suc.IH show ?case by (auto simp: Let_def intro: order_trans)
qed simp

text \<open>Without a cut the loops visit every edge of every item that is confident enough.\<close>

lemma expand_edge_next:
  assumes "coherent en (se_caches s)" "er_src e = walk_end start es"
  shows "set (se_next (expand_edge en sa start (item_of en start es) e s)) =
      set (se_next s) \<union> (if extends start es e then {item_of en start (es @ [e])} else {})"
    and "set (se_paths (expand_edge en sa start (item_of en start es) e s)) =
      set (se_paths s) \<union> (if extends start es e \<and> goal_hit en (sa_goal sa) (er_dst e)
        then {path_of en sa start (es @ [e])} else {})"
    and "coherent en (se_caches (expand_edge en sa start (item_of en start es) e s))"
  by (rule expand_edge_coherent [OF assms, where sa = sa], simp)+

lemma edge_loop_complete:
  assumes "coherent en (se_caches s)" "set xs \<subseteq> set (query_edges en (walk_end start es) (sa_types sa))"
    and "se_expansions (edge_loop en sa start (item_of en start es) xs s) < sa_total sa"
  shows "coherent en (se_caches (edge_loop en sa start (item_of en start es) xs s))
    \<and> set (se_next s) \<subseteq> set (se_next (edge_loop en sa start (item_of en start es) xs s))
    \<and> set (se_paths s) \<subseteq> set (se_paths (edge_loop en sa start (item_of en start es) xs s))
    \<and> (\<forall>e \<in> set xs. extends start es e \<longrightarrow>
         item_of en start (es @ [e]) \<in> set (se_next (edge_loop en sa start (item_of en start es) xs s))
         \<and> (goal_hit en (sa_goal sa) (er_dst e) \<longrightarrow>
              path_of en sa start (es @ [e]) \<in> set (se_paths (edge_loop en sa start (item_of en start es) xs s))))"
  using assms
proof (induction xs arbitrary: s)
  case (Cons e xs)
  let ?s = "expand_edge en sa start (item_of en start es) e s"
  have src: "er_src e = walk_end start es"
    using Cons.prems(2) by (simp add: query_edges_def edge_selected_def)
  note nxt = expand_edge_next [OF Cons.prems(1) src, of sa]
  have "se_expansions s < sa_total sa"
    using Cons.prems(3) edge_loop_mono [of s en sa start "item_of en start es" "e # xs"] by linarith
  then have eq: "edge_loop en sa start (item_of en start es) (e # xs) s
      = edge_loop en sa start (item_of en start es) xs ?s" by simp
  show ?case unfolding eq using Cons.IH [OF nxt(3)] Cons.prems(2,3) nxt(1,2) unfolding eq by auto
qed simp

lemma expand_item_complete:
  assumes "coherent en (se_caches s)"
    and "se_expansions (expand_item en sa start (item_of en start es) s) < sa_total sa"
  shows "coherent en (se_caches (expand_item en sa start (item_of en start es) s))
    \<and> set (se_next s) \<subseteq> set (se_next (expand_item en sa start (item_of en start es) s))
    \<and> set (se_paths s) \<subseteq> set (se_paths (expand_item en sa start (item_of en start es) s))
    \<and> (\<forall>e \<in> set (query_edges en (walk_end start es) (sa_types sa)). extends start es e \<longrightarrow>
         item_of en start (es @ [e]) \<in> set (se_next (expand_item en sa start (item_of en start es) s))
         \<and> (goal_hit en (sa_goal sa) (er_dst e) \<longrightarrow>
              path_of en sa start (es @ [e]) \<in> set (se_paths (expand_item en sa start (item_of en start es) s))))"
  using edge_loop_complete [of en "s\<lparr>se_caches := snd (get_outgoing_edges en (walk_end start es)
      (sa_types sa) (se_caches s))\<rparr>" "query_edges en (walk_end start es) (sa_types sa)" start es sa]
    get_outgoing_coherent [OF assms(1), of "walk_end start es" "sa_types sa"] assms(2)
  by (simp add: expand_item_def case_prod_beta)

text \<open>\<open>covered\<close>: the walk is in the new frontier, and its path recorded if it reaches the goal.\<close>

definition covered :: "env \<Rightarrow> search_args \<Rightarrow> string \<Rightarrow> search \<Rightarrow> edge_row list \<Rightarrow> bool" where
  "covered en sa start s es \<longleftrightarrow> item_of en start es \<in> set (se_next s)
     \<and> (goal_hit en (sa_goal sa) (walk_end start es) \<longrightarrow> path_of en sa start es \<in> set (se_paths s))"

lemma frontier_loop_complete:
  assumes "coherent en (se_caches s)" "\<forall>it \<in> set its. \<exists>es. it = item_of en start es"
    and "se_expansions (frontier_loop en sa start its s) < sa_total sa"
  shows "coherent en (se_caches (frontier_loop en sa start its s))
    \<and> set (se_next s) \<subseteq> set (se_next (frontier_loop en sa start its s))
    \<and> set (se_paths s) \<subseteq> set (se_paths (frontier_loop en sa start its s))
    \<and> (\<forall>es e. item_of en start es \<in> set its \<longrightarrow> admissible en sa start (es @ [e]) \<longrightarrow>
         covered en sa start (frontier_loop en sa start its s) (es @ [e]))"
  using assms
proof (induction its arbitrary: s)
  case (Cons it its)
  obtain es0 where it: "it = item_of en start es0" using Cons.prems(2) by auto
  have mono: "se_expansions s < sa_total sa"
    using Cons.prems(3) frontier_loop_mono [of s en sa start "it # its"] by linarith
  show ?case
  proof (cases "it_conf it < sa_min sa")
    case True
    then have eq: "frontier_loop en sa start (it # its) s = frontier_loop en sa start its s" by simp
    have ne: "\<not> admissible en sa start (es @ [e])" if "item_of en start es = it" for es e
    proof -
      have "confidence es = it_conf it" using that it_of_simps(2) by metis
      with True show ?thesis by (simp add: admissible_snoc)
    qed
    have "coherent en (se_caches (frontier_loop en sa start its s))
      \<and> set (se_next s) \<subseteq> set (se_next (frontier_loop en sa start its s))
      \<and> set (se_paths s) \<subseteq> set (se_paths (frontier_loop en sa start its s))
      \<and> (\<forall>es e. item_of en start es \<in> set its \<longrightarrow> admissible en sa start (es @ [e]) \<longrightarrow>
           covered en sa start (frontier_loop en sa start its s) (es @ [e]))"
      by (rule Cons.IH) (use Cons.prems eq in auto)
    with ne show ?thesis unfolding eq by (metis set_ConsD)
  next
    case False
    let ?s = "expand_item en sa start it s"
    have eq: "frontier_loop en sa start (it # its) s = frontier_loop en sa start its ?s"
      using False mono by simp
    have small: "se_expansions (frontier_loop en sa start its ?s) < sa_total sa"
      using Cons.prems(3) unfolding eq .
    then have "se_expansions ?s < sa_total sa"
      using frontier_loop_mono [of ?s en sa start its] by linarith
    note one = expand_item_complete [OF Cons.prems(1) this [unfolded it], folded it]
    note rest = Cons.IH [OF conjunct1 [OF one] _ small]
    have rest': "set (se_next ?s) \<subseteq> set (se_next (frontier_loop en sa start its ?s))"
      "set (se_paths ?s) \<subseteq> set (se_paths (frontier_loop en sa start its ?s))"
      using rest Cons.prems(2) by auto
    have "covered en sa start (frontier_loop en sa start its ?s) (es @ [e])"
      if "item_of en start es = it" "admissible en sa start (es @ [e])" for es e
    proof -
      have "walk_end start es = walk_end start es0" "set (visited_nodes start es) = set (visited_nodes start es0)"
        using that(1) it by (simp_all add: item_of_def)
      note one' = expand_item_complete [OF Cons.prems(1), of sa start es, unfolded that(1)]
      have "item_of en start (es @ [e]) \<in> set (se_next ?s)
        \<and> (goal_hit en (sa_goal sa) (er_dst e) \<longrightarrow> path_of en sa start (es @ [e]) \<in> set (se_paths ?s))"
        using one' \<open>se_expansions ?s < sa_total sa\<close> that(2) by (simp add: admissible_snoc extends_def)
      with rest' show ?thesis by (auto simp: covered_def)
    qed
    moreover have "\<forall>es e. item_of en start es \<in> set its \<longrightarrow> admissible en sa start (es @ [e]) \<longrightarrow>
        covered en sa start (frontier_loop en sa start its ?s) (es @ [e])"
      "coherent en (se_caches (frontier_loop en sa start its ?s))"
      using rest Cons.prems(2) by simp_all
    ultimately show ?thesis unfolding eq using one rest' by (meson order_trans set_ConsD)
  qed
qed simp

lemma admissible_take: "admissible en sa start es \<Longrightarrow> admissible en sa start (take k es)"
proof (induction es rule: rev_induct)
  case (snoc e es)
  then show ?case by (cases "k \<le> length es") (simp_all add: admissible_snoc)
qed simp

lemma depth_loop_complete:
  assumes "sound_search en sa start d s" and "d + n = nat (sa_hops sa)"
    and "\<forall>it \<in> set frontier. \<exists>es. it = item_of en start es \<and> admissible en sa start es \<and> length es = d"
    and "\<forall>es. admissible en sa start es \<longrightarrow> length es = d \<longrightarrow> item_of en start es \<in> set frontier"
    and "se_expansions (depth_loop en sa start n frontier s) < sa_total sa"
    and "se_expansions (depth_loop en sa start n frontier s) \<le> sa_width sa"
  shows "set (se_paths s) \<subseteq> set (se_paths (depth_loop en sa start n frontier s)) \<and>
    (\<forall>es. admissible en sa start es \<longrightarrow> d < length es \<longrightarrow> length es \<le> d + n \<longrightarrow>
       goal_hit en (sa_goal sa) (walk_end start es) \<longrightarrow>
       path_of en sa start es \<in> set (se_paths (depth_loop en sa start n frontier s)))"
  using assms
proof (induction n arbitrary: d frontier s)
  case (Suc n)
  let ?s1 = "frontier_loop en sa start frontier (s\<lparr>se_next := []\<rparr>)"
  let ?fr = "py_first (sa_width sa) (sort_key item_key (se_next ?s1))"
  let ?r = "depth_loop en sa start (Suc n) frontier s"
  have s1: "sound_search en sa start (Suc d) ?s1"
    using sound_next_reset [OF Suc.prems(1)] Suc.prems(2,3) by (intro sound_frontier_loop) auto
  have r: "?r = (if ?fr = [] \<or> se_expansions ?s1 \<ge> sa_total sa then ?s1 else depth_loop en sa start n ?fr ?s1)"
    by (simp add: Let_def)
  have small: "se_expansions ?s1 < sa_total sa"
    using Suc.prems(5) depth_loop_mono [of ?s1 en sa start n ?fr] unfolding r by (auto split: if_splits)
  have "se_expansions ?s1 \<le> sa_width sa"
    using Suc.prems(6) depth_loop_mono [of ?s1 en sa start n ?fr] unfolding r by (auto split: if_splits)
  then have "int (length (se_next ?s1)) \<le> sa_width sa"
    using s1 unfolding sound_search_def by linarith
  then have fr: "set ?fr = set (se_next ?s1)" by (simp add: py_first_all)
  have "coherent en (se_caches (s\<lparr>se_next := []\<rparr>))" using Suc.prems(1) by (simp add: sound_search_def)
  from frontier_loop_complete [OF this _ small] Suc.prems(3)
  have step: "set (se_paths s) \<subseteq> set (se_paths ?s1)"
    "\<And>es e. item_of en start es \<in> set frontier \<Longrightarrow> admissible en sa start (es @ [e]) \<Longrightarrow>
       covered en sa start ?s1 (es @ [e])"
    by auto
  have cov: "covered en sa start ?s1 es" if adm: "admissible en sa start es" and len: "length es = Suc d" for es
  proof -
    from len obtain xs e where es: "es = xs @ [e]" by (cases es rule: rev_cases) auto
    with adm len Suc.prems(4) have "item_of en start xs \<in> set frontier" by (simp add: admissible_snoc)
    from step(2) [OF this] adm es show ?thesis by simp
  qed
  show ?case
  proof (cases "?fr = []")
    case True
    have "\<not> admissible en sa start es" if "d < length es" for es
    proof
      assume "admissible en sa start es"
      from cov [OF admissible_take [OF this, of "Suc d"]] that True fr show False
        by (simp add: covered_def)
    qed
    with True step(1) show ?thesis unfolding r by auto
  next
    case False
    then have r': "?r = depth_loop en sa start n ?fr ?s1" using small r by auto
    have IH: "set (se_paths ?s1) \<subseteq> set (se_paths ?r) \<and>
      (\<forall>es. admissible en sa start es \<longrightarrow> Suc d < length es \<longrightarrow> length es \<le> Suc d + n \<longrightarrow>
         goal_hit en (sa_goal sa) (walk_end start es) \<longrightarrow> path_of en sa start es \<in> set (se_paths ?r))"
      unfolding r'
    proof (rule Suc.IH [OF s1])
      show "\<forall>it \<in> set ?fr. \<exists>es. it = item_of en start es \<and> admissible en sa start es \<and> length es = Suc d"
        using s1 unfolding fr sound_search_def by blast
      show "\<forall>es. admissible en sa start es \<longrightarrow> length es = Suc d \<longrightarrow> item_of en start es \<in> set ?fr"
        using cov unfolding fr covered_def by blast
    qed (use Suc.prems(2,5,6) r' in auto)
    have "path_of en sa start es \<in> set (se_paths ?r)"
      if "admissible en sa start es" "d < length es" "length es \<le> d + Suc n"
        "goal_hit en (sa_goal sa) (walk_end start es)" for es
    proof (cases "length es = Suc d")
      case True
      from cov [OF that(1) True] that(4) IH show ?thesis by (auto simp: covered_def)
    qed (use IH that in auto)
    with IH step(1) show ?thesis by auto
  qed
qed simp

lemma run_search_complete:
  assumes "coherent en c" and "se_expansions (run_search en sa start c) < sa_total sa"
    and "se_expansions (run_search en sa start c) \<le> sa_width sa"
    and "admissible en sa start es" "es \<noteq> []" "length es \<le> nat (sa_hops sa)"
    and "goal_hit en (sa_goal sa) (walk_end start es)"
  shows "path_of en sa start es \<in> set (se_paths (run_search en sa start c))"
proof -
  let ?s = "\<lparr>se_paths = [], se_partials = [], se_expansions = 0, se_next = [], se_caches = c\<rparr>"
  have sound: "sound_search en sa start 0 ?s" using assms(1) by (simp add: sound_search_def)
  have start: "\<forall>it \<in> set [start_item start]. \<exists>es. it = item_of en start es \<and> admissible en sa start es
      \<and> length es = 0"
    "\<forall>es. admissible en sa start es \<longrightarrow> length es = 0 \<longrightarrow> item_of en start es \<in> set [start_item start]"
    by (auto intro: exI [of _ "[]"] simp: item_of_Nil)
  from depth_loop_complete [OF sound _ start assms(2,3) [unfolded run_search_def]] assms(4-7)
  show ?thesis unfolding run_search_def by simp
qed

text \<open>
  C23 Completeness: if the search from a start node was not cut off (fewer expansions than the
  limit, and no more than the frontier is wide), then every admissible simple walk that ends in a node
  matching the goal is represented among the results: with its node sequence's path id, at least
  its confidence, and not marked partial.
\<close>

theorem traverse_complete:
  assumes "coherent en c" and "se_expansions (run_search en sa start c) < sa_total sa"
    and "se_expansions (run_search en sa start c) \<le> sa_width sa"
    and "edge_walk en (sa_types sa) start es" "distinct (start # map er_dst es)" "es \<noteq> []"
    and "int (length es) \<le> sa_hops sa" "\<forall>n < length es. sa_min sa \<le> confidence (take n es)"
    and "goal_hit en (sa_goal sa) (er_dst (last es))"
  shows "\<exists>p \<in> set (fst (traverse_from_start en sa start c)).
    p_id p = ''path_'' @ en_digest en (start # map er_dst es) \<and> confidence es \<le> p_conf p \<and> \<not> p_partial p"
proof -
  let ?s = "run_search en sa start c"
  have adm: "admissible en sa start es" using assms by (simp add: admissible_def visited_nodes_def)
  have last: "walk_end start es = er_dst (last es)"
    using assms(6) by (simp add: walk_end_def visited_nodes_def last_map)
  have "path_of en sa start es \<in> set (se_paths ?s)"
    using run_search_complete [OF assms(1-3) adm] assms(6,7,9) by (simp add: last le_nat_iff)
  from fold_keep_best_covers [OF this, of "[]"]
  obtain q where q: "map_of (fold keep_best (se_paths ?s) []) (p_id (path_of en sa start es)) = Some q"
    "confidence es \<le> p_conf q"
    by (auto simp: path_of_fields [OF adm])
  then have ne: "fold keep_best (se_paths ?s) [] \<noteq> []" by auto
  have "(p_id (path_of en sa start es), q) \<in> (\<lambda>p. (p_id p, p)) ` set (se_paths ?s)"
    using map_of_SomeD [OF q(1)] set_fold_keep_best [of "se_paths ?s" "[]"] by auto
  then have q': "p_id q = p_id (path_of en sa start es)" "q \<in> set (se_paths ?s)" by auto
  obtain es' where "q = path_of en sa start es'" "admissible en sa start es'"
    "goal_hit en (sa_goal sa) (walk_end start es')"
    using run_search_sound [OF assms(1), of sa start] q'(2) unfolding sound_search_def by blast
  then have "\<not> p_partial q" by (simp add: path_of_fields)
  moreover have "q \<in> set (fst (traverse_from_start en sa start c))"
    using map_of_SomeD [OF q(1)] ne by (force simp: traverse_from_start_def Let_def)
  ultimately show ?thesis using q'(1) q(2) path_of_fields(8) [OF adm]
    by (auto simp: visited_nodes_def)
qed

section \<open>The caches do not change the result\<close>

definition same_search :: "env \<Rightarrow> search \<Rightarrow> search \<Rightarrow> bool" where
  "same_search en s t \<longleftrightarrow> coherent en (se_caches s) \<and> coherent en (se_caches t)
     \<and> se_paths s = se_paths t \<and> se_partials s = se_partials t
     \<and> se_expansions s = se_expansions t \<and> se_next s = se_next t"

lemma same_searchD:
  assumes "same_search en s t"
  shows "se_paths s = se_paths t" "se_partials s = se_partials t" "se_expansions s = se_expansions t"
    "se_next s = se_next t" "coherent en (se_caches s)" "coherent en (se_caches t)"
  using assms by (simp_all add: same_search_def)

lemma same_searchI:
  "se_paths s = se_paths t \<Longrightarrow> se_partials s = se_partials t \<Longrightarrow> se_expansions s = se_expansions t \<Longrightarrow>
     se_next s = se_next t \<Longrightarrow> coherent en (se_caches s) \<Longrightarrow> coherent en (se_caches t) \<Longrightarrow> same_search en s t"
  by (simp add: same_search_def)

lemma build_hop_any:
  assumes "coherent en c"
  shows "fst (build_hop en a e b c) = fst (build_hop en a e b no_caches)
    \<and> coherent en (snd (build_hop en a e b c))"
  using get_node_coherent [OF assms, of a] get_node_coherent [of en "snd (get_node en a c)" b]
    get_node_coherent [OF coherent_no_caches, of en a]
    get_node_coherent [of en "snd (get_node en a no_caches)" b]
  by (simp add: build_hop_def case_prod_beta Let_def)

lemma same_expand_edge:
  assumes "same_search en s t"
  shows "same_search en (expand_edge en sa start it e s) (expand_edge en sa start it e t)"
proof -
  note D = same_searchD [OF assms]
  let ?b = "\<lambda>u. build_hop en (it_node it) e (er_dst e) (se_caches u)"
  note bs = build_hop_any [OF D(5), of "it_node it" e "er_dst e"]
  note bt = build_hop_any [OF D(6), of "it_node it" e "er_dst e"]
  note gs = goal_reached_coherent [OF conjunct2 [OF bs], of "sa_goal sa" "er_dst e"]
  note gt = goal_reached_coherent [OF conjunct2 [OF bt], of "sa_goal sa" "er_dst e"]
  show ?thesis
    by (rule same_searchI) (use D bs bt gs gt in \<open>simp_all add: expand_edge_def case_prod_beta Let_def\<close>)
qed

lemma same_edge_loop:
  "same_search en s t \<Longrightarrow> same_search en (edge_loop en sa start it es s) (edge_loop en sa start it es t)"
proof (induction es arbitrary: s t)
  case (Cons e es)
  then show ?case using same_expand_edge [OF Cons.prems] same_searchD(3) [OF Cons.prems] by simp
qed simp

lemma same_expand_item:
  assumes "same_search en s t"
  shows "same_search en (expand_item en sa start it s) (expand_item en sa start it t)"
proof -
  note D = same_searchD [OF assms]
  note gs = get_outgoing_coherent [OF D(5), of "it_node it" "sa_types sa"]
  note gt = get_outgoing_coherent [OF D(6), of "it_node it" "sa_types sa"]
  have "same_search en
      (s\<lparr>se_caches := snd (get_outgoing_edges en (it_node it) (sa_types sa) (se_caches s))\<rparr>)
      (t\<lparr>se_caches := snd (get_outgoing_edges en (it_node it) (sa_types sa) (se_caches t))\<rparr>)"
    by (rule same_searchI) (use D gs gt in simp_all)
  from same_edge_loop [OF this] gs gt show ?thesis by (simp add: expand_item_def case_prod_beta)
qed

lemma same_frontier_loop:
  "same_search en s t \<Longrightarrow> same_search en (frontier_loop en sa start its s) (frontier_loop en sa start its t)"
proof (induction its arbitrary: s t)
  case (Cons it its)
  then show ?case using same_expand_item [OF Cons.prems] same_searchD(3) [OF Cons.prems] by simp
qed simp

lemma same_depth_loop:
  "same_search en s t \<Longrightarrow> same_search en (depth_loop en sa start n fr s) (depth_loop en sa start n fr t)"
proof (induction n arbitrary: fr s t)
  case (Suc n)
  have "same_search en (s\<lparr>se_next := []\<rparr>) (t\<lparr>se_next := []\<rparr>)"
    by (rule same_searchI) (use same_searchD [OF Suc.prems] in simp_all)
  note s1 = same_frontier_loop [OF this, of sa start fr]
  show ?case using Suc.IH [OF s1] s1 same_searchD(3,4) [OF s1] by (simp add: Let_def)
qed simp

lemma same_from_start:
  assumes "coherent en c" "coherent en d"
  shows "fst (traverse_from_start en sa start c) = fst (traverse_from_start en sa start d)"
proof -
  have "same_search en (run_search en sa start c) (run_search en sa start d)"
    unfolding run_search_def by (intro same_depth_loop same_searchI) (use assms in simp_all)
  note D = same_searchD [OF this]
  show ?thesis by (simp add: traverse_from_start_def Let_def D)
qed

lemma same_start_loop:
  "coherent en c \<Longrightarrow> coherent en d \<Longrightarrow> fst (start_loop en sa starts c) = fst (start_loop en sa starts d)"
proof (induction starts arbitrary: c d)
  case (Cons n ns)
  note IH = Cons.IH [OF from_start_coherent [OF Cons.prems(1)] from_start_coherent [OF Cons.prems(2)]]
  show ?case using same_from_start [OF Cons.prems, of sa n] IH [of sa n sa n]
    by (simp add: case_prod_beta)
qed simp

text \<open>
  The caches are transparent: as long as they hold what the tables hold, a traversal returns
  what it returns with empty caches, and leaves caches that hold what the tables hold.
\<close>

theorem traversal_caches_transparent:
  assumes "coherent en c"
  shows "fst (traverse en sa starts c) = fst (traverse en sa starts no_caches)
    \<and> coherent en (snd (traverse en sa starts c))"
  using same_start_loop [OF assms coherent_no_caches, of sa starts] start_loop_sound [OF assms, of sa starts]
  by (simp add: traverse_def case_prod_beta)

section \<open>When a causal chain is found\<close>

text \<open>A result is never dropped once it is recorded.\<close>

definition found :: "search \<Rightarrow> bool" where
  "found s \<longleftrightarrow> se_paths s \<noteq> [] \<or> se_partials s \<noteq> []"

lemma found_expand_edge: "found s \<Longrightarrow> found (expand_edge en sa start it e s)"
  by (auto simp: found_def expand_edge_def case_prod_beta Let_def)

lemma found_edge_loop: "found s \<Longrightarrow> found (edge_loop en sa start it es s)"
  by (induction es arbitrary: s) (simp_all add: found_expand_edge)

lemma found_frontier_loop: "found s \<Longrightarrow> found (frontier_loop en sa start its s)"
proof (induction its arbitrary: s)
  case (Cons it its)
  moreover have "found (expand_item en sa start it s)"
    using Cons.prems by (simp add: expand_item_def case_prod_beta found_edge_loop found_def [of "se_caches_update _ _"] found_def [of s])
  ultimately show ?case by simp
qed simp

lemma found_depth_loop: "found s \<Longrightarrow> found (depth_loop en sa start n fr s)"
proof (induction n arbitrary: fr s)
  case (Suc n)
  have "found (frontier_loop en sa start fr (s\<lparr>se_next := []\<rparr>))"
    using Suc.prems by (intro found_frontier_loop) (simp add: found_def)
  with Suc.IH show ?case by (simp add: Let_def)
qed simp

lemma found_first_edge:
  assumes "coherent en (se_caches s)" "sa_partial sa" "se_expansions s < sa_total sa"
    and "e \<in> set xs" "extends start es e" "set xs \<subseteq> set (query_edges en (walk_end start es) (sa_types sa))"
  shows "found (edge_loop en sa start (item_of en start es) xs s)"
  using assms(1,3,4,6)
proof (induction xs arbitrary: s)
  case (Cons x xs)
  let ?s = "expand_edge en sa start (item_of en start es) x s"
  have src: "er_src x = walk_end start es"
    using Cons.prems(4) by (simp add: query_edges_def edge_selected_def)
  obtain c where c: "coherent en c" and eq: "?s =
       (if extends start es x then
          \<lparr>se_paths = se_paths s @ (if goal_hit en (sa_goal sa) (er_dst x)
             then [path_of en sa start (es @ [x])] else []),
           se_partials = se_partials s @ (if \<not> goal_hit en (sa_goal sa) (er_dst x) \<and> sa_partial sa
             then [path_of en sa start (es @ [x])] else []),
           se_expansions = se_expansions s + 1,
           se_next = se_next s @ [item_of en start (es @ [x])], se_caches = c\<rparr>
        else s\<lparr>se_caches := c\<rparr>)"
    by (rule expand_edge_coherent [OF Cons.prems(1) src])
  show ?case
  proof (cases "extends start es x")
    case True
    then have "found ?s" unfolding eq using assms(2) by (simp add: found_def)
    with Cons.prems(2) show ?thesis by (simp add: found_edge_loop)
  next
    case False
    then have "?s = s\<lparr>se_caches := c\<rparr>" using eq by simp
    moreover have "e \<in> set xs" using Cons.prems(3) False assms(5) by auto
    ultimately show ?thesis using Cons.IH [of ?s] c Cons.prems(2,4) by simp
  qed
qed simp

lemma ranked_ne: "ps \<noteq> [] \<Longrightarrow> take MAX_PATHS_PER_QUERY (sort_key path_key ps) \<noteq> []"
  by (simp add: MAX_PATHS_PER_QUERY_def)

lemma from_start_found:
  assumes "coherent en c" "sa_partial sa" "0 < sa_total sa" "0 < sa_hops sa" "sa_min sa \<le> 1"
    and "e \<in> set (query_edges en start (sa_types sa))" "extends start [] e"
  shows "fst (traverse_from_start en sa start c) \<noteq> []"
proof -
  let ?s0 = "\<lparr>se_paths = [], se_partials = [], se_expansions = 0, se_next = [], se_caches = c\<rparr>"
  let ?c1 = "snd (get_outgoing_edges en start (sa_types sa) c)"
  note g = get_outgoing_coherent [OF assms(1), of start "sa_types sa"]
  obtain n where n: "nat (sa_hops sa) = Suc n" using assms(4) by (cases "nat (sa_hops sa)") auto
  have "found (edge_loop en sa start (item_of en start []) (query_edges en start (sa_types sa))
      (?s0\<lparr>se_caches := ?c1\<rparr>))"
    by (rule found_first_edge) (use assms g in auto)
  then have "found (frontier_loop en sa start [start_item start] ?s0)"
    using assms(3,5) g by (simp add: expand_item_def case_prod_beta item_of_Nil start_item_def)
  then have "found (depth_loop en sa start (Suc n) [start_item start] ?s0)"
    by (simp add: Let_def found_depth_loop)
  then have "found (run_search en sa start c)" by (simp add: run_search_def n)
  moreover have ne: "fold keep_best ps [] \<noteq> []" if "ps \<noteq> []" for ps
    using fold_keep_best_covers [of "hd ps" ps "[]"] that by auto
  have "fold keep_best (take MAX_PATHS_PER_QUERY (sort_key path_key ps)) [] \<noteq> []" if "ps \<noteq> []" for ps
    by (rule ne [OF ranked_ne [OF that]])
  ultimately show ?thesis using assms(2) ne by (auto simp: traverse_from_start_def Let_def found_def)
qed

lemma causal_args_simps:
  "sa_partial (causal_args effect n)" "0 < sa_total (causal_args effect n)" "sa_min (causal_args effect n) \<le> 1"
  "sa_hops (causal_args effect n) = (if n = 0 then 24 else n)"
  "sa_types (causal_args effect n) = {''causes'', ''leads_to'', ''implies'', ''enables''}"
  by (simp_all add: causal_args_def make_args_def or_default_def MAX_HOPS_def MAX_TOTAL_EXPANSIONS_def)

lemma causal_chain_iff:
  assumes "coherent en c"
  shows "fst (find_causal_chain en cause effect n c) \<noteq> None \<longleftrightarrow>
     0 \<le> n \<and> (\<exists>e \<in> set (query_edges en cause {''causes'', ''leads_to'', ''implies'', ''enables''}).
       extends cause [] e)"
proof
  let ?sa = "causal_args effect n"
  assume "fst (find_causal_chain en cause effect n c) \<noteq> None"
  then obtain p where "p \<in> set (fst (traverse en ?sa [cause] c))"
    by (auto simp: find_causal_chain_def case_prod_beta split: list.splits)
  then obtain es where es: "admissible en ?sa cause es" "es \<noteq> []" "length es \<le> nat (sa_hops ?sa)"
    by (rule traverse_paths [OF assms]) auto
  obtain e where "take (Suc 0) es = [] @ [e]" using es(2) by (cases es) auto
  with admissible_take [OF es(1), of "Suc 0"] have "admissible en ?sa cause ([] @ [e])" by metis
  then have "e \<in> set (query_edges en cause (sa_types ?sa))" "extends cause [] e"
    unfolding admissible_snoc extends_def by simp_all
  moreover have "0 \<le> n" using es(2,3) by (cases es) (auto simp: causal_args_simps split: if_splits)
  ultimately show "0 \<le> n \<and> (\<exists>e \<in> set (query_edges en cause {''causes'', ''leads_to'', ''implies'', ''enables''}).
       extends cause [] e)" by (auto simp: causal_args_simps)
next
  let ?sa = "causal_args effect n"
  assume "0 \<le> n \<and> (\<exists>e \<in> set (query_edges en cause {''causes'', ''leads_to'', ''implies'', ''enables''}).
       extends cause [] e)"
  then obtain e where "0 \<le> n" "e \<in> set (query_edges en cause (sa_types ?sa))" "extends cause [] e"
    by (auto simp: causal_args_simps)
  with from_start_found [OF assms, of ?sa e cause]
  have "fst (traverse_from_start en ?sa cause c) \<noteq> []" by (auto simp: causal_args_simps)
  then have "fst (traverse en ?sa [cause] c) \<noteq> []"
    by (simp add: traverse_def case_prod_beta MAX_PATHS_PER_QUERY_def)
  then show "fst (find_causal_chain en cause effect n c) \<noteq> None"
    by (auto simp: find_causal_chain_def case_prod_beta split: list.splits)
qed

text \<open>
  C36 When a causal chain is reported: \<open>find_causal_chain\<close> returns a path exactly when the cause
  has a strong enough causal edge to some other node. The effect plays no part in the condition:
  the partial paths make the query answer even if no causal edge leads to the effect.
\<close>

theorem causal_chain_found_iff:
  assumes "coherent en c"
  shows "fst (find_causal_chain en cause effect n c) \<noteq> None \<longleftrightarrow>
     0 \<le> n \<and> (\<exists>e \<in> set (en_edges en). er_tenant e = en_tenant en
       \<and> (case en_graph en of None \<Rightarrow> True | Some g \<Rightarrow> g = [] \<or> er_graph e = g)
       \<and> er_src e = cause \<and> er_kind e \<in> {''causes'', ''leads_to'', ''implies'', ''enables''}
       \<and> er_dst e \<noteq> cause \<and> MIN_EDGE_WEIGHT \<le> normalized_edge_weight e)"
  unfolding causal_chain_iff [OF assms] query_edges_def edge_selected_def extends_def visited_nodes_def
  by auto

section \<open>Concrete instances\<close>

definition ex_edge :: "string \<Rightarrow> string \<Rightarrow> string \<Rightarrow> edge_row" where
  "ex_edge i a b = \<lparr>er_id = i, er_tenant = ''t'', er_graph = ''g'', er_src = a, er_dst = b,
     er_kind = ''causes'', er_weight = 900000000, er_meta = None, er_created = 0\<rparr>"

definition ex_node :: "string \<Rightarrow> string \<Rightarrow> node_row" where
  "ex_node i label = \<lparr>nd_id = i, nd_tenant = ''t'', nd_graph = ''g'', nd_kind = ''atom'', nd_hash = label,
     nd_raw = Some label, nd_block = None, nd_anchor = None, nd_vector = [], nd_embedding = None,
     nd_signature = None, nd_residual = 0, nd_level = 0, nd_touch = 0, nd_access = None,
     nd_valid_from = None, nd_valid_to = None, nd_long_term = False, nd_cluster = None,
     nd_cognitive = None, nd_galaxy = None, nd_created = 0, nd_updated = 0\<rparr>"

definition ex_env :: env where
  "ex_env = \<lparr>en_edges = [ex_edge ''1'' ''a'' ''b'', ex_edge ''2'' ''b'' ''c''],
     en_nodes = [ex_node ''a'' ''rain'', ex_node ''b'' ''river'', ex_node ''c'' ''flood''],
     en_tenant = ''t'', en_graph = Some ''g'', en_dumps = (\<lambda>_. ''{}''), en_digest = concat,
     en_fmt = (\<lambda>_. ''0.90''), en_now = ''now''\<rparr>"

lemma ex_edge_simps [simp]: "er_id (ex_edge i a b) = i" "er_dst (ex_edge i a b) = b"
  by (simp_all add: ex_edge_def)

lemma ex_weight [simp]: "normalized_edge_weight (ex_edge i a b) = 9 / 10"
  by (simp add: normalized_edge_weight_def ex_edge_def)

lemma causal_chain_found_iff_witness:
  "fst (find_causal_chain ex_env ''a'' ''unknown effect'' 3 no_caches) \<noteq> None"
  unfolding causal_chain_found_iff [OF coherent_no_caches]
  by (simp add: ex_env_def MIN_EDGE_WEIGHT_def) (simp add: ex_edge_def)

lemma traversal_caches_transparent_witness:
  "coherent ex_env (snd (traverse ex_env (causal_args ''flood'' 3) [''a''] no_caches))"
  using traversal_caches_transparent [OF coherent_no_caches] by blast

lemma traverse_sound_witness:
  "length (fst (traverse ex_env (causal_args ''flood'' 3) [''a''] no_caches)) \<le> 10"
  using traverse_sound [OF coherent_no_caches] by blast

lemma ex_run: "se_expansions (run_search ex_env (causal_args ''flood'' 3) ''a'' no_caches) = 2"
  by code_simp

lemma ex_hit: "goal_hit ex_env (Some ''flood'') ''c''"
proof -
  have "info_matches (query_node ex_env ''c'') ''flood''" by code_simp
  then show ?thesis by (simp add: goal_hit_def)
qed

lemma traverse_complete_witness:
  "\<exists>p \<in> set (fst (traverse_from_start ex_env (causal_args ''flood'' 3) ''a'' no_caches)).
     p_id p = ''path_abc'' \<and> \<not> p_partial p"
proof -
  let ?sa = "causal_args ''flood'' 3" and ?es = "[ex_edge ''1'' ''a'' ''b'', ex_edge ''2'' ''b'' ''c'']"
  have lim: "sa_total ?sa = 4096" "sa_width ?sa = 96" "sa_hops ?sa = 3" "sa_min ?sa = 1 / 10"
    "sa_goal ?sa = Some ''flood''"
    by (simp_all add: causal_args_def make_args_def or_default_def MAX_TOTAL_EXPANSIONS_def MAX_FRONTIER_WIDTH_def)
  have walk: "edge_walk ex_env (sa_types ?sa) ''a'' ?es"
    by (simp add: causal_args_simps edge_selected_def MIN_EDGE_WEIGHT_def ex_env_def)
      (simp add: ex_edge_def)
  have conf: "\<forall>n < length ?es. sa_min ?sa \<le> confidence (take n ?es)"
    by (auto simp: lim less_Suc_eq confidence_def CONFIDENCE_DECAY_def)
  have "\<exists>p \<in> set (fst (traverse_from_start ex_env ?sa ''a'' no_caches)).
      p_id p = ''path_'' @ en_digest ex_env (''a'' # map er_dst ?es) \<and> confidence ?es \<le> p_conf p \<and> \<not> p_partial p"
    by (rule traverse_complete [OF coherent_no_caches _ _ walk _ _ _ conf])
      (simp_all add: ex_run ex_hit lim)
  moreover have "''path_'' @ en_digest ex_env (''a'' # map er_dst ?es) = ''path_abc''"
    by (simp add: ex_env_def)
  ultimately show ?thesis by metis
qed

end
