(* ===== verification/FM_Node_Repo.thy ===== *)
theory FM_Node_Repo
  imports FM_Graph_Tables
begin

text \<open>
  The node repository, \<open>store/pg/repos/node_repo.py\<close>, and the co-activation table it writes.
  Operations take the tenant of the repository and the table; fresh UUIDs, the clock and SHA-256
  are arguments. Queries that run inside the pgvector extension are left out.

  The lemmas show that upserts identify nodes by their hash, that ids stay unique, that tenants and
  graphs are isolated, and that a deleted node can be restored.
\<close>

section \<open>Reading\<close>

definition node_in :: "string \<Rightarrow> string \<Rightarrow> node_row \<Rightarrow> bool" where
  "node_in t g n \<longleftrightarrow> nd_tenant n = t \<and> nd_graph n = g"

definition get_node_row :: "string \<Rightarrow> string \<Rightarrow> string \<Rightarrow> node_row list \<Rightarrow> node_row option" where
  "get_node_row t g nid rows = find (\<lambda>n. node_in t g n \<and> nd_id n = nid) rows"

definition get_by_id :: "string \<Rightarrow> string \<Rightarrow> string \<Rightarrow> node_row list \<Rightarrow> node_row option" where
  "get_by_id t g nid rows = (case uuid_of nid of None \<Rightarrow> None | Some u \<Rightarrow> get_node_row t g u rows)"

definition get_by_vector_hash :: "string \<Rightarrow> string \<Rightarrow> string \<Rightarrow> node_row list \<Rightarrow> node_row option" where
  "get_by_vector_hash t g h rows = find (\<lambda>n. node_in t g n \<and> nd_hash n = h) rows"

definition node_order :: "node_row \<Rightarrow> int \<times> string" where
  "node_order n = (nd_created n, nd_id n)"

definition list_nodes :: "string \<Rightarrow> string \<Rightarrow> nat \<Rightarrow> nat \<Rightarrow> node_row list \<Rightarrow> node_row list" where
  "list_nodes t g limit offset rows = take limit (drop offset (query_rows (node_in t g) node_order rows))"

definition list_by_ids :: "string \<Rightarrow> string \<Rightarrow> string list \<Rightarrow> node_row list \<Rightarrow> node_row list" where
  "list_by_ids t g ids rows =
     (if ids = [] then [] else query_rows (\<lambda>n. node_in t g n \<and> nd_id n \<in> set ids) node_order rows)"

definition list_atoms :: "string \<Rightarrow> string \<Rightarrow> nat \<Rightarrow> node_row list \<Rightarrow> node_row list" where
  "list_atoms t g limit rows = take limit (query_rows (\<lambda>n. node_in t g n \<and> nd_kind n = ''atom'') node_order rows)"

definition list_by_raw_id :: "string \<Rightarrow> string \<Rightarrow> string \<Rightarrow> string option \<Rightarrow> node_row list \<Rightarrow> node_row list" where
  "list_by_raw_id t g raw kind rows =
     query_rows (\<lambda>n. node_in t g n \<and> nd_raw n = Some raw
       \<and> (case kind of None \<Rightarrow> True | Some k \<Rightarrow> nd_kind n = k)) node_order rows"

definition count_nodes :: "string \<Rightarrow> string \<Rightarrow> node_row list \<Rightarrow> nat" where
  "count_nodes t g rows = length (filter (node_in t g) rows)"

definition count_atoms :: "string \<Rightarrow> string \<Rightarrow> node_row list \<Rightarrow> nat" where
  "count_atoms t g rows = length (filter (\<lambda>n. node_in t g n \<and> nd_kind n = ''atom'') rows)"

definition count_macros :: "string \<Rightarrow> string \<Rightarrow> node_row list \<Rightarrow> nat" where
  "count_macros t g rows = length (filter (\<lambda>n. node_in t g n \<and> nd_kind n = ''macro'') rows)"

definition get_all_vectors :: "string \<Rightarrow> string \<Rightarrow> node_row list \<Rightarrow> (string \<times> real list) list" where
  "get_all_vectors t g rows = map (\<lambda>n. (nd_id n, nd_vector n)) (query_rows (node_in t g) node_order rows)"

definition get_all_vectors_with_level :: "string \<Rightarrow> string \<Rightarrow> node_row list \<Rightarrow>
    (string \<times> real list \<times> int) list" where
  "get_all_vectors_with_level t g rows =
     map (\<lambda>n. (nd_id n, nd_vector n, nd_level n)) (query_rows (node_in t g) node_order rows)"

section \<open>Writing\<close>

text \<open>
  Inserting a row. PostgreSQL (\<open>pg\<close>) has the unique constraint on (tenant, graph, hash); the
  node id is the primary key on every database.
\<close>

definition node_key :: "node_row \<Rightarrow> string \<times> string \<times> string" where
  "node_key n = (nd_tenant n, nd_graph n, nd_hash n)"

definition insert_node :: "bool \<Rightarrow> node_row \<Rightarrow> node_row list \<Rightarrow> string + node_row list" where
  "insert_node pg n rows =
     (if nd_id n \<in> set (map nd_id rows) \<or> (pg \<and> node_key n \<in> set (map node_key rows))
      then Inl ''IntegrityError'' else Inr (rows @ [n]))"

text \<open>A truthy optional string replaces a missing or empty one; so with embeddings.\<close>

definition fill_string :: "string option \<Rightarrow> string option \<Rightarrow> string option" where
  "fill_string new old = (case new of Some (c # cs) \<Rightarrow> (case old of Some (d # ds) \<Rightarrow> old | _ \<Rightarrow> new) | _ \<Rightarrow> old)"

definition fill_vector :: "real list option \<Rightarrow> real list option \<Rightarrow> real list option" where
  "fill_vector new old = (case new of Some (c # cs) \<Rightarrow> (case old of Some (d # ds) \<Rightarrow> old | _ \<Rightarrow> new) | _ \<Rightarrow> old)"

definition update_node :: "node_row \<Rightarrow> (node_row \<Rightarrow> node_row) \<Rightarrow> node_row list \<Rightarrow> node_row list" where
  "update_node old f rows = update_rows (\<lambda>n. nd_id n = nd_id old) f rows"

text \<open>The vector given to an upsert (the fields of \<open>FAIMVector\<close> that are stored).\<close>

record faim_vector =
  fv_hash :: string
  fv_raw :: "string option"
  fv_block :: "string option"
  fv_anchor :: "json_dict option"
  fv_native :: "real list"
  fv_embedding :: "real list option"
  fv_signature :: "json_dict option"
  fv_residual :: real
  fv_level :: int

definition upsert_atom_node :: "string \<Rightarrow> int \<Rightarrow> string \<Rightarrow> string \<Rightarrow> faim_vector \<Rightarrow> string option \<Rightarrow>
    string option \<Rightarrow> real list option \<Rightarrow> int option \<Rightarrow> int option \<Rightarrow> node_row list \<Rightarrow>
    node_row list \<times> string" where
  "upsert_atom_node fresh now t g v cog gal emb vfrom vto rows =
     (case get_by_vector_hash t g (fv_hash v) rows of
        Some old \<Rightarrow>
          (update_node old (\<lambda>n. n\<lparr>nd_touch := nd_touch n + 1, nd_access := Some now, nd_updated := now,
             nd_embedding := fill_vector emb (nd_embedding n),
             nd_cognitive := fill_string cog (nd_cognitive n), nd_galaxy := fill_string gal (nd_galaxy n),
             nd_valid_from := (if vfrom = None then nd_valid_from n else vfrom),
             nd_valid_to := (if vto = None then nd_valid_to n else vto)\<rparr>) rows, nd_id old)
      | None \<Rightarrow>
          (rows @ [\<lparr>nd_id = fresh, nd_tenant = t, nd_graph = g, nd_kind = ''atom'', nd_hash = fv_hash v,
             nd_raw = fv_raw v, nd_block = fv_block v, nd_anchor = fv_anchor v, nd_vector = fv_native v,
             nd_embedding = (case emb of Some (c # cs) \<Rightarrow> emb | _ \<Rightarrow> fv_embedding v),
             nd_signature = fv_signature v, nd_residual = to_scaled (fv_residual v), nd_level = fv_level v,
             nd_touch = 1, nd_access = Some now, nd_valid_from = vfrom, nd_valid_to = vto,
             nd_long_term = False, nd_cluster = None, nd_cognitive = cog, nd_galaxy = gal,
             nd_created = now, nd_updated = now\<rparr>], fresh))"

definition create_macro_node :: "bool \<Rightarrow> string \<Rightarrow> int \<Rightarrow> string \<Rightarrow> string \<Rightarrow> real list \<Rightarrow> string \<Rightarrow>
    json_dict option \<Rightarrow> int \<Rightarrow> real \<Rightarrow> string option \<Rightarrow> string option \<Rightarrow> real list option \<Rightarrow>
    node_row list \<Rightarrow> string + node_row list \<times> string" where
  "create_macro_node pg fresh now t g v h sig level residual cog gal emb rows =
     map_sum id (\<lambda>rs. (rs, fresh)) (insert_node pg \<lparr>nd_id = fresh, nd_tenant = t, nd_graph = g,
        nd_kind = ''macro'', nd_hash = h, nd_raw = None, nd_block = None, nd_anchor = None, nd_vector = v,
        nd_embedding = emb, nd_signature = sig, nd_residual = to_scaled residual, nd_level = level,
        nd_touch = 1, nd_access = Some now, nd_valid_from = None, nd_valid_to = None,
        nd_long_term = False, nd_cluster = None, nd_cognitive = cog, nd_galaxy = gal,
        nd_created = now, nd_updated = now\<rparr> rows)"

text \<open>Hashes longer than the column are replaced by their digest.\<close>

definition persisted_hash :: "(string \<Rightarrow> string) \<Rightarrow> string \<Rightarrow> string" where
  "persisted_hash sha256 h = (if length h > 64 then sha256 h else h)"

definition upsert_special_node :: "(string \<Rightarrow> string) \<Rightarrow> string \<Rightarrow> int \<Rightarrow> string \<Rightarrow> string \<Rightarrow> string \<Rightarrow>
    string \<Rightarrow> real list \<Rightarrow> json_dict option \<Rightarrow> real \<Rightarrow> int \<Rightarrow> string option \<Rightarrow> string option \<Rightarrow>
    real list option \<Rightarrow> node_row list \<Rightarrow> node_row list \<times> string" where
  "upsert_special_node sha256 fresh now t g kind h v sig residual level cog gal emb rows =
     (case get_by_vector_hash t g (persisted_hash sha256 h) rows of
        Some old \<Rightarrow>
          (update_node old (\<lambda>n. n\<lparr>nd_kind := kind, nd_vector := v, nd_embedding := emb, nd_signature := sig,
             nd_residual := to_scaled residual, nd_level := level,
             nd_cognitive := fill_string cog (nd_cognitive n), nd_galaxy := fill_string gal (nd_galaxy n),
             nd_updated := now\<rparr>) rows, nd_id old)
      | None \<Rightarrow>
          (rows @ [\<lparr>nd_id = fresh, nd_tenant = t, nd_graph = g, nd_kind = kind,
             nd_hash = persisted_hash sha256 h, nd_raw = None, nd_block = None, nd_anchor = None,
             nd_vector = v, nd_embedding = emb, nd_signature = sig, nd_residual = to_scaled residual,
             nd_level = level, nd_touch = 0, nd_access = Some now, nd_valid_from = None,
             nd_valid_to = None, nd_long_term = False, nd_cluster = None, nd_cognitive = cog,
             nd_galaxy = gal, nd_created = now, nd_updated = now\<rparr>], fresh))"

definition delete_node :: "string \<Rightarrow> string \<Rightarrow> string \<Rightarrow> node_row list \<Rightarrow> node_row list \<times> bool" where
  "delete_node t g nid rows =
     (case get_node_row t g nid rows of
        None \<Rightarrow> (rows, False)
      | Some n \<Rightarrow> (fst (delete_rows (\<lambda>m. nd_id m = nd_id n) rows), True))"

definition touch_node :: "int \<Rightarrow> string \<Rightarrow> string \<Rightarrow> string \<Rightarrow> node_row list \<Rightarrow> node_row list" where
  "touch_node now t g nid rows =
     (case get_node_row t g nid rows of
        None \<Rightarrow> rows
      | Some old \<Rightarrow> update_node old (\<lambda>n. n\<lparr>nd_touch := nd_touch n + 1, nd_access := Some now\<rparr>) rows)"

text \<open>
  A backed-up row: the columns the restore reads, each present or missing. The residual is an
  integer (already scaled) or a number to scale; a time is given as the parsed value.
\<close>

datatype residual_json = RInt int | RNum real

record node_json =
  nj_id :: "string option"
  nj_kind :: string
  nj_hash :: string
  nj_raw :: "string option"
  nj_block :: "string option"
  nj_anchor :: "json_dict option"
  nj_vector :: "real list"
  nj_signature :: "json_dict option"
  nj_residual :: residual_json
  nj_level :: int
  nj_touch :: int
  nj_access :: "int option"
  nj_long_term :: bool
  nj_cluster :: "int option"
  nj_cognitive :: "string option"
  nj_galaxy :: "string option"
  nj_created :: "int option"

definition restored_row :: "int \<Rightarrow> string \<Rightarrow> string \<Rightarrow> string \<Rightarrow> node_json \<Rightarrow> node_row" where
  "restored_row now t g nid j =
     \<lparr>nd_id = nid, nd_tenant = t, nd_graph = g,
      nd_kind = (if nj_kind j = [] then ''atom'' else nj_kind j), nd_hash = nj_hash j,
      nd_raw = nj_raw j, nd_block = nj_block j, nd_anchor = nj_anchor j, nd_vector = nj_vector j,
      nd_embedding = None, nd_signature = nj_signature j,
      nd_residual = (case nj_residual j of RInt i \<Rightarrow> i | RNum x \<Rightarrow> to_scaled x),
      nd_level = nj_level j, nd_touch = nj_touch j, nd_access = nj_access j,
      nd_valid_from = None, nd_valid_to = None, nd_long_term = nj_long_term j,
      nd_cluster = nj_cluster j, nd_cognitive = nj_cognitive j, nd_galaxy = nj_galaxy j,
      nd_created = (case nj_created j of None \<Rightarrow> now | Some c \<Rightarrow> c), nd_updated = now\<rparr>"

definition restore_node :: "bool \<Rightarrow> int \<Rightarrow> string \<Rightarrow> string \<Rightarrow> node_json \<Rightarrow> node_row list \<Rightarrow>
    string + node_row list \<times> bool" where
  "restore_node pg now t g j rows =
     (case (case nj_id j of None \<Rightarrow> None | Some s \<Rightarrow> uuid_of s) of
        None \<Rightarrow> Inr (rows, False)
      | Some nid \<Rightarrow>
          if get_node_row t g nid rows \<noteq> None then Inr (rows, False)
          else map_sum id (\<lambda>rs. (rs, True)) (insert_node pg (restored_row now t g nid j) rows))"

section \<open>Co-activations\<close>

record coactivation =
  co_tenant :: string
  co_graph :: string
  co_signature :: string
  co_members :: "string list"
  co_count :: int
  co_invented :: bool
  co_updated :: int

definition macro_hash :: "(string list \<Rightarrow> string) \<Rightarrow> string list \<Rightarrow> string" where
  "macro_hash digest members = digest (sort members)"

definition is_coactivation :: "string \<Rightarrow> string \<Rightarrow> string \<Rightarrow> coactivation \<Rightarrow> bool" where
  "is_coactivation t g s c \<longleftrightarrow> co_tenant c = t \<and> co_graph c = g \<and> co_signature c = s"

definition track_coactivation :: "(string list \<Rightarrow> string) \<Rightarrow> int \<Rightarrow> string \<Rightarrow> string \<Rightarrow> string list \<Rightarrow>
    coactivation list \<Rightarrow> coactivation list" where
  "track_coactivation digest now t g ids rows =
     (if length ids < 2 then rows
      else let s = macro_hash digest ids in
        if (\<exists>c \<in> set rows. is_coactivation t g s c)
        then update_rows (is_coactivation t g s) (\<lambda>c. c\<lparr>co_count := co_count c + 1, co_updated := now\<rparr>) rows
        else rows @ [\<lparr>co_tenant = t, co_graph = g, co_signature = s, co_members = sort ids,
               co_count = 1, co_invented = False, co_updated = now\<rparr>])"

definition get_pending_inventions :: "string \<Rightarrow> string \<Rightarrow> int \<Rightarrow> nat \<Rightarrow> coactivation list \<Rightarrow>
    (string \<times> string list \<times> int) list" where
  "get_pending_inventions t g min_count limit rows =
     map (\<lambda>c. (co_signature c, co_members c, co_count c))
       (take limit (query_rows (\<lambda>c. co_tenant c = t \<and> co_graph c = g \<and> \<not> co_invented c \<and> min_count \<le> co_count c)
          (\<lambda>c. (- co_count c, co_updated c)) rows))"

definition mark_invented :: "int \<Rightarrow> string \<Rightarrow> string \<Rightarrow> string \<Rightarrow> coactivation list \<Rightarrow> coactivation list" where
  "mark_invented now t g s rows =
     update_rows (is_coactivation t g s) (\<lambda>c. c\<lparr>co_invented := True, co_updated := now\<rparr>) rows"

section \<open>Unique ids and hashes\<close>

definition nodes_ok :: "node_row list \<Rightarrow> bool" where
  "nodes_ok rows \<longleftrightarrow> distinct (map nd_id rows) \<and> distinct (map node_key rows)"

inductive node_step :: "string \<Rightarrow> string \<Rightarrow> node_row list \<Rightarrow> node_row list \<Rightarrow> bool" for t g where
  atom: "upsert_atom_node fresh now t g v cog gal emb vf vt rows = (rows', i) \<Longrightarrow>
    fresh \<notin> set (map nd_id rows) \<Longrightarrow> node_step t g rows rows'"
| macro: "create_macro_node True fresh now t g v h sig l r cog gal emb rows = Inr (rows', i) \<Longrightarrow>
    node_step t g rows rows'"
| special: "upsert_special_node sha fresh now t g k h v sig r l cog gal emb rows = (rows', i) \<Longrightarrow>
    fresh \<notin> set (map nd_id rows) \<Longrightarrow> node_step t g rows rows'"
| delete: "delete_node t g nid rows = (rows', b) \<Longrightarrow> node_step t g rows rows'"
| touch: "touch_node now t g nid rows = rows' \<Longrightarrow> node_step t g rows rows'"
| restore: "restore_node True now t g j rows = Inr (rows', b) \<Longrightarrow> node_step t g rows rows'"

lemma find_node_key:
  "get_by_vector_hash t g h rows = find (\<lambda>n. node_key n = (t, g, h)) rows"
proof -
  have "(\<lambda>n. node_in t g n \<and> nd_hash n = h) = (\<lambda>n. node_key n = (t, g, h))"
    by (auto simp: node_in_def node_key_def)
  then show ?thesis by (simp add: get_by_vector_hash_def)
qed

text \<open>What a write may do to a table: rewrite rows in place, append a new row, or drop rows.\<close>

inductive node_effect :: "string \<Rightarrow> string \<Rightarrow> node_row list \<Rightarrow> node_row list \<Rightarrow> bool" for t g where
  same: "node_effect t g rows rows"
| rewrite: "old \<in> set rows \<Longrightarrow> node_in t g old \<Longrightarrow>
    (\<And>n. nd_id (f n) = nd_id n \<and> node_key (f n) = node_key n) \<Longrightarrow> node_effect t g rows (update_node old f rows)"
| append: "node_in t g n \<Longrightarrow> nd_id n \<notin> set (map nd_id rows) \<Longrightarrow> node_key n \<notin> set (map node_key rows) \<Longrightarrow>
    node_effect t g rows (rows @ [n])"
| drop: "old \<in> set rows \<Longrightarrow> node_in t g old \<Longrightarrow>
    node_effect t g rows (fst (delete_rows (\<lambda>m. nd_id m = nd_id old) rows))"

lemma node_row_found: "get_node_row t g nid rows = Some n \<Longrightarrow> n \<in> set rows \<and> node_in t g n \<and> nd_id n = nid"
  by (auto simp: get_node_row_def dest: find_SomeD)

lemma hash_found: "get_by_vector_hash t g h rows = Some n \<Longrightarrow> n \<in> set rows \<and> node_in t g n \<and> nd_hash n = h"
  by (auto simp: get_by_vector_hash_def dest: find_SomeD)

lemma hash_missing: "get_by_vector_hash t g h rows = None \<Longrightarrow> (t, g, h) \<notin> set (map node_key rows)"
  by (auto simp: find_node_key find_None_iff)

lemma insert_node_effect:
  "insert_node True n rows = Inr rows' \<Longrightarrow> node_in t g n \<Longrightarrow> node_effect t g rows rows'"
  by (auto simp: insert_node_def split: if_splits intro!: node_effect.append)

lemma step_node_effect: "node_step t g rows rows' \<Longrightarrow> node_effect t g rows rows'"
proof (induction rule: node_step.induct)
  case (atom fresh now v cog gal emb vf vt rows rows' i)
  show ?case
  proof (cases "get_by_vector_hash t g (fv_hash v) rows")
    case None
    then show ?thesis using atom hash_missing [OF None]
      by (auto simp: upsert_atom_node_def intro!: node_effect.append simp: node_in_def node_key_def)
  next
    case (Some old)
    then show ?thesis using atom hash_found [OF Some]
      by (auto simp: upsert_atom_node_def intro!: node_effect.rewrite simp: node_key_def)
  qed
next
  case (macro fresh now v h sig l r cog gal emb rows rows' i)
  then show ?case
    by (auto simp: create_macro_node_def node_in_def map_sum_def elim!: insert_node_effect split: sum.splits)
next
  case (special sha fresh now k h v sig r l cog gal emb rows rows' i)
  show ?case
  proof (cases "get_by_vector_hash t g (persisted_hash sha h) rows")
    case None
    then show ?thesis using special hash_missing [OF None]
      by (auto simp: upsert_special_node_def intro!: node_effect.append simp: node_in_def node_key_def)
  next
    case (Some old)
    then show ?thesis using special hash_found [OF Some]
      by (auto simp: upsert_special_node_def intro!: node_effect.rewrite simp: node_key_def)
  qed
next
  case (delete nid rows rows' b)
  then show ?case using node_row_found
    by (fastforce simp: delete_node_def split: option.splits intro: node_effect.drop node_effect.same)
next
  case (touch now nid rows rows')
  show ?case
  proof (cases "get_node_row t g nid rows")
    case None
    with touch show ?thesis by (auto simp: touch_node_def intro: node_effect.same)
  next
    case (Some old)
    with touch node_row_found [OF Some] show ?thesis
      by (auto simp: touch_node_def node_key_def intro!: node_effect.rewrite)
  qed
next
  case (restore now j rows rows' b)
  then show ?case
    by (auto simp: restore_node_def node_in_def restored_row_def map_sum_def
        elim!: insert_node_effect split: option.splits sum.splits if_splits intro: node_effect.same)
qed

lemma effect_nodes_ok: "node_effect t g rows rows' \<Longrightarrow> nodes_ok rows \<Longrightarrow> nodes_ok rows'"
proof (induction rule: node_effect.induct)
  case (rewrite old rows f)
  then have "map nd_id (update_node old f rows) = map nd_id rows"
    "map node_key (update_node old f rows) = map node_key rows"
    by (auto simp: update_node_def update_rows_def)
  with rewrite.prems show ?case by (simp add: nodes_ok_def)
next
  case (drop old rows)
  then show ?case by (simp add: nodes_ok_def distinct_delete_rows)
qed (auto simp: nodes_ok_def)

lemma effect_outside:
  assumes "node_effect t g rows rows'" "distinct (map nd_id rows)"
  shows "filter (\<lambda>n. \<not> node_in t g n) rows' = filter (\<lambda>n. \<not> node_in t g n) rows"
  using assms
proof (induction rule: node_effect.induct)
  case (rewrite old rows f)
  have same: "nd_id n = nd_id old \<longleftrightarrow> n = old" if "n \<in> set rows" for n
    using rewrite.prems rewrite.hyps(1) that by (auto simp: distinct_map dest: inj_onD)
  have "update_node old f rows = update_rows (\<lambda>n. n = old) f rows"
    using same by (auto simp: update_node_def update_rows_def)
  moreover have "node_in t g (f old)" using rewrite.hyps(2,3) by (auto simp: node_in_def node_key_def)
  moreover have "filter (\<lambda>n. \<not> node_in t g n) (update_rows (\<lambda>n. n = old) f rows) = filter (\<lambda>n. \<not> node_in t g n) rows"
    by (rule filter_update_other) (use rewrite.hyps(2) \<open>node_in t g (f old)\<close> in auto)
  ultimately show ?case by simp
next
  case (drop old rows)
  have "nd_id m = nd_id old \<Longrightarrow> m \<in> set rows \<Longrightarrow> m = old" for m
    using drop by (auto simp: distinct_map dest: inj_onD)
  then have "fst (delete_rows (\<lambda>m. nd_id m = nd_id old) rows) = fst (delete_rows (\<lambda>m. m = old) rows)"
    by (auto simp: delete_rows_def intro!: filter_cong)
  then show ?case using drop.hyps(2) filter_delete_other [of "\<lambda>m. m = old" "\<lambda>n. \<not> node_in t g n" rows]
    by simp
qed auto

text \<open>
  C36 Node tables stay well formed: on PostgreSQL every write keeps node ids unique and hashes
  unique per tenant and graph, and changes no node of another tenant or graph.
\<close>

theorem node_table_invariant:
  assumes "node_step t g rows rows'" "distinct (map nd_id rows)" "distinct (map node_key rows)"
  shows "distinct (map nd_id rows') \<and> distinct (map node_key rows')
    \<and> ((t', g') \<noteq> (t, g) \<longrightarrow> filter (node_in t' g') rows' = filter (node_in t' g') rows)"
proof -
  note eff = step_node_effect [OF assms(1)]
  have "filter (node_in t' g') xs = filter (node_in t' g') (filter (\<lambda>n. \<not> node_in t g n) xs)"
    if "(t', g') \<noteq> (t, g)" for xs
    using that by (auto simp: node_in_def intro!: filter_cong)
  then have "filter (node_in t' g') rows' = filter (node_in t' g') rows" if "(t', g') \<noteq> (t, g)"
    using that effect_outside [OF eff assms(2)] by metis
  with effect_nodes_ok [OF eff] assms(2,3) show ?thesis by (simp add: nodes_ok_def)
qed

section \<open>Content addressing\<close>

lemma update_node_find:
  assumes "find p rows = Some old" "\<And>n. p (f n) = p n" "distinct (map nd_id rows)"
  shows "find p (update_node old f rows) = Some (f old)"
  using assms(1,3)
proof (induction rows)
  case (Cons r rows)
  show ?case
  proof (cases "p r")
    case True
    with Cons.prems have "r = old" by simp
    with True assms(2) show ?thesis by (simp add: update_node_def update_rows_def)
  next
    case False
    with Cons.prems have rest: "find p rows = Some old" "distinct (map nd_id rows)" by simp_all
    from rest(1) have "old \<in> set rows" by (auto dest: find_SomeD)
    with Cons.prems(2) have "nd_id r \<noteq> nd_id old" by (auto simp: image_iff)
    with Cons.IH [OF rest] False show ?thesis by (simp add: update_node_def update_rows_def)
  qed
qed simp

lemma find_append_None: "find p rows = None \<Longrightarrow> p n \<Longrightarrow> find p (rows @ [n]) = Some n"
  by (induction rows) (auto split: if_splits)

text \<open>
  Upserting by content: after an upsert the node with the vector's hash is the returned one; it
  is the old node with one more touch, or a fresh atom; the number of nodes of the graph grows
  exactly when the hash was new.
\<close>

theorem upsert_atom_content:
  assumes "upsert_atom_node fresh now t g v cog gal emb vf vt rows = (rows', i)" "distinct (map nd_id rows)"
  shows "\<exists>n. get_by_vector_hash t g (fv_hash v) rows' = Some n \<and> nd_id n = i \<and> nd_access n = Some now
    \<and> (case get_by_vector_hash t g (fv_hash v) rows of
         Some old \<Rightarrow> i = nd_id old \<and> nd_touch n = nd_touch old + 1 \<and> nd_vector n = nd_vector old
           \<and> count_nodes t g rows' = count_nodes t g rows
       | None \<Rightarrow> i = fresh \<and> nd_touch n = 1 \<and> nd_vector n = fv_native v
           \<and> count_nodes t g rows' = count_nodes t g rows + 1)"
proof (cases "get_by_vector_hash t g (fv_hash v) rows")
  case None
  then show ?thesis using assms(1) find_append_None [of "\<lambda>n. node_in t g n \<and> nd_hash n = fv_hash v" rows]
    by (auto simp: upsert_atom_node_def get_by_vector_hash_def node_in_def count_nodes_def)
next
  case (Some old)
  let ?f = "\<lambda>n. n\<lparr>nd_touch := nd_touch n + 1, nd_access := Some now, nd_updated := now,
             nd_embedding := fill_vector emb (nd_embedding n),
             nd_cognitive := fill_string cog (nd_cognitive n), nd_galaxy := fill_string gal (nd_galaxy n),
             nd_valid_from := (if vf = None then nd_valid_from n else vf),
             nd_valid_to := (if vt = None then nd_valid_to n else vt)\<rparr>"
  have eq: "rows' = update_node old ?f rows" "i = nd_id old"
    using assms(1) Some by (simp_all add: upsert_atom_node_def)
  have "get_by_vector_hash t g (fv_hash v) rows' = Some (?f old)"
    unfolding eq(1) get_by_vector_hash_def
    by (rule update_node_find) (use Some assms(2) in \<open>simp_all add: get_by_vector_hash_def node_in_def\<close>)
  moreover have "count_nodes t g rows' = count_nodes t g rows"
  proof -
    have "map (node_in t g) rows' = map (node_in t g) rows"
      unfolding eq(1) update_node_def by (rule map_update_rows) (simp add: node_in_def)
    then have "length (filter id (map (node_in t g) rows')) = length (filter id (map (node_in t g) rows))"
      by simp
    then show ?thesis by (simp add: count_nodes_def filter_map o_def)
  qed
  ultimately show ?thesis using Some eq(2) by simp
qed

text \<open>
  Tracking a co-activation counts sets: the signature, and so the row that is written, does not
  depend on the order of the nodes, and tracking the same set again adds one to its count.
\<close>

theorem coactivation_counts:
  assumes "mset ids = mset ids'" "2 \<le> length ids"
  shows "track_coactivation digest now t g ids rows = track_coactivation digest now t g ids' rows
    \<and> (\<exists>c. find (is_coactivation t g (macro_hash digest ids)) (track_coactivation digest now t g ids rows) = Some c
         \<and> co_count c = (case find (is_coactivation t g (macro_hash digest ids)) rows of
             None \<Rightarrow> 1 | Some old \<Rightarrow> co_count old + 1))"
proof -
  have s: "sort ids = sort ids'" "length ids = length ids'"
    using properties_for_sort [of "sort ids'" ids] mset_eq_length [OF assms(1)] assms(1) by simp_all
  let ?p = "is_coactivation t g (macro_hash digest ids)"
  let ?f = "\<lambda>c. c\<lparr>co_count := co_count c + 1, co_updated := now\<rparr>"
  have upd: "find ?p (update_rows ?p ?f xs) = map_option ?f (find ?p xs)" for xs
    by (induction xs) (auto simp: update_rows_def is_coactivation_def)
  have new: "find ?p xs = None \<Longrightarrow> ?p c \<Longrightarrow> find ?p (xs @ [c]) = Some c" for xs c
    by (induction xs) (auto split: if_splits)
  have "\<exists>c. find ?p (track_coactivation digest now t g ids rows) = Some c
         \<and> co_count c = (case find ?p rows of None \<Rightarrow> 1 | Some old \<Rightarrow> co_count old + 1)"
  proof (cases "find ?p rows")
    case None
    then have none: "\<not> (\<exists>c \<in> set rows. ?p c)" by (auto simp: find_None_iff)
    have "track_coactivation digest now t g ids rows = rows @ [\<lparr>co_tenant = t, co_graph = g,
        co_signature = macro_hash digest ids, co_members = sort ids, co_count = 1, co_invented = False,
        co_updated = now\<rparr>]"
      using none assms(2) by (simp add: track_coactivation_def Let_def)
    then show ?thesis using new [OF None] None by (simp add: is_coactivation_def)
  next
    case (Some old)
    then have "\<exists>c \<in> set rows. ?p c" by (auto dest: find_SomeD)
    then have "track_coactivation digest now t g ids rows = update_rows ?p ?f rows"
      using assms(2) by (simp add: track_coactivation_def Let_def)
    with Some show ?thesis by (simp add: upd)
  qed
  moreover have "track_coactivation digest now t g ids rows = track_coactivation digest now t g ids' rows"
    unfolding track_coactivation_def macro_hash_def s ..
  ultimately show ?thesis by blast
qed

section \<open>Concrete instances\<close>

definition ex_vector :: faim_vector where
  "ex_vector = \<lparr>fv_hash = ''h'', fv_raw = None, fv_block = None, fv_anchor = None, fv_native = [1],
     fv_embedding = None, fv_signature = None, fv_residual = 0, fv_level = 0\<rparr>"

definition ex_rows :: "node_row list" where
  "ex_rows = fst (upsert_atom_node ''n'' 5 ''t'' ''g'' ex_vector None None None None None [])"

lemma ex_upsert: "upsert_atom_node ''n'' 5 ''t'' ''g'' ex_vector None None None None None [] = (ex_rows, ''n'')"
  by (simp add: ex_rows_def upsert_atom_node_def get_by_vector_hash_def)

lemma node_table_invariant_witness: "distinct (map nd_id ex_rows)"
  using node_table_invariant [OF node_step.atom [OF ex_upsert]] by simp

lemma upsert_atom_content_witness: "\<exists>n. get_by_vector_hash ''t'' ''g'' ''h'' ex_rows = Some n \<and> nd_id n = ''n''"
  using upsert_atom_content [OF ex_upsert] by (auto simp: ex_vector_def)

lemma coactivation_counts_witness:
  "track_coactivation concat 5 ''t'' ''g'' [''b'', ''a''] [] = track_coactivation concat 5 ''t'' ''g'' [''a'', ''b''] []"
  using coactivation_counts [of "[''b'', ''a'']" "[''a'', ''b'']" concat 5 "''t''" "''g''" "[]"] by simp

end
