(* ===== verification/FM_Edge_Repo.thy ===== *)
theory FM_Edge_Repo
  imports FM_Graph_Tables
begin

text \<open>
  The edge repository, \<open>store/pg/repos/edge_repo.py\<close>. Every operation takes the tenant of the
  repository and the edge table; \<open>pg\<close> says that the database is PostgreSQL, which has the unique
  constraint on (tenant, graph, source, destination, kind) and the conflict-safe insert. Fresh
  UUIDs and the clock reading are arguments.

  The lemmas show the uniqueness invariant, the isolation of tenants and graphs, what is read back
  after writing, and that the two dialects agree up to a time stamp.
\<close>

section \<open>Operations\<close>

definition edge_key :: "edge_row \<Rightarrow> string \<times> string \<times> string \<times> string \<times> string" where
  "edge_key e = (er_tenant e, er_graph e, er_src e, er_dst e, er_kind e)"

definition in_graph :: "string \<Rightarrow> string \<Rightarrow> edge_row \<Rightarrow> bool" where
  "in_graph t g e \<longleftrightarrow> er_tenant e = t \<and> er_graph e = g"

definition coerce_uuid :: "string \<Rightarrow> string option" where
  "coerce_uuid nid = uuid_of nid"

text \<open>Adding rows; PostgreSQL refuses a second row with the same key.\<close>

definition add_rows :: "bool \<Rightarrow> edge_row list \<Rightarrow> edge_row list \<Rightarrow> string + edge_row list" where
  "add_rows pg new rows =
     (if pg \<and> (\<not> distinct (map edge_key new) \<or> set (map edge_key new) \<inter> set (map edge_key rows) \<noteq> {})
      then Inl ''IntegrityError'' else Inr (rows @ new))"

definition inheritance_of :: "string \<Rightarrow> string \<Rightarrow> string \<Rightarrow> edge_row \<Rightarrow> bool" where
  "inheritance_of t g child e \<longleftrightarrow> in_graph t g e \<and> er_dst e = child \<and> er_kind e = ''inheritance''"

definition parent_meta :: "json_dict option list option \<Rightarrow> nat \<Rightarrow> json_dict option" where
  "parent_meta metas i = (case metas of None \<Rightarrow> None | Some ms \<Rightarrow> if i < length ms then ms ! i else None)"

definition parent_rows :: "(nat \<Rightarrow> string) \<Rightarrow> int \<Rightarrow> string \<Rightarrow> string \<Rightarrow> string \<Rightarrow>
    json_dict option list option \<Rightarrow> (string \<times> real) list \<Rightarrow> edge_row list" where
  "parent_rows fresh now t g child metas parents =
     map (\<lambda>(i, p, f). \<lparr>er_id = fresh i, er_tenant = t, er_graph = g, er_src = p, er_dst = child,
       er_kind = ''inheritance'', er_weight = to_scaled f, er_meta = parent_meta metas i,
       er_created = now\<rparr>) (enumerate 0 parents)"

definition set_inheritance_parents :: "bool \<Rightarrow> (nat \<Rightarrow> string) \<Rightarrow> int \<Rightarrow> string \<Rightarrow> string \<Rightarrow> string \<Rightarrow>
    (string \<times> real) list \<Rightarrow> json_dict option list option \<Rightarrow> edge_row list \<Rightarrow>
    string + edge_row list \<times> string list" where
  "set_inheritance_parents pg fresh now t g child parents metas rows =
     (let rows1 = fst (delete_rows (inheritance_of t g child) rows);
          new = parent_rows fresh now t g child metas parents
      in (case add_rows pg new rows1 of Inl e \<Rightarrow> Inl e | Inr rows2 \<Rightarrow> Inr (rows2, map er_id new)))"

text \<open>The two identifiers of an opposition edge are ordered.\<close>

definition ordered :: "string \<Rightarrow> string \<Rightarrow> string \<times> string" where
  "ordered a b = (if a > b then (b, a) else (a, b))"

definition is_edge :: "string \<Rightarrow> string \<Rightarrow> string \<Rightarrow> string \<Rightarrow> string \<Rightarrow> edge_row \<Rightarrow> bool" where
  "is_edge t g src dst kind e \<longleftrightarrow>
     er_tenant e = t \<and> er_graph e = g \<and> er_src e = src \<and> er_dst e = dst \<and> er_kind e = kind"

definition get_opposition_edge :: "string \<Rightarrow> string \<Rightarrow> string \<Rightarrow> string \<Rightarrow> edge_row list \<Rightarrow> edge_row option" where
  "get_opposition_edge t g a b rows =
     (let (x, y) = ordered a b in find (is_edge t g x y ''opposition'') rows)"

text \<open>
  Insert or rewrite: PostgreSQL matches the constraint's key; the fallback looks the edge up by
  its columns and rewrites the object it found.
\<close>

definition upsert :: "bool \<Rightarrow> (edge_row \<Rightarrow> edge_row) \<Rightarrow> edge_row \<Rightarrow> edge_row list \<Rightarrow> edge_row list \<times> string" where
  "upsert pg write new rows =
     (if pg then
        (case find (\<lambda>e. edge_key e = edge_key new) rows of
           Some old \<Rightarrow> (update_rows (\<lambda>e. edge_key e = edge_key new) write rows, er_id old)
         | None \<Rightarrow> (rows @ [new], er_id new))
      else
        (case find (is_edge (er_tenant new) (er_graph new) (er_src new) (er_dst new) (er_kind new)) rows of
           Some old \<Rightarrow> (update_rows (\<lambda>e. er_id e = er_id old) write rows, er_id old)
         | None \<Rightarrow> (rows @ [new], er_id new)))"

definition add_opposition_edge :: "bool \<Rightarrow> string \<Rightarrow> int \<Rightarrow> string \<Rightarrow> string \<Rightarrow> string \<Rightarrow> string \<Rightarrow> real \<Rightarrow>
    json_dict option \<Rightarrow> edge_row list \<Rightarrow> edge_row list \<times> string" where
  "add_opposition_edge pg fresh now t g a b weight meta rows =
     (let (x, y) = ordered a b in
      upsert pg (\<lambda>e. e\<lparr>er_weight := to_scaled weight, er_meta := meta, er_created := now\<rparr>)
        \<lparr>er_id = fresh, er_tenant = t, er_graph = g, er_src = x, er_dst = y,
         er_kind = ''opposition'', er_weight = to_scaled weight, er_meta = meta, er_created = now\<rparr> rows)"

definition KNOWN_SEMANTIC_KINDS :: "string list" where
  "KNOWN_SEMANTIC_KINDS = [''concept_surface'', ''distributional_synonym'', ''domain_term'',
     ''entity_alias'', ''entity_relation'', ''fact_time'', ''fact_value'', ''hypernym'', ''hyponym'',
     ''kb_source'', ''paraphrase'', ''related'', ''relation_alias'', ''synonym'', ''translation'']"

text \<open>On a conflict PostgreSQL updates the weight and the meta data; the fallback also the time.\<close>

definition add_semantic_edge :: "bool \<Rightarrow> string \<Rightarrow> int \<Rightarrow> string \<Rightarrow> string \<Rightarrow> string \<Rightarrow> string \<Rightarrow> string \<Rightarrow>
    real \<Rightarrow> json_dict option \<Rightarrow> edge_row list \<Rightarrow> edge_row list \<times> string" where
  "add_semantic_edge pg fresh now t g src dst kind weight meta rows =
     (let m = Some (case meta of None \<Rightarrow> [] | Some d \<Rightarrow> d) in
      upsert pg (\<lambda>e. if pg then e\<lparr>er_weight := to_scaled weight, er_meta := m\<rparr>
                     else e\<lparr>er_weight := to_scaled weight, er_meta := m, er_created := now\<rparr>)
        \<lparr>er_id = fresh, er_tenant = t, er_graph = g, er_src = src, er_dst = dst,
         er_kind = kind, er_weight = to_scaled weight, er_meta = m, er_created = now\<rparr> rows)"

section \<open>Queries\<close>

definition get_parents :: "string \<Rightarrow> string \<Rightarrow> string \<Rightarrow> edge_row list \<Rightarrow> edge_row list" where
  "get_parents t g child rows =
     (case coerce_uuid child of
        None \<Rightarrow> []
      | Some c \<Rightarrow> query_rows (inheritance_of t g c) (\<lambda>e. (- er_weight e, er_src e)) rows)"

definition list_parents :: "string \<Rightarrow> string \<Rightarrow> string \<Rightarrow> edge_row list \<Rightarrow> (string \<times> real) list" where
  "list_parents t g child rows = map (\<lambda>e. (er_src e, from_scaled (er_weight e))) (get_parents t g child rows)"

definition list_children :: "string \<Rightarrow> string \<Rightarrow> string \<Rightarrow> edge_row list \<Rightarrow> string list" where
  "list_children t g parent rows = map er_dst
     (query_rows (\<lambda>e. in_graph t g e \<and> er_src e = parent \<and> er_kind e = ''inheritance'') er_dst rows)"

definition list_opposition_edges :: "string \<Rightarrow> string \<Rightarrow> nat \<Rightarrow> edge_row list \<Rightarrow> edge_row list" where
  "list_opposition_edges t g limit rows =
     take limit (query_rows (\<lambda>e. in_graph t g e \<and> er_kind e = ''opposition'')
       (\<lambda>e. (- er_weight e, er_id e)) rows)"

definition list_edges_for_node :: "string \<Rightarrow> string \<Rightarrow> string \<Rightarrow> edge_row list \<Rightarrow> edge_row list" where
  "list_edges_for_node t g nid rows =
     (let n = (case coerce_uuid nid of None \<Rightarrow> nid | Some c \<Rightarrow> c)
      in filter (\<lambda>e. in_graph t g e \<and> (er_src e = n \<or> er_dst e = n)) rows)"

definition count_edges :: "string \<Rightarrow> string \<Rightarrow> edge_row list \<Rightarrow> nat" where
  "count_edges t g rows = length (filter (in_graph t g) rows)"

definition count_inheritance_edges :: "string \<Rightarrow> string \<Rightarrow> edge_row list \<Rightarrow> nat" where
  "count_inheritance_edges t g rows =
     length (filter (\<lambda>e. in_graph t g e \<and> er_kind e = ''inheritance'') rows)"

definition list_all_edges :: "string \<Rightarrow> string \<Rightarrow> nat \<Rightarrow> edge_row list \<Rightarrow> edge_row list" where
  "list_all_edges t g limit rows =
     take limit (query_rows (in_graph t g) (\<lambda>e. (er_src e, er_dst e, er_kind e)) rows)"

definition list_semantic_neighbors :: "string \<Rightarrow> string \<Rightarrow> string list \<Rightarrow> string list option \<Rightarrow>
    edge_row list \<Rightarrow> edge_row list" where
  "list_semantic_neighbors t g nids kinds rows =
     (if nids = [] then []
      else let ks = (case kinds of None \<Rightarrow> KNOWN_SEMANTIC_KINDS | Some ks \<Rightarrow> ks) in
        query_rows (\<lambda>e. in_graph t g e \<and> er_kind e \<in> set ks \<and> (er_src e \<in> set nids \<or> er_dst e \<in> set nids))
          (\<lambda>e. (er_kind e, - er_weight e, er_id e)) rows)"

definition list_graph_neighbors :: "string \<Rightarrow> string \<Rightarrow> string list \<Rightarrow> string list option \<Rightarrow> nat \<Rightarrow>
    edge_row list \<Rightarrow> edge_row list" where
  "list_graph_neighbors t g nids kinds limit rows =
     (if nids = [] then []
      else take limit (query_rows (\<lambda>e. in_graph t g e \<and> (er_src e \<in> set nids \<or> er_dst e \<in> set nids)
            \<and> (case kinds of None \<Rightarrow> True | Some ks \<Rightarrow> er_kind e \<in> set ks))
          (\<lambda>e. (er_src e, er_dst e, er_kind e, - er_weight e, er_id e)) rows))"

section \<open>Deletion\<close>

definition delete_edges_for_node :: "string \<Rightarrow> string \<Rightarrow> string \<Rightarrow> edge_row list \<Rightarrow> edge_row list \<times> nat" where
  "delete_edges_for_node t g nid rows =
     (let (rows1, m) = delete_rows (\<lambda>e. in_graph t g e \<and> er_src e = nid) rows;
          (rows2, n) = delete_rows (\<lambda>e. in_graph t g e \<and> er_dst e = nid) rows1
      in (rows2, m + n))"

definition delete_edges_by_kinds :: "string \<Rightarrow> string \<Rightarrow> string list \<Rightarrow> edge_row list \<Rightarrow> edge_row list \<times> nat" where
  "delete_edges_by_kinds t g kinds rows =
     (if kinds = [] then (rows, 0) else delete_rows (\<lambda>e. in_graph t g e \<and> er_kind e \<in> set kinds) rows)"

section \<open>The uniqueness invariant and isolation\<close>

definition edges_ok :: "edge_row list \<Rightarrow> bool" where
  "edges_ok rows \<longleftrightarrow> distinct (map edge_key rows) \<and> distinct (map er_id rows)"

text \<open>The operations of a repository of tenant t on graph g that write; fresh UUIDs are new.\<close>

inductive edge_step :: "bool \<Rightarrow> string \<Rightarrow> string \<Rightarrow> edge_row list \<Rightarrow> edge_row list \<Rightarrow> bool" for pg t g where
  inheritance: "set_inheritance_parents pg fresh now t g child ps ms rows = Inr (rows', ids) \<Longrightarrow>
    inj fresh \<Longrightarrow> range fresh \<inter> set (map er_id rows) = {} \<Longrightarrow> edge_step pg t g rows rows'"
| opposition: "add_opposition_edge pg fresh now t g a b w m rows = (rows', i) \<Longrightarrow>
    fresh \<notin> set (map er_id rows) \<Longrightarrow> edge_step pg t g rows rows'"
| semantic: "add_semantic_edge pg fresh now t g src dst kind w m rows = (rows', i) \<Longrightarrow>
    fresh \<notin> set (map er_id rows) \<Longrightarrow> edge_step pg t g rows rows'"
| deletion: "delete_edges_for_node t g nid rows = (rows', n) \<Longrightarrow> edge_step pg t g rows rows'"
| kinds: "delete_edges_by_kinds t g ks rows = (rows', n) \<Longrightarrow> edge_step pg t g rows rows'"

inductive_cases edge_stepE: "edge_step pg t g rows rows'"

text \<open>One lemma serves both upserts: an existing row is rewritten in place, or a new one appended.\<close>

definition keeps_key :: "(edge_row \<Rightarrow> edge_row) \<Rightarrow> bool" where
  "keeps_key f \<longleftrightarrow> (\<forall>e. edge_key (f e) = edge_key e \<and> er_id (f e) = er_id e)"

lemma edges_ok_update:
  assumes "edges_ok rows" "keeps_key f"
  shows "edges_ok (update_rows p f rows)"
proof -
  have "map edge_key (update_rows p f rows) = map edge_key rows"
    "map er_id (update_rows p f rows) = map er_id rows"
    using assms(2) by (auto simp: update_rows_def keeps_key_def)
  with assms(1) show ?thesis by (simp add: edges_ok_def)
qed

lemma edges_ok_snoc:
  "edges_ok rows \<Longrightarrow> edge_key e \<notin> set (map edge_key rows) \<Longrightarrow> er_id e \<notin> set (map er_id rows) \<Longrightarrow>
     edges_ok (rows @ [e])"
  by (simp add: edges_ok_def)

lemma edges_ok_delete: "edges_ok rows \<Longrightarrow> edges_ok (fst (delete_rows p rows))"
  by (simp add: edges_ok_def distinct_delete_rows)

lemma find_None_key: "find (\<lambda>e. edge_key e = k) rows = None \<Longrightarrow> k \<notin> set (map edge_key rows)"
  by (auto simp: find_None_iff)

lemma is_edge_key:
  "is_edge t g a b k e \<longleftrightarrow> edge_key e = (t, g, a, b, k)"
  by (auto simp: is_edge_def edge_key_def)

lemma parent_rows_ids: "map er_id (parent_rows fresh now t g child ms ps) = map fresh [0..<length ps]"
  by (rule nth_equalityI) (simp_all add: parent_rows_def nth_enumerate_eq case_prod_beta)

lemma parent_rows_weights:
  "map (\<lambda>e. (er_src e, er_weight e)) (parent_rows fresh now t g child ms ps) = map (\<lambda>(p, f). (p, to_scaled f)) ps"
  by (rule nth_equalityI) (simp_all add: parent_rows_def nth_enumerate_eq case_prod_beta)

lemma parent_rows_inheritance:
  "e \<in> set (parent_rows fresh now t g child ms ps) \<Longrightarrow> inheritance_of t g child e"
  by (auto simp: parent_rows_def inheritance_of_def in_graph_def)

lemma set_inheritance_parentsD:
  assumes "set_inheritance_parents pg fresh now t g child ps ms rows = Inr (rows', ids)"
  shows "rows' = fst (delete_rows (inheritance_of t g child) rows) @ parent_rows fresh now t g child ms ps"
    and "pg \<Longrightarrow> distinct (map edge_key (parent_rows fresh now t g child ms ps))"
  using assms by (auto simp: set_inheritance_parents_def add_rows_def Let_def split: if_splits)

lemma edges_ok_inheritance:
  assumes "edges_ok rows" "set_inheritance_parents True fresh now t g child ps ms rows = Inr (rows', ids)"
    "inj fresh" "range fresh \<inter> set (map er_id rows) = {}"
  shows "edges_ok rows'"
proof -
  note D = set_inheritance_parentsD [OF assms(2)]
  let ?new = "parent_rows fresh now t g child ms ps"
  let ?old = "fst (delete_rows (inheritance_of t g child) rows)"
  have new: "distinct (map er_id ?new)" "set (map er_id ?new) \<subseteq> range fresh"
    unfolding parent_rows_ids using assms(3) by (auto simp: distinct_map inj_on_def)
  have old: "distinct (map edge_key ?old)" "distinct (map er_id ?old)"
    using edges_ok_delete [OF assms(1)] by (simp_all add: edges_ok_def)
  have "edge_key e \<noteq> edge_key e'" if "e \<in> set ?new" "e' \<in> set ?old" for e e'
    using parent_rows_inheritance [OF that(1)] that(2)
    by (auto simp: edge_key_def inheritance_of_def in_graph_def)
  then have "set (map edge_key ?old) \<inter> set (map edge_key ?new) = {}" by (auto 0 3)
  moreover have "set (map er_id ?old) \<inter> set (map er_id ?new) = {}" using new(2) assms(4) by (auto 0 3)
  ultimately show ?thesis
    unfolding D(1) edges_ok_def map_append distinct_append using new(1) old D(2) by blast
qed

lemma is_edge_same_key:
  "is_edge (er_tenant new) (er_graph new) (er_src new) (er_dst new) (er_kind new)
     = (\<lambda>e. edge_key e = edge_key new)"
  by (rule ext) (simp add: is_edge_def edge_key_def)

lemma edges_ok_upsert:
  assumes "edges_ok rows" "keeps_key write" "er_id new \<notin> set (map er_id rows)"
  shows "edges_ok (fst (upsert pg write new rows))"
proof -
  note key = is_edge_same_key [of new]
  show ?thesis
  proof (cases "find (\<lambda>e. edge_key e = edge_key new) rows")
    case None
    from edges_ok_snoc [OF assms(1) find_None_key [OF None] assms(3)]
    show ?thesis using None by (simp add: upsert_def key)
  next
    case (Some old)
    then show ?thesis using edges_ok_update [OF assms(1,2)] by (simp add: upsert_def key)
  qed
qed

lemma edges_ok_step:
  assumes "edge_step True t g rows rows'" "edges_ok rows"
  shows "edges_ok rows'"
  using assms(1)
proof (cases rule: edge_step.cases)
  case (inheritance fresh now child ps ms ids)
  then show ?thesis by (rule edges_ok_inheritance [OF assms(2)])
next
  case (opposition fresh now a b w m i)
  obtain x y where "ordered a b = (x, y)" by fastforce
  then have "rows' = fst (upsert True (\<lambda>e. e\<lparr>er_weight := to_scaled w, er_meta := m, er_created := now\<rparr>)
        \<lparr>er_id = fresh, er_tenant = t, er_graph = g, er_src = x, er_dst = y,
         er_kind = ''opposition'', er_weight = to_scaled w, er_meta = m, er_created = now\<rparr> rows)"
    using opposition(1) by (simp add: add_opposition_edge_def)
  then show ?thesis
    using opposition(2) by (auto intro!: edges_ok_upsert [OF assms(2)] simp: keeps_key_def edge_key_def)
next
  case (semantic fresh now src dst kind w m i)
  have "rows' = fst (add_semantic_edge True fresh now t g src dst kind w m rows)"
    using semantic(1) by simp
  then show ?thesis unfolding add_semantic_edge_def Let_def
    using semantic(2) by (auto intro!: edges_ok_upsert [OF assms(2)] simp: keeps_key_def edge_key_def)
next
  case (deletion nid n)
  then show ?thesis
    using edges_ok_delete [OF edges_ok_delete [OF assms(2)]]
    by (auto simp: delete_edges_for_node_def case_prod_beta Let_def)
next
  case (kinds ks n)
  then have "rows' = fst (delete_edges_by_kinds t g ks rows)" by simp
  then show ?thesis
    using edges_ok_delete [OF assms(2)] assms(2) by (simp add: delete_edges_by_kinds_def split: if_splits)
qed

lemma edges_ok_run:
  "(\<lambda>r r'. \<exists>t g. edge_step True t g r r')\<^sup>*\<^sup>* rows rows' \<Longrightarrow> edges_ok rows \<Longrightarrow> edges_ok rows'"
  by (induction rule: rtranclp_induct) (auto intro: edges_ok_step)

text \<open>
  No duplicate edges: on PostgreSQL, after any operations of any tenants from the empty table,
  no two rows share tenant, graph, endpoints and kind, and no two share an edge id.
\<close>

theorem edge_table_unique:
  assumes "(\<lambda>r r'. \<exists>t g. edge_step True t g r r')\<^sup>*\<^sup>* [] rows"
  shows "distinct (map edge_key rows) \<and> distinct (map er_id rows)"
  using edges_ok_run [OF assms] by (simp add: edges_ok_def)

text \<open>A write touches only rows of its tenant and graph.\<close>

lemma update_by_id:
  assumes "distinct (map er_id rows)" "old \<in> set rows"
  shows "update_rows (\<lambda>e. er_id e = er_id old) f rows = update_rows (\<lambda>e. e = old) f rows"
proof -
  have "er_id e = er_id old \<longleftrightarrow> e = old" if "e \<in> set rows" for e
    using assms that by (auto simp: distinct_map dest: inj_onD)
  then show ?thesis by (auto simp: update_rows_def)
qed

lemma upsert_outside:
  assumes "distinct (map er_id rows)" "in_graph t g new" "\<And>e. in_graph t g (write e) = in_graph t g e"
  shows "filter (\<lambda>e. \<not> in_graph t g e) (fst (upsert pg write new rows)) = filter (\<lambda>e. \<not> in_graph t g e) rows"
proof (cases "find (\<lambda>e. edge_key e = edge_key new) rows")
  case None
  then show ?thesis using assms(2) by (simp add: upsert_def is_edge_same_key)
next
  case (Some old)
  then have old: "old \<in> set rows" "edge_key old = edge_key new" by (auto dest: find_SomeD)
  have new: "in_graph t g e" if "edge_key e = edge_key new" for e
    using that assms(2) by (auto simp: edge_key_def in_graph_def)
  have "filter (\<lambda>e. \<not> in_graph t g e) (update_rows (\<lambda>e. e = old) write rows) = filter (\<lambda>e. \<not> in_graph t g e) rows"
    by (rule filter_update_other) (use new old(2) assms(3) in auto)
  moreover have "filter (\<lambda>e. \<not> in_graph t g e) (update_rows (\<lambda>e. edge_key e = edge_key new) write rows)
      = filter (\<lambda>e. \<not> in_graph t g e) rows"
    by (rule filter_update_other) (use new assms(3) in auto)
  ultimately show ?thesis
    using Some update_by_id [OF assms(1) old(1)] by (simp add: upsert_def is_edge_same_key)
qed

lemma delete_outside:
  "(\<And>e. p e \<Longrightarrow> in_graph t g e) \<Longrightarrow>
     filter (\<lambda>e. \<not> in_graph t g e) (fst (delete_rows p rows)) = filter (\<lambda>e. \<not> in_graph t g e) rows"
  by (rule filter_delete_other) auto

lemma step_outside:
  assumes "edge_step pg t g rows rows'" "distinct (map er_id rows)"
  shows "filter (\<lambda>e. \<not> in_graph t g e) rows' = filter (\<lambda>e. \<not> in_graph t g e) rows"
  using assms(1)
proof (cases rule: edge_step.cases)
  case (inheritance fresh now child ps ms ids)
  have "filter (\<lambda>e. \<not> in_graph t g e) (parent_rows fresh now t g child ms ps) = []"
    using parent_rows_inheritance [of _ fresh now t g child ms ps]
    by (auto simp: filter_empty_conv inheritance_of_def)
  moreover have "filter (\<lambda>e. \<not> in_graph t g e) (fst (delete_rows (inheritance_of t g child) rows))
      = filter (\<lambda>e. \<not> in_graph t g e) rows"
    by (rule delete_outside) (simp add: inheritance_of_def)
  ultimately show ?thesis using set_inheritance_parentsD(1) [OF inheritance(1)] by simp
next
  case (opposition fresh now a b w m i)
  obtain x y where "ordered a b = (x, y)" by fastforce
  moreover have "rows' = fst (add_opposition_edge pg fresh now t g a b w m rows)" using opposition(1) by simp
  ultimately have rows': "rows' = fst (upsert pg
        (\<lambda>e. e\<lparr>er_weight := to_scaled w, er_meta := m, er_created := now\<rparr>)
        \<lparr>er_id = fresh, er_tenant = t, er_graph = g, er_src = x, er_dst = y,
         er_kind = ''opposition'', er_weight = to_scaled w, er_meta = m, er_created = now\<rparr> rows)"
    by (simp add: add_opposition_edge_def)
  show ?thesis unfolding rows' by (rule upsert_outside [OF assms(2)]) (simp_all add: in_graph_def)
next
  case (semantic fresh now src dst kind w m i)
  have rows': "rows' = fst (add_semantic_edge pg fresh now t g src dst kind w m rows)" using semantic(1) by simp
  show ?thesis unfolding rows' add_semantic_edge_def Let_def
    by (rule upsert_outside [OF assms(2)]) (simp_all add: in_graph_def)
next
  case (deletion nid n)
  then show ?thesis
    using delete_outside [of "\<lambda>e. in_graph t g e \<and> er_src e = nid" t g rows]
      delete_outside [of "\<lambda>e. in_graph t g e \<and> er_dst e = nid" t g]
    by (auto simp: delete_edges_for_node_def case_prod_beta Let_def)
next
  case (kinds ks n)
  then have "rows' = fst (delete_edges_by_kinds t g ks rows)" by simp
  then show ?thesis using delete_outside [of "\<lambda>e. in_graph t g e \<and> er_kind e \<in> set ks" t g rows]
    by (auto simp: delete_edges_by_kinds_def)
qed

text \<open>
  Isolation: a write of a repository changes no edge of another tenant or another graph,
  whichever database it runs on.
\<close>

theorem edge_writes_isolated:
  assumes "edge_step pg t g rows rows'" "distinct (map er_id rows)" "(t', g') \<noteq> (t, g)"
  shows "filter (in_graph t' g') rows' = filter (in_graph t' g') rows"
proof -
  have "filter (in_graph t' g') xs = filter (in_graph t' g') (filter (\<lambda>e. \<not> in_graph t g e) xs)" for xs
    using assms(3) by (auto simp: in_graph_def intro!: filter_cong)
  with step_outside [OF assms(1,2)] show ?thesis by metis
qed

section \<open>Reading back\<close>

lemma parents_after_set:
  assumes "set_inheritance_parents pg fresh now t g child ps ms rows = Inr (rows', ids)"
    and "coerce_uuid child = Some child"
  shows "mset (list_parents t g child rows') = mset (map (\<lambda>(p, f). (p, from_scaled (to_scaled f))) ps)"
    and "sorted (map (\<lambda>x. - snd x) (list_parents t g child rows'))"
    and "filter (\<lambda>e. \<not> inheritance_of t g child e) rows' = filter (\<lambda>e. \<not> inheritance_of t g child e) rows"
proof -
  let ?new = "parent_rows fresh now t g child ms ps"
  note rows' = set_inheritance_parentsD(1) [OF assms(1)]
  have new: "filter (inheritance_of t g child) ?new = ?new" "filter (\<lambda>e. \<not> inheritance_of t g child e) ?new = []"
    using parent_rows_inheritance by (auto simp: filter_id_conv filter_empty_conv)
  have "filter (inheritance_of t g child) rows' = ?new"
    unfolding rows' using new(1) by (simp add: delete_rows_def)
  then have gp: "get_parents t g child rows' = sort_key (\<lambda>e. (- er_weight e, er_src e)) ?new"
    using assms(2) by (simp add: get_parents_def query_rows_def)
  have "map (\<lambda>e. (er_src e, from_scaled (er_weight e))) ?new
      = map (\<lambda>(p, w). (p, from_scaled w)) (map (\<lambda>e. (er_src e, er_weight e)) ?new)" by simp
  also have "\<dots> = map (\<lambda>(p, f). (p, from_scaled (to_scaled f))) ps"
    unfolding parent_rows_weights by (simp add: case_prod_beta o_def)
  finally have eq: "map (\<lambda>e. (er_src e, from_scaled (er_weight e))) ?new
      = map (\<lambda>(p, f). (p, from_scaled (to_scaled f))) ps" .
  have "mset (map h (sort_key k xs)) = mset (map h xs)" for h :: "edge_row \<Rightarrow> string \<times> real"
    and k :: "edge_row \<Rightarrow> int \<times> string" and xs by simp
  from this [of _ _ ?new]
  show "mset (list_parents t g child rows') = mset (map (\<lambda>(p, f). (p, from_scaled (to_scaled f))) ps)"
    unfolding list_parents_def gp by (simp only: eq)
  have "sorted (map (\<lambda>e. (- er_weight e, er_src e)) (get_parents t g child rows'))" unfolding gp by simp
  then have "sorted (map (\<lambda>e. - er_weight e) (get_parents t g child rows'))"
    unfolding sorted_map by (rule sorted_wrt_mono_rel [rotated]) (auto simp: less_eq_prod_def)
  then show "sorted (map (\<lambda>x. - snd x) (list_parents t g child rows'))"
    unfolding list_parents_def map_map comp_def snd_conv sorted_map
    by (rule sorted_wrt_mono_rel [rotated]) (simp add: from_scaled_def divide_right_mono)
  show "filter (\<lambda>e. \<not> inheritance_of t g child e) rows' = filter (\<lambda>e. \<not> inheritance_of t g child e) rows"
    unfolding rows' using new(2) by (simp add: delete_rows_def)
qed

text \<open>
  C35 Setting parents and listing them: after \<open>set_inheritance_parents\<close> the listed parents are
  exactly the given ones, heaviest first, each with its fraction up to less than one billionth,
  and every other edge is as before.
\<close>

theorem parents_roundtrip:
  assumes "set_inheritance_parents pg fresh now t g child ps ms rows = Inr (rows', ids)"
    and "coerce_uuid child = Some child"
  shows "(\<exists>qs. mset qs = mset ps \<and> length qs = length (list_parents t g child rows')
      \<and> list_all2 (\<lambda>x y. fst x = fst y \<and> \<bar>snd x - snd y\<bar> < 1 / 1000000000) (list_parents t g child rows') qs)
    \<and> sorted (map (\<lambda>x. - snd x) (list_parents t g child rows'))
    \<and> filter (\<lambda>e. \<not> inheritance_of t g child e) rows' = filter (\<lambda>e. \<not> inheritance_of t g child e) rows"
proof (intro conjI)
  let ?f = "\<lambda>(p, f). (p :: string, from_scaled (to_scaled f))"
  note P = parents_after_set [OF assms]
  from P(1) obtain qs where qs: "mset qs = mset ps" "map ?f qs = list_parents t g child rows'"
    using mset_eq_map by blast
  have "list_all2 (\<lambda>x y. fst x = fst y \<and> \<bar>snd x - snd y\<bar> < 1 / 1000000000) (map ?f qs) qs"
    by (auto simp: list_all2_conv_all_nth case_prod_beta scaled_error_times)
  with qs show "\<exists>qs. mset qs = mset ps \<and> length qs = length (list_parents t g child rows')
      \<and> list_all2 (\<lambda>x y. fst x = fst y \<and> \<bar>snd x - snd y\<bar> < 1 / 1000000000) (list_parents t g child rows') qs"
    by (intro exI [of _ qs]) (auto dest: list_all2_lengthD)
qed (use parents_after_set(2,3) [OF assms] in auto)

lemma update_by_key:
  assumes "distinct (map edge_key rows)" "old \<in> set rows" "edge_key old = k"
  shows "update_rows (\<lambda>e. edge_key e = k) f rows = update_rows (\<lambda>e. e = old) f rows"
proof -
  have "edge_key e = k \<longleftrightarrow> e = old" if "e \<in> set rows" for e
    using assms that by (auto simp: distinct_map dest: inj_onD)
  then show ?thesis by (auto simp: update_rows_def)
qed

text \<open>Under the uniqueness invariant both dialects rewrite the one row of the key, or append.\<close>

lemma upsert_unique:
  assumes "edges_ok rows"
  shows "upsert pg write new rows =
    (case find (\<lambda>e. edge_key e = edge_key new) rows of
       Some old \<Rightarrow> (update_rows (\<lambda>e. e = old) write rows, er_id old)
     | None \<Rightarrow> (rows @ [new], er_id new))"
proof (cases "find (\<lambda>e. edge_key e = edge_key new) rows")
  case (Some old)
  then have old: "old \<in> set rows" "edge_key old = edge_key new" by (auto dest: find_SomeD)
  show ?thesis
    using Some update_by_id [OF _ old(1)] update_by_key [OF _ old] assms
    by (simp add: upsert_def is_edge_same_key edges_ok_def)
qed (simp add: upsert_def is_edge_same_key)

text \<open>
  The two databases agree: with unique edges, an opposition edge is written the same way on
  PostgreSQL and on the fallback; a semantic edge too, except for the creation time, which the
  fallback also renews.
\<close>

theorem dialects_agree:
  assumes "distinct (map edge_key rows)" "distinct (map er_id rows)"
  shows "add_opposition_edge True fresh now t g a b w m rows = add_opposition_edge False fresh now t g a b w m rows
    \<and> snd (add_semantic_edge True fresh now t g src dst k w m rows)
      = snd (add_semantic_edge False fresh now t g src dst k w m rows)
    \<and> map (er_created_update (\<lambda>_. 0)) (fst (add_semantic_edge True fresh now t g src dst k w m rows))
      = map (er_created_update (\<lambda>_. 0)) (fst (add_semantic_edge False fresh now t g src dst k w m rows))"
proof -
  have ok: "edges_ok rows" using assms by (simp add: edges_ok_def)
  show ?thesis
    by (auto simp: add_opposition_edge_def add_semantic_edge_def Let_def upsert_unique [OF ok] update_rows_def
        split: option.split prod.split)
qed

lemma find_after_update:
  assumes "find p rows = Some old" "\<And>e. p (f e) = p e" "distinct (map edge_key rows)"
    and "\<And>e. p e \<Longrightarrow> edge_key e = k"
  shows "find p (update_rows (\<lambda>e. e = old) f rows) = Some (f old)"
  using assms(1,3)
proof (induction rows)
  case (Cons r rows)
  show ?case
  proof (cases "p r")
    case True
    with Cons.prems have "r = old" by simp
    with True assms(2) show ?thesis by (simp add: update_rows_def)
  next
    case False
    with Cons have "find p (update_rows (\<lambda>e. e = old) f rows) = Some (f old)" "r \<noteq> old"
      by (auto dest: find_SomeD)
    with False show ?thesis by (simp add: update_rows_def)
  qed
qed simp

lemma find_snoc_None: "find p rows = None \<Longrightarrow> p e \<Longrightarrow> find p (rows @ [e]) = Some e"
  by (induction rows) (auto split: if_splits)

text \<open>
  Opposition edges are symmetric: whichever way round the two nodes are given, writing an
  opposition edge and reading it finds the one edge with the written weight and meta data; its id
  is the one it had, or the fresh one.
\<close>

theorem opposition_roundtrip:
  assumes "distinct (map edge_key rows)" "distinct (map er_id rows)"
    and "add_opposition_edge pg fresh now t g a b w m rows = (rows', i)"
  shows "\<exists>e. get_opposition_edge t g a b rows' = Some e \<and> get_opposition_edge t g b a rows' = Some e
    \<and> er_weight e = to_scaled w \<and> er_meta e = m \<and> er_id e = i
    \<and> i = (case get_opposition_edge t g a b rows of Some old \<Rightarrow> er_id old | None \<Rightarrow> fresh)"
proof -
  have ok: "edges_ok rows" using assms(1,2) by (simp add: edges_ok_def)
  obtain x y where o: "ordered a b = (x, y)" by fastforce
  then have o': "ordered b a = (x, y)" by (auto simp: ordered_def split: if_splits)
  let ?p = "is_edge t g x y ''opposition''"
  let ?new = "\<lparr>er_id = fresh, er_tenant = t, er_graph = g, er_src = x, er_dst = y,
         er_kind = ''opposition'', er_weight = to_scaled w, er_meta = m, er_created = now\<rparr>"
  let ?wr = "\<lambda>e. e\<lparr>er_weight := to_scaled w, er_meta := m, er_created := now\<rparr>"
  have eq: "(\<lambda>e. edge_key e = edge_key ?new) = ?p"
    using is_edge_same_key [of ?new] by simp
  have up: "(rows', i) = (case find ?p rows of Some old \<Rightarrow> (update_rows (\<lambda>e. e = old) ?wr rows, er_id old)
      | None \<Rightarrow> (rows @ [?new], fresh))"
    using assms(3) o upsert_unique [OF ok, of pg ?wr ?new] unfolding eq
    by (auto simp: add_opposition_edge_def split: option.splits)
  have "\<exists>e. find ?p rows' = Some e \<and> er_weight e = to_scaled w \<and> er_meta e = m \<and> er_id e = i
      \<and> i = (case find ?p rows of Some old \<Rightarrow> er_id old | None \<Rightarrow> fresh)"
  proof (cases "find ?p rows")
    case None
    then show ?thesis using up find_snoc_None [OF None, of ?new] by (simp add: is_edge_def)
  next
    case (Some old)
    have "find ?p (update_rows (\<lambda>e. e = old) ?wr rows) = Some (?wr old)"
      by (rule find_after_update [OF Some _ assms(1), of _ "(t, g, x, y, ''opposition'')"])
        (simp_all add: is_edge_def edge_key_def)
    then show ?thesis using up Some by simp
  qed
  then show ?thesis using o o' by (simp add: get_opposition_edge_def)
qed

section \<open>Concrete instances\<close>

definition ex_uuid :: string where
  "ex_uuid = ''00000000-0000-4000-8000-00000000000a''"

lemma ex_uuid_canonical: "coerce_uuid ex_uuid = Some ex_uuid"
  by code_simp

definition ex_fresh :: "nat \<Rightarrow> string" where
  "ex_fresh n = replicate n CHR ''i''"

lemma ex_fresh_inj: "inj ex_fresh"
  by (rule injI) (metis ex_fresh_def length_replicate)

lemma ex_set: "set_inheritance_parents True ex_fresh 0 ''t'' ''g'' ex_uuid [(''p'', 1 / 4), (''q'', 3 / 4)] None []
    = Inr (parent_rows ex_fresh 0 ''t'' ''g'' ex_uuid None [(''p'', 1 / 4), (''q'', 3 / 4)],
        map ex_fresh [0, 1])"
  by (simp add: set_inheritance_parents_def add_rows_def delete_rows_def parent_rows_def edge_key_def)

lemma ex_step: "edge_step True ''t'' ''g'' []
    (parent_rows ex_fresh 0 ''t'' ''g'' ex_uuid None [(''p'', 1 / 4), (''q'', 3 / 4)])"
  by (rule edge_step.inheritance [OF ex_set ex_fresh_inj]) simp

lemma edge_table_unique_witness:
  "distinct (map er_id (parent_rows ex_fresh 0 ''t'' ''g'' ex_uuid None [(''p'', 1 / 4), (''q'', 3 / 4)]))"
proof -
  have "(\<lambda>r r'. \<exists>t g. edge_step True t g r r')\<^sup>*\<^sup>* []
      (parent_rows ex_fresh 0 ''t'' ''g'' ex_uuid None [(''p'', 1 / 4), (''q'', 3 / 4)])"
    using ex_step by (intro r_into_rtranclp) blast
  from edge_table_unique [OF this] show ?thesis ..
qed

lemma edge_writes_isolated_witness:
  "filter (in_graph ''other'' ''g'')
     (parent_rows ex_fresh 0 ''t'' ''g'' ex_uuid None [(''p'', 1 / 4), (''q'', 3 / 4)]) = []"
  using edge_writes_isolated [OF ex_step, of "''other''" "''g''"] by simp

lemma parents_roundtrip_witness:
  "sorted (map (\<lambda>x. - snd x) (list_parents ''t'' ''g'' ex_uuid
     (parent_rows ex_fresh 0 ''t'' ''g'' ex_uuid None [(''p'', 1 / 4), (''q'', 3 / 4)])))"
  using parents_roundtrip [OF ex_set ex_uuid_canonical] by blast

lemma dialects_agree_witness:
  "add_opposition_edge True ''i'' 5 ''t'' ''g'' ''b'' ''a'' (1 / 2) None []
     = add_opposition_edge False ''i'' 5 ''t'' ''g'' ''b'' ''a'' (1 / 2) None []"
  using dialects_agree [of "[]"] by simp

lemma opposition_roundtrip_witness:
  "\<exists>e. get_opposition_edge ''t'' ''g'' ''a'' ''b''
     (fst (add_opposition_edge False ''i'' 5 ''t'' ''g'' ''b'' ''a'' (1 / 2) None [])) = Some e"
proof -
  obtain rows' i where eq: "add_opposition_edge False ''i'' 5 ''t'' ''g'' ''b'' ''a'' (1 / 2) None [] = (rows', i)"
    by fastforce
  from opposition_roundtrip [OF _ _ eq] have "\<exists>e. get_opposition_edge ''t'' ''g'' ''a'' ''b'' rows' = Some e"
    by auto
  with eq show ?thesis by simp
qed

end
