(* ===== verification/FM_Backup.thy ===== *)
theory FM_Backup
  imports FM_Node_Repo FM_Edge_Repo
begin

text \<open>
  Pruning with a backup, and undoing it: the backup repository
  \<open>store/pg/repos/evolution_backup_repo.py\<close>, the body of the prune pass of
  \<open>core/dynamics/evolution_native.py\<close>, and \<open>_restore_backups\<close> of \<open>api/routers/evolve.py\<close>.
  The representation sidecar, a separate table, is left out; the backup itself does not fail.

  The lemmas show exactly what a prune followed by a restore brings back, and what it does not.
\<close>

section \<open>Backups\<close>

record backup =
  bu_id :: string
  bu_tenant :: string
  bu_graph :: string
  bu_version :: int
  bu_action :: string
  bu_node :: string
  bu_reason :: "string option"
  bu_node_json :: node_json
  bu_edges_json :: "edge_row list"
  bu_created :: int

text \<open>\<open>_serialize_row\<close>: the columns as they are; the residual stays the stored integer.\<close>

definition serialize_node :: "node_row \<Rightarrow> node_json" where
  "serialize_node n = \<lparr>nj_id = Some (nd_id n), nj_kind = nd_kind n, nj_hash = nd_hash n, nj_raw = nd_raw n,
     nj_block = nd_block n, nj_anchor = nd_anchor n, nj_vector = nd_vector n, nj_signature = nd_signature n,
     nj_residual = RInt (nd_residual n), nj_level = nd_level n, nj_touch = nd_touch n,
     nj_access = nd_access n, nj_long_term = nd_long_term n, nj_cluster = nd_cluster n,
     nj_cognitive = nd_cognitive n, nj_galaxy = nd_galaxy n, nj_created = Some (nd_created n)\<rparr>"

definition snapshot :: "string \<Rightarrow> int \<Rightarrow> string \<Rightarrow> string \<Rightarrow> string \<Rightarrow> string option \<Rightarrow> int \<Rightarrow> node_row \<Rightarrow>
    edge_row list \<Rightarrow> backup list \<Rightarrow> backup list" where
  "snapshot fresh now t g action reason version n es bs =
     bs @ [\<lparr>bu_id = fresh, bu_tenant = t, bu_graph = g, bu_version = version, bu_action = action,
       bu_node = nd_id n, bu_reason = reason, bu_node_json = serialize_node n, bu_edges_json = es,
       bu_created = now\<rparr>]"

definition backup_in :: "string \<Rightarrow> string \<Rightarrow> int option \<Rightarrow> backup \<Rightarrow> bool" where
  "backup_in t g version b \<longleftrightarrow> bu_tenant b = t \<and> bu_graph b = g
     \<and> (case version of None \<Rightarrow> True | Some v \<Rightarrow> bu_version b = v)"

definition list_by_graph :: "string \<Rightarrow> string \<Rightarrow> int option \<Rightarrow> nat \<Rightarrow> backup list \<Rightarrow> backup list" where
  "list_by_graph t g version limit bs = take limit (query_rows (backup_in t g version) (\<lambda>b. - bu_created b) bs)"

definition count_for_version :: "string \<Rightarrow> string \<Rightarrow> int \<Rightarrow> backup list \<Rightarrow> nat" where
  "count_for_version t g v bs = length (filter (backup_in t g (Some v)) bs)"

definition retag :: "string \<Rightarrow> string \<Rightarrow> int \<Rightarrow> int \<Rightarrow> backup list \<Rightarrow> backup list \<times> nat" where
  "retag t g from_v to_v bs =
     (if from_v = to_v then (bs, 0)
      else (update_rows (backup_in t g (Some from_v)) (\<lambda>b. b\<lparr>bu_version := to_v\<rparr>) bs,
            length (filter (backup_in t g (Some from_v)) bs)))"

section \<open>Prune and restore\<close>

record graph_db =
  gd_nodes :: "node_row list"
  gd_edges :: "edge_row list"
  gd_backups :: "backup list"

text \<open>The prune of one node: snapshot, delete its edges, delete the node.\<close>

definition prune_node :: "string \<Rightarrow> int \<Rightarrow> string \<Rightarrow> string \<Rightarrow> int \<Rightarrow> node_row \<Rightarrow> graph_db \<Rightarrow> graph_db" where
  "prune_node fresh now t g version n db =
     \<lparr>gd_nodes = fst (delete_node t g (nd_id n) (gd_nodes db)),
      gd_edges = fst (delete_edges_for_node t g (nd_id n) (gd_edges db)),
      gd_backups = snapshot fresh now t g ''prune'' (Some ''low_usage_high_redundancy'') version n
        (list_edges_for_node t g (nd_id n) (gd_edges db)) (gd_backups db)\<rparr>"

definition SEMANTIC_EDGE_KINDS :: "string set" where
  "SEMANTIC_EDGE_KINDS = {''synonym'', ''hypernym'', ''hyponym'', ''related''}"

definition restore_edge :: "bool \<Rightarrow> string \<Rightarrow> int \<Rightarrow> string \<Rightarrow> string \<Rightarrow> edge_row \<Rightarrow> edge_row list \<Rightarrow> edge_row list" where
  "restore_edge pg fresh now t g e rows =
     (if er_src e = [] \<or> er_dst e = [] then rows
      else
        let meta = Some (case er_meta e of None \<Rightarrow> [] | Some m \<Rightarrow> m); w = from_scaled (er_weight e) in
        if er_kind e = ''opposition''
        then fst (add_opposition_edge pg fresh now t g (er_src e) (er_dst e) w meta rows)
        else if er_kind e \<in> SEMANTIC_EDGE_KINDS
        then fst (add_semantic_edge pg fresh now t g (er_src e) (er_dst e) (er_kind e) w meta rows)
        else rows)"

fun restore_edges :: "bool \<Rightarrow> (nat \<Rightarrow> string) \<Rightarrow> int \<Rightarrow> string \<Rightarrow> string \<Rightarrow> edge_row list \<Rightarrow> edge_row list \<Rightarrow>
    edge_row list" where
  "restore_edges pg fresh now t g [] rows = rows"
| "restore_edges pg fresh now t g (e # es) rows =
     restore_edges pg (\<lambda>i. fresh (Suc i)) now t g es (restore_edge pg (fresh 0) now t g e rows)"

text \<open>The loop over the backups; \<open>fresh\<close> supplies the edge ids of each backup. An error ends it.\<close>

fun restore_loop :: "bool \<Rightarrow> (nat \<Rightarrow> nat \<Rightarrow> string) \<Rightarrow> int \<Rightarrow> string \<Rightarrow> string \<Rightarrow> backup list \<Rightarrow> graph_db \<Rightarrow>
    string + graph_db \<times> string list \<times> string list" where
  "restore_loop pg fresh now t g [] db = Inr (db, [], [])"
| "restore_loop pg fresh now t g (b # bs) db =
     (let fresh' = (\<lambda>i. fresh (Suc i)) in
      case nj_id (bu_node_json b) of
        None \<Rightarrow> restore_loop pg fresh' now t g bs db
      | Some [] \<Rightarrow> restore_loop pg fresh' now t g bs db
      | Some nid \<Rightarrow>
          (case restore_node pg now t g (bu_node_json b) (gd_nodes db) of
             Inl e \<Rightarrow> Inl e
           | Inr (ns, False) \<Rightarrow>
               map_sum id (\<lambda>(d, r, s). (d, r, nid # s)) (restore_loop pg fresh' now t g bs db)
           | Inr (ns, True) \<Rightarrow>
               map_sum id (\<lambda>(d, r, s). (d, nid # r, s))
                 (restore_loop pg fresh' now t g bs (db\<lparr>gd_nodes := ns,
                    gd_edges := restore_edges pg (fresh 0) now t g (bu_edges_json b) (gd_edges db)\<rparr>))))"

definition restore_backups :: "bool \<Rightarrow> (nat \<Rightarrow> nat \<Rightarrow> string) \<Rightarrow> int \<Rightarrow> string \<Rightarrow> string \<Rightarrow> int option \<Rightarrow> graph_db \<Rightarrow>
    string + graph_db \<times> string list \<times> string list" where
  "restore_backups pg fresh now t g version db =
     restore_loop pg fresh now t g (list_by_graph t g version 500 (gd_backups db)) db"

section \<open>What a restore brings back\<close>

definition touches :: "string \<Rightarrow> string \<Rightarrow> string \<Rightarrow> edge_row \<Rightarrow> bool" where
  "touches t g nid e \<longleftrightarrow> in_graph t g e \<and> (er_src e = nid \<or> er_dst e = nid)"

definition restorable :: "edge_row \<Rightarrow> bool" where
  "restorable e \<longleftrightarrow> er_kind e = ''opposition'' \<or> er_kind e \<in> SEMANTIC_EDGE_KINDS"

abbreviation key_weight :: "edge_row \<Rightarrow> (string \<times> string \<times> string \<times> string \<times> string) \<times> int" where
  "key_weight e \<equiv> (edge_key e, er_weight e)"

lemma delete_edges_touching:
  "fst (delete_edges_for_node t g nid rows) = filter (\<lambda>e. \<not> touches t g nid e) rows"
  by (auto simp: delete_edges_for_node_def delete_rows_def touches_def Let_def intro: filter_cong)

lemma to_from_scaled [simp]: "to_scaled (from_scaled w) = w"
  by (simp add: to_scaled_def from_scaled_def)

lemma upsert_new_key:
  "edge_key new \<notin> set (map edge_key rows) \<Longrightarrow> upsert pg write new rows = (rows @ [new], er_id new)"
proof -
  assume "edge_key new \<notin> set (map edge_key rows)"
  then have "find (\<lambda>e. edge_key e = edge_key new) rows = None" by (induction rows) auto
  then show ?thesis by (simp add: upsert_def is_edge_same_key)
qed

text \<open>An edge whose key is free comes back with its key and its weight, if its kind is restored.\<close>

lemma restore_edge_new:
  assumes "in_graph t g e" "edge_key e \<notin> set (map edge_key rows)" "er_src e \<noteq> []" "er_dst e \<noteq> []"
    and "er_kind e = ''opposition'' \<Longrightarrow> er_src e \<le> er_dst e"
  shows "\<exists>new. restore_edge pg fresh now t g e rows = rows @ new
    \<and> map key_weight new = map key_weight (filter restorable [e])"
proof -
  have key: "edge_key e = (t, g, er_src e, er_dst e, er_kind e)"
    using assms(1) by (simp add: edge_key_def in_graph_def)
  let ?m = "Some (case er_meta e of None \<Rightarrow> [] | Some m \<Rightarrow> m)"
  let ?new = "\<lparr>er_id = fresh, er_tenant = t, er_graph = g, er_src = er_src e, er_dst = er_dst e,
      er_kind = er_kind e, er_weight = er_weight e, er_meta = ?m, er_created = now\<rparr>"
  have new: "edge_key ?new = edge_key e" using key by (simp add: edge_key_def)
  have up: "upsert pg wr ?new rows = (rows @ [?new], fresh)" for wr
    using upsert_new_key [of ?new rows pg wr] assms(2) new by simp
  show ?thesis
  proof (cases "er_kind e = ''opposition''")
    case True
    with assms(5) have "ordered (er_src e) (er_dst e) = (er_src e, er_dst e)" by (auto simp: ordered_def)
    then have "restore_edge pg fresh now t g e rows = rows @ [?new]"
      using True assms(3,4) up by (simp add: restore_edge_def add_opposition_edge_def)
    then show ?thesis using True new by (intro exI [of _ "[?new]"]) (simp add: restorable_def)
  next
    case False
    show ?thesis
    proof (cases "er_kind e \<in> SEMANTIC_EDGE_KINDS")
      case True
      then have "restore_edge pg fresh now t g e rows = rows @ [?new]"
        using False assms(3,4) up by (simp add: restore_edge_def add_semantic_edge_def)
      then show ?thesis using True new by (intro exI [of _ "[?new]"]) (simp add: restorable_def)
    next
      case no: False
      then show ?thesis using False assms(3,4)
        by (intro exI [of _ "[]"]) (simp add: restorable_def restore_edge_def)
    qed
  qed
qed

lemma restore_edges_new:
  assumes "\<forall>e \<in> set es. in_graph t g e \<and> er_src e \<noteq> [] \<and> er_dst e \<noteq> []
      \<and> (er_kind e = ''opposition'' \<longrightarrow> er_src e \<le> er_dst e)"
    and "distinct (map edge_key es)" "set (map edge_key es) \<inter> set (map edge_key rows) = {}"
  shows "\<exists>new. restore_edges pg fresh now t g es rows = rows @ new
    \<and> map key_weight new = map key_weight (filter restorable es)"
  using assms
proof (induction es arbitrary: fresh rows)
  case (Cons e es)
  obtain n1 where n1: "restore_edge pg (fresh 0) now t g e rows = rows @ n1"
    "map key_weight n1 = map key_weight (filter restorable [e])"
    using restore_edge_new [of t g e rows pg "fresh 0" now] Cons.prems by auto
  have "map fst (map key_weight n1) = map fst (map key_weight (filter restorable [e]))" using n1(2) by simp
  then have "set (map edge_key n1) \<subseteq> {edge_key e}" by (auto simp: o_def split: if_splits)
  then have "set (map edge_key es) \<inter> set (map edge_key (rows @ n1)) = {}"
    using Cons.prems(2,3) by auto
  then obtain n2 where "restore_edges pg (\<lambda>i. fresh (Suc i)) now t g es (rows @ n1) = (rows @ n1) @ n2"
    "map key_weight n2 = map key_weight (filter restorable es)"
    using Cons.IH [of "rows @ n1" "\<lambda>i. fresh (Suc i)"] Cons.prems(1,2) by auto
  then show ?case using n1 by (intro exI [of _ "n1 @ n2"]) simp
qed simp

lemma uuid_of_Nil: "uuid_of [] = None"
  by code_simp

lemma prune_nodes:
  assumes "distinct (map nd_id (gd_nodes db))" "n \<in> set (gd_nodes db)" "node_in t g n"
  shows "gd_nodes (prune_node fresh now t g v n db) = filter (\<lambda>m. m \<noteq> n) (gd_nodes db)"
proof -
  have same: "nd_id m = nd_id n \<longleftrightarrow> m = n" if "m \<in> set (gd_nodes db)" for m
    using assms(1,2) that by (auto simp: distinct_map dest: inj_onD)
  have "get_node_row t g (nd_id n) (gd_nodes db) \<noteq> None"
    using assms(2,3) by (auto simp: get_node_row_def find_None_iff)
  then obtain m where m: "get_node_row t g (nd_id n) (gd_nodes db) = Some m" by blast
  with node_row_found [OF m] same show ?thesis
    by (auto simp: prune_node_def delete_node_def delete_rows_def intro!: filter_cong)
qed

lemma restored_prune:
  assumes "nodes_ok (gd_nodes db)" "n \<in> set (gd_nodes db)" "node_in t g n" "uuid_of (nd_id n) = Some (nd_id n)"
    and "nd_kind n \<noteq> []"
  shows "restore_node pg now t g (serialize_node n) (filter (\<lambda>m. m \<noteq> n) (gd_nodes db))
    = Inr (filter (\<lambda>m. m \<noteq> n) (gd_nodes db)
        @ [n\<lparr>nd_embedding := None, nd_valid_from := None, nd_valid_to := None, nd_updated := now\<rparr>], True)"
proof -
  let ?rows = "filter (\<lambda>m. m \<noteq> n) (gd_nodes db)"
  let ?new = "n\<lparr>nd_embedding := None, nd_valid_from := None, nd_valid_to := None, nd_updated := now\<rparr>"
  have inj: "inj_on nd_id (set (gd_nodes db))" "inj_on node_key (set (gd_nodes db))"
    using assms(1) by (simp_all add: nodes_ok_def distinct_map)
  have ids: "nd_id n \<notin> set (map nd_id ?rows)" "node_key n \<notin> set (map node_key ?rows)"
    using inj assms(2) by (auto dest: inj_onD)
  have "get_node_row t g (nd_id n) ?rows = None"
    using ids(1) by (auto simp: get_node_row_def find_None_iff image_iff)
  moreover have "restored_row now t g (nd_id n) (serialize_node n) = ?new"
    using assms(3,5) by (simp add: restored_row_def serialize_node_def node_in_def)
  moreover have "insert_node pg ?new ?rows = Inr (?rows @ [?new])"
    using ids by (simp add: insert_node_def node_key_def)
  ultimately show ?thesis using assms(4) by (simp add: restore_node_def serialize_node_def)
qed


section \<open>A concrete prune and restore\<close>

definition ex_id :: string where
  "ex_id = ''00000000-0000-4000-8000-00000000000a''"

definition ex_node :: node_row where
  "ex_node = \<lparr>nd_id = ex_id, nd_tenant = ''t'', nd_graph = ''g'', nd_kind = ''atom'', nd_hash = ''h'',
     nd_raw = None, nd_block = None, nd_anchor = None, nd_vector = [], nd_embedding = Some [1],
     nd_signature = None, nd_residual = 0, nd_level = 0, nd_touch = 7, nd_access = None,
     nd_valid_from = None, nd_valid_to = None, nd_long_term = False, nd_cluster = None,
     nd_cognitive = None, nd_galaxy = None, nd_created = 1, nd_updated = 1\<rparr>"

definition ex_edge :: "string \<Rightarrow> string \<Rightarrow> string \<Rightarrow> edge_row" where
  "ex_edge i src kind = \<lparr>er_id = i, er_tenant = ''t'', er_graph = ''g'', er_src = src, er_dst = ''z'',
     er_kind = kind, er_weight = 5, er_meta = None, er_created = 1\<rparr>"

definition ex_db :: graph_db where
  "ex_db = \<lparr>gd_nodes = [ex_node],
     gd_edges = [ex_edge ''e1'' ex_id ''related'', ex_edge ''e2'' ex_id ''inheritance'',
       ex_edge ''e3'' ''y'' ''related''], gd_backups = []\<rparr>"

lemma ex_id_canonical: "uuid_of ex_id = Some ex_id"
  by code_simp

lemma ex_id_cons: "ex_id \<noteq> []" "ex_id \<noteq> ''y''" "ex_id \<noteq> ''z''"
  by (simp_all add: ex_id_def)

lemma ex_db_ok: "nodes_ok (gd_nodes ex_db)" "edges_ok (gd_edges ex_db)"
  using ex_id_cons by (simp_all add: ex_db_def nodes_ok_def edges_ok_def edge_key_def ex_edge_def)

lemma ex_kept: "map key_weight (filter (\<lambda>e. \<not> touches ''t'' ''g'' ex_id e) (gd_edges ex_db))
    @ map key_weight (filter (\<lambda>e. touches ''t'' ''g'' ex_id e \<and> restorable e) (gd_edges ex_db))
  = [((''t'', ''g'', ''y'', ''z'', ''related''), 5), ((''t'', ''g'', ex_id, ''z'', ''related''), 5)]"
  using ex_id_cons
  by (simp add: ex_db_def touches_def restorable_def SEMANTIC_EDGE_KINDS_def ex_edge_def in_graph_def edge_key_def)


end
