(* ===== verification/FM_Json.thy ===== *)
theory FM_Json
  imports FM_Prelude "HOL-Library.List_Lexorder" "HOL-Library.Product_Lexorder" "HOL-Library.Char_ord"
begin

text \<open>
  JSON values as Python has them after \<open>json.loads\<close>: dictionaries keep insertion order and have
  distinct keys; a float is its \<open>repr\<close> text. \<open>json_dumps\<close> is \<open>json.dumps\<close> with the options the
  code uses (sorted keys or not, the two separators, ASCII output). The lemmas relate the length
  of the text to what it contains.
\<close>

datatype json = JsNull | JsBool bool | JsInt int | JsFloat string | JsStr string
  | JsList "json list" | JsDict "(string \<times> json) list"

section \<open>Truth value, \<open>str\<close> and \<open>get\<close>\<close>

text \<open>A float is false iff it is a zero.\<close>

fun js_truthy :: "json \<Rightarrow> bool" where
  "js_truthy JsNull = False"
| "js_truthy (JsBool b) = b"
| "js_truthy (JsInt i) = (i \<noteq> 0)"
| "js_truthy (JsFloat s) = (s \<noteq> ''0.0'' \<and> s \<noteq> ''-0.0'')"
| "js_truthy (JsStr s) = (s \<noteq> [])"
| "js_truthy (JsList xs) = (xs \<noteq> [])"
| "js_truthy (JsDict kvs) = (kvs \<noteq> [])"

text \<open>\<open>str(v)\<close>; the \<open>repr\<close> of containers is the argument.\<close>

fun js_str :: "(json \<Rightarrow> string) \<Rightarrow> json \<Rightarrow> string" where
  "js_str repr JsNull = ''None''"
| "js_str repr (JsBool b) = (if b then ''True'' else ''False'')"
| "js_str repr (JsInt i) = int_str i"
| "js_str repr (JsFloat s) = s"
| "js_str repr (JsStr s) = s"
| "js_str repr v = repr v"

section \<open>\<open>json.dumps\<close>\<close>

definition hex_digit :: "nat \<Rightarrow> char" where
  "hex_digit n = ''0123456789abcdef'' ! n"

definition json_escape :: "char \<Rightarrow> string" where
  "json_escape c =
     (let n = (of_char c :: nat) in
      if n = 34 then [CHR 0x5C, CHR 0x22]
      else if n = 92 then [CHR 0x5C, CHR 0x5C]
      else if 32 \<le> n \<and> n \<le> 126 then [c]
      else if n = 10 then [CHR 0x5C, CHR ''n'']
      else if n = 13 then [CHR 0x5C, CHR ''r'']
      else if n = 9 then [CHR 0x5C, CHR ''t'']
      else if n = 8 then [CHR 0x5C, CHR ''b'']
      else if n = 12 then [CHR 0x5C, CHR ''f'']
      else [CHR 0x5C, CHR ''u'', CHR ''0'', CHR ''0'', hex_digit (n div 16), hex_digit (n mod 16)])"

definition json_quote :: "string \<Rightarrow> string" where
  "json_quote s = [CHR 0x22] @ concat (map json_escape s) @ [CHR 0x22]"

fun json_dumps :: "bool \<Rightarrow> string \<Rightarrow> string \<Rightarrow> json \<Rightarrow> string" where
  "json_dumps srt isep ksep JsNull = ''null''"
| "json_dumps srt isep ksep (JsBool b) = (if b then ''true'' else ''false'')"
| "json_dumps srt isep ksep (JsInt i) = int_str i"
| "json_dumps srt isep ksep (JsFloat s) = s"
| "json_dumps srt isep ksep (JsStr s) = json_quote s"
| "json_dumps srt isep ksep (JsList xs) =
     ''['' @ py_join isep (map (json_dumps srt isep ksep) xs) @ '']''"
| "json_dumps srt isep ksep (JsDict kvs) =
     (let items = map (\<lambda>(k, v). (k, json_quote k @ ksep @ json_dumps srt isep ksep v)) kvs
      in ''{'' @ py_join isep (map snd (if srt then sort_key fst items else items)) @ ''}'')"

lemma json_escape_ne [simp]: "json_escape c \<noteq> []"
  by (simp add: json_escape_def Let_def)

lemma length_json_quote: "length s + 2 \<le> length (json_quote s)"
proof -
  have "length s \<le> length (concat (map json_escape s))"
  proof (induction s)
    case (Cons c s)
    have "0 < length (json_escape c)" by simp
    with Cons show ?case by (simp del: length_greater_0_conv)
  qed simp
  then show ?thesis by (simp add: json_quote_def)
qed

lemma length_py_join_item: "x \<in> set xs \<Longrightarrow> length x \<le> length (py_join sep xs)"
  by (induction sep xs rule: py_join.induct) auto

text \<open>The text of a container is longer than the text of everything in it.\<close>

lemma length_dumps_list: "x \<in> set xs \<Longrightarrow> length (json_dumps b i k x) < length (json_dumps b i k (JsList xs))"
  using length_py_join_item [of "json_dumps b i k x" "map (json_dumps b i k) xs" i] by simp

lemma length_dumps_dict:
  assumes "(key, v) \<in> set kvs"
  shows "length (json_dumps b i k v) < length (json_dumps b i k (JsDict kvs))"
proof -
  let ?items = "map (\<lambda>(k', v). (k', json_quote k' @ k @ json_dumps b i k v)) kvs"
  have "json_quote key @ k @ json_dumps b i k v \<in> set (map snd (if b then sort_key fst ?items else ?items))"
    using assms by force
  from length_py_join_item [OF this, of i] show ?thesis by (simp add: Let_def)
qed

end
