(* ===== verification/FM_Event_Journal.thy ===== *)
theory FM_Event_Journal
  imports FM_Json FM_Interfaces
begin

text \<open>
  The event journal: \<open>EventRecord\<close> of \<open>core/contracts/types.py\<close>, the table \<open>events\<close> with the
  repository \<open>store/pg/repos/event_repo.py\<close>, \<open>store/journal/event_journal.py\<close>, the pages, the
  latest-event summary and the stream of \<open>api/routers/events.py\<close>, and the snapshot lookups of the
  other routers.

  The database keeps a sequence, the committed rows in commit order, and the rows of open
  transactions, each with its session. A session sees the committed rows and its own. SHA-256 and
  \<open>isoformat\<close> are the parameters \<open>sha\<close> and \<open>isof\<close>; uuid7 and clock readings are arguments.
  The lemmas show that the journal is append-only with unique increasing numbers, that pages
  neither skip nor repeat, what a late commit does to a reader, and what the lookups return.
\<close>

section \<open>Events\<close>

type_synonym js_dict = "(string \<times> json) list"

record event_record =
  ev_id :: string
  ev_seq :: "int option"
  ev_ts :: int
  ev_graph :: string
  ev_kind :: string
  ev_payload :: js_dict
  ev_checksum :: string
  ev_created :: int

definition event_checksum :: "(string \<Rightarrow> string) \<Rightarrow> (int \<Rightarrow> string) \<Rightarrow> int \<Rightarrow> string \<Rightarrow> string \<Rightarrow> js_dict \<Rightarrow> string" where
  "event_checksum sha isof ts g kind payload =
     sha (isof ts @ ''|'' @ g @ ''|'' @ kind @ ''|'' @ json_dumps True '','' '':'' (JsDict payload))"

definition create_event :: "(string \<Rightarrow> string) \<Rightarrow> (int \<Rightarrow> string) \<Rightarrow> string \<Rightarrow> int \<Rightarrow> int \<Rightarrow> string \<Rightarrow> string \<Rightarrow>
    js_dict \<Rightarrow> int option \<Rightarrow> event_record" where
  "create_event sha isof uid now created g kind payload ts =
     (let event_ts = (case ts of None \<Rightarrow> now | Some x \<Rightarrow> x) in
      \<lparr>ev_id = uid, ev_seq = None, ev_ts = event_ts, ev_graph = g, ev_kind = kind, ev_payload = payload,
       ev_checksum = event_checksum sha isof event_ts g kind payload, ev_created = created\<rparr>)"

definition verify_checksum :: "(string \<Rightarrow> string) \<Rightarrow> (int \<Rightarrow> string) \<Rightarrow> event_record \<Rightarrow> bool" where
  "verify_checksum sha isof e \<longleftrightarrow>
     ev_checksum e = event_checksum sha isof (ev_ts e) (ev_graph e) (ev_kind e) (ev_payload e)"

section \<open>The table\<close>

record event_row =
  rw_seq :: int
  rw_id :: string
  rw_tenant :: string
  rw_ts :: int
  rw_graph :: string
  rw_kind :: string
  rw_payload :: js_dict
  rw_checksum :: string
  rw_created :: int

definition to_domain :: "event_row \<Rightarrow> event_record" where
  "to_domain r = \<lparr>ev_id = rw_id r, ev_seq = Some (rw_seq r), ev_ts = rw_ts r, ev_graph = rw_graph r,
     ev_kind = rw_kind r, ev_payload = rw_payload r, ev_checksum = rw_checksum r, ev_created = rw_created r\<rparr>"

definition from_domain :: "int \<Rightarrow> string \<Rightarrow> event_record \<Rightarrow> event_row" where
  "from_domain n t e = \<lparr>rw_seq = n, rw_id = ev_id e, rw_tenant = t, rw_ts = ev_ts e, rw_graph = ev_graph e,
     rw_kind = ev_kind e, rw_payload = ev_payload e, rw_checksum = ev_checksum e, rw_created = ev_created e\<rparr>"

record journal =
  jn_next :: int
  jn_rows :: "event_row list"
  jn_open :: "(nat \<times> event_row) list"

definition visible :: "nat \<Rightarrow> journal \<Rightarrow> event_row list" where
  "visible s j = jn_rows j @ map snd (filter (\<lambda>x. fst x = s) (jn_open j))"

definition commit_session :: "nat \<Rightarrow> journal \<Rightarrow> journal" where
  "commit_session s j = j\<lparr>jn_rows := visible s j, jn_open := filter (\<lambda>x. fst x \<noteq> s) (jn_open j)\<rparr>"

definition rollback_session :: "nat \<Rightarrow> journal \<Rightarrow> journal" where
  "rollback_session s j = j\<lparr>jn_open := filter (\<lambda>x. fst x \<noteq> s) (jn_open j)\<rparr>"

section \<open>The repository\<close>

text \<open>\<open>append\<close> stores the repository's tenant; the number is taken even when the insert fails.\<close>

definition repo_append :: "string \<Rightarrow> nat \<Rightarrow> event_record \<Rightarrow> journal \<Rightarrow> (string + event_record) \<times> journal" where
  "repo_append t s e j =
     (let j' = j\<lparr>jn_next := jn_next j + 1\<rparr>; row = from_domain (jn_next j) t e in
      if ev_id e \<in> rw_id ` (set (jn_rows j) \<union> snd ` set (jn_open j)) then (Inl ''IntegrityError'', j')
      else (Inr (e\<lparr>ev_seq := Some (jn_next j)\<rparr>), j'\<lparr>jn_open := jn_open j @ [(s, row)]\<rparr>))"

definition repo_emit :: "(string \<Rightarrow> string) \<Rightarrow> (int \<Rightarrow> string) \<Rightarrow> string \<Rightarrow> int \<Rightarrow> int \<Rightarrow> string \<Rightarrow> nat \<Rightarrow> string \<Rightarrow> string \<Rightarrow>
    js_dict \<Rightarrow> journal \<Rightarrow> (string + event_record) \<times> journal" where
  "repo_emit sha isof uid now created t s g kind payload j =
     repo_append t s (create_event sha isof uid now created g kind payload None) j"

text \<open>The reads of a repository of tenant t; \<open>rows\<close> is what the session sees.\<close>

definition row_of :: "string \<Rightarrow> string \<Rightarrow> event_row \<Rightarrow> bool" where
  "row_of t g r \<longleftrightarrow> rw_tenant r = t \<and> rw_graph r = g"

definition event_by_id :: "string \<Rightarrow> string \<Rightarrow> event_row list \<Rightarrow> event_record option" where
  "event_by_id t i rows = map_option to_domain (find (\<lambda>r. rw_tenant r = t \<and> rw_id r = i) rows)"

definition get_by_seq :: "string \<Rightarrow> string \<Rightarrow> int \<Rightarrow> nat \<Rightarrow> event_row list \<Rightarrow> event_record list" where
  "get_by_seq t g after limit rows =
     map to_domain (take limit (query_rows (\<lambda>r. row_of t g r \<and> after < rw_seq r) rw_seq rows))"

definition get_latest :: "string \<Rightarrow> string \<Rightarrow> event_row list \<Rightarrow> event_record option" where
  "get_latest t g rows =
     (case query_rows (row_of t g) (\<lambda>r. - rw_seq r) rows of [] \<Rightarrow> None | r # _ \<Rightarrow> Some (to_domain r))"

definition get_all_events :: "string \<Rightarrow> string \<Rightarrow> string option \<Rightarrow> nat \<Rightarrow> event_row list \<Rightarrow> event_record list" where
  "get_all_events t g kind limit rows =
     map to_domain (take limit (query_rows
       (\<lambda>r. row_of t g r \<and> (case kind of None \<Rightarrow> True | Some k \<Rightarrow> rw_kind r = k)) rw_seq rows))"

definition count_events :: "string \<Rightarrow> string \<Rightarrow> event_row list \<Rightarrow> nat" where
  "count_events t g rows = length (filter (row_of t g) rows)"

definition get_max_seq :: "string \<Rightarrow> string \<Rightarrow> event_row list \<Rightarrow> int" where
  "get_max_seq t g rows =
     (let rs = filter (row_of t g) rows in if rs = [] then 0 else Max (rw_seq ` set rs))"

section \<open>The journal\<close>

definition journal_append :: "(string \<Rightarrow> string) \<Rightarrow> (int \<Rightarrow> string) \<Rightarrow> string \<Rightarrow> nat \<Rightarrow> event_record \<Rightarrow> journal \<Rightarrow>
    (string + event_record) \<times> journal" where
  "journal_append sha isof t s e j =
     (if \<not> verify_checksum sha isof e then (Inl ''ChecksumMismatchError'', j) else repo_append t s e j)"

definition verify_integrity :: "(string \<Rightarrow> string) \<Rightarrow> (int \<Rightarrow> string) \<Rightarrow> string \<Rightarrow> string \<Rightarrow> event_row list \<Rightarrow> bool" where
  "verify_integrity sha isof t g rows =
     list_all (verify_checksum sha isof) (get_all_events t g None 10000 rows)"

definition truncate_value :: "json \<Rightarrow> json" where
  "truncate_value v =
     (case v of
        JsStr s \<Rightarrow> if length s > 100 then JsStr (take 100 s @ ''...[truncated]'') else v
      | JsList xs \<Rightarrow> if length xs > 10 then JsList (take 10 xs @ [JsStr ''...[truncated]'']) else v
      | JsDict kvs \<Rightarrow> JsDict (take 5 kvs)
      | _ \<Rightarrow> v)"

definition truncate_payload :: "int \<Rightarrow> js_dict \<Rightarrow> js_dict" where
  "truncate_payload max_bytes payload =
     (let size = int (length (json_dumps False '', '' '': '' (JsDict payload))) in
      if size \<le> max_bytes then payload
      else al_put ''_original_size'' (JsInt size)
             (al_put ''_truncated'' (JsBool True) (map (\<lambda>(k, v). (k, truncate_value v)) payload)))"

section \<open>The events API\<close>

definition MAX_PAGE_SIZE :: nat where "MAX_PAGE_SIZE = 100"
definition HEARTBEAT_INTERVAL_SECONDS :: rat where "HEARTBEAT_INTERVAL_SECONDS = 15"
definition MAX_EMPTY_POLLS :: nat where "MAX_EMPTY_POLLS = 300"

text \<open>A page: the events, \<open>has_more\<close> and \<open>next_seq\<close>.\<close>

definition seq_of :: "event_record \<Rightarrow> int" where
  "seq_of e = (case ev_seq e of None \<Rightarrow> 0 | Some n \<Rightarrow> n)"

definition list_events :: "string \<Rightarrow> string \<Rightarrow> int \<Rightarrow> nat \<Rightarrow> event_row list \<Rightarrow> event_record list \<times> bool \<times> int" where
  "list_events t g after limit rows =
     (let limit = min limit MAX_PAGE_SIZE;
          events = get_by_seq t g after (limit + 1) rows;
          has_more = length events > limit;
          events = (if has_more then take limit events else events)
      in (events, has_more, if events = [] then after else seq_of (last events)))"

text \<open>The newest of the given events of a kind, and the value it has for a key.\<close>

definition last_of_kind :: "string \<Rightarrow> event_record list \<Rightarrow> event_record option" where
  "last_of_kind kind es = find (\<lambda>e. ev_kind e = kind) (rev es)"

definition latest_event_info :: "string \<Rightarrow> string \<Rightarrow> event_row list \<Rightarrow> int \<times> string option \<times> json option \<times> nat" where
  "latest_event_info t g rows =
     (let last_event = get_latest t g rows;
          snap = last_of_kind ''DIAGNOSTICS_SNAPSHOT'' (get_all_events t g None 5000 rows)
      in (case last_event of None \<Rightarrow> 0 | Some e \<Rightarrow> seq_of e, map_option ev_kind last_event,
          case snap of None \<Rightarrow> None | Some e \<Rightarrow> map_of (ev_payload e) ''graph_hash'', count_events t g rows))"

text \<open>The write path of the interaction pulse: an error rolls the session back.\<close>

definition set_default :: "string \<Rightarrow> json \<Rightarrow> js_dict \<Rightarrow> js_dict" where
  "set_default k v d = (if k \<in> set (al_keys d) then d else al_put k v d)"

definition fig_payload :: "int \<Rightarrow> string \<Rightarrow> string \<Rightarrow> json \<Rightarrow> js_dict" where
  "fig_payload max_bytes t g pulse =
     set_default ''ingest_mode'' (JsStr ''best_effort'') (set_default ''tenant_id'' (JsStr t)
      (set_default ''graph_id'' (JsStr g) (set_default ''kind'' (JsStr ''FIG_INTERACTION'')
      (set_default ''source'' (JsStr ''fig_view'') (set_default ''protocol'' (JsStr ''pulse-v2'')
      (truncate_payload max_bytes (case pulse of JsDict d \<Rightarrow> d | _ \<Rightarrow> [])))))))"

definition append_fig_interaction :: "(string \<Rightarrow> string) \<Rightarrow> (int \<Rightarrow> string) \<Rightarrow> string \<Rightarrow> int \<Rightarrow> int \<Rightarrow> int \<Rightarrow> string \<Rightarrow> nat \<Rightarrow>
    string \<Rightarrow> json \<Rightarrow> journal \<Rightarrow> (string + int) \<times> journal" where
  "append_fig_interaction sha isof uid now created max_bytes t s g pulse j =
     (case repo_emit sha isof uid now created t s g ''FIG_INTERACTION'' (fig_payload max_bytes t g pulse) j of
        (Inl e, j') \<Rightarrow> (Inl ''pulse_append_failed'', rollback_session s j')
      | (Inr e, j') \<Rightarrow> (Inr (seq_of e), commit_session s j'))"

text \<open>
  The event stream. One pass of its loop fetches (from the rows a fresh session sees, with the
  loop's clock afterwards), fails, or is cancelled. The stream has no tenant but the default of
  \<open>EventRepo()\<close>.
\<close>

datatype sse = SseEvent event_record | SsePing int | SseTimeout int | SseDisconnect int | SseError string int

datatype poll = Fetched "event_row list" rat | FetchFailed string | PollCancelled

fun stream_loop :: "string \<Rightarrow> int \<Rightarrow> rat \<Rightarrow> nat \<Rightarrow> poll list \<Rightarrow> sse list" where
  "stream_loop g cur beat idle [] = []"
| "stream_loop g cur beat idle (FetchFailed e # ps) = [SseError e cur]"
| "stream_loop g cur beat idle (PollCancelled # ps) = [SseDisconnect cur]"
| "stream_loop g cur beat idle (Fetched rows now # ps) =
     (let events = get_by_seq ''default'' g cur MAX_PAGE_SIZE rows in
      if events \<noteq> [] then map SseEvent events @ stream_loop g (seq_of (last events)) now 0 ps
      else
        let ping = now - beat \<ge> HEARTBEAT_INTERVAL_SECONDS;
            beat' = (if ping then now else beat)
        in (if ping then [SsePing cur] else [])
           @ (if idle + 1 \<ge> MAX_EMPTY_POLLS then [SseTimeout cur] else stream_loop g cur beat' (idle + 1) ps))"

definition event_generator :: "string \<Rightarrow> string \<Rightarrow> int \<Rightarrow> rat \<Rightarrow> poll list \<Rightarrow> sse list" where
  "event_generator tenant g after start ps = stream_loop g after start 0 ps"

section \<open>Lookups of the newest snapshot\<close>

text \<open>
  \<open>_best_effort_graph_hash\<close> of \<open>api/routers/graph.py\<close>, the event of the scorecard of
  \<open>api/routers/metrics.py\<close>, and the hash and skip reason of the evolution status of
  \<open>api/routers/evolve.py\<close>: each looks backwards through one page read from number 0.
\<close>

fun metric_text_value :: "(json \<Rightarrow> string) \<Rightarrow> js_dict \<Rightarrow> string list \<Rightarrow> string" where
  "metric_text_value repr payload [] = []"
| "metric_text_value repr payload (k # ks) =
     (case map_of payload k of
        Some v \<Rightarrow> if js_truthy v then js_str repr v else metric_text_value repr payload ks
      | None \<Rightarrow> metric_text_value repr payload ks)"

definition best_effort_graph_hash :: "(json \<Rightarrow> string) \<Rightarrow> string \<Rightarrow> string \<Rightarrow> event_row list \<Rightarrow> string" where
  "best_effort_graph_hash repr t g rows =
     (case last_of_kind ''DIAGNOSTICS_SNAPSHOT'' (get_by_seq t g 0 500 rows) of
        None \<Rightarrow> [] | Some e \<Rightarrow> metric_text_value repr (ev_payload e) [''graph_hash'', ''diagnostics_hash''])"

definition scorecard_event :: "string \<Rightarrow> string \<Rightarrow> event_row list \<Rightarrow> event_record option" where
  "scorecard_event t g rows = last_of_kind ''DIAGNOSTICS_SNAPSHOT'' (get_by_seq t g 0 500 rows)"

fun scan_status :: "event_record list \<Rightarrow> json option \<Rightarrow> string option \<Rightarrow> json option \<times> string option" where
  "scan_status [] hash skip = (hash, skip)"
| "scan_status (e # es) hash skip =
     (let hash' = (if (hash = None \<or> hash = Some JsNull) \<and> ev_kind e = ''DIAGNOSTICS_SNAPSHOT''
                   then map_of (ev_payload e) ''graph_hash'' else hash);
          skip' = (if skip = None \<and> ev_kind e = ''EVOLUTION_SKIPPED''
                   then (case map_of (ev_payload e) ''reason'' of
                           Some (JsStr r) \<Rightarrow> if py_strip r \<noteq> [] then Some r else None | _ \<Rightarrow> None)
                   else skip)
      in if hash' \<noteq> None \<and> hash' \<noteq> Some JsNull \<and> skip' \<noteq> None then (hash', skip')
         else scan_status es hash' skip')"

definition evolve_status_scan :: "string \<Rightarrow> string \<Rightarrow> event_row list \<Rightarrow> json option \<times> string option" where
  "evolve_status_scan t g rows = scan_status (rev (get_by_seq t g 0 200 rows)) None None"

section \<open>Runs of the journal\<close>

inductive journal_step :: "journal \<Rightarrow> journal \<Rightarrow> bool" where
  append: "repo_append t s e j = (r, j') \<Longrightarrow> journal_step j j'"
| commit: "journal_step j (commit_session s j)"
| rollback: "journal_step j (rollback_session s j)"

inductive_cases journal_stepE: "journal_step j j'"

definition empty_journal :: journal where
  "empty_journal = \<lparr>jn_next = 1, jn_rows = [], jn_open = []\<rparr>"

definition all_rows :: "journal \<Rightarrow> event_row list" where
  "all_rows j = jn_rows j @ map snd (jn_open j)"

definition journal_ok :: "journal \<Rightarrow> bool" where
  "journal_ok j \<longleftrightarrow> distinct (map rw_seq (all_rows j)) \<and> distinct (map rw_id (all_rows j))
     \<and> (\<forall>r \<in> set (all_rows j). 0 < rw_seq r \<and> rw_seq r < jn_next j) \<and> 0 < jn_next j"

lemma from_domain_fields [simp]:
  "rw_seq (from_domain n t e) = n" "rw_id (from_domain n t e) = ev_id e" "rw_tenant (from_domain n t e) = t"
  "rw_graph (from_domain n t e) = ev_graph e" "rw_kind (from_domain n t e) = ev_kind e"
  by (simp_all add: from_domain_def)

lemma seq_of_to_domain [simp]: "seq_of (to_domain r) = rw_seq r"
  by (simp add: seq_of_def to_domain_def)

lemma to_from_domain: "to_domain (from_domain n t e) = e\<lparr>ev_seq := Some n\<rparr>"
  by (simp add: to_domain_def from_domain_def)

lemma mset_snd_split: "mset (map snd (filter P xs)) + mset (map snd (filter (\<lambda>x. \<not> P x) xs)) = mset (map snd xs)"
  by (induction xs) auto

lemma all_rows_commit: "mset (all_rows (commit_session s j)) = mset (all_rows j)"
  using mset_snd_split [of "\<lambda>x. fst x = s" "jn_open j"]
  by (simp add: all_rows_def commit_session_def visible_def ac_simps)

lemma distinct_map_mset: "mset xs = mset ys \<Longrightarrow> distinct (map f xs) = distinct (map f ys)"
  by (rule mset_eq_imp_distinct_iff) simp

lemma distinct_rollback: "distinct (map f (all_rows j)) \<Longrightarrow> distinct (map f (all_rows (rollback_session s j)))"
  by (auto simp: all_rows_def rollback_session_def distinct_map_filter)

lemma journal_ok_mset:
  assumes "mset (all_rows j') = mset (all_rows j)" "jn_next j' = jn_next j" "journal_ok j"
  shows "journal_ok j'"
proof -
  have "set (all_rows j') = set (all_rows j)" using assms(1) by (rule mset_eq_setD)
  then show ?thesis using assms(2,3) by (simp add: journal_ok_def distinct_map_mset [OF assms(1)])
qed

lemma journal_ok_append:
  assumes "journal_ok j" "repo_append t s e j = (r, j')"
  shows "journal_ok j'"
proof (cases "ev_id e \<in> rw_id ` (set (jn_rows j) \<union> snd ` set (jn_open j))")
  case True
  then have "all_rows j' = all_rows j" "jn_next j' = jn_next j + 1"
    using assms(2) by (auto simp: repo_append_def Let_def all_rows_def)
  then show ?thesis using assms(1) by (auto simp: journal_ok_def intro: less_trans)
next
  case False
  then have "all_rows j' = all_rows j @ [from_domain (jn_next j) t e]" "jn_next j' = jn_next j + 1"
    using assms(2) by (auto simp: repo_append_def Let_def all_rows_def)
  moreover have "ev_id e \<notin> rw_id ` set (all_rows j)" using False by (auto simp: all_rows_def)
  ultimately show ?thesis using assms(1) by (force simp: journal_ok_def)
qed

lemma journal_ok_rollback:
  assumes "journal_ok j"
  shows "journal_ok (rollback_session s j)"
proof -
  have "set (all_rows (rollback_session s j)) \<subseteq> set (all_rows j)"
    by (auto simp: all_rows_def rollback_session_def)
  moreover have "jn_next (rollback_session s j) = jn_next j" by (simp add: rollback_session_def)
  ultimately show ?thesis using assms unfolding journal_ok_def by (auto intro: distinct_rollback)
qed

lemma journal_ok_commit: "journal_ok j \<Longrightarrow> journal_ok (commit_session s j)"
  by (rule journal_ok_mset [OF all_rows_commit]) (simp_all add: commit_session_def)

lemma journal_ok_step: "journal_step j j' \<Longrightarrow> journal_ok j \<Longrightarrow> journal_ok j'"
  by (erule journal_stepE) (auto intro: journal_ok_append journal_ok_rollback journal_ok_commit)

lemma journal_ok_empty: "journal_ok empty_journal"
  by (simp add: journal_ok_def empty_journal_def all_rows_def)

lemma journal_ok_run: "journal_step\<^sup>*\<^sup>* j j' \<Longrightarrow> journal_ok j \<Longrightarrow> journal_ok j'"
  by (induction rule: rtranclp_induct) (auto intro: journal_ok_step)

lemmas journal_ok_reach = journal_ok_run [OF _ journal_ok_empty]

text \<open>Rows of a later state that an earlier one did not have carry later numbers.\<close>

definition extends :: "journal \<Rightarrow> journal \<Rightarrow> bool" where
  "extends j j' \<longleftrightarrow> prefix (jn_rows j) (jn_rows j') \<and> jn_next j \<le> jn_next j'
     \<and> (\<forall>r \<in> set (all_rows j'). r \<in> set (all_rows j) \<or> jn_next j \<le> rw_seq r)"

lemma extends_refl [simp]: "extends j j"
  by (simp add: extends_def)

lemma extends_trans: "extends i j \<Longrightarrow> extends j k \<Longrightarrow> extends i k"
  unfolding extends_def by (meson order_trans prefix_order.trans)

lemma extends_step: "journal_step j j' \<Longrightarrow> extends j j'"
proof (induction rule: journal_step.induct)
  case (append t s e j r j')
  then have "jn_rows j' = jn_rows j" "jn_next j \<le> jn_next j'"
    "set (all_rows j') \<subseteq> insert (from_domain (jn_next j) t e) (set (all_rows j))"
    by (auto simp: repo_append_def Let_def all_rows_def split: if_splits)
  then show ?case by (auto simp: extends_def)
next
  case (commit j s)
  have "set (all_rows (commit_session s j)) = set (all_rows j)" by (metis all_rows_commit set_mset_mset)
  then show ?case by (simp add: extends_def commit_session_def visible_def)
next
  case (rollback j s)
  then show ?case by (auto simp: extends_def rollback_session_def all_rows_def)
qed

lemma extends_run: "journal_step\<^sup>*\<^sup>* j j' \<Longrightarrow> extends j j'"
  by (induction rule: rtranclp_induct) (auto intro: extends_trans extends_step)


section \<open>Pages\<close>

definition graph_events :: "string \<Rightarrow> string \<Rightarrow> event_row list \<Rightarrow> event_record list" where
  "graph_events t g rows = map to_domain (query_rows (row_of t g) rw_seq rows)"

lemma sorted_distinct_keys: "distinct (map f rows) \<Longrightarrow> sorted_wrt (<) (map f (query_rows p f rows))"
  using distinct_query_rows [of f rows p f] by (simp add: strict_sorted_iff)

lemma page_rows:
  "get_by_seq t g a n rows = take n (filter (\<lambda>e. a < seq_of e) (graph_events t g rows))"
  by (simp add: get_by_seq_def graph_events_def query_rows_def filter_map take_map filter_sort o_def conj_commute)

interpretation event_pages: paged_log "\<lambda>rows. distinct (map rw_seq rows)" "graph_events t g" seq_of "get_by_seq t g"
  for t g
  by unfold_locales (simp_all add: page_rows, simp add: graph_events_def o_def sorted_distinct_keys)

lemma graph_events_mem:
  "e \<in> set (graph_events t g rows) \<longleftrightarrow> (\<exists>r \<in> set rows. row_of t g r \<and> e = to_domain r)"
  by (auto simp: graph_events_def)

lemma length_graph_events: "length (graph_events t g rows) = count_events t g rows"
  by (simp add: graph_events_def count_events_def query_rows_def)

text \<open>A client that follows \<open>next_seq\<close> while \<open>has_more\<close> holds.\<close>

fun follow_pages :: "nat \<Rightarrow> string \<Rightarrow> string \<Rightarrow> int \<Rightarrow> nat \<Rightarrow> event_row list \<Rightarrow> event_record list" where
  "follow_pages 0 t g after limit rows = []"
| "follow_pages (Suc k) t g after limit rows =
     (case list_events t g after limit rows of (events, has_more, next_seq) \<Rightarrow>
        events @ (if has_more then follow_pages k t g next_seq limit rows else []))"

lemma list_events_page:
  assumes "list_events t g after limit rows = (events, has_more, next_seq)"
  shows "events = get_by_seq t g after (min limit MAX_PAGE_SIZE) rows
    \<and> (has_more \<longleftrightarrow> min limit MAX_PAGE_SIZE < length (filter (\<lambda>e. after < seq_of e) (graph_events t g rows)))
    \<and> next_seq = (if events = [] then after else seq_of (last events))"
  using assms by (auto simp: list_events_def Let_def page_rows not_less split: if_splits)

lemma follow_pages_all:
  assumes "distinct (map rw_seq rows)" "0 < limit"
    and "length (filter (\<lambda>e. after < seq_of e) (graph_events t g rows)) \<le> k" "0 < k"
  shows "follow_pages k t g after limit rows = filter (\<lambda>e. after < seq_of e) (graph_events t g rows)"
  using assms(3,4)
proof (induction k arbitrary: after)
  case (Suc k)
  let ?f = "\<lambda>a. filter (\<lambda>e. a < seq_of e) (graph_events t g rows)"
  let ?n = "min limit MAX_PAGE_SIZE"
  obtain events mor nxt where le: "list_events t g after limit rows = (events, mor, nxt)"
    by (metis prod_cases3)
  note pg = list_events_page [OF le]
  have n: "0 < ?n" using assms(2) by (simp add: MAX_PAGE_SIZE_def)
  show ?case
  proof (cases mor)
    case False
    then have "events = ?f after" using pg by (simp add: page_rows not_less)
    then show ?thesis using le False by simp
  next
    case True
    then have long: "?n < length (?f after)" using pg by blast
    then have ne: "get_by_seq t g after ?n rows \<noteq> []" using n by (auto simp: page_rows)
    have nxt: "?f nxt = drop ?n (?f after)"
      using event_pages.page_next [OF assms(1) ne] pg ne by simp
    then have "length (?f nxt) \<le> k" "0 < length (?f nxt)" using Suc.prems(1) long n by auto
    then have "follow_pages k t g nxt limit rows = ?f nxt" by (intro Suc.IH) linarith+
    then show ?thesis using le True nxt pg by (simp add: page_rows)
  qed
qed simp

text \<open>
  C37 Pages neither skip nor repeat: on a journal that does not change meanwhile, a client that
  starts at any cursor and follows \<open>next_seq\<close> while \<open>has_more\<close> holds receives exactly the
  committed events of its tenant and graph above the cursor, once each, in order.
\<close>

theorem pages_complete:
  assumes "journal_step\<^sup>*\<^sup>* empty_journal j" "0 < limit" "count_events t g (jn_rows j) < k"
  shows "follow_pages k t g after limit (jn_rows j)
    = filter (\<lambda>e. after < seq_of e) (graph_events t g (jn_rows j))"
proof (rule follow_pages_all)
  show "distinct (map rw_seq (jn_rows j))"
    using journal_ok_reach [OF assms(1)] by (simp add: journal_ok_def all_rows_def)
  have "length (filter (\<lambda>e. after < seq_of e) (graph_events t g (jn_rows j))) \<le> count_events t g (jn_rows j)"
    unfolding length_graph_events [symmetric] by (rule length_filter_le)
  then show "length (filter (\<lambda>e. after < seq_of e) (graph_events t g (jn_rows j))) \<le> k" using assms(3) by simp
qed (use assms in auto)

section \<open>Reading while others write\<close>

lemma visible_mem: "r \<in> set (visible s j) \<Longrightarrow> r \<in> set (all_rows j)"
  by (auto simp: visible_def all_rows_def)

text \<open>
  C25 A reader can miss an event for good: if two sessions append to the same graph and the second
  commits first, a page read then already moves the cursor past the first event, and once that one
  is committed too, no page from that cursor on ever contains it, whatever happens later.
\<close>

theorem late_commit_skipped:
  assumes "journal_step\<^sup>*\<^sup>* empty_journal j" "s1 \<noteq> s2"
    and "repo_append t s1 e1 j = (Inr d1, j1)" "repo_append t s2 e2 j1 = (Inr d2, j2)"
    and "list_events t g after limit (jn_rows (commit_session s2 j2)) = (events, has_more, cursor)" "d2 \<in> set events"
    and "journal_step\<^sup>*\<^sup>* (commit_session s1 (commit_session s2 j2)) j'"
    and "cursor \<le> cursor'"
  shows "(\<exists>r \<in> set (jn_rows j'). to_domain r = d1) \<and> d1 \<notin> set (fst (list_events t g cursor' limit' (jn_rows j')))"
proof
  have d1: "d1 = to_domain (from_domain (jn_next j) t e1)" "(s1, from_domain (jn_next j) t e1) \<in> set (jn_open j1)"
    "jn_next j1 = jn_next j + 1"
    using assms(3) by (auto simp: repo_append_def Let_def to_from_domain split: if_splits)
  have d2: "d2 = to_domain (from_domain (jn_next j1) t e2)" "set (jn_open j1) \<subseteq> set (jn_open j2)"
    using assms(4) by (auto simp: repo_append_def Let_def to_from_domain split: if_splits)
  have "from_domain (jn_next j) t e1 \<in> set (jn_rows (commit_session s1 (commit_session s2 j2)))"
    using d1(2) d2(2) assms(2) by (force simp: commit_session_def visible_def)
  moreover have "prefix (jn_rows (commit_session s1 (commit_session s2 j2))) (jn_rows j')"
    using extends_run [OF assms(7)] by (simp add: extends_def)
  ultimately have "from_domain (jn_next j) t e1 \<in> set (jn_rows j')" by (auto simp: prefix_def)
  then show "\<exists>r \<in> set (jn_rows j'). to_domain r = d1" using d1(1) by blast
  have steps: "journal_step\<^sup>*\<^sup>* empty_journal (commit_session s2 j2)"
    using assms(1,3,4) by (meson journal_step.intros rtranclp.rtrancl_into_rtrancl)
  have inc: "sorted_wrt (<) (map seq_of events)"
    using list_events_page [OF assms(5)] journal_ok_reach [OF steps]
      event_pages.page_increases [of "jn_rows (commit_session s2 j2)" t g after "min limit MAX_PAGE_SIZE"]
    by (simp add: journal_ok_def all_rows_def)
  have "seq_of d2 \<le> seq_of (last events)"
  proof -
    obtain ys y where y: "events = ys @ [y]" using assms(6) by (cases events rule: rev_cases) auto
    then show ?thesis using inc assms(6) by (auto simp: sorted_wrt_append)
  qed
  then have "seq_of d2 \<le> cursor" using list_events_page [OF assms(5)] assms(6) by auto
  then have small: "seq_of d1 < cursor'" using d1 d2(1) assms(8) by simp
  obtain ev' m' c' where l': "list_events t g cursor' limit' (jn_rows j') = (ev', m', c')" by (metis prod_cases3)
  show "d1 \<notin> set (fst (list_events t g cursor' limit' (jn_rows j')))"
    using list_events_page [OF l'] small l' by (auto simp: page_rows dest!: in_set_takeD)
qed

section \<open>Lookups through the first page\<close>

lemma sort_key_append_above:
  assumes "\<forall>x \<in> set xs. \<forall>y \<in> set ys. f x < f y"
  shows "sort_key f (xs @ ys) = sort_key f xs @ sort_key f ys"
proof (rule properties_for_sort_key)
  fix k
  show "filter (\<lambda>x. f k = f x) (sort_key f xs @ sort_key f ys) = filter (\<lambda>x. f k = f x) (xs @ ys)"
    using sort_key_stable [of f "f k" xs] sort_key_stable [of f "f k" ys] by (simp add: eq_commute)
qed (use assms in \<open>auto simp: sorted_append intro: less_imp_le\<close>)

lemma graph_events_extend:
  assumes "journal_ok j" "jn_open j = []" "extends j j'" "journal_ok j'"
  shows "prefix (graph_events t g (jn_rows j)) (graph_events t g (jn_rows j'))"
proof -
  obtain new where new: "jn_rows j' = jn_rows j @ new" using assms(3) by (auto simp: extends_def prefix_def)
  have "distinct (jn_rows j')" using assms(4) by (auto simp: journal_ok_def all_rows_def distinct_map)
  have "\<forall>y \<in> set new. jn_next j \<le> rw_seq y"
  proof
    fix y assume y: "y \<in> set new"
    then have "y \<notin> set (jn_rows j)" using \<open>distinct (jn_rows j')\<close> new by auto
    then show "jn_next j \<le> rw_seq y" using assms(2,3) y new by (auto simp: extends_def all_rows_def)
  qed
  moreover have "\<forall>x \<in> set (jn_rows j). rw_seq x < jn_next j" using assms(1) by (auto simp: journal_ok_def all_rows_def)
  ultimately have "query_rows (row_of t g) rw_seq (jn_rows j')
      = query_rows (row_of t g) rw_seq (jn_rows j) @ query_rows (row_of t g) rw_seq new"
    unfolding query_rows_def new filter_append by (intro sort_key_append_above) force
  then show ?thesis by (simp add: graph_events_def)
qed

lemma first_page_frozen:
  assumes "journal_step\<^sup>*\<^sup>* empty_journal j" "jn_open j = []" "journal_step\<^sup>*\<^sup>* j j'" "n \<le> count_events t g (jn_rows j)"
  shows "get_by_seq t g 0 n (jn_rows j') = get_by_seq t g 0 n (jn_rows j)"
proof -
  have ok: "journal_ok j" "journal_ok j'" using journal_ok_reach assms(1,3) journal_ok_run by blast+
  have pos: "filter (\<lambda>e. 0 < seq_of e) (graph_events t g (jn_rows i)) = graph_events t g (jn_rows i)"
    if "journal_ok i" for i
    using that by (auto simp: filter_id_conv graph_events_mem journal_ok_def all_rows_def)
  have "prefix (graph_events t g (jn_rows j)) (graph_events t g (jn_rows j'))"
    using graph_events_extend [OF ok(1) assms(2) extends_run [OF assms(3)] ok(2)] .
  then show ?thesis
    using assms(4) by (auto simp: page_rows pos ok prefix_def length_graph_events [symmetric])
qed

text \<open>
  Stale lookups: from a quiet point at which a graph has 500 events on, the graph hash, the
  scorecard event and (from 200 events on) the status scan never change again, whatever snapshots
  are appended later: they look backwards through the oldest page, not the newest.
\<close>

theorem snapshot_lookup_frozen:
  assumes "journal_step\<^sup>*\<^sup>* empty_journal j" "jn_open j = []" "500 \<le> count_events t g (jn_rows j)"
    and "journal_step\<^sup>*\<^sup>* j j'"
  shows "best_effort_graph_hash repr t g (jn_rows j') = best_effort_graph_hash repr t g (jn_rows j)
    \<and> scorecard_event t g (jn_rows j') = scorecard_event t g (jn_rows j)
    \<and> evolve_status_scan t g (jn_rows j') = evolve_status_scan t g (jn_rows j)"
proof -
  have "get_by_seq t g 0 500 (jn_rows j') = get_by_seq t g 0 500 (jn_rows j)"
    "get_by_seq t g 0 200 (jn_rows j') = get_by_seq t g 0 200 (jn_rows j)"
    using assms by (auto intro!: first_page_frozen)
  then show ?thesis by (simp add: best_effort_graph_hash_def scorecard_event_def evolve_status_scan_def)
qed

section \<open>Writing and reading back\<close>

lemma find_unique_row:
  "distinct (map rw_id rows) \<Longrightarrow> r \<in> set rows \<Longrightarrow> P r \<Longrightarrow>
     find (\<lambda>x. P x \<and> rw_id x = rw_id r) rows = Some r"
proof (induction rows)
  case (Cons x rows)
  then show ?case by (cases "x = r") (auto simp: image_iff)
qed simp


text \<open>The checksum does not separate its fields: text can move between the graph and the kind.\<close>

lemma checksum_ambiguous:
  "event_checksum sha isof ts (g @ ''|'' @ a) kind payload = event_checksum sha isof ts g (a @ ''|'' @ kind) payload"
  by (simp add: event_checksum_def)

text \<open>Truncation keeps every key and adds its two marks, but does not bound the size.\<close>

lemma truncate_keys:
  "set (al_keys (truncate_payload m p)) \<subseteq> set (al_keys p) \<union> {''_truncated'', ''_original_size''}"
proof -
  let ?q = "map (\<lambda>(k, v). (k, truncate_value v)) p"
  have "set (al_keys ?q) = set (al_keys p)" unfolding al_keys_def by force
  then have "set (al_keys (al_put k v (al_put k' v' ?q))) \<subseteq> set (al_keys p) \<union> {k', k}" for k v k' v'
    by (auto simp: set_keys_al_put)
  then show ?thesis by (simp only: truncate_payload_def Let_def split: if_split) auto
qed

lemma truncate_unbounded: "\<exists>p. int (length (json_dumps False '', '' '': '' (JsDict (truncate_payload m p)))) > m"
proof -
  let ?s = "replicate (nat m + 1) CHR ''x''"
  let ?inner = "JsDict [(''b'', JsStr ?s)]"
  let ?p = "[(''a'', ?inner)]"
  let ?size = "\<lambda>v. length (json_dumps False '', '' '': '' v)"
  have "length ?s < ?size (JsStr ?s)" using length_json_quote [of ?s] by simp
  also have "\<dots> < ?size ?inner" by (rule length_dumps_dict [of "''b''"]) simp
  finally have inner: "length ?s < ?size ?inner" .
  have "?size ?inner < ?size (JsDict ?p)" by (rule length_dumps_dict [of "''a''"]) simp
  with inner have "int (?size (JsDict ?p)) > m" by simp
  then have "(''a'', ?inner) \<in> set (truncate_payload m ?p)"
    by (simp add: truncate_payload_def Let_def truncate_value_def)
  from length_dumps_dict [OF this, of False "'', ''" "'': ''"] inner
  have "int (?size (JsDict (truncate_payload m ?p))) > m" by simp
  then show ?thesis by blast
qed

section \<open>The stream\<close>

fun sse_events :: "sse list \<Rightarrow> event_record list" where
  "sse_events [] = []"
| "sse_events (SseEvent e # ms) = e # sse_events ms"
| "sse_events (_ # ms) = sse_events ms"

lemma sse_events_append [simp]: "sse_events (ms @ ms') = sse_events ms @ sse_events ms'"
  by (induction ms rule: sse_events.induct) simp_all

lemma sse_events_map [simp]: "sse_events (map SseEvent es) = es"
  by (induction es) simp_all

lemma page_facts:
  assumes "distinct (map rw_seq rows)"
  shows "sorted_wrt (<) (map seq_of (get_by_seq t g a n rows))"
    and "\<forall>e \<in> set (get_by_seq t g a n rows). a < seq_of e"
    and "set (get_by_seq t g a n rows) \<subseteq> set (graph_events t g rows)"
proof -
  show "sorted_wrt (<) (map seq_of (get_by_seq t g a n rows))"
    "\<forall>e \<in> set (get_by_seq t g a n rows). a < seq_of e"
    using event_pages.page_increases [OF assms] by blast+
  have "set (get_by_seq t g a n rows) \<subseteq> set (filter (\<lambda>e. a < seq_of e) (graph_events t g rows))"
    unfolding page_rows by (rule set_take_subset)
  then show "set (get_by_seq t g a n rows) \<subseteq> set (graph_events t g rows)" by auto
qed

lemma stream_loop_events:
  assumes "\<forall>rows now. Fetched rows now \<in> set ps \<longrightarrow> distinct (map rw_seq rows)"
  shows "sorted_wrt (<) (map seq_of (sse_events (stream_loop g cur beat idle ps)))
    \<and> (\<forall>e \<in> set (sse_events (stream_loop g cur beat idle ps)). cur < seq_of e
        \<and> (\<exists>rows now. Fetched rows now \<in> set ps \<and> e \<in> set (graph_events ''default'' g rows)))"
  using assms
proof (induction g cur beat idle ps rule: stream_loop.induct)
  case (4 g cur beat idle rows now ps)
  define es where "es = get_by_seq ''default'' g cur MAX_PAGE_SIZE rows"
  have tl: "\<forall>rows now. Fetched rows now \<in> set ps \<longrightarrow> distinct (map rw_seq rows)"
    using 4(3) by (meson list.set_intros(2))
  have dist: "distinct (map rw_seq rows)" by (rule 4(3) [rule_format, of rows now]) simp
  have page: "sorted_wrt (<) (map seq_of es)" "\<forall>e \<in> set es. cur < seq_of e"
    "\<forall>e \<in> set es. e \<in> set (graph_events ''default'' g rows)"
    using page_facts [OF dist, of "''default''" g cur MAX_PAGE_SIZE] unfolding es_def by blast+
  show ?case
  proof (cases "es = []")
    case True
    then have none: "get_by_seq ''default'' g cur MAX_PAGE_SIZE rows = []" by (simp add: es_def)
    let ?beat = "if HEARTBEAT_INTERVAL_SECONDS \<le> now - beat then now else beat"
    show ?thesis
    proof (cases "MAX_EMPTY_POLLS \<le> idle + 1")
      case True
      then show ?thesis using none by (simp add: Let_def)
    next
      case False
      have "sse_events (stream_loop g cur beat idle (Fetched rows now # ps))
          = sse_events (stream_loop g cur ?beat (idle + 1) ps)"
        using none False by (simp add: Let_def)
      moreover have "\<And>e. \<exists>rows now. Fetched rows now \<in> set ps \<and> e \<in> set (graph_events ''default'' g rows) \<Longrightarrow>
          \<exists>rows' now'. Fetched rows' now' \<in> set (Fetched rows now # ps) \<and> e \<in> set (graph_events ''default'' g rows')"
        by (meson list.set_intros(2))
      ultimately show ?thesis using 4(2) [OF refl _ refl refl _ tl] none False by fastforce
    qed
  next
    case False
    then obtain ys y where y: "es = ys @ [y]" by (cases es rule: rev_cases) auto
    then have top: "\<forall>e \<in> set es. seq_of e \<le> seq_of (last es)" using page(1) by (auto simp: sorted_wrt_append)
    have cur: "cur < seq_of (last es)" using page(2) False by simp
    let ?rest = "sse_events (stream_loop g (seq_of (last es)) now 0 ps)"
    have rest: "sorted_wrt (<) (map seq_of ?rest)" "\<forall>e \<in> set ?rest. seq_of (last es) < seq_of e"
      "\<forall>e \<in> set ?rest. \<exists>rows now. Fetched rows now \<in> set ps \<and> e \<in> set (graph_events ''default'' g rows)"
      using 4(1) [OF refl _ tl] False unfolding es_def by blast+
    have "sse_events (stream_loop g cur beat idle (Fetched rows now # ps)) = es @ ?rest"
      using False by (simp add: Let_def es_def [symmetric])
    moreover have "sorted_wrt (<) (map seq_of (es @ ?rest))"
      using page(1) rest(1,2) top by (auto simp: sorted_wrt_append intro: le_less_trans)
    moreover have "\<forall>e \<in> set (es @ ?rest). cur < seq_of e" using page(2) rest(2) cur by (auto intro: less_trans)
    moreover have "\<forall>e \<in> set (es @ ?rest). \<exists>rows' now'. Fetched rows' now' \<in> set (Fetched rows now # ps)
        \<and> e \<in> set (graph_events ''default'' g rows')"
      using page(3) rest(3) by (auto; metis)
    ultimately show ?thesis by metis
  qed
qed simp_all

text \<open>
  C12 The stream of a tenant does not carry the tenant's events: whoever asks, every event it
  delivers is a row of the tenant named default (and of the graph asked for), in strictly
  increasing order above the starting point, and none is delivered twice.
\<close>

theorem stream_serves_default_tenant:
  assumes "\<forall>rows now. Fetched rows now \<in> set ps \<longrightarrow> distinct (map rw_seq rows)"
  shows "sorted_wrt (<) (map seq_of (sse_events (event_generator tenant g after start ps)))
    \<and> (\<forall>e \<in> set (sse_events (event_generator tenant g after start ps)). after < seq_of e
        \<and> (\<exists>rows now r. Fetched rows now \<in> set ps \<and> r \<in> set rows \<and> e = to_domain r
              \<and> rw_tenant r = ''default'' \<and> rw_graph r = g))"
  using stream_loop_events [OF assms, of g after start 0]
  unfolding event_generator_def by (fastforce simp: graph_events_mem row_of_def)

section \<open>Concrete runs\<close>

definition ex_event :: "string \<Rightarrow> event_record" where
  "ex_event i = create_event (\<lambda>s. s) (\<lambda>_. ''T'') i 0 0 ''g'' ''k'' [] None"

lemma ex_event_fields [simp]: "ev_id (ex_event i) = i" "ev_graph (ex_event i) = ''g''"
  by (simp_all add: ex_event_def create_event_def Let_def)

fun ex_many :: "nat \<Rightarrow> journal" where
  "ex_many 0 = empty_journal"
| "ex_many (Suc n) = commit_session 1 (snd (repo_append ''default'' 1 (ex_event (replicate n CHR ''x'')) (ex_many n)))"

lemma ex_many_rows:
  "jn_open (ex_many n) = [] \<and> length (jn_rows (ex_many n)) = n
    \<and> (\<forall>r \<in> set (jn_rows (ex_many n)). row_of ''default'' ''g'' r \<and> length (rw_id r) < n)"
proof (induction n)
  case 0
  then show ?case by (simp add: empty_journal_def)
next
  case (Suc n)
  then have "replicate n CHR ''x'' \<notin> rw_id ` set (jn_rows (ex_many n))"
    by (metis imageE length_replicate less_irrefl)
  then show ?case using Suc
    by (auto simp: repo_append_def Let_def commit_session_def visible_def row_of_def intro: less_SucI)
qed

lemma ex_many_step: "journal_step\<^sup>*\<^sup>* (ex_many n) (ex_many (Suc n))"
proof -
  obtain r j' where "repo_append ''default'' 1 (ex_event (replicate n CHR ''x'')) (ex_many n) = (r, j')" by fastforce
  then show ?thesis
    using journal_step.append journal_step.commit by (simp, meson converse_rtranclp_into_rtranclp r_into_rtranclp)
qed

lemma ex_many_reach: "journal_step\<^sup>*\<^sup>* empty_journal (ex_many n)"
proof (induction n)
  case (Suc n)
  then show ?case using ex_many_step by (rule rtranclp_trans)
qed simp

lemma ex_many_count: "count_events ''default'' ''g'' (jn_rows (ex_many n)) = n"
  using ex_many_rows [of n] by (simp add: count_events_def)


lemma pages_complete_witness:
  "follow_pages 4 ''default'' ''g'' 1 2 (jn_rows (ex_many 3))
    = filter (\<lambda>e. 1 < seq_of e) (graph_events ''default'' ''g'' (jn_rows (ex_many 3)))"
  by (rule pages_complete) (simp_all add: ex_many_reach ex_many_count del: ex_many.simps)

lemma snapshot_lookup_frozen_witness:
  "scorecard_event ''default'' ''g'' (jn_rows (ex_many (Suc 500))) = scorecard_event ''default'' ''g'' (jn_rows (ex_many 500))"
  using snapshot_lookup_frozen [OF ex_many_reach _ _ ex_many_step [of 500], of "''default''" "''g''"]
    ex_many_rows [of 500] ex_many_count [of 500] by (simp del: ex_many.simps)


text \<open>Two sessions: the second to append commits first.\<close>

definition ex_first :: journal where
  "ex_first = snd (repo_append ''t'' 1 (ex_event ''a'') empty_journal)"

definition ex_second :: journal where
  "ex_second = snd (repo_append ''t'' 2 (ex_event ''b'') ex_first)"

lemma ex_appends:
  "repo_append ''t'' 1 (ex_event ''a'') empty_journal = (Inr ((ex_event ''a'')\<lparr>ev_seq := Some 1\<rparr>), ex_first)"
  "repo_append ''t'' 2 (ex_event ''b'') ex_first = (Inr ((ex_event ''b'')\<lparr>ev_seq := Some 2\<rparr>), ex_second)"
  by (simp_all add: ex_first_def ex_second_def repo_append_def Let_def empty_journal_def)

lemma ex_page:
  "list_events ''t'' ''g'' 0 10 (jn_rows (commit_session 2 ex_second)) = ([(ex_event ''b'')\<lparr>ev_seq := Some 2\<rparr>], False, 2)"
proof -
  have "jn_rows (commit_session 2 ex_second) = [from_domain 2 ''t'' (ex_event ''b'')]"
    by (simp add: ex_first_def ex_second_def repo_append_def Let_def empty_journal_def commit_session_def visible_def)
  then show ?thesis
    by (simp add: list_events_def get_by_seq_def query_rows_def row_of_def MAX_PAGE_SIZE_def to_from_domain seq_of_def)
qed

lemma late_commit_skipped_witness:
  "(ex_event ''a'')\<lparr>ev_seq := Some 1\<rparr>
     \<notin> set (fst (list_events ''t'' ''g'' 2 10 (jn_rows (commit_session 1 (commit_session 2 ex_second)))))"
  using late_commit_skipped [OF rtranclp.rtrancl_refl _ ex_appends ex_page _ rtranclp.rtrancl_refl, of 2] by simp

lemma stream_serves_default_tenant_witness:
  "sorted_wrt (<) (map seq_of (sse_events (event_generator ''t'' ''g'' 0 0 [Fetched (jn_rows (ex_many 2)) 1])))"
proof -
  have "distinct (map rw_seq (jn_rows (ex_many 2)))"
    using journal_ok_reach [OF ex_many_reach [of 2]] by (simp add: journal_ok_def all_rows_def)
  then show ?thesis using stream_serves_default_tenant [of "[Fetched (jn_rows (ex_many 2)) 1]"] by auto
qed

end
