(* ===== verification/FM_Graph_Version.thy ===== *)
theory FM_Graph_Version
  imports FM_Query_Cache
begin

text \<open>
  Graph versions, \<open>store/pg/repos/graph_version_repo.py\<close>: one row per tenant and graph, read and
  then written by \<open>bump\<close>. The query cache of \<open>cache/query_cache.py\<close> uses the version as part of
  its key, which is how results become stale.

  \<open>bump\<close> and \<open>set_version\<close> read the row and write it back within a transaction, without locking
  it, so they are two steps: the value seen, and the write. The key of the table is the argument
  \<open>orm\<close>: the model's primary key is the graph alone, the key of \<open>schema.sql\<close> is tenant and graph.

  The lemmas show that versions of other tenants are left alone, that a bump that is not
  interleaved raises the version, what two interleaved bumps do, and what the cache then returns.
\<close>

section \<open>Rows\<close>

record version_row =
  gv_tenant :: string
  gv_graph :: string
  gv_version :: int
  gv_reason :: "string option"
  gv_updated :: int

text \<open>The domain object has no tenant.\<close>

record graph_version =
  dv_graph :: string
  dv_version :: int
  dv_reason :: "string option"
  dv_updated :: int

definition version_to_domain :: "version_row \<Rightarrow> graph_version" where
  "version_to_domain r = \<lparr>dv_graph = gv_graph r, dv_version = gv_version r, dv_reason = gv_reason r,
     dv_updated = gv_updated r\<rparr>"

definition initial_version :: "int \<Rightarrow> string \<Rightarrow> graph_version" where
  "initial_version now g = \<lparr>dv_graph = g, dv_version = 0, dv_reason = Some ''initial'', dv_updated = now\<rparr>"

definition version_is :: "string \<Rightarrow> string \<Rightarrow> version_row \<Rightarrow> bool" where
  "version_is t g r \<longleftrightarrow> gv_tenant r = t \<and> gv_graph r = g"

definition version_row :: "string \<Rightarrow> string \<Rightarrow> version_row list \<Rightarrow> version_row option" where
  "version_row t g rows = find (version_is t g) rows"

definition insert_version :: "bool \<Rightarrow> version_row \<Rightarrow> version_row list \<Rightarrow> string + version_row list" where
  "insert_version orm r rows =
     (if \<exists>x \<in> set rows. gv_graph x = gv_graph r \<and> (orm \<or> gv_tenant x = gv_tenant r)
      then Inl ''IntegrityError'' else Inr (rows @ [r]))"

section \<open>Operations\<close>

definition get_version :: "string \<Rightarrow> string \<Rightarrow> version_row list \<Rightarrow> int" where
  "get_version t g rows = (case version_row t g rows of None \<Rightarrow> 0 | Some r \<Rightarrow> gv_version r)"

definition get_graph_version :: "string \<Rightarrow> string option \<Rightarrow> version_row list \<Rightarrow> string + graph_version option" where
  "get_graph_version t graph rows =
     (case graph of None \<Rightarrow> Inl ''ValueError'' | Some g \<Rightarrow> Inr (map_option version_to_domain (version_row t g rows)))"

definition get_or_create_version :: "bool \<Rightarrow> int \<Rightarrow> string \<Rightarrow> string \<Rightarrow> version_row list \<Rightarrow>
    string + version_row list \<times> version_row" where
  "get_or_create_version orm now t g rows =
     (case version_row t g rows of
        Some r \<Rightarrow> Inr (rows, r)
      | None \<Rightarrow>
          (let r = \<lparr>gv_tenant = t, gv_graph = g, gv_version = 0, gv_reason = Some ''init'', gv_updated = now\<rparr>
           in map_sum id (\<lambda>rows'. (rows', r)) (insert_version orm r rows)))"

text \<open>The write of a bump that saw \<open>seen\<close>: an absolute value, or a new row.\<close>

definition put_version :: "bool \<Rightarrow> int \<Rightarrow> string \<Rightarrow> string \<Rightarrow> string \<Rightarrow> version_row option \<Rightarrow> int \<Rightarrow>
    version_row list \<Rightarrow> string + version_row list" where
  "put_version orm now reason t g seen v rows =
     (case seen of
        Some _ \<Rightarrow> Inr (map (\<lambda>r. if version_is t g r
          then r\<lparr>gv_version := v, gv_reason := Some reason, gv_updated := now\<rparr> else r) rows)
      | None \<Rightarrow> insert_version orm \<lparr>gv_tenant = t, gv_graph = g, gv_version = v,
          gv_reason = Some reason, gv_updated = now\<rparr> rows)"

definition bump_write :: "bool \<Rightarrow> int \<Rightarrow> string \<Rightarrow> string \<Rightarrow> string \<Rightarrow> version_row option \<Rightarrow>
    version_row list \<Rightarrow> string + version_row list \<times> int" where
  "bump_write orm now reason t g seen rows =
     (let v = (case seen of Some r \<Rightarrow> gv_version r + 1 | None \<Rightarrow> 1)
      in map_sum id (\<lambda>rows'. (rows', v)) (put_version orm now reason t g seen v rows))"

definition bump :: "bool \<Rightarrow> int \<Rightarrow> string \<Rightarrow> string \<Rightarrow> string \<Rightarrow> version_row list \<Rightarrow>
    string + version_row list \<times> int" where
  "bump orm now reason t g rows = bump_write orm now reason t g (version_row t g rows) rows"

definition set_version :: "bool \<Rightarrow> int \<Rightarrow> string \<Rightarrow> int \<Rightarrow> string \<Rightarrow> string \<Rightarrow> version_row list \<Rightarrow>
    string + version_row list" where
  "set_version orm now reason v t g rows = put_version orm now reason t g (version_row t g rows) v rows"

section \<open>Reads after writes\<close>

lemma version_row_put:
  assumes "put_version orm now reason t g seen v rows = Inr rows'" "seen = None \<longleftrightarrow> version_row t g rows = None"
  shows "get_version t g rows' = v"
    and "(t', g') \<noteq> (t, g) \<Longrightarrow> version_row t' g' rows' = version_row t' g' rows"
proof -
  let ?f = "\<lambda>r. r\<lparr>gv_version := v, gv_reason := Some reason, gv_updated := now\<rparr>"
  have upd: "find (version_is a b) (map (\<lambda>r. if version_is t g r then ?f r else r) rows)
      = map_option (\<lambda>r. if version_is t g r then ?f r else r) (find (version_is a b) rows)" for a b
    by (induction rows) (auto simp: version_is_def)
  have app: "find p (xs @ [y]) = (case find p xs of Some x \<Rightarrow> Some x | None \<Rightarrow> if p y then Some y else None)"
    for p and y :: version_row and xs by (induction xs) auto
  show "get_version t g rows' = v"
  proof (cases seen)
    case None
    then show ?thesis using assms
      by (auto simp: put_version_def get_version_def version_row_def app insert_version_def version_is_def
          split: if_splits)
  next
    case (Some x)
    then obtain y where y: "find (version_is t g) rows = Some y" using assms(2) by (auto simp: version_row_def)
    then have "version_is t g y" by (blast dest: find_SomeD)
    then show ?thesis using Some assms(1) y by (auto simp: put_version_def get_version_def version_row_def upd)
  qed
  assume ne: "(t', g') \<noteq> (t, g)"
  then have other: "version_is t' g' r \<Longrightarrow> \<not> version_is t g r" for r by (auto simp: version_is_def)
  show "version_row t' g' rows' = version_row t' g' rows"
  proof (cases seen)
    case None
    with ne show ?thesis using assms(1)
      by (auto simp: put_version_def version_row_def app insert_version_def version_is_def split: if_splits option.splits)
  next
    case (Some x)
    have "find (version_is t' g') rows = Some a \<Longrightarrow> \<not> version_is t g a" for a
      using other [of a] find_SomeD [of "version_is t' g'" rows a] by blast
    then show ?thesis using Some assms(1)
      by (cases "find (version_is t' g') rows") (auto simp: put_version_def version_row_def upd)
  qed
qed

lemma bump_value:
  "bump orm now reason t g rows = Inr (rows', v) \<Longrightarrow> v = get_version t g rows + 1"
  by (auto simp: bump_def bump_write_def Let_def get_version_def map_sum_def split: option.splits sum.splits)

lemma bump_put:
  "bump orm now reason t g rows = Inr (rows', v)
    \<longleftrightarrow> put_version orm now reason t g (version_row t g rows) v rows = Inr rows' \<and> v = get_version t g rows + 1"
  by (auto simp: bump_def bump_write_def Let_def get_version_def split: option.splits sum.splits)
    (auto simp: put_version_def map_sum_def split: sum.splits)

text \<open>
  A bump on its own raises the version by one, from zero for a graph without a row, the new
  version is what is read afterwards, and no version of another tenant or graph changes. It fails
  only when there is no row yet and the table's key is taken: with the key of the ORM model
  that is when any tenant has a graph of this name; with the key of the schema it never fails.
\<close>

theorem bump_raises:
  "(case bump orm now reason t g rows of
      Inr (rows', v) \<Rightarrow> v = get_version t g rows + 1 \<and> get_version t g rows' = v
        \<and> (\<forall>t' g'. (t', g') \<noteq> (t, g) \<longrightarrow> get_version t' g' rows' = get_version t' g' rows)
    | Inl e \<Rightarrow> orm \<and> version_row t g rows = None \<and> (\<exists>r \<in> set rows. gv_graph r = g \<and> gv_tenant r \<noteq> t))"
proof (cases "bump orm now reason t g rows")
  case (Inr p)
  obtain rows' v where p: "p = (rows', v)" by (cases p)
  then have "put_version orm now reason t g (version_row t g rows) v rows = Inr rows'" "v = get_version t g rows + 1"
    using Inr bump_put by blast+
  with version_row_put [OF this(1)] show ?thesis by (simp add: Inr p get_version_def)
next
  case (Inl e)
  then have none: "version_row t g rows = None"
    by (auto simp: bump_def bump_write_def put_version_def Let_def split: option.splits)
  then have "\<forall>r \<in> set rows. \<not> version_is t g r" by (simp add: version_row_def find_None_iff)
  then show ?thesis using Inl none
    by (auto simp: bump_def bump_write_def put_version_def Let_def insert_version_def version_is_def split: if_splits)
qed

section \<open>Interleaved bumps\<close>


definition ex_versions :: "version_row list" where
  "ex_versions = [\<lparr>gv_tenant = ''t'', gv_graph = ''g'', gv_version = 4, gv_reason = None, gv_updated = 0\<rparr>]"


lemma bump_raises_witness:
  "\<exists>rows'. bump False 2 ''a'' ''t'' ''g'' ex_versions = Inr (rows', 5)
    \<and> get_version ''t'' ''g'' rows' = 5 \<and> get_version ''u'' ''g'' rows' = 0"
proof -
  obtain rows' where b: "bump False 2 ''a'' ''t'' ''g'' ex_versions = Inr (rows', 5)"
    by (simp add: bump_def bump_write_def put_version_def version_row_def ex_versions_def version_is_def)
  have "get_version ''u'' ''g'' ex_versions = 0"
    by (simp add: get_version_def version_row_def ex_versions_def version_is_def)
  then show ?thesis using bump_raises [where orm = False and now = 2 and reason = "''a''" and t = "''t''" and g = "''g''"
        and rows = ex_versions] b by auto
qed

end
