(* ===== verification/FM_Worker.thy ===== *)
theory FM_Worker
  imports FM_Job_Store FM_Event_Journal
begin

text \<open>
  One poll of the background worker, \<open>_poll_and_execute\<close> and \<open>_emit_journal_event\<close> of
  \<open>orchestration/jobs/worker.py\<close>: claim a job, announce it, run it, and record how it ended. It
  works on the tables of the job store and of the event journal through one session; every
  operation of the job store commits that session.

  The handlers of the job kinds are a parameter: a handler changes the tables and returns, raises,
  or raises with the session left in a failed transaction, in which case every further use of the
  session raises too. Clock readings and fresh ids are numbered by the step that uses them.

  The lemmas show that a claimed job ends in a final state unless the session breaks, and what the
  tenant-less journal entry of the worker lets others see.
\<close>

section \<open>State and parameters\<close>

record world =
  w_db :: job_db
  w_jn :: journal

datatype outcome = Returns | Raises string | Breaks string

record worker_env =
  wk_sha :: "string \<Rightarrow> string"
  wk_isof :: "int \<Rightarrow> string"
  wk_sess :: nat
  wk_sqlite :: bool
  wk_dbseq :: int
  wk_clock :: "nat \<Rightarrow> int"
  wk_uid :: "nat \<Rightarrow> string"
  wk_locked :: "nat \<Rightarrow> bool"
  wk_id_text :: "nat \<Rightarrow> string"
  wk_handler :: "string \<Rightarrow> job \<Rightarrow> world \<Rightarrow> outcome \<times> world"

definition executable_job_kinds :: "string list" where
  "executable_job_kinds = [''evolve'', ''storage_upload'', ''domain_autonomy'', ''crypto_rotation'',
     ''ingest_secondary_index'', ''storage_retention'', ''raw_reencryption'']"

section \<open>One poll\<close>

text \<open>\<open>EventRepo()\<close> has the tenant default; a failed insert is swallowed but breaks the session.\<close>

definition emit_journal_event :: "worker_env \<Rightarrow> nat \<Rightarrow> string \<Rightarrow> string \<Rightarrow> string \<Rightarrow> js_dict \<Rightarrow> journal \<Rightarrow> bool \<times> journal" where
  "emit_journal_event en i tenant graph kind payload jn =
     (case repo_emit (wk_sha en) (wk_isof en) (wk_uid en i) (wk_clock en i) (wk_clock en i) ''default''
         (wk_sess en) graph kind payload jn of
        (Inl e, jn') \<Rightarrow> (False, jn') | (Inr d, jn') \<Rightarrow> (True, jn'))"

definition run_handler :: "worker_env \<Rightarrow> job \<Rightarrow> world \<Rightarrow> outcome \<times> world" where
  "run_handler en j w =
     (if job_kind j \<in> set executable_job_kinds then wk_handler en (job_kind j) j w
      else (Raises (''Unknown job kind: '' @ job_kind j), w))"

text \<open>The end of the poll: the last commit, or an error when the session is broken.\<close>

definition finish_poll :: "worker_env \<Rightarrow> nat \<Rightarrow> job_db \<Rightarrow> bool \<times> journal \<Rightarrow> (string + nat option) \<times> world" where
  "finish_poll en i db r =
     (if fst r then (Inr (Some i), \<lparr>w_db = db, w_jn = commit_session (wk_sess en) (snd r)\<rparr>)
      else (Inl ''PendingRollbackError'', \<lparr>w_db = db, w_jn = rollback_session (wk_sess en) (snd r)\<rparr>))"

text \<open>Success and failure: the status is committed first, then the journal entry is written.\<close>

definition record_success :: "worker_env \<Rightarrow> job \<Rightarrow> world \<Rightarrow> (string + nat option) \<times> world" where
  "record_success en j w =
     (let i = job_id j; jn = commit_session (wk_sess en) (w_jn w); idt = (''job_id'', JsStr (wk_id_text en i)) in
      if cancel_requested_of i (w_db w)
      then finish_poll en i
             (mark_cancelled (wk_clock en 2) i (get_cancel_reason (wk_isof en) i (w_db w)) (w_db w))
             (emit_journal_event en 1 (job_tenant j) (job_graph j) ''JOB_CANCELLED'' [idt] jn)
      else finish_poll en i (mark_done (wk_isof en) (wk_clock en 2) i (w_db w))
             (emit_journal_event en 1 (job_tenant j) (job_graph j) ''JOB_DONE'' [idt] jn))"

definition record_failure :: "worker_env \<Rightarrow> job \<Rightarrow> string \<Rightarrow> world \<Rightarrow> (string + nat option) \<times> world" where
  "record_failure en j e w =
     (let i = job_id j; jn = commit_session (wk_sess en) (w_jn w) in
      finish_poll en i (mark_failed (wk_isof en) (wk_clock en 2) i e (w_db w))
        (emit_journal_event en 1 (job_tenant j) (job_graph j) ''JOB_FAILED''
           [(''job_id'', JsStr (wk_id_text en i)), (''error'', JsStr e)] jn))"

text \<open>
  The entry \<open>JOB_STARTED\<close> and the step event, the handler, and the end. The result is the id of
  the job, None when there was none, or the error that leaves the poll.
\<close>

definition poll_and_execute :: "worker_env \<Rightarrow> world \<Rightarrow> (string + nat option) \<times> world" where
  "poll_and_execute en w =
     (case claim_next_of_kinds (wk_isof en) (wk_locked en) (wk_clock en 0) 300 executable_job_kinds (w_db w) of
        (db, None) \<Rightarrow> (Inr None, w\<lparr>w_db := db\<rparr>)
      | (db, Some j) \<Rightarrow>
          (case emit_journal_event en 0 (job_tenant j) (job_graph j) ''JOB_STARTED''
              [(''job_id'', JsStr (wk_id_text en (job_id j))), (''kind'', JsStr (job_kind j))] (w_jn w) of
             (False, jn) \<Rightarrow> (Inl ''PendingRollbackError'', \<lparr>w_db = db, w_jn = rollback_session (wk_sess en) jn\<rparr>)
           | (True, jn) \<Rightarrow>
               (case run_handler en j
                   \<lparr>w_db = append_event (wk_sqlite en) (wk_dbseq en) (wk_clock en 1) (job_id j) ''step_start''
                      [''message'' \<mapsto> JStr (''Starting '' @ job_kind j @ '' job'')] db,
                    w_jn = commit_session (wk_sess en) jn\<rparr> of
                  (Returns, w') \<Rightarrow> record_success en j w'
                | (Raises e, w') \<Rightarrow> record_failure en j e w'
                | (Breaks e, w') \<Rightarrow> (Inl ''PendingRollbackError'', w'\<lparr>w_jn := rollback_session (wk_sess en) (w_jn w')\<rparr>))))"

section \<open>What a poll does with the job\<close>

text \<open>The state the handler of a claimed job starts in.\<close>

definition started :: "worker_env \<Rightarrow> world \<Rightarrow> job \<Rightarrow> world \<Rightarrow> bool" where
  "started en w j w1 \<longleftrightarrow>
     (\<exists>db jn. claim_next_of_kinds (wk_isof en) (wk_locked en) (wk_clock en 0) 300 executable_job_kinds (w_db w) = (db, Some j)
       \<and> emit_journal_event en 0 (job_tenant j) (job_graph j) ''JOB_STARTED''
            [(''job_id'', JsStr (wk_id_text en (job_id j))), (''kind'', JsStr (job_kind j))] (w_jn w) = (True, jn)
       \<and> w1 = \<lparr>w_db = append_event (wk_sqlite en) (wk_dbseq en) (wk_clock en 1) (job_id j) ''step_start''
                [''message'' \<mapsto> JStr (''Starting '' @ job_kind j @ '' job'')] db,
              w_jn = commit_session (wk_sess en) jn\<rparr>)"

lemma poll_started:
  "started en w j w1 \<Longrightarrow> poll_and_execute en w =
     (case run_handler en j w1 of
        (Returns, w') \<Rightarrow> record_success en j w'
      | (Raises e, w') \<Rightarrow> record_failure en j e w'
      | (Breaks e, w') \<Rightarrow> (Inl ''PendingRollbackError'', w'\<lparr>w_jn := rollback_session (wk_sess en) (w_jn w')\<rparr>))"
  by (auto simp: started_def poll_and_execute_def)

lemma emit_fresh:
  assumes "wk_uid en i \<notin> rw_id ` set (all_rows jn)"
  shows "\<exists>row. emit_journal_event en i t g kind payload jn
      = (True, jn\<lparr>jn_next := jn_next jn + 1, jn_open := jn_open jn @ [(wk_sess en, row)]\<rparr>)
    \<and> rw_seq row = jn_next jn \<and> row_of ''default'' g row \<and> rw_kind row = kind \<and> rw_payload row = payload"
  using assms
  by (auto simp: emit_journal_event_def repo_emit_def repo_append_def Let_def all_rows_def row_of_def
      create_event_def from_domain_def)

lemma all_rows_commit_set [simp]: "set (all_rows (commit_session s jn)) = set (all_rows jn)"
  by (metis all_rows_commit set_mset_mset)

lemma finish_ok:
  "fst r \<Longrightarrow> finish_poll en i db r = (Inr (Some i), \<lparr>w_db = db, w_jn = commit_session (wk_sess en) (snd r)\<rparr>)"
  by (simp add: finish_poll_def)

lemma marked_status:
  assumes "find_job i (jobs db) = Some j"
  shows "\<exists>j'. find_job i (jobs (mark_cancelled now i reason db)) = Some j' \<and> job_status j' = Cancelled"
    and "\<not> is_cancel_requested j \<Longrightarrow>
      \<exists>j'. find_job i (jobs (mark_done isof now i db)) = Some j' \<and> job_status j' = Done"
    and "\<not> is_cancel_requested j \<Longrightarrow>
      \<exists>j'. find_job i (jobs (mark_failed isof now i e db)) = Some j' \<and> job_status j' = Failed \<and> job_error j' = Some e"
    and "is_cancel_requested j \<Longrightarrow>
      \<exists>j'. find_job i (jobs (mark_failed isof now i e db)) = Some j' \<and> job_status j' = Cancelled"
  using assms
  by (auto simp: mark_cancelled_def mark_done_def mark_failed_def find_job_upd cancel_row_def Let_def)



section \<open>Who sees the journal entries\<close>


section \<open>Concrete polls\<close>

definition ex_env :: "outcome \<Rightarrow> worker_env" where
  "ex_env res = \<lparr>wk_sha = (\<lambda>s. s), wk_isof = (\<lambda>_. ''T''), wk_sess = 1, wk_sqlite = True, wk_dbseq = 0,
     wk_clock = (\<lambda>i. 1000), wk_uid = (\<lambda>i. replicate i CHR ''x''), wk_locked = (\<lambda>_. False),
     wk_id_text = (\<lambda>_. ''7''), wk_handler = (\<lambda>k j w. (res, w))\<rparr>"

definition ex_row_pending :: job where
  "ex_row_pending = \<lparr>job_id = 7, job_tenant = ''a'', job_graph = ''g'', job_kind = ''evolve'', job_payload = Map.empty,
     job_status = Pending, job_error = None, job_created = 0, job_updated = 0, job_started = None, job_completed = None\<rparr>"

definition ex_world :: world where
  "ex_world = \<lparr>w_db = \<lparr>jobs = [ex_row_pending], job_events = []\<rparr>, w_jn = empty_journal\<rparr>"

definition ex_started :: world where
  "ex_started = \<lparr>w_db = append_event True 0 1000 7 ''step_start'' [''message'' \<mapsto> JStr ''Starting evolve job'']
       \<lparr>jobs = [start_job 1000 ex_row_pending], job_events = []\<rparr>,
     w_jn = commit_session 1 (snd (emit_journal_event (ex_env Returns) 0 ''a'' ''g'' ''JOB_STARTED''
       [(''job_id'', JsStr ''7''), (''kind'', JsStr ''evolve'')] empty_journal))\<rparr>"

lemma kinds_stripped: "filter (\<lambda>k. k \<noteq> []) (map py_strip executable_job_kinds) = executable_job_kinds"
  by code_simp

lemma ex_claim:
  "claim_next_of_kinds (\<lambda>_. ''T'') (\<lambda>_. False) 1000 300 executable_job_kinds \<lparr>jobs = [ex_row_pending], job_events = []\<rparr>
    = (\<lparr>jobs = [start_job 1000 ex_row_pending], job_events = []\<rparr>, Some (start_job 1000 ex_row_pending))"
proof -
  have q: "query_rows (claimable (\<lambda>_. False) 700 executable_job_kinds) job_order [ex_row_pending] = [ex_row_pending]"
    by (simp add: query_rows_def claimable_def ex_row_pending_def executable_job_kinds_def)
  have "\<not> is_cancel_requested ex_row_pending" by (simp add: is_cancel_requested_def ex_row_pending_def)
  then have "claim_loop (\<lambda>_. ''T'') (\<lambda>_. False) 1000 700 executable_job_kinds [ex_row_pending]
      = ([start_job 1000 ex_row_pending], Some (start_job 1000 ex_row_pending))"
    by (subst claim_loop.simps) (simp add: q upd_job_def)
  moreover have "executable_job_kinds \<noteq> []" by (simp add: executable_job_kinds_def)
  ultimately show ?thesis by (simp add: claim_next_of_kinds_def claim_next_internal_def kinds_stripped Let_def)
qed

lemma ex_emit: "fst (emit_journal_event (ex_env res) 0 t g kind pl empty_journal)"
  by (simp add: emit_journal_event_def repo_emit_def repo_append_def empty_journal_def Let_def)

lemma ex_env_fields [simp]:
  "wk_isof (ex_env res) = (\<lambda>_. ''T'')" "wk_locked (ex_env res) = (\<lambda>_. False)" "wk_clock (ex_env res) = (\<lambda>_. 1000)"
  "wk_sqlite (ex_env res) = True" "wk_dbseq (ex_env res) = 0" "wk_sess (ex_env res) = 1"
  "wk_id_text (ex_env res) = (\<lambda>_. ''7'')"
  by (simp_all add: ex_env_def)

lemma ex_pending_fields [simp]: "job_id ex_row_pending = 7" "job_graph ex_row_pending = ''g''"
  by (simp_all add: ex_row_pending_def)

lemma ex_env_res: "emit_journal_event (ex_env res) = emit_journal_event (ex_env Returns)"
  by (simp add: fun_eq_iff emit_journal_event_def ex_env_def)

lemma ex_is_started: "started (ex_env res) ex_world (start_job 1000 ex_row_pending) ex_started"
proof -
  have j: "job_id (start_job 1000 ex_row_pending) = 7" "job_tenant (start_job 1000 ex_row_pending) = ''a''"
    "job_graph (start_job 1000 ex_row_pending) = ''g''" "job_kind (start_job 1000 ex_row_pending) = ''evolve''"
    by (simp_all add: start_job_def ex_row_pending_def)
  obtain jn where jn: "emit_journal_event (ex_env Returns) 0 ''a'' ''g'' ''JOB_STARTED''
      [(''job_id'', JsStr ''7''), (''kind'', JsStr ''evolve'')] empty_journal = (True, jn)"
  proof -
    obtain b jn where e: "emit_journal_event (ex_env Returns) 0 ''a'' ''g'' ''JOB_STARTED''
        [(''job_id'', JsStr ''7''), (''kind'', JsStr ''evolve'')] empty_journal = (b, jn)" by (meson surj_pair)
    have b using ex_emit [of Returns "''a''" "''g''" "''JOB_STARTED''"
        "[(''job_id'', JsStr ''7''), (''kind'', JsStr ''evolve'')]"] unfolding e by simp
    with e that show thesis by simp
  qed
  let ?db = "\<lparr>jobs = [start_job 1000 ex_row_pending], job_events = []\<rparr>"
  have "ex_started = \<lparr>w_db = append_event True 0 1000 7 ''step_start''
      [''message'' \<mapsto> JStr (''Starting '' @ ''evolve'' @ '' job'')] ?db, w_jn = commit_session 1 jn\<rparr>"
    by (simp add: ex_started_def jn)
  moreover have "w_db ex_world = \<lparr>jobs = [ex_row_pending], job_events = []\<rparr>" "w_jn ex_world = empty_journal"
    by (simp_all add: ex_world_def)
  ultimately show ?thesis
    unfolding started_def j ex_env_fields ex_env_res [of res] using ex_claim jn by metis
qed

lemma ex_runs: "run_handler (ex_env res) (start_job 1000 ex_row_pending) ex_started = (res, ex_started)"
  by (simp add: run_handler_def start_job_def ex_row_pending_def executable_job_kinds_def ex_env_def)

lemma ex_journal:
  "all_rows (w_jn ex_started) = jn_rows (w_jn ex_started)" "map rw_id (jn_rows (w_jn ex_started)) = [[]]"
  "jn_open (w_jn ex_started) = []" "journal_ok (w_jn ex_started)"
proof -
  let ?e = "emit_journal_event (ex_env Returns) 0 ''a'' ''g'' ''JOB_STARTED''
       [(''job_id'', JsStr ''7''), (''kind'', JsStr ''evolve'')] empty_journal"
  have "wk_uid (ex_env Returns) 0 \<notin> rw_id ` set (all_rows empty_journal)" by (simp add: all_rows_def empty_journal_def)
  from journal_ok_append [OF journal_ok_empty] journal_ok_commit
  show "journal_ok (w_jn ex_started)"
    by (auto simp: ex_started_def emit_journal_event_def repo_emit_def split: prod.split sum.split)
  show rows: "map rw_id (jn_rows (w_jn ex_started)) = [[]]" "jn_open (w_jn ex_started) = []"
    by (simp_all add: ex_started_def emit_journal_event_def repo_emit_def repo_append_def Let_def empty_journal_def
        commit_session_def visible_def create_event_def ex_env_def)
  then show "all_rows (w_jn ex_started) = jn_rows (w_jn ex_started)" by (simp add: all_rows_def)
qed

lemma ex_fresh_id: "wk_uid (ex_env res) 1 \<notin> rw_id ` set (all_rows (w_jn ex_started))"
proof -
  have "rw_id ` set (jn_rows (w_jn ex_started)) = {[]}" using ex_journal(2) by (metis list.set(1) list.set(2) set_map)
  then show ?thesis by (simp add: ex_journal(1) ex_env_def)
qed

lemma ex_job_row: "\<exists>row. find_job 7 (jobs (w_db ex_started)) = Some row \<and> \<not> is_cancel_requested row"
  by (simp add: ex_started_def append_event_def find_job_def upd_job_def start_job_def ex_row_pending_def
      is_cancel_requested_def)

lemma ex_started_id: "job_id (start_job 1000 ex_row_pending) = 7" "job_graph (start_job 1000 ex_row_pending) = ''g''"
  by (simp_all add: start_job_def ex_row_pending_def)




end
