(* ===== verification/FM_Inheritance.thy ===== *)
theory FM_Inheritance
  imports FM_Edge_Repo
begin

text \<open>
  The inheritance operator, \<open>core/operators/inheritance.py\<close>: which nodes become the parents of a
  new node, with which fractions, and how novel the node is. Floats are real numbers, so sums have
  no rounding error of their own; \<open>round(x, 10)\<close> is the rounding to ten decimals, half to even.

  The lemmas show the bounds of the cosine, that the parents are the best candidates, that the
  fractions sum to one, and, with the edge repository, that the fractions read back still do within
  the tolerance of the invariant check.
\<close>

section \<open>Rounding\<close>

definition round_even :: "real \<Rightarrow> int" where
  "round_even y =
     (let f = \<lfloor>y\<rfloor>; d = y - of_int f in
      if d < 1 / 2 then f else if d > 1 / 2 then f + 1 else if even f then f else f + 1)"

definition round10 :: "real \<Rightarrow> real" where
  "round10 x = of_int (round_even (x * 10 ^ 10)) / 10 ^ 10"

lemma round_even_error: "\<bar>of_int (round_even y) - y\<bar> \<le> 1 / 2"
  unfolding round_even_def Let_def by (auto simp: abs_le_iff)

lemma round_even_of_int [simp]: "round_even (of_int n) = n"
  by (simp add: round_even_def)

lemma round_even_mono: "x \<le> y \<Longrightarrow> round_even x \<le> round_even y"
proof (cases "\<lfloor>x\<rfloor> = \<lfloor>y\<rfloor>")
  case True
  assume "x \<le> y"
  with True show ?thesis by (auto simp: round_even_def Let_def)
next
  case False
  assume xy: "x \<le> y"
  then have "\<lfloor>x\<rfloor> + 1 \<le> \<lfloor>y\<rfloor>" using False floor_mono [OF xy] by simp
  moreover have "round_even x \<le> \<lfloor>x\<rfloor> + 1" "\<lfloor>y\<rfloor> \<le> round_even y" by (auto simp: round_even_def Let_def)
  ultimately show ?thesis by linarith
qed

lemma round10_error: "\<bar>round10 x - x\<bar> \<le> 1 / (2 * 10 ^ 10)"
proof -
  have "round10 x - x = (of_int (round_even (x * 10 ^ 10)) - x * 10 ^ 10) / 10 ^ 10"
    by (simp add: round10_def diff_divide_distrib)
  moreover have "\<bar>of_int (round_even (x * 10 ^ 10)) - x * 10 ^ 10\<bar> / 10 ^ 10 \<le> 1 / 2 / 10 ^ 10"
    using round_even_error by (rule divide_right_mono) simp
  moreover have "\<bar>(of_int (round_even (x * 10 ^ 10)) - x * 10 ^ 10) / 10 ^ 10\<bar>
      = \<bar>of_int (round_even (x * 10 ^ 10)) - x * 10 ^ 10\<bar> / 10 ^ 10" by (simp only: abs_divide) simp
  ultimately show ?thesis by (metis divide_divide_eq_left)
qed

lemma round10_scaled: "round10 (of_int n / 10 ^ 10) = of_int n / 10 ^ 10"
  by (simp add: round10_def)

lemma round10_mono: "x \<le> y \<Longrightarrow> round10 x \<le> round10 y"
  unfolding round10_def by (intro divide_right_mono of_int_le_iff [THEN iffD2] round_even_mono) simp_all

lemma round10_0 [simp]: "round10 0 = 0" and round10_1 [simp]: "round10 1 = 1"
  using round10_scaled [of 0] round10_scaled [of "10 ^ 10"] by simp_all

section \<open>The operator\<close>

type_synonym candidate = "string \<times> real list"

definition dot :: "real list \<Rightarrow> real list \<Rightarrow> real" where
  "dot a b = sum_list (map (\<lambda>(x, y). x * y) (zip a b))"

definition cosine_similarity :: "real list \<Rightarrow> real list \<Rightarrow> real" where
  "cosine_similarity a b =
     (if length a \<noteq> length b then 0
      else
        let na = sqrt (sum_list (map (\<lambda>x. x * x) a)); nb = sqrt (sum_list (map (\<lambda>x. x * x) b)) in
        if na = 0 \<or> nb = 0 then 0 else dot a b / (na * nb))"

definition score_order :: "string \<times> real \<Rightarrow> real \<times> string" where
  "score_order x = (- snd x, fst x)"

definition select_parents :: "real list \<Rightarrow> candidate list \<Rightarrow> int \<Rightarrow> (string \<times> real) list" where
  "select_parents child candidates k =
     filter (\<lambda>x. snd x > 0) (py_first k (sort_key score_order
       (map (\<lambda>(i, v). (i, cosine_similarity child v)) candidates)))"

definition compute_fractions :: "real list \<Rightarrow> real list" where
  "compute_fractions ss =
     (case ss of [] \<Rightarrow> [] | [_] \<Rightarrow> [1]
      | _ \<Rightarrow>
          let total = sum_list ss in
          if total = 0 then replicate (length ss) (1 / of_nat (length ss))
          else
            let rounded = map (\<lambda>s. round10 (s / total)) ss;
                diff = 1 - sum_list (butlast rounded)
            in butlast rounded @ [round10 diff])"

fun add_weighted :: "real list \<Rightarrow> (real list \<times> real) list \<Rightarrow> real list" where
  "add_weighted mix [] = mix"
| "add_weighted mix ((pv, f) # ps) =
     add_weighted (if length pv = length mix then map2 (\<lambda>m p. m + p * f) mix pv else mix) ps"

definition compute_residual :: "real list \<Rightarrow> real list list \<Rightarrow> real list \<Rightarrow> real" where
  "compute_residual child pvs fs =
     (if pvs = [] \<or> fs = [] then 1
      else if length pvs \<noteq> length fs then 1
      else
        let mix = add_weighted (replicate (length child) 0) (zip pvs fs)
        in round10 (1 - max 0 (min 1 (cosine_similarity child mix))))"

record inheritance_plan =
  pl_parents :: "string list"
  pl_fractions :: "real list"
  pl_residual :: real
  pl_similarities :: "real list"

definition parent_vectors :: "candidate list \<Rightarrow> string list \<Rightarrow> real list list" where
  "parent_vectors candidates ids =
     concat (map (\<lambda>i. case find (\<lambda>c. fst c = i) candidates of None \<Rightarrow> [] | Some c \<Rightarrow> [snd c]) ids)"

definition empty_plan :: inheritance_plan where
  "empty_plan = \<lparr>pl_parents = [], pl_fractions = [], pl_residual = 1, pl_similarities = []\<rparr>"

definition compute_inheritance_plan :: "real list \<Rightarrow> candidate list \<Rightarrow> int \<Rightarrow> inheritance_plan" where
  "compute_inheritance_plan child candidates k =
     (if candidates = [] then empty_plan
      else
        let sel = select_parents child candidates k in
        if sel = [] then empty_plan
        else
          let ids = map fst sel; sims = map snd sel; fs = compute_fractions sims
          in \<lparr>pl_parents = ids, pl_fractions = fs,
              pl_residual = compute_residual child (parent_vectors candidates ids) fs, pl_similarities = sims\<rparr>)"

definition verify_fraction_sum :: "real list \<Rightarrow> real \<Rightarrow> bool" where
  "verify_fraction_sum fs tolerance \<longleftrightarrow> (fs = [] \<or> \<bar>sum_list fs - 1\<bar> \<le> tolerance)"

section \<open>The cosine\<close>

lemma square_expand:
  "length a = length b \<Longrightarrow>
     sum_list (map (\<lambda>(x, y). (p * x - q * y) * (p * x - q * y)) (zip a b))
       = p * p * sum_list (map (\<lambda>x. x * x) a) - 2 * p * q * dot a b + q * q * sum_list (map (\<lambda>x. x * x) b)"
  for p q :: real
  by (induction a b rule: list_induct2) (simp_all add: dot_def algebra_simps)

lemma squares_nonneg: "0 \<le> sum_list (map (\<lambda>x. x * x) a)" for a :: "real list"
  by (induction a) simp_all

lemma dot_bound:
  assumes "length a = length b"
  shows "(dot a b)\<^sup>2 \<le> sum_list (map (\<lambda>x. x * x) a) * sum_list (map (\<lambda>x. x * x) b)"
proof -
  let ?A = "sum_list (map (\<lambda>x. x * x) a)" and ?B = "sum_list (map (\<lambda>x. x * x) b)" and ?D = "dot a b"
  have pos: "0 \<le> p * p * ?A - 2 * p * q * ?D + q * q * ?B" for p q
  proof -
    have "0 \<le> sum_list (map (\<lambda>(x, y). (p * x - q * y) * (p * x - q * y)) (zip a b))"
      by (intro sum_list_nonneg) auto
    then show ?thesis using square_expand [OF assms] by simp
  qed
  show ?thesis
  proof (cases "?B = 0")
    case True
    have "?D = 0"
    proof (rule ccontr)
      assume "?D \<noteq> 0"
      with pos [of 1 "(?A + 1) / (2 * ?D)"] True show False by (simp add: field_simps)
    qed
    then show ?thesis using True by simp
  next
    case False
    then have B: "0 < ?B" using squares_nonneg [of b] by simp
    have "0 \<le> ?B * (?A * ?B - ?D * ?D)" using pos [of ?B ?D] by (simp add: algebra_simps)
    then have "0 \<le> ?A * ?B - ?D * ?D" using B by (simp add: zero_le_mult_iff)
    then show ?thesis by (simp add: power2_eq_square)
  qed
qed

lemma cosine_bounds: "\<bar>cosine_similarity a b\<bar> \<le> 1"
proof -
  let ?A = "sum_list (map (\<lambda>x. x * x) a)" and ?B = "sum_list (map (\<lambda>x. x * x) b)"
  have "\<bar>dot a b / (sqrt ?A * sqrt ?B)\<bar> \<le> 1" if len: "length a = length b" and ne: "sqrt ?A \<noteq> 0" "sqrt ?B \<noteq> 0"
  proof -
    define c where "c = sqrt ?A * sqrt ?B"
    have pos: "0 < c" using ne squares_nonneg [of a] squares_nonneg [of b] by (simp add: c_def)
    have "\<bar>dot a b\<bar> \<le> sqrt (?A * ?B)"
      using real_sqrt_le_mono [OF dot_bound [OF len]] by (simp add: real_sqrt_abs)
    then have "\<bar>dot a b\<bar> \<le> c" by (simp add: c_def real_sqrt_mult)
    then show ?thesis using pos unfolding c_def [symmetric] by (simp add: abs_divide)
  qed
  then show ?thesis by (simp add: cosine_similarity_def Let_def)
qed

section \<open>Fractions\<close>

definition decimal10 :: "real \<Rightarrow> bool" where
  "decimal10 x \<longleftrightarrow> (\<exists>n. x = of_int n / 10 ^ 10)"

lemma decimal10_round: "decimal10 (round10 x)"
  unfolding decimal10_def round10_def by blast

lemma decimal10_add: "decimal10 x \<Longrightarrow> decimal10 y \<Longrightarrow> decimal10 (x + y)"
  unfolding decimal10_def by (metis add_divide_distrib of_int_add)

lemma decimal10_sum: "\<forall>x \<in> set xs. decimal10 x \<Longrightarrow> decimal10 (sum_list xs)"
proof (induction xs)
  case Nil
  then show ?case by (simp add: decimal10_def exI [of _ 0])
qed (simp add: decimal10_add)

lemma round_rest: "decimal10 x \<Longrightarrow> round10 (1 - x) = 1 - x"
proof -
  assume "decimal10 x"
  then obtain n where "x = of_int n / 10 ^ 10" unfolding decimal10_def by blast
  then have "1 - x = of_int (10 ^ 10 - n) / 10 ^ 10" by (simp add: diff_divide_distrib)
  then show ?thesis using round10_scaled by metis
qed

lemma fractions_long:
  assumes "2 \<le> length ss" "sum_list ss \<noteq> 0"
  shows "compute_fractions ss = map (\<lambda>s. round10 (s / sum_list ss)) (butlast ss)
    @ [1 - sum_list (map (\<lambda>s. round10 (s / sum_list ss)) (butlast ss))]"
proof -
  obtain a b r where ss: "ss = a # b # r" using assms(1) by (cases ss; cases "tl ss") auto
  let ?r = "map (\<lambda>s. round10 (s / sum_list ss)) (butlast ss)"
  have "round10 (1 - sum_list ?r) = 1 - sum_list ?r"
    by (intro round_rest decimal10_sum) (auto simp: decimal10_round)
  moreover have "compute_fractions ss = ?r @ [round10 (1 - sum_list ?r)]"
    using assms(2) unfolding compute_fractions_def ss by (simp add: Let_def map_butlast)
  ultimately show ?thesis by simp
qed

lemma sum_errors:
  assumes "\<And>x. \<bar>f x - g x\<bar> \<le> c"
  shows "\<bar>sum_list (map f xs) - sum_list (map g xs)\<bar> \<le> of_nat (length xs) * (c :: real)"
proof (induction xs)
  case (Cons x xs)
  have "\<bar>sum_list (map f (x # xs)) - sum_list (map g (x # xs))\<bar>
      \<le> \<bar>f x - g x\<bar> + \<bar>sum_list (map f xs) - sum_list (map g xs)\<bar>" by simp
  also have "\<dots> \<le> c + of_nat (length xs) * c" using Cons.IH assms [of x] by (rule add_mono [rotated])
  finally show ?case by (simp add: algebra_simps)
qed simp

lemma sum_list_shares: "sum_list (map (\<lambda>s. s / c) xs) = sum_list xs / c" for c :: real
  by (induction xs) (simp_all add: add_divide_distrib)

lemma fractions_sum:
  assumes "ss \<noteq> []"
  shows "sum_list (compute_fractions ss) = 1 \<and> length (compute_fractions ss) = length ss"
proof (cases "length ss = 1 \<or> sum_list ss = 0")
  case True
  then show ?thesis using assms
    by (cases ss; cases "tl ss") (auto simp: compute_fractions_def sum_list_replicate Let_def add_divide_distrib [symmetric])
next
  case False
  then have "2 \<le> length ss" using assms by (cases ss; cases "tl ss") auto
  with False show ?thesis by (simp add: fractions_long)
qed

text \<open>
  The fractions of a non-empty list of similarities sum to exactly one, one for each, and (unless
  all similarities cancel) each is its similarity's share up to half a unit of the tenth decimal for
  each of the other parents; the last one carries the rounding of the others.
\<close>

theorem fractions_sum_to_one:
  assumes "ss \<noteq> []"
  shows "sum_list (compute_fractions ss) = 1 \<and> length (compute_fractions ss) = length ss
    \<and> (sum_list ss \<noteq> 0 \<longrightarrow>
        (\<forall>i < length ss. \<bar>compute_fractions ss ! i - ss ! i / sum_list ss\<bar>
          \<le> of_nat (length ss - 1) * (1 / (2 * 10 ^ 10))))"
proof -
  have "\<bar>compute_fractions ss ! i - ss ! i / sum_list ss\<bar> \<le> of_nat (length ss - 1) * (1 / (2 * 10 ^ 10))"
    if i: "i < length ss" and tot: "sum_list ss \<noteq> 0" for i
  proof (cases "length ss = 1")
    case True
    then obtain s where "ss = [s]" by (cases ss) auto
    then show ?thesis using i tot by (simp add: compute_fractions_def)
  next
    case False
    then have two: "2 \<le> length ss" using i by simp
    let ?f = "\<lambda>s. round10 (s / sum_list ss)" and ?g = "\<lambda>s. s / sum_list ss"
    show ?thesis
    proof (cases "i < length ss - 1")
      case True
      then have "compute_fractions ss ! i = ?f (ss ! i)"
        using fractions_long [OF two tot] by (simp add: nth_append nth_butlast)
      then have "\<bar>compute_fractions ss ! i - ss ! i / sum_list ss\<bar> \<le> 1 * (1 / (2 * 10 ^ 10))"
        using round10_error by simp
      also have "\<dots> \<le> of_nat (length ss - 1) * (1 / (2 * 10 ^ 10))"
        using two by (intro mult_right_mono) (simp_all add: of_nat_diff)
      finally show ?thesis .
    next
      case False
      then have last: "i = length ss - 1" using i by simp
      have ss: "butlast ss @ [ss ! i] = ss" using two last append_butlast_last_id [of ss] by (cases "ss = []") (auto simp: last_conv_nth)
      have "sum_list (map ?g (butlast ss)) + ss ! i / sum_list ss = sum_list (map ?g (butlast ss @ [ss ! i]))" by simp
      also have "\<dots> = sum_list ss / sum_list ss" unfolding ss by (simp only: sum_list_shares)
      finally have g: "sum_list (map ?g (butlast ss)) + ss ! i / sum_list ss = 1" using tot by simp
      have "compute_fractions ss ! i = 1 - sum_list (map ?f (butlast ss))"
        using fractions_long [OF two tot] last by (simp add: nth_append)
      moreover have "\<bar>sum_list (map ?f (butlast ss)) - sum_list (map ?g (butlast ss))\<bar>
          \<le> of_nat (length (butlast ss)) * (1 / (2 * 10 ^ 10))"
        by (rule sum_errors) (rule round10_error)
      moreover from calculation(1) g have "compute_fractions ss ! i - ss ! i / sum_list ss
          = sum_list (map ?g (butlast ss)) - sum_list (map ?f (butlast ss))" by linarith
      ultimately show ?thesis by (simp only: abs_minus_commute length_butlast)
    qed
  qed
  then show ?thesis using fractions_sum [OF assms] by blast
qed

section \<open>The plan\<close>

lemma residual_bounds: "0 \<le> compute_residual child pvs fs \<and> compute_residual child pvs fs \<le> 1"
proof -
  have "0 \<le> round10 (1 - max 0 (min 1 c)) \<and> round10 (1 - max 0 (min 1 c)) \<le> 1" for c
    using round10_mono [of 0 "1 - max 0 (min 1 c)"] round10_mono [of "1 - max 0 (min 1 c)" 1] by simp
  then show ?thesis by (simp add: compute_residual_def Let_def)
qed

lemma select_mem:
  "x \<in> set (select_parents child cs k) \<Longrightarrow>
     0 < snd x \<and> (\<exists>v. (fst x, v) \<in> set cs \<and> snd x = cosine_similarity child v)"
  unfolding select_parents_def by (auto dest!: subsetD [OF set_py_first]) blast

lemma select_sorted: "sorted (map score_order (select_parents child cs k))"
proof -
  let ?s = "sort_key score_order (map (\<lambda>(i, v). (i, cosine_similarity child v)) cs)"
  have "sorted_wrt (\<lambda>x y. score_order x \<le> score_order y) ?s" using sorted_sort_key sorted_map by blast
  then have "sorted_wrt (\<lambda>x y. score_order x \<le> score_order y) (py_first k ?s)"
    by (simp add: py_first_def sorted_wrt_take)
  then show ?thesis unfolding select_parents_def sorted_map by (rule sorted_wrt_filter)
qed

lemma select_length: "0 \<le> k \<Longrightarrow> length (select_parents child cs k) \<le> nat k"
  unfolding select_parents_def by (rule order_trans [OF length_filter_le]) (simp add: py_first_def)

lemma select_best:
  assumes "(i, v) \<in> set cs" "0 < cosine_similarity child v" "0 \<le> k"
    and "(i, cosine_similarity child v) \<notin> set (select_parents child cs k)"
  shows "length (select_parents child cs k) = nat k
    \<and> (\<forall>x \<in> set (select_parents child cs k). cosine_similarity child v \<le> snd x)"
proof -
  let ?s = "sort_key score_order (map (\<lambda>(i, v). (i, cosine_similarity child v)) cs)"
  let ?c = "(i, cosine_similarity child v)"
  have sel: "select_parents child cs k = filter (\<lambda>x. snd x > 0) (take (nat k) ?s)"
    using assms(3) by (simp add: select_parents_def py_first_def)
  have "?c \<in> set ?s" using assms(1) by force
  moreover have "?c \<notin> set (take (nat k) ?s)" using assms(2,4) by (simp add: sel)
  ultimately have late: "?c \<in> set (drop (nat k) ?s)" by (metis Un_iff append_take_drop_id set_append)
  have "sorted_wrt (\<lambda>x y. score_order x \<le> score_order y) (take (nat k) ?s @ drop (nat k) ?s)"
    using sorted_sort_key [of score_order] sorted_map by (metis append_take_drop_id)
  then have "\<forall>x \<in> set (take (nat k) ?s). score_order x \<le> score_order ?c"
    using late unfolding sorted_wrt_append by blast
  then have better: "\<forall>x \<in> set (take (nat k) ?s). cosine_similarity child v \<le> snd x"
    by (auto simp: score_order_def less_eq_prod_def)
  then have "filter (\<lambda>x. snd x > 0) (take (nat k) ?s) = take (nat k) ?s"
    using assms(2) by (auto simp: filter_id_conv intro: less_le_trans)
  moreover have "nat k \<le> length ?s" using late by (cases "nat k \<le> length ?s") auto
  ultimately show ?thesis using better sel by simp
qed

lemma plan_fields:
  "pl_parents (compute_inheritance_plan child cs k) = map fst (select_parents child cs k)"
  "pl_similarities (compute_inheritance_plan child cs k) = map snd (select_parents child cs k)"
  "pl_fractions (compute_inheritance_plan child cs k) = compute_fractions (map snd (select_parents child cs k))"
proof -
  have "select_parents child [] k = []" by (simp add: select_parents_def py_first_def)
  then show "pl_parents (compute_inheritance_plan child cs k) = map fst (select_parents child cs k)"
    "pl_similarities (compute_inheritance_plan child cs k) = map snd (select_parents child cs k)"
    "pl_fractions (compute_inheritance_plan child cs k) = compute_fractions (map snd (select_parents child cs k))"
    by (auto simp: compute_inheritance_plan_def empty_plan_def Let_def compute_fractions_def)
qed

text \<open>
  The plan takes the best candidates: at most k parents, each a candidate whose cosine with the
  child is its similarity, positive and at most one, from the most similar down; a candidate of
  positive similarity is left out only if k others at least as similar were taken. The fractions
  sum to one if there is a parent, and the residual is between 0 and 1.
\<close>

theorem plan_takes_best:
  assumes "0 \<le> k" "plan = compute_inheritance_plan child cs k"
    and "sel = zip (pl_parents plan) (pl_similarities plan)"
  shows "length (pl_parents plan) \<le> nat k \<and> length (pl_similarities plan) = length (pl_parents plan)
    \<and> (\<forall>(i, s) \<in> set sel. 0 < s \<and> s \<le> 1 \<and> (\<exists>v. (i, v) \<in> set cs \<and> s = cosine_similarity child v))
    \<and> sorted (rev (pl_similarities plan))
    \<and> (\<forall>(i, v) \<in> set cs. 0 < cosine_similarity child v \<and> (i, cosine_similarity child v) \<notin> set sel \<longrightarrow>
          length (pl_parents plan) = nat k \<and> (\<forall>s \<in> set (pl_similarities plan). cosine_similarity child v \<le> s))
    \<and> (pl_parents plan \<noteq> [] \<longrightarrow> sum_list (pl_fractions plan) = 1)
    \<and> 0 \<le> pl_residual plan \<and> pl_residual plan \<le> 1"
proof -
  let ?s = "select_parents child cs k"
  note f = plan_fields [of child cs k, folded assms(2)]
  have sel: "sel = ?s" unfolding assms(3) f by (rule zip_map_fst_snd)
  have res: "0 \<le> pl_residual plan \<and> pl_residual plan \<le> 1"
    using residual_bounds by (simp add: assms(2) compute_inheritance_plan_def empty_plan_def Let_def)
  have mem: "0 < s \<and> s \<le> 1 \<and> (\<exists>v. (i, v) \<in> set cs \<and> s = cosine_similarity child v)" if "(i, s) \<in> set ?s" for i s
    using select_mem [OF that] cosine_bounds by (auto simp: abs_le_iff)
  have "sorted_wrt (\<lambda>x y. snd y \<le> snd x) ?s"
    using select_sorted [of child cs k] unfolding sorted_map
    by (rule sorted_wrt_mono_rel [rotated]) (auto simp: score_order_def less_eq_prod_def)
  then have sorted: "sorted (rev (map snd ?s))"
    unfolding sorted_wrt_rev sorted_wrt_map .
  have best: "length ?s = nat k \<and> (\<forall>x \<in> set ?s. cosine_similarity child v \<le> snd x)"
    if "(i, v) \<in> set cs" "0 < cosine_similarity child v" "(i, cosine_similarity child v) \<notin> set ?s" for i v
    using select_best [OF that(1,2) assms(1) that(3)] .
  show ?thesis
    unfolding sel f using mem sorted res select_length [OF assms(1), of child cs] best
      fractions_sum [of "map snd ?s"] by (auto; force)
qed

section \<open>Stored fractions\<close>

text \<open>Storing loses less than one billionth of each fraction.\<close>

lemma stored_sum:
  assumes "set_inheritance_parents pg fresh now t g child ps ms rows = Inr (rows', ids)"
    and "coerce_uuid child = Some child"
  shows "\<bar>sum_list (map snd (list_parents t g child rows')) - sum_list (map snd ps)\<bar>
    \<le> of_nat (length ps) * (1 / 10 ^ 9)"
proof -
  let ?w = "\<lambda>x. from_scaled (to_scaled (snd x))"
  have "mset (map snd (list_parents t g child rows')) = mset (map snd (map (\<lambda>(p, f). (p, from_scaled (to_scaled f))) ps))"
    using parents_after_set(1) [OF assms] by (metis mset_map)
  then have "sum_mset (mset (map snd (list_parents t g child rows')))
      = sum_mset (mset (map snd (map (\<lambda>(p, f). (p, from_scaled (to_scaled f))) ps)))" by (rule arg_cong)
  then have "sum_list (map snd (list_parents t g child rows')) = sum_list (map ?w ps)"
    unfolding sum_mset_sum_list by (simp add: case_prod_beta comp_def)
  moreover have "\<bar>sum_list (map ?w ps) - sum_list (map snd ps)\<bar> \<le> of_nat (length ps) * (1 / 10 ^ 9)"
    using scaled_error by (intro sum_errors) (simp add: less_imp_le)
  ultimately show ?thesis by simp
qed

section \<open>Concrete plans\<close>

text \<open>Rounding up seven equal shares leaves a negative share for an eighth, tiny similarity.\<close>

lemma last_fraction_negative:
  "compute_fractions [1, 1, 1, 1, 1, 1, 1, 1 / 10 ^ 12] ! 7 < 0"
proof -
  let ?t = "7000000000001 / 1000000000000 :: real"
  have tot: "sum_list [1, 1, 1, 1, 1, 1, 1, 1 / 10 ^ 12] = ?t" by simp
  have one: "round_even (1 / ?t * 10 ^ 10) = 1428571429"
  proof -
    have "\<lfloor>1 / ?t * 10 ^ 10\<rfloor> = 1428571428" by (rule floor_unique) simp_all
    then show ?thesis by (simp add: round_even_def Let_def)
  qed
  then have "round10 (1 / ?t) = 1428571429 / 10 ^ 10" by (simp add: round10_def)
  then have "1 - sum_list (map (\<lambda>s. round10 (s / ?t)) [1, 1, 1, 1, 1, 1, 1]) < 0" by simp
  moreover have "compute_fractions [1, 1, 1, 1, 1, 1, 1, 1 / 10 ^ 12] ! 7
      = 1 - sum_list (map (\<lambda>s. round10 (s / ?t)) [1, 1, 1, 1, 1, 1, 1])"
    using fractions_long [of "[1, 1, 1, 1, 1, 1, 1, 1 / 10 ^ 12]"] unfolding tot by simp
  ultimately show ?thesis by linarith
qed

lemma fractions_sum_to_one_witness: "sum_list (compute_fractions [1, 1, 2 :: real]) = 1"
  using fractions_sum_to_one [of "[1, 1, 2]"] by simp

definition ex_candidates :: "candidate list" where
  "ex_candidates = [(''p'', [1, 0]), (''q'', [0, 1])]"

lemma ex_cosines: "cosine_similarity [2, 0] [1, 0] = 1" "cosine_similarity [2, 0] [0, 1] = 0"
  by (simp_all add: cosine_similarity_def dot_def Let_def)

lemma ex_select: "select_parents [2, 0] ex_candidates 8 = [(''p'', 1)]"
  by (simp add: select_parents_def ex_candidates_def ex_cosines score_order_def py_first_def less_eq_prod_def)

lemma plan_takes_best_witness:
  "pl_residual (compute_inheritance_plan [2, 0] ex_candidates 8) \<le> 1
    \<and> sum_list (pl_fractions (compute_inheritance_plan [2, 0] ex_candidates 8)) = 1"
  using plan_takes_best [of 8 _ "[2, 0]" ex_candidates, OF _ refl refl]
    plan_fields(1) [of "[2, 0]" ex_candidates 8] by (simp add: ex_select)

end
