(* ===== verification/FM_Invariants.thy ===== *)
theory FM_Invariants
  imports FM_Inheritance FM_Node_Repo
begin

text \<open>
  The invariant checks of \<open>core/invariants.py\<close> on the node and edge tables. The text of a float is
  the parameter \<open>fmt\<close>; a vector that is checked for NaN and infinities is given as Python floats.
  \<open>check_event_coverage\<close> gets the number of listed events (\<open>EventRepo\<close> has no \<open>list\<close>).

  The lemmas show when the checks pass, and that storing a plan of the inheritance operator keeps
  the check of the fraction sums passing.
\<close>

section \<open>Results\<close>

record invariant_result =
  ir_passed :: bool
  ir_checks :: "(string \<times> bool \<times> string) list"
  ir_errors :: "string list"

definition new_result :: invariant_result where
  "new_result = \<lparr>ir_passed = True, ir_checks = [], ir_errors = []\<rparr>"

definition add_check :: "string \<Rightarrow> bool \<Rightarrow> string \<Rightarrow> invariant_result \<Rightarrow> invariant_result" where
  "add_check name passed details r =
     (let r' = r\<lparr>ir_checks := ir_checks r @ [(name, passed, details)]\<rparr> in
      if passed then r'
      else r'\<lparr>ir_passed := False, ir_errors := ir_errors r @ [name @ '': '' @ details]\<rparr>)"

text \<open>Merging the result of a group of checks.\<close>

definition merge_result :: "invariant_result \<Rightarrow> invariant_result \<Rightarrow> invariant_result" where
  "merge_result r s = \<lparr>ir_passed = (ir_passed r \<and> ir_passed s), ir_checks = ir_checks r @ ir_checks s,
     ir_errors = ir_errors r @ ir_errors s\<rparr>"

section \<open>Checks on the graph\<close>

definition sum_check :: "(real \<Rightarrow> string) \<Rightarrow> real \<Rightarrow> string \<Rightarrow> string \<Rightarrow> edge_row list \<Rightarrow> node_row \<Rightarrow>
    invariant_result \<Rightarrow> invariant_result" where
  "sum_check fmt tolerance t g edges n r =
     (let parents = list_parents t g (nd_id n) edges; total = sum_list (map snd parents);
          name = ''inheritance_sum_'' @ nd_id n in
      if parents = [] then r
      else if \<bar>total - 1\<bar> > tolerance
      then add_check name False (''Sum='' @ fmt total @ '', expected=1.0 '' @ [CHR 0xC2, CHR 0xB1] @ '' '' @ fmt tolerance) r
      else add_check name True [] r)"

definition check_inheritance_sum :: "(real \<Rightarrow> string) \<Rightarrow> real \<Rightarrow> string \<Rightarrow> string \<Rightarrow> node_row list \<Rightarrow> edge_row list \<Rightarrow>
    invariant_result" where
  "check_inheritance_sum fmt tolerance t g nodes edges =
     fold (sum_check fmt tolerance t g edges) (list_nodes t g 10000 0 nodes) new_result"

datatype pyfloat = Fin real | NaN | Inf bool

definition bounded_check :: "(real \<Rightarrow> string) \<Rightarrow> (node_row \<Rightarrow> pyfloat list) \<Rightarrow> node_row \<Rightarrow> invariant_result \<Rightarrow>
    invariant_result" where
  "bounded_check fmt vec n r =
     (let vs = vec n; nan = NaN \<in> set vs; inf = (Inf True \<in> set vs \<or> Inf False \<in> set vs);
          residual = from_scaled (nd_residual n);
          r1 = (if nan then add_check (''no_nan_'' @ nd_id n) False ''Vector contains NaN'' r
                else add_check (''no_nan_'' @ nd_id n) True [] r);
          r2 = (if inf then add_check (''no_inf_'' @ nd_id n) False ''Vector contains Inf'' r1
                else add_check (''no_inf_'' @ nd_id n) True [] r1);
          r3 = (if nan \<or> inf
                then add_check (''finite_norm_'' @ nd_id n) False
                       (''Norm is not finite: '' @ (if nan then ''nan'' else ''inf'')) r2
                else add_check (''finite_norm_'' @ nd_id n) True [] r2)
      in if residual < 0 \<or> residual > 1
         then add_check (''residual_bounded_'' @ nd_id n) False
                (''Residual='' @ fmt residual @ '', expected [0,1]'') r3
         else add_check (''residual_bounded_'' @ nd_id n) True [] r3)"

definition check_boundedness :: "(real \<Rightarrow> string) \<Rightarrow> (node_row \<Rightarrow> pyfloat list) \<Rightarrow> string \<Rightarrow> string \<Rightarrow> node_row list \<Rightarrow>
    invariant_result" where
  "check_boundedness fmt vec t g nodes = fold (bounded_check fmt vec) (list_nodes t g 10000 0 nodes) new_result"

definition check_event_coverage :: "nat \<Rightarrow> int \<Rightarrow> invariant_result" where
  "check_event_coverage listed expected =
     (let details = ''Found '' @ nat_str listed @ '' events (expected >= '' @ int_str expected @ '')'' in
      add_check ''event_coverage'' (int listed \<ge> expected) details new_result)"

definition check_all_invariants :: "(real \<Rightarrow> string) \<Rightarrow> (node_row \<Rightarrow> pyfloat list) \<Rightarrow> string \<Rightarrow> string \<Rightarrow> node_row list \<Rightarrow>
    edge_row list \<Rightarrow> invariant_result" where
  "check_all_invariants fmt vec t g nodes edges =
     merge_result (merge_result new_result (check_inheritance_sum fmt (1 / 10 ^ 6) t g nodes edges))
       (check_boundedness fmt vec t g nodes)"

definition check_no_orphan_edges :: "string \<Rightarrow> string \<Rightarrow> node_row list \<Rightarrow> edge_row list \<Rightarrow> invariant_result" where
  "check_no_orphan_edges t g nodes edges =
     (let es = list_all_edges t g 10000 edges; ids = nd_id ` set (list_nodes t g 10000 0 nodes);
          orphans = length (filter (\<lambda>e. er_src e \<notin> ids) es) + length (filter (\<lambda>e. er_dst e \<notin> ids) es) in
      if orphans = 0
      then add_check ''no_orphan_edges'' True (''All '' @ nat_str (length es) @ '' edges have valid node references'') new_result
      else add_check ''no_orphan_edges'' False (''Found '' @ nat_str orphans @ '' orphan edge references'') new_result)"

section \<open>Range checks\<close>

definition check_scaling_bounds :: "(real \<Rightarrow> string) \<Rightarrow> real \<Rightarrow> invariant_result" where
  "check_scaling_bounds fmt s =
     (if 0 < s \<and> s \<le> 1 then add_check ''scaling_bounds'' True (''s='' @ fmt s @ '' is in (0, 1]'') new_result
      else add_check ''scaling_bounds'' False (''s='' @ fmt s @ '' is NOT in (0, 1]'') new_result)"

definition check_D_range :: "(real \<Rightarrow> string) \<Rightarrow> real \<Rightarrow> real \<Rightarrow> invariant_result" where
  "check_D_range fmt d d_max =
     (if 0 \<le> d \<and> d \<le> d_max
      then add_check ''D_range'' True (''D='' @ fmt d @ '' is in [0, '' @ fmt d_max @ '']'') new_result
      else add_check ''D_range'' False (''D='' @ fmt d @ '' is NOT in [0, '' @ fmt d_max @ '']'') new_result)"

definition check_H_range :: "(real \<Rightarrow> string) \<Rightarrow> real \<Rightarrow> invariant_result" where
  "check_H_range fmt h =
     (if 0 \<le> h \<and> h \<le> 1 then add_check ''H_range'' True (''H='' @ fmt h @ '' is in [0, 1]'') new_result
      else add_check ''H_range'' False (''H='' @ fmt h @ '' is NOT in [0, 1]'') new_result)"

text \<open>Characters beyond ASCII in the details (the Greek letter here, the plus-minus sign above) are their UTF-8 bytes.\<close>

definition check_lambda_range :: "(real \<Rightarrow> string) \<Rightarrow> real \<Rightarrow> invariant_result" where
  "check_lambda_range fmt l =
     (if 0 \<le> l \<and> l \<le> 1
      then add_check ''lambda_range'' True ([CHR 0xCE, CHR 0xBB] @ ''='' @ fmt l @ '' is in [0, 1]'') new_result
      else add_check ''lambda_range'' False ([CHR 0xCE, CHR 0xBB] @ ''='' @ fmt l @ '' is NOT in [0, 1]'') new_result)"

definition check_energy_bounded :: "(real \<Rightarrow> string) \<Rightarrow> real \<Rightarrow> real \<Rightarrow> invariant_result" where
  "check_energy_bounded fmt e bound =
     (if e \<le> bound then add_check ''energy_bounded'' True (''E='' @ fmt e @ '' <= '' @ fmt bound) new_result
      else add_check ''energy_bounded'' False (''E='' @ fmt e @ '' > '' @ fmt bound @ '' (unbounded)'') new_result)"

definition check_fractal_invariants :: "(real \<Rightarrow> string) \<Rightarrow> real \<Rightarrow> real \<Rightarrow> real \<Rightarrow> real \<Rightarrow> real \<Rightarrow> invariant_result" where
  "check_fractal_invariants fmt s d h l e =
     foldl merge_result new_result [check_scaling_bounds fmt s, check_D_range fmt d 10, check_H_range fmt h,
       check_lambda_range fmt l, check_energy_bounded fmt e 2]"

section \<open>When the checks pass\<close>

lemma passed_add [simp]: "ir_passed (add_check name ok d r) \<longleftrightarrow> ir_passed r \<and> ok"
  by (simp add: add_check_def Let_def)

lemma passed_merge [simp]: "ir_passed (merge_result r s) \<longleftrightarrow> ir_passed r \<and> ir_passed s"
  by (simp add: merge_result_def)

lemma passed_new [simp]: "ir_passed new_result"
  by (simp add: new_result_def)

definition sums_to_one :: "real \<Rightarrow> string \<Rightarrow> string \<Rightarrow> edge_row list \<Rightarrow> string \<Rightarrow> bool" where
  "sums_to_one tolerance t g edges i \<longleftrightarrow>
     (let parents = list_parents t g i edges in parents = [] \<or> \<bar>sum_list (map snd parents) - 1\<bar> \<le> tolerance)"

lemma passed_sum_check:
  "ir_passed (sum_check fmt tol t g edges n r) \<longleftrightarrow> ir_passed r \<and> sums_to_one tol t g edges (nd_id n)"
  by (auto simp: sum_check_def sums_to_one_def Let_def not_less)

lemma passed_fold:
  "(\<And>n r. ir_passed (f n r) \<longleftrightarrow> ir_passed r \<and> p n) \<Longrightarrow> ir_passed (fold f ns r) \<longleftrightarrow> ir_passed r \<and> (\<forall>n \<in> set ns. p n)"
  by (induction ns arbitrary: r) auto

lemma inheritance_sum_iff:
  "ir_passed (check_inheritance_sum fmt tol t g nodes edges)
    \<longleftrightarrow> (\<forall>n \<in> set (list_nodes t g 10000 0 nodes). sums_to_one tol t g edges (nd_id n))"
  unfolding check_inheritance_sum_def
  by (subst passed_fold [where p = "\<lambda>n. sums_to_one tol t g edges (nd_id n)"]) (simp_all add: passed_sum_check)

text \<open>Storing the parents of one child changes the parents of no other.\<close>

lemma other_parents:
  assumes "set_inheritance_parents pg fresh now t g child ps ms rows = Inr (rows', ids)"
    and "coerce_uuid child = Some child" "coerce_uuid i = Some i" "i \<noteq> child"
  shows "list_parents t g i rows' = list_parents t g i rows"
proof -
  have "filter (inheritance_of t g i) rows' = filter (inheritance_of t g i) (filter (\<lambda>e. \<not> inheritance_of t g child e) rows')"
    using assms(4) by (auto simp: inheritance_of_def intro!: filter_cong)
  also have "\<dots> = filter (inheritance_of t g i) (filter (\<lambda>e. \<not> inheritance_of t g child e) rows)"
    using parents_after_set(3) [OF assms(1,2)] by simp
  also have "\<dots> = filter (inheritance_of t g i) rows"
    using assms(4) by (auto simp: inheritance_of_def intro!: filter_cong)
  finally show ?thesis using assms(3) by (simp add: list_parents_def get_parents_def query_rows_def)
qed

text \<open>
  C38 Storing an inheritance plan keeps the invariant: if the check of the fraction sums passes and
  the parents of a child are replaced by a plan for at most 1000 parents, the check passes again.
  What the fixed-point storage cuts off each fraction stays within the tolerance of the check.
\<close>

theorem stored_plan_keeps_invariant:
  assumes "ir_passed (check_inheritance_sum fmt (1 / 10 ^ 6) t g nodes edges)"
    and "plan = compute_inheritance_plan v cs k" "0 \<le> k" "k \<le> 1000"
    and "set_inheritance_parents pg fresh now t g child (zip (pl_parents plan) (pl_fractions plan)) ms edges
      = Inr (edges', ids)"
    and "coerce_uuid child = Some child" "\<forall>n \<in> set nodes. coerce_uuid (nd_id n) = Some (nd_id n)"
  shows "ir_passed (check_inheritance_sum fmt (1 / 10 ^ 6) t g nodes edges')"
  unfolding inheritance_sum_iff
proof
  fix n assume n: "n \<in> set (list_nodes t g 10000 0 nodes)"
  have old: "sums_to_one (1 / 10 ^ 6) t g edges (nd_id n)" using assms(1) n unfolding inheritance_sum_iff by blast
  have canon: "coerce_uuid (nd_id n) = Some (nd_id n)"
    using assms(7) n by (auto simp: list_nodes_def dest!: in_set_takeD in_set_dropD)
  show "sums_to_one (1 / 10 ^ 6) t g edges' (nd_id n)"
  proof (cases "nd_id n = child")
    case False
    then show ?thesis using old other_parents [OF assms(5,6) canon] by (simp add: sums_to_one_def)
  next
    case True
    let ?ps = "zip (pl_parents plan) (pl_fractions plan)"
    let ?sel = "select_parents v cs k"
    have eq: "map snd ?ps = compute_fractions (map snd ?sel) \<and> length ?ps = length ?sel"
      using fractions_sum [of "map snd ?sel"] plan_fields [of v cs k, folded assms(2)]
      by (cases "?sel = []") (auto simp: compute_fractions_def)
    show ?thesis
    proof (cases "?sel = []")
      case True
      then have "?ps = []" using eq by (simp only: list.size length_0_conv)
      then have "mset (list_parents t g child edges') = {#}" using parents_after_set(1) [OF assms(5,6)] by simp
      then show ?thesis using \<open>nd_id n = child\<close> by (simp add: sums_to_one_def)
    next
      case False
      then have "sum_list (map snd ?ps) = 1" using fractions_sum [of "map snd ?sel"] eq by simp
      then have "\<bar>sum_list (map snd (list_parents t g child edges')) - 1\<bar> \<le> of_nat (length ?sel) * (1 / 10 ^ 9)"
        using stored_sum [OF assms(5,6)] eq by simp
      also have "\<dots> \<le> 1000 * (1 / 10 ^ 9)"
        using select_length [OF assms(3), of v cs] assms(4) by (intro mult_right_mono) auto
      finally show ?thesis using \<open>nd_id n = child\<close> by (simp add: sums_to_one_def)
    qed
  qed
qed

text \<open>
  The orphan check: within its limits (at most 10000 nodes and edges in the graph) it passes
  exactly when both ends of every edge of the graph are nodes of the graph.
\<close>

theorem orphan_check_iff:
  assumes "length (filter (node_in t g) nodes) \<le> 10000" "length (filter (in_graph t g) edges) \<le> 10000"
  shows "ir_passed (check_no_orphan_edges t g nodes edges) \<longleftrightarrow>
    (\<forall>e \<in> set edges. in_graph t g e \<longrightarrow>
       (\<exists>n \<in> set nodes. node_in t g n \<and> nd_id n = er_src e) \<and> (\<exists>n \<in> set nodes. node_in t g n \<and> nd_id n = er_dst e))"
proof -
  have nodes: "set (list_nodes t g 10000 0 nodes) = {n \<in> set nodes. node_in t g n}"
    using assms(1) by (simp add: list_nodes_def query_rows_def)
  have edges: "set (list_all_edges t g 10000 edges) = {e \<in> set edges. in_graph t g e}"
    using assms(2) by (simp add: list_all_edges_def query_rows_def)
  show ?thesis
    by (auto simp: check_no_orphan_edges_def Let_def filter_empty_conv nodes edges image_iff) metis+
qed

text \<open>Beyond the limit the check raises false alarms: a node past the first 10000 counts as missing.\<close>

lemma orphan_check_false_alarm:
  assumes "e \<in> set (list_all_edges t g 10000 edges)" "er_src e \<notin> nd_id ` set (list_nodes t g 10000 0 nodes)"
  shows "\<not> ir_passed (check_no_orphan_edges t g nodes edges)"
  using assms by (auto simp: check_no_orphan_edges_def Let_def filter_empty_conv)

section \<open>Concrete checks\<close>

definition ex_child :: node_row where
  "ex_child = \<lparr>nd_id = ex_uuid, nd_tenant = ''t'', nd_graph = ''g'', nd_kind = ''atom'', nd_hash = ''h'',
     nd_raw = None, nd_block = None, nd_anchor = None, nd_vector = [2, 0], nd_embedding = None,
     nd_signature = None, nd_residual = 0, nd_level = 0, nd_touch = 0, nd_access = None,
     nd_valid_from = None, nd_valid_to = None, nd_long_term = False, nd_cluster = None,
     nd_cognitive = None, nd_galaxy = None, nd_created = 1, nd_updated = 1\<rparr>"

lemma stored_plan_keeps_invariant_witness:
  "\<exists>edges'. set_inheritance_parents True ex_fresh 0 ''t'' ''g'' ex_uuid [(''p'', 1)] None [] = Inr (edges', [ex_fresh 0])
    \<and> ir_passed (check_inheritance_sum (\<lambda>_. []) (1 / 10 ^ 6) ''t'' ''g'' [ex_child] edges')"
proof -
  let ?plan = "compute_inheritance_plan [2, 0] ex_candidates 8"
  have plan: "zip (pl_parents ?plan) (pl_fractions ?plan) = [(''p'', 1)]"
    by (simp add: plan_fields ex_select compute_fractions_def)
  obtain edges' where set: "set_inheritance_parents True ex_fresh 0 ''t'' ''g'' ex_uuid [(''p'', 1)] None []
      = Inr (edges', [ex_fresh 0])"
    by (simp add: set_inheritance_parents_def parent_rows_def add_rows_def delete_rows_def edge_key_def)
  have before: "ir_passed (check_inheritance_sum (\<lambda>_. []) (1 / 10 ^ 6) ''t'' ''g'' [ex_child] [])"
    using ex_uuid_canonical
    by (simp add: inheritance_sum_iff sums_to_one_def list_parents_def get_parents_def query_rows_def split: option.split)
  have canon: "\<forall>n \<in> set [ex_child]. coerce_uuid (nd_id n) = Some (nd_id n)"
    by (simp add: ex_child_def ex_uuid_canonical)
  from stored_plan_keeps_invariant [OF before refl _ _ set [folded plan] ex_uuid_canonical canon] set
  show ?thesis by auto
qed

definition ex_link :: edge_row where
  "ex_link = \<lparr>er_id = ''e'', er_tenant = ''t'', er_graph = ''g'', er_src = ex_uuid, er_dst = ''z'',
     er_kind = ''related'', er_weight = 5, er_meta = None, er_created = 1\<rparr>"

lemma orphan_check_iff_witness: "\<not> ir_passed (check_no_orphan_edges ''t'' ''g'' [ex_child] [ex_link])"
proof -
  have "ex_uuid \<noteq> ''z''" by (simp add: ex_uuid_def)
  then show ?thesis
    using orphan_check_iff [of "''t''" "''g''" "[ex_child]" "[ex_link]"]
    by (simp add: ex_child_def ex_link_def in_graph_def node_in_def)
qed

end
