(* ===== verification/FM_Merge.thy ===== *)
theory FM_Merge
  imports FM_Inheritance FM_Json FM_Query_Cache
begin

text \<open>
  The operators of an evolution cycle: merging (\<open>core/antisym.py\<close>), pruning
  (\<open>core/operators/prune.py\<close>), and the semantic choice of the winner of a merge
  (\<open>core/dynamics/winner_selection.py\<close>). Floats are real numbers, times are integers in seconds.

  The lemmas show that the choice of a winner does not depend on the order of the two nodes, the
  bounds of the score, and what the scaled residual does to it.
\<close>

section \<open>Merging\<close>

definition opposition_score :: "real list \<Rightarrow> real list \<Rightarrow> real" where
  "opposition_score a b = max 0 (cosine_similarity a b)"

definition should_merge :: "real \<Rightarrow> real \<Rightarrow> bool" where
  "should_merge score threshold \<longleftrightarrow> score \<ge> threshold"

definition select_winner :: "string \<Rightarrow> string \<Rightarrow> string \<Rightarrow> string \<Rightarrow> string \<times> string" where
  "select_winner a b ha hb =
     (if ha < hb then (a, b) else if hb < ha then (b, a) else if a < b then (a, b) else (b, a))"

record merge_result =
  mr_winner :: string
  mr_loser :: string
  mr_score :: real
  mr_meta :: json_dict

definition merge_vectors :: "string \<Rightarrow> string \<Rightarrow> string \<Rightarrow> string \<Rightarrow> real \<Rightarrow> merge_result" where
  "merge_vectors a b ha hb score =
     (let (w, l) = select_winner a b ha hb in
      \<lparr>mr_winner = w, mr_loser = l, mr_score = score,
       mr_meta = [(''winner_hash'', JStr (if w = a then ha else hb)),
         (''loser_hash'', JStr (if w = a then hb else ha)), (''merge_reason'', JStr ''high_similarity'')]\<rparr>)"

definition find_merge_candidates :: "real list \<Rightarrow> (string \<times> string \<times> real list) list \<Rightarrow> real \<Rightarrow> int \<Rightarrow>
    (string \<times> string \<times> real) list" where
  "find_merge_candidates target cs threshold n =
     py_first n (sort_key (\<lambda>(i, h, s). (- s, h))
       (filter (\<lambda>(i, h, s). s \<ge> threshold) (map (\<lambda>(i, h, v). (i, h, opposition_score target v)) cs)))"

definition check_merge_idempotence :: "string set \<Rightarrow> string \<Rightarrow> string \<Rightarrow> bool" where
  "check_merge_idempotence merged a b \<longleftrightarrow> a \<in> merged \<or> b \<in> merged"

section \<open>Pruning\<close>

record prune_policy =
  pp_min_age_days :: real
  pp_max_touch :: int
  pp_min_similarity :: real
  pp_protect_macros :: bool

definition default_prune_policy :: prune_policy where
  "default_prune_policy = \<lparr>pp_min_age_days = 7, pp_max_touch = 1, pp_min_similarity = 98 / 100, pp_protect_macros = True\<rparr>"

definition can_prune :: "int \<Rightarrow> prune_policy \<Rightarrow> node_row \<Rightarrow> real \<Rightarrow> bool" where
  "can_prune now p n max_similarity \<longleftrightarrow>
     (if pp_protect_macros p \<and> nd_kind n = ''macro'' then False
      else if of_int (now - nd_created n) < pp_min_age_days p * 86400 then False
      else if nd_touch n > pp_max_touch p then False
      else if max_similarity < pp_min_similarity p then False
      else True)"

record prune_candidate =
  pc_id :: string
  pc_reason :: string
  pc_touch :: int
  pc_age_days :: int
  pc_similarity :: real

definition find_prune_candidates :: "int \<Rightarrow> prune_policy \<Rightarrow> (string \<times> real) list \<Rightarrow> int \<Rightarrow> node_row list \<Rightarrow>
    prune_candidate list" where
  "find_prune_candidates now p sims limit nodes =
     (let sim = (\<lambda>n. case map_of sims (nd_id n) of None \<Rightarrow> 0 | Some s \<Rightarrow> s);
          cs = map (\<lambda>n. \<lparr>pc_id = nd_id n, pc_reason = ''low_usage_high_redundancy'', pc_touch = nd_touch n,
                 pc_age_days = (now - nd_created n) div 86400, pc_similarity = sim n\<rparr>)
               (filter (\<lambda>n. can_prune now p n (sim n)) nodes)
      in py_first limit (sort_key (\<lambda>c. (- pc_similarity c, - pc_age_days c)) cs))"

text \<open>
  \<open>compute_similarity_matrix\<close>: for each node the largest similarity to a node at another
  position, at least zero; a later node of the same id overwrites.
\<close>

definition max_similarity_of :: "(real list \<Rightarrow> real list \<Rightarrow> real) \<Rightarrow> node_row list \<Rightarrow> nat \<Rightarrow> real" where
  "max_similarity_of f nodes i =
     foldl max 0 (map (\<lambda>j. f (nd_vector (nodes ! i)) (nd_vector (nodes ! j)))
       (filter (\<lambda>j. j \<noteq> i) [0..<length nodes]))"

definition compute_similarity_matrix :: "(real list \<Rightarrow> real list \<Rightarrow> real) \<Rightarrow> node_row list \<Rightarrow> (string \<times> real) list" where
  "compute_similarity_matrix f nodes =
     foldl (\<lambda>m i. al_put (nd_id (nodes ! i)) (max_similarity_of f nodes i) m) [] [0..<length nodes]"

section \<open>Semantic winners\<close>

definition W_EVIDENCE :: real where "W_EVIDENCE = 25 / 100"
definition W_USAGE :: real where "W_USAGE = 20 / 100"
definition W_RECENCY :: real where "W_RECENCY = 15 / 100"
definition W_SOURCE :: real where "W_SOURCE = 20 / 100"
definition W_RESIDUAL :: real where "W_RESIDUAL = 20 / 100"
definition RECENCY_HALF_LIFE_DAYS :: real where "RECENCY_HALF_LIFE_DAYS = 14"
definition RESIDUAL_SCALE :: real where "RESIDUAL_SCALE = 10 ^ 9"
definition USAGE_SATURATION :: real where "USAGE_SATURATION = 50"
definition EVIDENCE_SATURATION :: real where "EVIDENCE_SATURATION = 10"
definition LEVEL_CAP :: real where "LEVEL_CAP = 8"

definition clamp01 :: "real \<Rightarrow> real" where
  "clamp01 x = max 0 (min 1 x)"

definition residual_norm :: "int option \<Rightarrow> real" where
  "residual_norm residual =
     (case residual of None \<Rightarrow> 0
      | Some r \<Rightarrow>
          (let v = of_int r; v' = (if v \<ge> RESIDUAL_SCALE * (1 / 10) then v / RESIDUAL_SCALE else v) in clamp01 v'))"

definition usage_norm :: "int \<Rightarrow> real" where
  "usage_norm touch = clamp01 (of_int (max 0 touch) / USAGE_SATURATION)"

definition recency_decay :: "int option \<Rightarrow> int \<Rightarrow> real" where
  "recency_decay last_access now =
     (case last_access of None \<Rightarrow> 1 / 2
      | Some a \<Rightarrow> if now - a < 0 then 1
          else clamp01 ((1 / 2) powr (of_int (now - a) / 86400 / RECENCY_HALF_LIFE_DAYS)))"

text \<open>\<open>int(v)\<close> of a JSON value; the integer part of a float is the argument.\<close>

fun json_int :: "(string \<Rightarrow> int) \<Rightarrow> json \<Rightarrow> int option" where
  "json_int tr (JsInt i) = Some i"
| "json_int tr (JsBool b) = Some (if b then 1 else 0)"
| "json_int tr (JsFloat s) = Some (tr s)"
| "json_int tr (JsStr s) = parse_int s"
| "json_int tr _ = None"

definition list_evidence :: "(string \<times> json) list \<Rightarrow> string \<Rightarrow> nat option" where
  "list_evidence anchor key =
     (case map_of anchor key of Some (JsList (x # xs)) \<Rightarrow> Some (length (x # xs)) | _ \<Rightarrow> None)"

text \<open>The attributes of a node that are scored, with the JSON columns decoded.\<close>

record value_node =
  vn_id :: string
  vn_hash :: string
  vn_kind :: string
  vn_long_term :: bool
  vn_raw :: "string option"
  vn_block :: "string option"
  vn_level :: int
  vn_touch :: int
  vn_access :: "int option"
  vn_residual :: "int option"
  vn_signature :: "(string \<times> json) list option"
  vn_anchor :: "(string \<times> json) list option"

definition evidence_norm :: "(string \<Rightarrow> int) \<Rightarrow> value_node \<Rightarrow> real" where
  "evidence_norm tr n =
     (let members = (case vn_signature n of None \<Rightarrow> 0
            | Some sig \<Rightarrow> (case map_of sig ''member_count'' of None \<Rightarrow> 0
                | Some v \<Rightarrow> if js_truthy v then (case json_int tr v of None \<Rightarrow> 0 | Some i \<Rightarrow> i) else 0)) in
      if members > 0 then clamp01 (of_int members / EVIDENCE_SATURATION)
      else case vn_anchor n of None \<Rightarrow> 0
        | Some anchor \<Rightarrow>
            (case find (\<lambda>k. list_evidence anchor k \<noteq> None) [''evidence_node_ids'', ''member_ids'', ''evidence_ids''] of
               None \<Rightarrow> 0
             | Some k \<Rightarrow> clamp01 (of_nat (the (list_evidence anchor k)) / EVIDENCE_SATURATION)))"

definition text_truthy :: "string option \<Rightarrow> bool" where
  "text_truthy s \<longleftrightarrow> (case s of None \<Rightarrow> False | Some t \<Rightarrow> t \<noteq> [])"

definition has_text :: "(string \<times> json) list \<Rightarrow> string \<Rightarrow> bool" where
  "has_text anchor k \<longleftrightarrow> (case map_of anchor k of Some (JsStr s) \<Rightarrow> py_strip s \<noteq> [] | _ \<Rightarrow> False)"

definition source_quality :: "value_node \<Rightarrow> real" where
  "source_quality n =
     clamp01 ((if vn_kind n = ''macro'' then 6 / 10 else 0) + (if vn_long_term n then 2 / 10 else 0)
       + (if text_truthy (vn_raw n) then 1 / 10 else 0) + (if text_truthy (vn_block n) then 5 / 100 else 0)
       + (case vn_anchor n of None \<Rightarrow> 0
          | Some a \<Rightarrow> if list_ex (has_text a) [''text'', ''canonical'', ''summary''] then 1 / 10 else 0)
       + 5 / 100 * clamp01 (of_int (max 0 (vn_level n)) / LEVEL_CAP))"

definition semantic_node_score :: "(string \<Rightarrow> int) \<Rightarrow> int \<Rightarrow> value_node \<Rightarrow> real" where
  "semantic_node_score tr now n =
     clamp01 (W_EVIDENCE * evidence_norm tr n + W_USAGE * usage_norm (vn_touch n)
       + W_RECENCY * recency_decay (vn_access n) now + W_SOURCE * source_quality n
       + W_RESIDUAL * residual_norm (vn_residual n))"

record winner_decision =
  wd_winner :: string
  wd_loser :: string
  wd_winner_score :: real
  wd_loser_score :: real
  wd_tie_break :: string

definition round6 :: "real \<Rightarrow> real" where
  "round6 x = of_int (round_even (x * 10 ^ 6)) / 10 ^ 6"

definition select_winner_semantic :: "(string \<Rightarrow> int) \<Rightarrow> int \<Rightarrow> value_node \<Rightarrow> value_node \<Rightarrow> winner_decision" where
  "select_winner_semantic tr now a b =
     (let sa = semantic_node_score tr now a; sb = semantic_node_score tr now b;
          (w, l) = (if sa > sb then (vn_id a, vn_id b) else if sb > sa then (vn_id b, vn_id a)
                    else select_winner (vn_id a) (vn_id b) (vn_hash a) (vn_hash b))
      in \<lparr>wd_winner = w, wd_loser = l, wd_winner_score = round6 (max sa sb), wd_loser_score = round6 (min sa sb),
          wd_tie_break = (if \<bar>sa - sb\<bar> < 1 / 10 ^ 9 then ''legacy_hash'' else ''score'')\<rparr>)"

section \<open>Properties of the choice\<close>

lemma select_winner_symmetric: "a \<noteq> b \<Longrightarrow> select_winner a b ha hb = select_winner b a hb ha"
  by (auto simp: select_winner_def)

lemma clamp01_bounds [simp]: "0 \<le> clamp01 x" "clamp01 x \<le> 1"
  by (simp_all add: clamp01_def)

lemma score_parts:
  "0 \<le> evidence_norm tr n \<and> evidence_norm tr n \<le> 1" "0 \<le> usage_norm u \<and> usage_norm u \<le> 1"
  "0 \<le> recency_decay la now \<and> recency_decay la now \<le> 1" "0 \<le> source_quality n \<and> source_quality n \<le> 1"
  "0 \<le> residual_norm r \<and> residual_norm r \<le> 1"
  by (auto simp: evidence_norm_def usage_norm_def recency_decay_def source_quality_def residual_norm_def Let_def
      split: option.splits)

text \<open>The weights add up to one, so the final clamp never cuts.\<close>

lemma score_unclamped:
  "semantic_node_score tr now n = W_EVIDENCE * evidence_norm tr n + W_USAGE * usage_norm (vn_touch n)
     + W_RECENCY * recency_decay (vn_access n) now + W_SOURCE * source_quality n
     + W_RESIDUAL * residual_norm (vn_residual n)"
proof -
  let ?s = "W_EVIDENCE * evidence_norm tr n + W_USAGE * usage_norm (vn_touch n)
     + W_RECENCY * recency_decay (vn_access n) now + W_SOURCE * source_quality n
     + W_RESIDUAL * residual_norm (vn_residual n)"
  have "0 \<le> ?s \<and> ?s \<le> 1"
    using score_parts(1) [of tr n] score_parts(2) [of "vn_touch n"] score_parts(3) [of "vn_access n" now]
      score_parts(4) [of n] score_parts(5) [of "vn_residual n"]
    unfolding W_EVIDENCE_def W_USAGE_def W_RECENCY_def W_SOURCE_def W_RESIDUAL_def by linarith
  then show ?thesis by (simp add: semantic_node_score_def clamp01_def)
qed

text \<open>
  The winner of a merge does not depend on which of the two nodes is given first: the semantic
  choice (and the hash rule it falls back to) names the same winner and loser with the same scores
  either way; the two are the two nodes, and the winner's score is not below the loser's.
\<close>

theorem winner_symmetric:
  assumes "vn_id a \<noteq> vn_id b"
  shows "select_winner_semantic tr now a b = select_winner_semantic tr now b a
    \<and> {wd_winner (select_winner_semantic tr now a b), wd_loser (select_winner_semantic tr now a b)} = {vn_id a, vn_id b}
    \<and> (wd_winner (select_winner_semantic tr now a b) = vn_id a \<longrightarrow>
        semantic_node_score tr now b \<le> semantic_node_score tr now a)
    \<and> select_winner (vn_id a) (vn_id b) (vn_hash a) (vn_hash b) = select_winner (vn_id b) (vn_id a) (vn_hash b) (vn_hash a)"
proof -
  note sym = select_winner_symmetric [OF assms, of "vn_hash a" "vn_hash b"]
  have "select_winner (vn_id a) (vn_id b) (vn_hash a) (vn_hash b) \<in> {(vn_id a, vn_id b), (vn_id b, vn_id a)}"
    by (simp add: select_winner_def)
  then show ?thesis using sym assms
    by (auto simp: select_winner_semantic_def Let_def max.commute min.commute abs_minus_commute split: prod.splits)
qed

text \<open>
  Tiny residuals score as total novelty: a stored residual is the residual times one billion,
  but the normalisation divides only from one tenth of that on; so every residual between one
  billionth and one tenth, once stored, counts as 1, more than a residual of one half.
\<close>

theorem small_residual_counts_full:
  assumes "1 / 10 ^ 9 \<le> r" "r < 1 / 10"
  shows "residual_norm (Some (to_scaled r)) = 1
    \<and> residual_norm (Some (to_scaled r)) > residual_norm (Some (to_scaled (1 / 2)))"
proof -
  have "0 \<le> r" using assms(1) by (rule order_trans [rotated]) simp
  then have sc: "to_scaled r = \<lfloor>r * 1000000000\<rfloor>" by (simp add: to_scaled_def py_int_def)
  have "1 \<le> r * 1000000000" "r * 1000000000 < 100000000" using assms by simp_all
  then have "1 \<le> to_scaled r" "to_scaled r < 100000000" unfolding sc by (simp_all add: le_floor_iff floor_less_iff)
  then have "1 \<le> (of_int (to_scaled r) :: real)" "(of_int (to_scaled r) :: real) < 100000000"
    by simp_all
  then have full: "residual_norm (Some (to_scaled r)) = 1"
    by (simp add: residual_norm_def RESIDUAL_SCALE_def clamp01_def Let_def)
  have "to_scaled (1 / 2) = 500000000" by (simp add: to_scaled_def py_int_def)
  then have "residual_norm (Some (to_scaled (1 / 2))) = 1 / 2"
    by (simp add: residual_norm_def RESIDUAL_SCALE_def clamp01_def Let_def)
  with full show ?thesis by simp
qed

lemma small_residual_counts_full_witness: "residual_norm (Some (to_scaled (5 / 100))) = 1"
  using small_residual_counts_full [of "5 / 100"] by simp

definition ex_value :: "string \<Rightarrow> value_node" where
  "ex_value i = \<lparr>vn_id = i, vn_hash = ''h'', vn_kind = ''atom'', vn_long_term = False, vn_raw = None, vn_block = None,
     vn_level = 0, vn_touch = 3, vn_access = None, vn_residual = Some 0, vn_signature = None, vn_anchor = None\<rparr>"

lemma winner_symmetric_witness:
  "select_winner_semantic (\<lambda>_. 0) 9 (ex_value ''a'') (ex_value ''b'') = select_winner_semantic (\<lambda>_. 0) 9 (ex_value ''b'') (ex_value ''a'')"
  using winner_symmetric [of "ex_value ''a''" "ex_value ''b''" "\<lambda>_. 0" 9] by (simp add: ex_value_def)

end
