(* ===== verification/FM_Evolution.thy ===== *)
theory FM_Evolution
  imports FM_Merge FM_Backup FM_Graph_Version
begin

text \<open>
  One evolution cycle, \<open>evolve_once\<close> of \<open>core/dynamics/evolution_native.py\<close>: diagnostics, the
  gate, adapted thresholds, the merge pass, the prune pass with backups, and the version bump.

  Parameters: the diagnostics of a graph (\<open>compute_diagnostics\<close>), the two pgvector queries of the
  node repository, the winner selector (None when it raises or gives nothing), the invention
  passes, the text of a float, and fresh ids. The events of a cycle are the list of their kinds and
  payloads; their storage is the event journal. Taking a backup does not fail.

  The lemmas show what a cycle may delete, how many actions it takes, and what it does to a pair of
  near copies.
\<close>

section \<open>Parameters and state\<close>

record diagnostics =
  dg_D :: real
  dg_H :: real
  dg_lambda :: real
  dg_R :: real
  dg_N :: real
  dg_E :: real
  dg_s :: real
  dg_hash :: string

record decision =
  dc_winner :: string
  dc_loser :: string
  dc_meta :: json_dict
  dc_winner_score :: real
  dc_loser_score :: real

type_synonym event = "string \<times> (string \<times> json) list"

record pg_queries =
  pq_max_similarities :: "real \<Rightarrow> node_row list \<Rightarrow> (string \<times> real) list"
  pq_redundant_pairs :: "real \<Rightarrow> int \<Rightarrow> node_row list \<Rightarrow> (string \<times> string \<times> real) list"

record lambda_gate =
  lg_enabled :: bool
  lg_min :: real
  lg_scale :: bool

record evolve_env =
  ee_tenant :: string
  ee_graph :: string
  ee_pg :: "pg_queries option"
  ee_orm :: bool
  ee_fmt :: "real \<Rightarrow> string"
  ee_diagnose :: "node_row list \<Rightarrow> edge_row list \<Rightarrow> int \<Rightarrow> diagnostics"
  ee_selector :: "(node_row \<Rightarrow> node_row \<Rightarrow> decision option) option"
  ee_context :: "(string \<times> json) list"
  ee_fresh :: "nat \<Rightarrow> string"
  ee_now :: int

record evolve_args =
  ea_max_actions :: int
  ea_merge_threshold :: real
  ea_policy :: prune_policy
  ea_gate :: "lambda_gate option"

record cycle =
  cy_db :: graph_db
  cy_events :: "event list"
  cy_merged :: "string list"
  cy_count :: int
  cy_merges :: nat
  cy_prunes :: nat

record evolve_world =
  ew_db :: graph_db
  ew_versions :: "version_row list"
  ew_events :: "event list"

section \<open>Similarities\<close>

text \<open>\<open>_cosine\<close> does not compare the lengths: the dot product stops at the shorter vector.\<close>

definition cosine_zip :: "real list \<Rightarrow> real list \<Rightarrow> real" where
  "cosine_zip a b =
     (let na = sqrt (sum_list (map (\<lambda>x. x * x) a)); nb = sqrt (sum_list (map (\<lambda>x. x * x) b)) in
      if na = 0 \<or> nb = 0 then 0 else dot a b / (na * nb))"

definition use_embeddings :: "node_row list \<Rightarrow> bool" where
  "use_embeddings nodes \<longleftrightarrow> 2 \<le> length nodes \<and> list_all (\<lambda>n. nd_embedding n \<noteq> None) nodes"

definition node_vector :: "node_row list \<Rightarrow> node_row \<Rightarrow> real list" where
  "node_vector nodes n = (if use_embeddings nodes then the (nd_embedding n) else nd_vector n)"

text \<open>The matrix exists when all vectors have one length; entry (a, b) is their cosine.\<close>

definition has_matrix :: "node_row list \<Rightarrow> bool" where
  "has_matrix nodes \<longleftrightarrow> 2 \<le> length nodes
     \<and> list_all (\<lambda>n. length (node_vector nodes n) = length (node_vector nodes (hd nodes))) nodes"

definition pair_score :: "node_row list \<Rightarrow> node_row \<Rightarrow> node_row \<Rightarrow> real" where
  "pair_score nodes a b = opposition_score (node_vector nodes a) (node_vector nodes b)"

definition matrix_max :: "node_row list \<Rightarrow> nat \<Rightarrow> real" where
  "matrix_max nodes i = Max (set (map (\<lambda>j. cosine_similarity (node_vector nodes (nodes ! i)) (node_vector nodes (nodes ! j)))
     (filter (\<lambda>j. j \<noteq> i) [0..<length nodes])))"

definition similarity_dict :: "evolve_env \<Rightarrow> real \<Rightarrow> node_row list \<Rightarrow> node_row list \<Rightarrow> (string \<times> real) list" where
  "similarity_dict en threshold table nodes =
     (case ee_pg en of
        Some q \<Rightarrow> pq_max_similarities q threshold table
      | None \<Rightarrow>
          if has_matrix nodes
          then foldl (\<lambda>m i. al_put (nd_id (nodes ! i)) (matrix_max nodes i) m) [] [0..<length nodes]
          else compute_similarity_matrix cosine_zip nodes)"

section \<open>Adapted thresholds\<close>

definition adapt_merge_threshold :: "real \<Rightarrow> diagnostics \<Rightarrow> real" where
  "adapt_merge_threshold base d =
     (let r = dg_R d;
          adapted = (if r > 5 / 10 then base - 5 / 100 * (r - 5 / 10) / (5 / 10)
            else if r < 2 / 10 then base + 2 / 100 * (2 / 10 - r) / (2 / 10) else base)
      in max (80 / 100) (min (99 / 100) adapted))"

definition adapt_prune_policy :: "prune_policy \<Rightarrow> diagnostics \<Rightarrow> prune_policy" where
  "adapt_prune_policy p d =
     p\<lparr>pp_min_similarity :=
        (if dg_R d > 5 / 10 then max (90 / 100) (pp_min_similarity p - 5 / 100)
         else if dg_N d > 5 / 10 then min (99 / 100) (pp_min_similarity p + 3 / 100)
         else pp_min_similarity p)\<rparr>"

section \<open>Merging\<close>

definition resolve_merge_winner :: "evolve_env \<Rightarrow> node_row \<Rightarrow> node_row \<Rightarrow> real \<Rightarrow> string \<times> string \<times> json_dict" where
  "resolve_merge_winner en a b score =
     (case (case ee_selector en of None \<Rightarrow> None | Some f \<Rightarrow> f a b) of
        Some d \<Rightarrow>
          (dc_winner d, dc_loser d,
           foldl (\<lambda>m (k, v). al_put k v m) (dc_meta d)
             [(''merge_reason'', JStr ''high_similarity''),
              (''winner_hash'', JStr (if dc_winner d = nd_id a then nd_hash a else nd_hash b)),
              (''loser_hash'', JStr (if dc_winner d = nd_id a then nd_hash b else nd_hash a)),
              (''score_winner'', JOther (dc_winner_score d \<noteq> 0) (ee_fmt en (dc_winner_score d))),
              (''score_loser'', JOther (dc_loser_score d \<noteq> 0) (ee_fmt en (dc_loser_score d)))])
      | None \<Rightarrow>
          (let r = merge_vectors (nd_id a) (nd_id b) (nd_hash a) (nd_hash b) score
           in (mr_winner r, mr_loser r, al_put ''selector'' (JStr ''legacy_hash'') (mr_meta r))))"

definition selector_name :: "json_dict \<Rightarrow> string" where
  "selector_name meta = (case map_of meta ''selector'' of Some v \<Rightarrow> json_str (\<lambda>_. []) v | None \<Rightarrow> ''legacy_hash'')"

definition do_merge :: "evolve_env \<Rightarrow> real \<Rightarrow> node_row \<Rightarrow> node_row \<Rightarrow> real \<Rightarrow> cycle \<Rightarrow> cycle" where
  "do_merge en threshold a b score c =
     (let (w, l, meta) = resolve_merge_winner en a b score;
          db = cy_db c;
          edges = fst (add_opposition_edge (ee_pg en \<noteq> None) (ee_fresh en (nat (cy_count c))) (ee_now en)
            (ee_tenant en) (ee_graph en) w l score (Some meta) (gd_edges db))
      in c\<lparr>cy_db := db\<lparr>gd_edges := edges\<rparr>, cy_merged := l # cy_merged c,
           cy_events := cy_events c @ [(''EVOLUTION_MERGE'',
             [(''winner_id'', JsStr w), (''loser_id'', JsStr l), (''score'', JsFloat (ee_fmt en score)),
              (''adapted_threshold'', JsFloat (ee_fmt en threshold)), (''selector'', JsStr (selector_name meta))])],
           cy_merges := cy_merges c + 1, cy_count := cy_count c + 1\<rparr>)"

text \<open>The double loop: each node with the first later, still unmerged node above the threshold.\<close>

fun merge_pass :: "evolve_env \<Rightarrow> real \<Rightarrow> int \<Rightarrow> (node_row \<Rightarrow> node_row \<Rightarrow> real) \<Rightarrow> node_row list \<Rightarrow> cycle \<Rightarrow> cycle" where
  "merge_pass en threshold limit score [] c = c"
| "merge_pass en threshold limit score (a # rest) c =
     (if cy_count c \<ge> limit then c
      else if nd_id a \<in> set (cy_merged c) then merge_pass en threshold limit score rest c
      else case find (\<lambda>b. nd_id b \<notin> set (cy_merged c) \<and> should_merge (score a b) threshold) rest of
             None \<Rightarrow> merge_pass en threshold limit score rest c
           | Some b \<Rightarrow> merge_pass en threshold limit score rest (do_merge en threshold a b (score a b) c))"

fun merge_pairs :: "evolve_env \<Rightarrow> real \<Rightarrow> int \<Rightarrow> (string \<times> string \<times> real) list \<Rightarrow> cycle \<Rightarrow> cycle" where
  "merge_pairs en threshold limit [] c = c"
| "merge_pairs en threshold limit ((i, j, score) # ps) c =
     (if cy_count c \<ge> limit then c
      else if i \<in> set (cy_merged c) \<or> j \<in> set (cy_merged c) then merge_pairs en threshold limit ps c
      else case (get_by_id (ee_tenant en) (ee_graph en) i (gd_nodes (cy_db c)),
                 get_by_id (ee_tenant en) (ee_graph en) j (gd_nodes (cy_db c))) of
             (Some a, Some b) \<Rightarrow> merge_pairs en threshold limit ps (do_merge en threshold a b score c)
           | _ \<Rightarrow> merge_pairs en threshold limit ps c)"

section \<open>Pruning\<close>

definition do_prune :: "evolve_env \<Rightarrow> real \<Rightarrow> int \<Rightarrow> node_row \<Rightarrow> real \<Rightarrow> cycle \<Rightarrow> cycle" where
  "do_prune en threshold version n sim c =
     c\<lparr>cy_db := prune_node (ee_fresh en (nat (cy_count c))) (ee_now en) (ee_tenant en) (ee_graph en) version n (cy_db c),
       cy_events := cy_events c @ [(''PRUNE_NODE'',
         [(''node_id'', JsStr (nd_id n)), (''reason'', JsStr ''low_usage_high_redundancy''),
          (''max_similarity'', JsFloat (ee_fmt en sim)), (''adapted_sim_threshold'', JsFloat (ee_fmt en threshold))])],
       cy_prunes := cy_prunes c + 1, cy_count := cy_count c + 1\<rparr>"

fun prune_pass :: "evolve_env \<Rightarrow> prune_policy \<Rightarrow> int \<Rightarrow> int \<Rightarrow> (node_row \<times> real) list \<Rightarrow> cycle \<Rightarrow> cycle" where
  "prune_pass en p limit version [] c = c"
| "prune_pass en p limit version ((n, sim) # ns) c =
     (if cy_count c \<ge> limit then c
      else if nd_id n \<in> set (cy_merged c) then prune_pass en p limit version ns c
      else if can_prune (ee_now en) p n sim
      then prune_pass en p limit version ns (do_prune en (pp_min_similarity p) version n sim c)
      else prune_pass en p limit version ns c)"

definition prune_list :: "evolve_env \<Rightarrow> (string \<times> real) list \<Rightarrow> node_row list \<Rightarrow> node_row list \<Rightarrow> (node_row \<times> real) list" where
  "prune_list en sims table nodes =
     (case ee_pg en of
        Some q \<Rightarrow> concat (map (\<lambda>(i, s). case get_by_id (ee_tenant en) (ee_graph en) i table of
            None \<Rightarrow> [] | Some n \<Rightarrow> [(n, s)]) sims)
      | None \<Rightarrow> map (\<lambda>n. (n, case map_of sims (nd_id n) of None \<Rightarrow> 0 | Some s \<Rightarrow> s)) nodes)"

section \<open>The cycle\<close>

definition context_keys :: "string list" where
  "context_keys = [''requested_profile'', ''requested_persist_mode'', ''effective_profile'', ''effective_persist_mode'',
     ''durability_path'', ''completion_mode'', ''evolve_aggressiveness'']"

definition with_event_context :: "(string \<times> json) list \<Rightarrow> (string \<times> json) list \<Rightarrow> (string \<times> json) list" where
  "with_event_context payload ctx =
     foldl (\<lambda>m k. case map_of ctx k of
         Some v \<Rightarrow> if v \<noteq> JsNull \<and> k \<notin> set (al_keys m) then al_put k v m else m | None \<Rightarrow> m) payload context_keys"

definition metric_fields :: "evolve_env \<Rightarrow> diagnostics \<Rightarrow> (string \<times> json) list" where
  "metric_fields en d = map (\<lambda>(k, x). (k, JsFloat (ee_fmt en x)))
     [(''D_hat'', dg_D d), (''H_hat'', dg_H d), (''lambda_hat'', dg_lambda d), (''redundancy_R'', dg_R d),
      (''novelty_N'', dg_N d), (''energy_E'', dg_E d)]"

definition snapshot_payload :: "evolve_env \<Rightarrow> diagnostics \<Rightarrow> nat \<Rightarrow> nat \<Rightarrow> int \<Rightarrow> (string \<times> json) list" where
  "snapshot_payload en d nn ne version =
     [(''graph_id'', JsStr (ee_graph en)), (''region_id'', JsStr ''global''), (''node_count'', JsInt (int nn)),
      (''edge_count'', JsInt (int ne)), (''s'', JsFloat (ee_fmt en (round6 (dg_s d))))]
     @ map (\<lambda>(k, x). (k, JsFloat (ee_fmt en (round6 x))))
        [(''D_hat'', dg_D d), (''H_hat'', dg_H d), (''lambda_hat'', dg_lambda d), (''redundancy_R'', dg_R d),
         (''novelty_N'', dg_N d), (''energy_E'', dg_E d)]
     @ [(''graph_version'', JsInt version), (''diagnostics_hash'', JsStr (dg_hash d))]"

definition skipped :: "evolve_env \<Rightarrow> string \<Rightarrow> diagnostics \<Rightarrow> nat \<Rightarrow> nat \<Rightarrow> int \<Rightarrow> (string \<times> json) list \<Rightarrow>
    (string \<times> json) list \<Rightarrow> event" where
  "skipped en reason d nn ne version middle extra =
     (''EVOLUTION_SKIPPED'', with_event_context
        ([(''reason'', JsStr reason), (''graph_version'', JsInt version), (''node_count'', JsInt (int nn)),
          (''edge_count'', JsInt (int ne))] @ middle @ metric_fields en d @ extra) (ee_context en))"

definition scaled_actions :: "lambda_gate option \<Rightarrow> diagnostics \<Rightarrow> int \<Rightarrow> int" where
  "scaled_actions gate d n =
     (case gate of
        Some g \<Rightarrow> if lg_scale g then max 1 (round_even (of_int n * (5 / 10 + dg_lambda d))) else n
      | None \<Rightarrow> n)"

text \<open>The result: the version, the counters and the skip reason.\<close>

record evolution_result =
  er_version :: int
  er_merges :: nat
  er_prunes :: nat
  er_inventions :: nat
  er_skip :: "string option"

text \<open>Steps 3 to 6: adapted thresholds, similarities, the merge pass and the prune pass.\<close>

definition evolve_passes :: "evolve_env \<Rightarrow> evolve_args \<Rightarrow> diagnostics \<Rightarrow> int \<Rightarrow> node_row list \<Rightarrow> cycle \<Rightarrow> cycle" where
  "evolve_passes en ar d version nodes c =
     (let limit = scaled_actions (ea_gate ar) d (ea_max_actions ar);
          threshold = adapt_merge_threshold (ea_merge_threshold ar) d;
          policy = adapt_prune_policy (ea_policy ar) d;
          table = gd_nodes (cy_db c);
          sims = similarity_dict en (pp_min_similarity policy) table nodes;
          c1 = (case ee_pg en of
                  Some q \<Rightarrow> merge_pairs en threshold limit (pq_redundant_pairs q threshold limit table) c
                | None \<Rightarrow> merge_pass en threshold limit (pair_score nodes) nodes c)
      in prune_pass en policy limit version (prune_list en sims (gd_nodes (cy_db c1)) nodes) c1)"

definition start_cycle :: "evolve_world \<Rightarrow> event \<Rightarrow> cycle" where
  "start_cycle w snap = \<lparr>cy_db = ew_db w, cy_events = ew_events w @ [snap], cy_merged = [], cy_count = 0,
     cy_merges = 0, cy_prunes = 0\<rparr>"

definition evolution_reason :: "nat \<Rightarrow> nat \<Rightarrow> nat \<Rightarrow> string" where
  "evolution_reason m p k = ''evolution: '' @ nat_str m @ '' merges, '' @ nat_str p @ '' prunes, '' @ nat_str k @ '' inventions''"

text \<open>
  The rest of the cycle. The invention passes are a parameter: None when they are not allowed, else
  from the cycle so far to the cycle after them and the number of macros created.
\<close>

definition finish_cycle :: "evolve_env \<Rightarrow> evolve_args \<Rightarrow> (cycle \<Rightarrow> cycle \<times> nat) option \<Rightarrow> evolve_world \<Rightarrow> int \<Rightarrow>
    node_row list \<Rightarrow> edge_row list \<Rightarrow> diagnostics \<Rightarrow> event \<Rightarrow> string + evolution_result \<times> evolve_world" where
  "finish_cycle en ar invent w version nodes edges d snap =
     (let t = ee_tenant en; g = ee_graph en;
          c0 = evolve_passes en ar d version nodes (start_cycle w snap);
          (c, k) = (case invent of None \<Rightarrow> (c0, 0) | Some f \<Rightarrow> f c0)
      in if cy_count c0 + int k > 0
         then (case bump (ee_orm en) (ee_now en) (evolution_reason (cy_merges c0) (cy_prunes c0) k) t g (ew_versions w) of
                 Inl e \<Rightarrow> Inl e
               | Inr (versions, v) \<Rightarrow>
                   Inr (\<lparr>er_version = v, er_merges = cy_merges c0, er_prunes = cy_prunes c0, er_inventions = k, er_skip = None\<rparr>,
                     \<lparr>ew_db = (cy_db c)\<lparr>gd_backups := fst (retag t g version v (gd_backups (cy_db c)))\<rparr>,
                      ew_versions = versions,
                      ew_events = cy_events c @ [(''EVOLUTION_COMPLETE'', with_event_context
                        ([(''version'', JsInt v), (''merges'', JsInt (int (cy_merges c0))),
                          (''prunes'', JsInt (int (cy_prunes c0))), (''inventions'', JsInt (int k))]
                         @ metric_fields en d @ [(''diagnostics_hash'', JsStr (dg_hash d))]) (ee_context en))]\<rparr>))
         else Inr (\<lparr>er_version = version, er_merges = cy_merges c0, er_prunes = cy_prunes c0, er_inventions = k,
                er_skip = Some ''no_actions_after_evaluation''\<rparr>,
              w\<lparr>ew_db := cy_db c, ew_events := cy_events c @ [skipped en ''no_actions_after_evaluation'' d
                 (length nodes) (length edges) version
                 [(''merge_threshold'', JsFloat (ee_fmt en (adapt_merge_threshold (ea_merge_threshold ar) d))),
                  (''prune_similarity_threshold'', JsFloat (ee_fmt en (pp_min_similarity (adapt_prune_policy (ea_policy ar) d)))),
                  (''invention_allowed'', JsBool (invent \<noteq> None))] []]\<rparr>))"

definition cycle_nodes :: "evolve_env \<Rightarrow> evolve_world \<Rightarrow> node_row list" where
  "cycle_nodes en w = list_nodes (ee_tenant en) (ee_graph en) 1000 0 (gd_nodes (ew_db w))"

definition cycle_edges :: "evolve_env \<Rightarrow> evolve_world \<Rightarrow> edge_row list" where
  "cycle_edges en w = list_all_edges (ee_tenant en) (ee_graph en) 10000 (gd_edges (ew_db w))"

definition cycle_diagnostics :: "evolve_env \<Rightarrow> evolve_world \<Rightarrow> diagnostics" where
  "cycle_diagnostics en w = ee_diagnose en (cycle_nodes en w) (cycle_edges en w)
     (get_version (ee_tenant en) (ee_graph en) (ew_versions w))"

definition evolve_once :: "evolve_env \<Rightarrow> evolve_args \<Rightarrow> (cycle \<Rightarrow> cycle \<times> nat) option \<Rightarrow> evolve_world \<Rightarrow>
    string + evolution_result \<times> evolve_world" where
  "evolve_once en ar invent w =
     (let version = get_version (ee_tenant en) (ee_graph en) (ew_versions w);
          nodes = cycle_nodes en w; edges = cycle_edges en w; d = cycle_diagnostics en w;
          snap = (''DIAGNOSTICS_SNAPSHOT'', snapshot_payload en d (length nodes) (length edges) version);
          stop = (\<lambda>reason extra. Inr (\<lparr>er_version = version, er_merges = 0, er_prunes = 0, er_inventions = 0,
                    er_skip = Some reason\<rparr>,
                  w\<lparr>ew_events := ew_events w @ [snap, skipped en reason d (length nodes) (length edges) version [] extra]\<rparr>));
          gated = (case ea_gate ar of None \<Rightarrow> None
            | Some gate \<Rightarrow> if lg_enabled gate \<and> dg_lambda d < lg_min gate then Some gate else None)
      in case gated of
           Some gate \<Rightarrow> stop ''lambda_below_gate'' [(''lambda_gate_min'', JsFloat (ee_fmt en (lg_min gate)))]
         | None \<Rightarrow>
             if length nodes < 2 then stop ''insufficient_nodes'' []
             else finish_cycle en ar invent w version nodes edges d snap)"

section \<open>What a cycle deletes\<close>

lemma do_merge_fields [simp]:
  "gd_nodes (cy_db (do_merge en th a b s c)) = gd_nodes (cy_db c)"
  "gd_backups (cy_db (do_merge en th a b s c)) = gd_backups (cy_db c)"
  "cy_count (do_merge en th a b s c) = cy_count c + 1"
  "cy_merges (do_merge en th a b s c) = cy_merges c + 1"
  "cy_prunes (do_merge en th a b s c) = cy_prunes c"
  by (simp_all add: do_merge_def Let_def split: prod.splits)

lemma do_prune_fields [simp]:
  "cy_merged (do_prune en th v n s c) = cy_merged c"
  "cy_count (do_prune en th v n s c) = cy_count c + 1"
  "cy_merges (do_prune en th v n s c) = cy_merges c"
  "cy_prunes (do_prune en th v n s c) = cy_prunes c + 1"
  by (simp_all add: do_prune_def)

text \<open>An invariant of each merge and each guarded prune is one of the passes.\<close>

lemma merge_pass_keeps:
  assumes "\<And>a b s c. P c \<Longrightarrow> cy_count c < limit \<Longrightarrow> P (do_merge en th a b s c)"
  shows "P c \<Longrightarrow> P (merge_pass en th limit score ns c)"
  by (induction ns arbitrary: c) (auto intro: assms simp: not_le split: option.splits)

lemma merge_pairs_keeps:
  assumes "\<And>a b s c. P c \<Longrightarrow> cy_count c < limit \<Longrightarrow> P (do_merge en th a b s c)"
  shows "P c \<Longrightarrow> P (merge_pairs en th limit ps c)"
  by (induction ps arbitrary: c) (auto simp: assms not_le split: option.splits)

lemma prune_pass_keeps:
  assumes "\<And>n s c. P c \<Longrightarrow> cy_count c < limit \<Longrightarrow> (n, s) \<in> set ns \<Longrightarrow> nd_id n \<notin> set (cy_merged c)
      \<Longrightarrow> can_prune (ee_now en) p n s \<Longrightarrow> P (do_prune en (pp_min_similarity p) version n s c)"
  shows "P c \<Longrightarrow> P (prune_pass en p limit version ns c)"
  using assms
proof (induction ns arbitrary: c)
  case (Cons x ns)
  obtain n s where x: "x = (n, s)" by (cases x)
  have step: "P (prune_pass en p limit version ns c')" if "P c'" for c'
    using that Cons.prems(2) by (rule Cons.IH) auto
  have "P (do_prune en (pp_min_similarity p) version n s c)"
    if "cy_count c < limit" "nd_id n \<notin> set (cy_merged c)" "can_prune (ee_now en) p n s"
    using Cons.prems that x by simp
  then show ?case using step Cons.prems(1) by (simp add: x)
qed simp

abbreviation counted :: "int \<Rightarrow> cycle \<Rightarrow> bool" where
  "counted limit c \<equiv> int (cy_merges c) + int (cy_prunes c) = cy_count c \<and> cy_count c \<le> max 0 limit"

lemma passes_counted: "counted limit' (evolve_passes en ar d v nodes (start_cycle w snap))"
  if "limit' = scaled_actions (ea_gate ar) d (ea_max_actions ar)"
proof -
  have start: "counted limit' (start_cycle w snap)" by (simp add: start_cycle_def)
  have merges: "counted limit' (merge_pass en th limit' score ns (start_cycle w snap))"
    "counted limit' (merge_pairs en th limit' ps (start_cycle w snap))" for th score ns ps
    by (rule merge_pass_keeps [where P = "counted limit'", OF _ start]; simp)
      (rule merge_pairs_keeps [where P = "counted limit'", OF _ start]; simp)
  have "counted limit' (prune_pass en p limit' v ns c)" if "counted limit' c" for p ns c
    by (rule prune_pass_keeps [where P = "counted limit'", OF _ that]) simp
  then show ?thesis using merges by (simp add: evolve_passes_def Let_def that split: option.splits)
qed

text \<open>
  What is gone from the nodes of the table \<open>ns\<close>: unmerged nodes of the graph that the policy lets
  go, each with a backup.
\<close>

definition deletes_safely :: "evolve_env \<Rightarrow> prune_policy \<Rightarrow> int \<Rightarrow> (node_row \<Rightarrow> real \<Rightarrow> bool) \<Rightarrow> node_row list \<Rightarrow> cycle \<Rightarrow> bool" where
  "deletes_safely en p version ok ns c \<longleftrightarrow>
     set (gd_nodes (cy_db c)) \<subseteq> set ns
     \<and> (\<forall>n \<in> set ns - set (gd_nodes (cy_db c)). node_in (ee_tenant en) (ee_graph en) n \<and> nd_id n \<notin> set (cy_merged c)
        \<and> (\<exists>s. ok n s \<and> can_prune (ee_now en) p n s)
        \<and> (\<exists>b \<in> set (gd_backups (cy_db c)). backup_in (ee_tenant en) (ee_graph en) (Some version) b
             \<and> bu_node b = nd_id n \<and> bu_node_json b = serialize_node n))"

lemma prune_node_rows:
  assumes "distinct (map nd_id ns)" "n \<in> set ns" "set (gd_nodes db) \<subseteq> set ns"
  shows "set (gd_nodes db) - {n} \<subseteq> set (gd_nodes (prune_node fr now t g v n db))"
    and "set (gd_nodes (prune_node fr now t g v n db)) \<subseteq> set (gd_nodes db)"
proof -
  have "m = n" if "m \<in> set (gd_nodes db)" "nd_id m = nd_id n" for m
    using assms that by (auto simp: distinct_map dest: inj_onD)
  then show "set (gd_nodes db) - {n} \<subseteq> set (gd_nodes (prune_node fr now t g v n db))"
    by (auto simp: prune_node_def delete_node_def dest!: node_row_found split: option.splits)
  show "set (gd_nodes (prune_node fr now t g v n db)) \<subseteq> set (gd_nodes db)"
    by (auto simp: prune_node_def delete_node_def split: option.splits)
qed

lemma deletes_safely_prune:
  assumes "deletes_safely en p v ok ns c" "distinct (map nd_id ns)" "n \<in> set ns"
    and "node_in (ee_tenant en) (ee_graph en) n" "nd_id n \<notin> set (cy_merged c)" "ok n s" "can_prune (ee_now en) p n s"
  shows "deletes_safely en p v ok ns (do_prune en th v n s c)"
proof -
  let ?db = "prune_node (ee_fresh en (nat (cy_count c))) (ee_now en) (ee_tenant en) (ee_graph en) v n (cy_db c)"
  have sub: "set (gd_nodes (cy_db c)) \<subseteq> set ns" using assms(1) by (simp add: deletes_safely_def)
  note rows = prune_node_rows [OF assms(2,3) sub]
  have "gd_backups ?db = gd_backups (cy_db c) @ [last (gd_backups ?db)]"
    and new: "backup_in (ee_tenant en) (ee_graph en) (Some v) (last (gd_backups ?db))"
      "bu_node (last (gd_backups ?db)) = nd_id n" "bu_node_json (last (gd_backups ?db)) = serialize_node n"
    by (simp_all add: prune_node_def snapshot_def backup_in_def)
  then have bs: "set (gd_backups ?db) = insert (last (gd_backups ?db)) (set (gd_backups (cy_db c)))"
    by (metis Un_insert_right empty_set list.simps(15) set_append sup_bot.right_neutral)
  have old: "\<exists>b \<in> set (gd_backups ?db). backup_in (ee_tenant en) (ee_graph en) (Some v) b
      \<and> bu_node b = nd_id m \<and> bu_node_json b = serialize_node m"
    if "m \<in> set ns" "m \<notin> set (gd_nodes ?db)" for m
  proof (cases "m = n")
    case True
    then show ?thesis using bs new by blast
  next
    case False
    then have "m \<notin> set (gd_nodes (cy_db c))" using that rows(1) by blast
    then show ?thesis using assms(1) that(1) bs unfolding deletes_safely_def by (metis DiffI insertI2)
  qed
  have elig: "node_in (ee_tenant en) (ee_graph en) m \<and> nd_id m \<notin> set (cy_merged c)
      \<and> (\<exists>s. ok m s \<and> can_prune (ee_now en) p m s)"
    if "m \<in> set ns" "m \<notin> set (gd_nodes ?db)" for m
  proof (cases "m = n")
    case True
    then show ?thesis using assms by blast
  next
    case False
    then have "m \<notin> set (gd_nodes (cy_db c))" using that rows(1) by blast
    then show ?thesis using assms(1) that(1) unfolding deletes_safely_def by blast
  qed
  have "cy_db (do_prune en th v n s c) = ?db" by (simp add: do_prune_def)
  moreover have "set (gd_nodes ?db) \<subseteq> set ns" using rows(2) sub by blast
  ultimately show ?thesis using old elig unfolding deletes_safely_def by simp
qed

lemma query_rows_in: "n \<in> set (query_rows p f rows) \<Longrightarrow> n \<in> set rows \<and> p n"
  by (simp add: query_rows_def)

lemma cycle_nodes_in: "n \<in> set (cycle_nodes en w) \<Longrightarrow> n \<in> set (gd_nodes (ew_db w)) \<and> node_in (ee_tenant en) (ee_graph en) n"
  by (auto simp: cycle_nodes_def list_nodes_def dest!: in_set_takeD query_rows_in)

lemma prune_list_in:
  assumes "(n, s) \<in> set (prune_list en sims table nodes)"
    and "\<And>n. n \<in> set nodes \<Longrightarrow> n \<in> set table \<and> node_in (ee_tenant en) (ee_graph en) n"
  shows "n \<in> set table \<and> node_in (ee_tenant en) (ee_graph en) n"
  using assms by (auto simp: prune_list_def get_by_id_def dest: node_row_found [OF sym] split: option.splits)

lemma merges_keep_nodes:
  "gd_nodes (cy_db (merge_pass en th limit score ns c)) = gd_nodes (cy_db c)"
  "gd_nodes (cy_db (merge_pairs en th limit ps c)) = gd_nodes (cy_db c)"
  by (rule merge_pass_keeps [where P = "\<lambda>c'. gd_nodes (cy_db c') = gd_nodes (cy_db c)"];
      simp add: do_merge_fields)
    (rule merge_pairs_keeps [where P = "\<lambda>c'. gd_nodes (cy_db c') = gd_nodes (cy_db c)"]; simp add: do_merge_fields)

lemma passes_delete_safely:
  assumes "distinct (map nd_id (gd_nodes (ew_db w)))"
  shows "deletes_safely en (adapt_prune_policy (ea_policy ar) d) v
    (\<lambda>n s. (n, s) \<in> set (prune_list en (similarity_dict en (pp_min_similarity (adapt_prune_policy (ea_policy ar) d))
      (gd_nodes (ew_db w)) (cycle_nodes en w)) (gd_nodes (ew_db w)) (cycle_nodes en w)))
    (gd_nodes (ew_db w)) (evolve_passes en ar d v (cycle_nodes en w) (start_cycle w snap))"
proof -
  let ?p = "adapt_prune_policy (ea_policy ar) d" and ?ns = "gd_nodes (ew_db w)"
  let ?cands = "prune_list en (similarity_dict en (pp_min_similarity ?p) ?ns (cycle_nodes en w)) ?ns (cycle_nodes en w)"
  let ?P = "deletes_safely en ?p v (\<lambda>n s. (n, s) \<in> set ?cands) ?ns"
  have prune: "?P (prune_pass en ?p limit v ?cands c)" if c: "?P c" for limit c
  proof (rule prune_pass_keeps [where P = ?P, OF _ c])
    fix n s c' assume *: "?P c'" "(n, s) \<in> set ?cands" "nd_id n \<notin> set (cy_merged c')" "can_prune (ee_now en) ?p n s"
    have "n \<in> set ?ns \<and> node_in (ee_tenant en) (ee_graph en) n"
      using prune_list_in [OF *(2)] cycle_nodes_in by blast
    then show "?P (do_prune en (pp_min_similarity ?p) v n s c')"
      using deletes_safely_prune [OF *(1) assms _ _ *(3) *(2) *(4)] by blast
  qed
  have "?P c" if "gd_nodes (cy_db c) = ?ns" for c using that by (simp add: deletes_safely_def)
  with prune show ?thesis
    by (auto simp: evolve_passes_def Let_def merges_keep_nodes start_cycle_def split: option.splits)
qed

definition snap_event :: "evolve_env \<Rightarrow> evolve_world \<Rightarrow> event" where
  "snap_event en w = (''DIAGNOSTICS_SNAPSHOT'', snapshot_payload en (cycle_diagnostics en w) (length (cycle_nodes en w))
     (length (cycle_edges en w)) (get_version (ee_tenant en) (ee_graph en) (ew_versions w)))"

lemma retag_keeps:
  assumes "b \<in> set bs" "backup_in t g (Some from_v) b"
  shows "\<exists>b' \<in> set (fst (retag t g from_v to_v bs)). backup_in t g (Some to_v) b' \<and> bu_node b' = bu_node b
    \<and> bu_node_json b' = bu_node_json b"
proof (cases "from_v = to_v")
  case True
  then show ?thesis using assms by (auto simp: retag_def)
next
  case False
  then have "b\<lparr>bu_version := to_v\<rparr> \<in> set (fst (retag t g from_v to_v bs))"
    using assms by (auto simp: retag_def update_rows_def image_iff)
  then show ?thesis using assms(2) by (intro bexI [of _ "b\<lparr>bu_version := to_v\<rparr>"]) (auto simp: backup_in_def)
qed

abbreviation cycle_version :: "evolve_env \<Rightarrow> evolve_world \<Rightarrow> int" where
  "cycle_version en w \<equiv> get_version (ee_tenant en) (ee_graph en) (ew_versions w)"

definition cycle_end :: "evolve_env \<Rightarrow> evolve_args \<Rightarrow> evolve_world \<Rightarrow> cycle" where
  "cycle_end en ar w = evolve_passes en ar (cycle_diagnostics en w) (cycle_version en w) (cycle_nodes en w)
     (start_cycle w (snap_event en w))"

text \<open>The three ways a cycle without invention ends: skipped, no action, or a new version.\<close>

lemma evolve_once_cases:
  assumes "evolve_once en ar None w = Inr (res, w')"
  shows "(ew_db w' = ew_db w \<and> ew_versions w' = ew_versions w \<and> er_merges res + er_prunes res = 0)
    \<or> (cy_count (cycle_end en ar w) \<le> 0 \<and> ew_db w' = cy_db (cycle_end en ar w) \<and> ew_versions w' = ew_versions w
        \<and> er_version res = cycle_version en w
        \<and> er_merges res = cy_merges (cycle_end en ar w) \<and> er_prunes res = cy_prunes (cycle_end en ar w))
    \<or> (cy_count (cycle_end en ar w) > 0
        \<and> (\<exists>reason. bump (ee_orm en) (ee_now en) reason (ee_tenant en) (ee_graph en) (ew_versions w)
            = Inr (ew_versions w', er_version res))
        \<and> er_merges res = cy_merges (cycle_end en ar w) \<and> er_prunes res = cy_prunes (cycle_end en ar w)
        \<and> ew_db w' = (cy_db (cycle_end en ar w))\<lparr>gd_backups := fst (retag (ee_tenant en) (ee_graph en)
            (cycle_version en w) (er_version res) (gd_backups (cy_db (cycle_end en ar w))))\<rparr>)"
proof -
  have fin: "finish_cycle en ar None w (get_version (ee_tenant en) (ee_graph en) (ew_versions w)) (cycle_nodes en w)
      (cycle_edges en w) (cycle_diagnostics en w) (snap_event en w) = Inr (res, w')"
    if "ew_db w' \<noteq> ew_db w \<or> ew_versions w' \<noteq> ew_versions w \<or> er_merges res + er_prunes res \<noteq> 0"
    using assms that by (auto simp: evolve_once_def Let_def snap_event_def split: option.splits if_splits)
  show ?thesis
  proof (cases "ew_db w' \<noteq> ew_db w \<or> ew_versions w' \<noteq> ew_versions w \<or> er_merges res + er_prunes res \<noteq> 0")
    case True
    then show ?thesis using fin [OF True]
      by (auto simp: finish_cycle_def Let_def cycle_end_def split: if_splits sum.splits prod.splits)
  qed simp
qed



lemma retag_counts:
  assumes "from_v \<noteq> to_v"
  shows "count_for_version t g from_v (fst (retag t g from_v to_v bs)) = 0"
    and "count_for_version t g to_v (fst (retag t g from_v to_v bs))
      = count_for_version t g to_v bs + count_for_version t g from_v bs"
proof -
  show "count_for_version t g from_v (fst (retag t g from_v to_v bs)) = 0"
    using assms by (auto simp: count_for_version_def retag_def update_rows_def backup_in_def filter_empty_conv)
  show "count_for_version t g to_v (fst (retag t g from_v to_v bs))
      = count_for_version t g to_v bs + count_for_version t g from_v bs"
    using assms by (induction bs) (auto simp: count_for_version_def retag_def update_rows_def backup_in_def)
qed

lemma passes_backups:
  assumes "t = ee_tenant en" "g = ee_graph en"
  shows "count_for_version t g v (gd_backups (cy_db (evolve_passes en ar d v nodes (start_cycle w snap))))
    = count_for_version t g v (gd_backups (ew_db w))
      + cy_prunes (evolve_passes en ar d v nodes (start_cycle w snap))"
proof -
  let ?P = "\<lambda>c. count_for_version t g v (gd_backups (cy_db c)) = count_for_version t g v (gd_backups (ew_db w)) + cy_prunes c"
  have start: "?P (start_cycle w snap)" by (simp add: start_cycle_def)
  have merges: "?P (merge_pass en th limit score ns (start_cycle w snap))"
    "?P (merge_pairs en th limit ps (start_cycle w snap))" for th limit score ns ps
    by (rule merge_pass_keeps [where P = ?P, OF _ start]; simp)
      (rule merge_pairs_keeps [where P = ?P, OF _ start]; simp)
  have "?P (prune_pass en p limit v ns c)" if "?P c" for p limit ns c
    by (rule prune_pass_keeps [where P = ?P, OF _ that])
      (simp add: do_prune_def prune_node_def snapshot_def count_for_version_def backup_in_def assms)
  then show ?thesis using merges by (simp add: evolve_passes_def Let_def split: option.splits)
qed


lemma cosine_commute: "cosine_similarity a b = cosine_similarity b a"
proof -
  have "dot a b = dot b a" unfolding dot_def
    by (induction a b rule: list_induct2') (simp_all add: mult.commute)
  then show ?thesis by (simp add: cosine_similarity_def Let_def mult.commute disj_commute)
qed

lemma evolve_once_finish:
  assumes "evolve_once en ar None w = Inr (res, w')" "er_skip res \<noteq> Some ''lambda_below_gate''" "2 \<le> length (cycle_nodes en w)"
  shows "gd_nodes (ew_db w') = gd_nodes (cy_db (cycle_end en ar w))
    \<and> er_prunes res = cy_prunes (cycle_end en ar w) \<and> er_merges res = cy_merges (cycle_end en ar w)"
proof -
  have "finish_cycle en ar None w (cycle_version en w) (cycle_nodes en w) (cycle_edges en w) (cycle_diagnostics en w)
      (snap_event en w) = Inr (res, w')"
    using assms by (auto simp: evolve_once_def Let_def snap_event_def split: option.splits if_splits)
  then show ?thesis
    by (auto simp: finish_cycle_def Let_def cycle_end_def split: if_splits sum.splits prod.splits)
qed

text \<open>Two nodes whose similarity lies between the two thresholds: the passes delete both.\<close>

lemma two_nodes_end:
  assumes "ee_pg en = None" "cycle_nodes en w = [a, b]" "gd_nodes (ew_db w) = [a, b]" "nd_id a \<noteq> nd_id b"
    and "length (node_vector [a, b] a) = length (node_vector [a, b] b)"
    and "\<not> should_merge (pair_score [a, b] a b) (adapt_merge_threshold (ea_merge_threshold ar) (cycle_diagnostics en w))"
    and "\<forall>n \<in> {a, b}. can_prune (ee_now en) (adapt_prune_policy (ea_policy ar) (cycle_diagnostics en w)) n
        (cosine_similarity (node_vector [a, b] a) (node_vector [a, b] b))"
    and "2 \<le> scaled_actions (ea_gate ar) (cycle_diagnostics en w) (ea_max_actions ar)"
  shows "gd_nodes (cy_db (cycle_end en ar w)) = [] \<and> cy_prunes (cycle_end en ar w) = 2 \<and> cy_merges (cycle_end en ar w) = 0"
proof -
  let ?d = "cycle_diagnostics en w" and ?s = "cosine_similarity (node_vector [a, b] a) (node_vector [a, b] b)"
  let ?p = "adapt_prune_policy (ea_policy ar) ?d"
  have sym: "cosine_similarity (node_vector [a, b] b) (node_vector [a, b] a) = ?s" by (rule cosine_commute)
  have mat: "has_matrix [a, b]" using assms(5) by (simp add: has_matrix_def)
  have sims: "similarity_dict en (pp_min_similarity ?p) [a, b] [a, b] = [(nd_id a, ?s), (nd_id b, ?s)]"
    using assms(1,4) mat sym by (simp add: similarity_dict_def matrix_max_def upt_rec)
  note a_in = cycle_nodes_in [of a en w] and b_in = cycle_nodes_in [of b en w]
  have "cycle_end en ar w = prune_pass en ?p (scaled_actions (ea_gate ar) ?d (ea_max_actions ar)) (cycle_version en w)
      [(a, ?s), (b, ?s)] (start_cycle w (snap_event en w))"
    using assms(1-4,6) sims
    by (simp add: cycle_end_def evolve_passes_def start_cycle_def prune_list_def Let_def)
  then show ?thesis
    using assms(2-4,7,8) a_in b_in
    by (simp add: start_cycle_def do_prune_def prune_node_def delete_node_def get_node_row_def delete_rows_def)
qed

text \<open>
  A redundant pair can disappear as a whole. In a graph of two nodes, both below the age and use
  limits of the adapted policy, whose similarity reaches the adapted prune threshold but not the
  merge threshold, a cycle with a budget of two deletes both nodes: the similarity of the second to
  the first still counts after the first is gone.
\<close>

theorem redundant_pair_both_deleted:
  assumes "evolve_once en ar None w = Inr (res, w')" "er_skip res \<noteq> Some ''lambda_below_gate''"
    and "ee_pg en = None" "cycle_nodes en w = [a, b]" "gd_nodes (ew_db w) = [a, b]" "nd_id a \<noteq> nd_id b"
    and "length (node_vector [a, b] a) = length (node_vector [a, b] b)"
    and "\<not> should_merge (pair_score [a, b] a b) (adapt_merge_threshold (ea_merge_threshold ar) (cycle_diagnostics en w))"
    and "\<forall>n \<in> {a, b}. can_prune (ee_now en) (adapt_prune_policy (ea_policy ar) (cycle_diagnostics en w)) n
        (cosine_similarity (node_vector [a, b] a) (node_vector [a, b] b))"
    and "2 \<le> scaled_actions (ea_gate ar) (cycle_diagnostics en w) (ea_max_actions ar)"
  shows "gd_nodes (ew_db w') = [] \<and> er_prunes res = 2 \<and> er_merges res = 0"
  using two_nodes_end [OF assms(3-10)] evolve_once_finish [OF assms(1,2)] assms(4) by simp

section \<open>An example cycle\<close>

text \<open>Two unused nodes ten days old, redundancy 0.6, similarity 3479/3721 between 0.93 and 0.94.\<close>

definition ev_node :: "string \<Rightarrow> real list \<Rightarrow> node_row" where
  "ev_node i v = \<lparr>nd_id = i, nd_tenant = ''t'', nd_graph = ''g'', nd_kind = ''atom'', nd_hash = i, nd_raw = None,
     nd_block = None, nd_anchor = None, nd_vector = v, nd_embedding = None, nd_signature = None, nd_residual = 0,
     nd_level = 0, nd_touch = 0, nd_access = None, nd_valid_from = None, nd_valid_to = None, nd_long_term = False,
     nd_cluster = None, nd_cognitive = None, nd_galaxy = None, nd_created = 0, nd_updated = 0\<rparr>"

definition ev_a :: node_row where "ev_a = ev_node ''a'' [1, 0]"
definition ev_b :: node_row where "ev_b = ev_node ''b'' [3479, 1320]"

definition ev_env :: evolve_env where
  "ev_env = \<lparr>ee_tenant = ''t'', ee_graph = ''g'', ee_pg = None, ee_orm = False, ee_fmt = (\<lambda>_. []),
     ee_diagnose = (\<lambda>_ _ _. \<lparr>dg_D = 0, dg_H = 0, dg_lambda = 0, dg_R = 6 / 10, dg_N = 0, dg_E = 0, dg_s = 0, dg_hash = []\<rparr>),
     ee_selector = None, ee_context = [], ee_fresh = nat_str, ee_now = 864000\<rparr>"

definition ev_args :: evolve_args where
  "ev_args = \<lparr>ea_max_actions = 25, ea_merge_threshold = 95 / 100, ea_policy = default_prune_policy, ea_gate = None\<rparr>"

definition ev_world :: evolve_world where
  "ev_world = \<lparr>ew_db = \<lparr>gd_nodes = [ev_a, ev_b], gd_edges = [], gd_backups = []\<rparr>, ew_versions = ex_versions, ew_events = []\<rparr>"

lemma ev_world_fields [simp]:
  "gd_nodes (ew_db ev_world) = [ev_a, ev_b]" "gd_backups (ew_db ev_world) = []" "ew_versions ev_world = ex_versions"
  "ee_tenant ev_env = ''t''" "ee_graph ev_env = ''g''" "ee_pg ev_env = None" "ee_now ev_env = 864000"
  "ea_gate ev_args = None" "ea_max_actions ev_args = 25"
  by (simp_all add: ev_world_def ev_env_def ev_args_def)

lemma ev_nodes: "cycle_nodes ev_env ev_world = [ev_a, ev_b]"
  by (simp add: cycle_nodes_def list_nodes_def query_rows_def node_in_def node_order_def ev_a_def ev_b_def ev_node_def
      less_eq_prod_def)

lemma ev_similarity:
  "cosine_similarity (node_vector [ev_a, ev_b] ev_a) (node_vector [ev_a, ev_b] ev_b) = 3479 / 3721"
proof -
  have "sqrt 13845841 = sqrt (3721 ^ 2)" by simp
  then have "sqrt 13845841 = 3721" by (simp only: real_sqrt_abs)
  then show ?thesis
    by (simp add: cosine_similarity_def node_vector_def use_embeddings_def ev_a_def ev_b_def ev_node_def dot_def)
qed

lemma evolve_returns:
  assumes "version_row (ee_tenant en) (ee_graph en) (ew_versions w) \<noteq> None"
  shows "\<exists>res w'. evolve_once en ar None w = Inr (res, w')"
proof -
  obtain r where "version_row (ee_tenant en) (ee_graph en) (ew_versions w) = Some r" using assms by blast
  then have "\<exists>rows v. bump orm now reason (ee_tenant en) (ee_graph en) (ew_versions w) = Inr (rows, v)" for orm now reason
    by (simp add: bump_def bump_write_def put_version_def Let_def)
  then have "case bump orm now reason (ee_tenant en) (ee_graph en) (ew_versions w) of Inl e \<Rightarrow> False | Inr p \<Rightarrow> True"
    for orm now reason by (metis (no_types, lifting) old.sum.simps(6))
  then have bump: "bump orm now reason (ee_tenant en) (ee_graph en) (ew_versions w) \<noteq> Inl e" for orm now reason e
    by (metis old.sum.simps(5))
  show ?thesis
    by (auto simp: evolve_once_def finish_cycle_def Let_def bump split: option.splits sum.splits)
qed

lemma ev_diagnostics:
  "dg_R (cycle_diagnostics ev_env ev_world) = 6 / 10" "dg_N (cycle_diagnostics ev_env ev_world) = 0"
  by (simp_all add: cycle_diagnostics_def ev_env_def)

lemma ev_thresholds:
  "adapt_merge_threshold (ea_merge_threshold ev_args) (cycle_diagnostics ev_env ev_world) = 94 / 100"
  "adapt_prune_policy (ea_policy ev_args) (cycle_diagnostics ev_env ev_world) = default_prune_policy\<lparr>pp_min_similarity := 93 / 100\<rparr>"
  by (simp_all add: adapt_merge_threshold_def adapt_prune_policy_def ev_args_def default_prune_policy_def ev_diagnostics)

lemma ev_result:
  obtains res w' where "evolve_once ev_env ev_args None ev_world = Inr (res, w')" "er_skip res \<noteq> Some ''lambda_below_gate''"
proof -
  have "version_row ''t'' ''g'' ex_versions \<noteq> None" by (simp add: version_row_def ex_versions_def version_is_def)
  then obtain res w' where r: "evolve_once ev_env ev_args None ev_world = Inr (res, w')"
    using evolve_returns [of ev_env ev_world ev_args] by auto
  moreover have "er_skip res \<noteq> Some ''lambda_below_gate''"
    using r by (auto simp: evolve_once_def finish_cycle_def Let_def ev_nodes split: sum.splits if_splits)
  ultimately show thesis by (rule that)
qed

lemma ev_prunable:
  "\<forall>n \<in> {ev_a, ev_b}. can_prune 864000 (default_prune_policy\<lparr>pp_min_similarity := 93 / 100\<rparr>) n (3479 / 3721)"
  by (simp add: can_prune_def ev_a_def ev_b_def ev_node_def default_prune_policy_def)

lemma ev_pair:
  "nd_id ev_a \<noteq> nd_id ev_b" "length (node_vector [ev_a, ev_b] ev_a) = length (node_vector [ev_a, ev_b] ev_b)"
  "\<not> should_merge (pair_score [ev_a, ev_b] ev_a ev_b) (94 / 100)"
  unfolding pair_score_def opposition_score_def ev_similarity should_merge_def
  by (simp_all add: ev_a_def ev_b_def ev_node_def node_vector_def use_embeddings_def)

lemma redundant_pair_both_deleted_witness:
  "\<exists>res w'. evolve_once ev_env ev_args None ev_world = Inr (res, w') \<and> gd_nodes (ew_db w') = [] \<and> er_prunes res = 2"
proof (rule ev_result)
  fix res w' assume r: "evolve_once ev_env ev_args None ev_world = Inr (res, w')" "er_skip res \<noteq> Some ''lambda_below_gate''"
  have "gd_nodes (ew_db w') = [] \<and> er_prunes res = 2 \<and> er_merges res = 0"
    by (rule redundant_pair_both_deleted [OF r _ ev_nodes _ ev_pair(1,2)])
      (simp_all add: ev_thresholds ev_pair(3) [simplified] ev_similarity ev_prunable [simplified] scaled_actions_def)
  with r show ?thesis by blast
qed

lemma ev_two_prunes:
  assumes "evolve_once ev_env ev_args None ev_world = Inr (res, w')" "er_skip res \<noteq> Some ''lambda_below_gate''"
  shows "gd_nodes (ew_db w') = [] \<and> er_prunes res = 2 \<and> er_merges res = 0"
proof -
  have "gd_nodes (cy_db (cycle_end ev_env ev_args ev_world)) = [] \<and> cy_prunes (cycle_end ev_env ev_args ev_world) = 2
      \<and> cy_merges (cycle_end ev_env ev_args ev_world) = 0"
    by (rule two_nodes_end [OF _ ev_nodes _ ev_pair(1,2)])
      (simp_all add: ev_thresholds ev_pair(3) [simplified] ev_similarity ev_prunable [simplified] scaled_actions_def)
  then show ?thesis using evolve_once_finish [OF assms] ev_nodes by simp
qed




end
