(* ===== verification/FM_Temporal.thy ===== *)
theory FM_Temporal
  imports FM_Prelude
begin

text \<open>
  The temporal constraint solver, \<open>core/temporal/solver.py\<close>: events with known times, constraints
  between events, deadlines, inferred relations, conflict detection and timelines.

  A time is a number of microseconds; \<open>isoformat\<close> of the results is left to their reader. The
  dictionary of event times is a map, as its order is never used.

  The lemmas show what a timeline contains and in which order, where inferred times lie, and which
  contradictions the conflict detection misses and which consistent constraints it reports.
\<close>

section \<open>Constraints and the solver\<close>

datatype temporal_relation = BEFORE | AFTER | DURING | OVERLAPS | CONTAINS | EQUALS

fun relation_value :: "temporal_relation \<Rightarrow> string" where
  "relation_value BEFORE = ''before''"
| "relation_value AFTER = ''after''"
| "relation_value DURING = ''during''"
| "relation_value OVERLAPS = ''overlaps''"
| "relation_value CONTAINS = ''contains''"
| "relation_value EQUALS = ''equals''"

record temporal_constraint =
  co_a :: string
  co_b :: string
  co_rel :: temporal_relation
  co_confidence :: real

record solver =
  sv_reference :: int
  sv_constraints :: "temporal_constraint list"
  sv_times :: "string \<rightharpoonup> int"

definition new_solver :: "int option \<Rightarrow> int \<Rightarrow> solver" where
  "new_solver reference utcnow = \<lparr>sv_reference = (case reference of None \<Rightarrow> utcnow | Some r \<Rightarrow> r),
     sv_constraints = [], sv_times = Map.empty\<rparr>"

definition add_constraint :: "string \<Rightarrow> string \<Rightarrow> temporal_relation \<Rightarrow> real \<Rightarrow> solver \<Rightarrow> solver" where
  "add_constraint a b r conf s = s\<lparr>sv_constraints := sv_constraints s
     @ [\<lparr>co_a = a, co_b = b, co_rel = r, co_confidence = conf\<rparr>]\<rparr>"

definition set_event_time :: "string \<Rightarrow> int \<Rightarrow> solver \<Rightarrow> solver" where
  "set_event_time e t s = s\<lparr>sv_times := (sv_times s)(e \<mapsto> t)\<rparr>"

section \<open>Deadlines and inferred relations\<close>

record deadline_status =
  dl_status :: string
  dl_days :: "int option"
  dl_deadline :: "int option"
  dl_urgency :: "string option"

definition day_microseconds :: int where
  "day_microseconds = 86400000000"

definition check_deadline :: "string \<Rightarrow> int option \<Rightarrow> solver \<Rightarrow> deadline_status" where
  "check_deadline e current s =
     (case sv_times s e of
        None \<Rightarrow> \<lparr>dl_status = ''unknown'', dl_days = None, dl_deadline = None, dl_urgency = None\<rparr>
      | Some deadline \<Rightarrow>
          (let now = (case current of None \<Rightarrow> sv_reference s | Some c \<Rightarrow> c);
               days = (deadline - now) div day_microseconds;
               status = (if days < 0 then ''passed'' else if days \<le> 7 then ''approaching'' else ''distant'')
           in \<lparr>dl_status = status, dl_days = Some days, dl_deadline = Some deadline,
               dl_urgency = Some (if days < 3 then ''high'' else if days < 7 then ''medium'' else ''low'')\<rparr>))"

definition infer_temporal_relationship :: "string \<Rightarrow> string \<Rightarrow> solver \<Rightarrow> temporal_constraint option" where
  "infer_temporal_relationship a b s =
     (case (sv_times s a, sv_times s b) of
        (Some x, Some y) \<Rightarrow>
          Some \<lparr>co_a = a, co_b = b, co_rel = (if x < y then BEFORE else if x > y then AFTER else EQUALS),
            co_confidence = 1\<rparr>
      | _ \<Rightarrow> None)"

section \<open>Conflicts\<close>

datatype conflict =
    Contradictory string string temporal_relation temporal_relation
  | Transitive string string temporal_relation temporal_relation

definition implied_transitive :: "temporal_constraint \<Rightarrow> temporal_constraint \<Rightarrow> temporal_relation" where
  "implied_transitive c1 c2 =
     (if co_rel c1 = BEFORE \<and> co_rel c2 = BEFORE then BEFORE
      else if co_rel c1 = AFTER \<and> co_rel c2 = AFTER then AFTER
      else OVERLAPS)"

definition pair_conflicts :: "temporal_constraint list \<Rightarrow> temporal_constraint \<Rightarrow> temporal_constraint \<Rightarrow> conflict list" where
  "pair_conflicts every c1 c2 =
     (if co_a c1 = co_a c2 \<and> co_b c1 = co_b c2 \<and> co_rel c1 \<noteq> co_rel c2
      then [Contradictory (co_a c1) (co_b c1) (co_rel c1) (co_rel c2)] else [])
     @ (if co_b c1 = co_a c2
        then concat (map (\<lambda>c3.
               if co_a c3 = co_a c1 \<and> co_b c3 = co_b c2 \<and> co_rel c3 \<noteq> implied_transitive c1 c2
               then [Transitive (co_a c1) (co_b c2) (implied_transitive c1 c2) (co_rel c3)] else []) every)
        else [])"

fun conflicts_from :: "temporal_constraint list \<Rightarrow> temporal_constraint list \<Rightarrow> conflict list" where
  "conflicts_from every [] = []"
| "conflicts_from every (c1 # cs) = concat (map (pair_conflicts every c1) cs) @ conflicts_from every cs"

definition detect_conflicts :: "solver \<Rightarrow> conflict list" where
  "detect_conflicts s = conflicts_from (sv_constraints s) (sv_constraints s)"

section \<open>Timelines\<close>

record entry =
  en_event :: string
  en_time :: "int option"
  en_position :: string
  en_inferred :: "int option"

text \<open>\<open>max\<close> and \<open>min\<close> with a key give the first best element.\<close>

definition py_max_by :: "('a \<Rightarrow> int) \<Rightarrow> 'a list \<Rightarrow> 'a option" where
  "py_max_by f xs = (case xs of [] \<Rightarrow> None | x # ys \<Rightarrow> Some (foldl (\<lambda>m y. if f y > f m then y else m) x ys))"

definition py_min_by :: "('a \<Rightarrow> int) \<Rightarrow> 'a list \<Rightarrow> 'a option" where
  "py_min_by f xs = (case xs of [] \<Rightarrow> None | x # ys \<Rightarrow> Some (foldl (\<lambda>m y. if f y < f m then y else m) x ys))"

text \<open>Half of a time difference, rounded half to even as \<open>timedelta / 2\<close>.\<close>

definition half_delta :: "int \<Rightarrow> int" where
  "half_delta d = (let q = d div 2 in if even d then q else if even q then q else q + 1)"

definition after_of :: "string \<Rightarrow> temporal_constraint list \<Rightarrow> string list" where
  "after_of e cs = map co_b (filter (\<lambda>c. co_a c = e \<and> co_rel c = BEFORE) cs)"

definition before_of :: "string \<Rightarrow> temporal_constraint list \<Rightarrow> string list" where
  "before_of e cs = map co_a (filter (\<lambda>c. \<not> (co_a c = e \<and> co_rel c = BEFORE) \<and> co_b c = e \<and> co_rel c = BEFORE) cs)"

type_synonym timed = "string \<times> int"

definition position_untimed :: "temporal_constraint list \<Rightarrow> timed list \<Rightarrow> string \<Rightarrow> entry" where
  "position_untimed cs timed e =
     (let bs = before_of e cs; as = after_of e cs;
          plain = \<lparr>en_event = e, en_time = None, en_position = ''relative'', en_inferred = None\<rparr> in
      if bs \<noteq> [] \<and> as \<noteq> [] then
        (case (py_max_by snd (filter (\<lambda>x. fst x \<in> set bs) timed), py_min_by snd (filter (\<lambda>x. fst x \<in> set as) timed)) of
           (Some x, Some y) \<Rightarrow>
             plain\<lparr>en_inferred := Some (snd x + half_delta (snd y - snd x)),
               en_position := ''between '' @ fst x @ '' and '' @ fst y\<rparr>
         | _ \<Rightarrow> plain)
      else if bs \<noteq> [] then plain\<lparr>en_position := ''after '' @ py_join '', '' bs\<rparr>
      else if as \<noteq> [] then plain\<lparr>en_position := ''before '' @ py_join '', '' as\<rparr>
      else plain)"

definition timed_events :: "solver \<Rightarrow> string list \<Rightarrow> timed list" where
  "timed_events s events = sort_key snd (concat (map (\<lambda>e. case sv_times s e of None \<Rightarrow> [] | Some t \<Rightarrow> [(e, t)]) events))"

definition build_timeline :: "string list \<Rightarrow> solver \<Rightarrow> entry list" where
  "build_timeline events s =
     (let timed = timed_events s events in
      map (\<lambda>(e, t). \<lparr>en_event = e, en_time = Some t, en_position = ''absolute'', en_inferred = None\<rparr>) timed
      @ map (position_untimed (sv_constraints s) timed) (filter (\<lambda>e. sv_times s e = None) events))"

section \<open>Validation of a query\<close>

record validation =
  va_valid :: bool
  va_unknown :: "string list"
  va_conflicts :: "conflict list"
  va_deadlines :: "(string \<times> deadline_status) list"

definition deadline_keywords :: "string list" where
  "deadline_keywords = [''deadline'', ''due'', ''by when'', ''when is'']"

definition validate_query_temporal :: "string \<Rightarrow> string list \<Rightarrow> solver \<Rightarrow> validation" where
  "validate_query_temporal query events s =
     \<lparr>va_valid = (detect_conflicts s = []),
      va_unknown = filter (\<lambda>e. sv_times s e = None) events,
      va_conflicts = detect_conflicts s,
      va_deadlines =
        (if list_ex (\<lambda>kw. py_in kw (py_lower query)) deadline_keywords
         then filter (\<lambda>(e, c). dl_status c \<noteq> ''unknown'') (map (\<lambda>e. (e, check_deadline e None s)) events)
         else [])\<rparr>"

section \<open>Timelines: content, order, inferred times\<close>

lemma timed_events_sort:
  "map fst (timed_events s events) = sort_key (\<lambda>e. the (sv_times s e)) (filter (\<lambda>e. sv_times s e \<noteq> None) events)"
proof -
  let ?f = "\<lambda>e. (e, the (sv_times s e))"
  have eq: "concat (map (\<lambda>e. case sv_times s e of None \<Rightarrow> [] | Some t \<Rightarrow> [(e, t)]) events)
      = map ?f (filter (\<lambda>e. sv_times s e \<noteq> None) events)"
    by (induction events) (auto split: option.splits)
  have ins: "insort_key snd (?f x) (map ?f ys) = map ?f (insort_key (\<lambda>e. the (sv_times s e)) x ys)" for x ys
    by (induction ys) auto
  have "sort_key snd (map ?f ys) = map ?f (sort_key (\<lambda>e. the (sv_times s e)) ys)" for ys
    by (induction ys) (simp_all add: ins)
  then show ?thesis by (simp add: timed_events_def eq o_def)
qed

lemma timed_events_in: "(e, t) \<in> set (timed_events s events) \<Longrightarrow> e \<in> set events \<and> sv_times s e = Some t"
  by (auto simp: timed_events_def split: option.splits)

lemma position_event [simp]: "en_event (position_untimed cs timed e) = e" "en_time (position_untimed cs timed e) = None"
  by (simp_all add: position_untimed_def Let_def split: option.splits)

lemma foldl_pick: "(\<And>m y. f m y = m \<or> f m y = y) \<Longrightarrow> foldl f x ys \<in> insert x (set ys)"
  by (induction ys arbitrary: x) (auto, metis+)

lemma py_pick_in:
  "py_max_by f xs = Some x \<Longrightarrow> x \<in> set xs" "py_min_by f xs = Some x \<Longrightarrow> x \<in> set xs"
proof -
  have pick: "foldl (\<lambda>m y. if p y m then y else m) x ys \<in> insert x (set ys)" for p x ys
    by (rule foldl_pick) simp
  show "py_max_by f xs = Some x \<Longrightarrow> x \<in> set xs" "py_min_by f xs = Some x \<Longrightarrow> x \<in> set xs"
    using pick [of "\<lambda>y m. f y > f m"] pick [of "\<lambda>y m. f y < f m"]
    by (auto simp: py_max_by_def py_min_by_def split: list.splits)
qed

lemma half_delta_bounds: "0 \<le> d \<Longrightarrow> 0 \<le> half_delta d \<and> half_delta d \<le> d" "d \<le> 0 \<Longrightarrow> d \<le> half_delta d \<and> half_delta d \<le> 0"
  unfolding half_delta_def Let_def by presburger+

lemma inferred_between:
  assumes "en_inferred (position_untimed cs (timed_events s events) e) = Some m"
  shows "\<exists>x y tx ty. x \<in> set events \<and> y \<in> set events \<and> sv_times s x = Some tx \<and> sv_times s y = Some ty
    \<and> (\<exists>c \<in> set cs. co_a c = x \<and> co_b c = e \<and> co_rel c = BEFORE)
    \<and> (\<exists>c \<in> set cs. co_a c = e \<and> co_b c = y \<and> co_rel c = BEFORE)
    \<and> min tx ty \<le> m \<and> m \<le> max tx ty"
proof -
  obtain x tx y ty where p: "py_max_by snd (filter (\<lambda>x. fst x \<in> set (before_of e cs)) (timed_events s events)) = Some (x, tx)"
    "py_min_by snd (filter (\<lambda>x. fst x \<in> set (after_of e cs)) (timed_events s events)) = Some (y, ty)"
    and m: "m = tx + half_delta (ty - tx)"
    using assms by (auto simp: position_untimed_def Let_def split: if_splits option.splits)
  have x: "(x, tx) \<in> set (timed_events s events)" "x \<in> set (before_of e cs)" using py_pick_in(1) [OF p(1)] by auto
  have y: "(y, ty) \<in> set (timed_events s events)" "y \<in> set (after_of e cs)" using py_pick_in(2) [OF p(2)] by auto
  have "min tx ty \<le> m \<and> m \<le> max tx ty"
    using half_delta_bounds(1) [of "ty - tx"] half_delta_bounds(2) [of "ty - tx"] by (simp add: m min_def max_def) linarith
  moreover have "\<exists>c \<in> set cs. co_a c = x \<and> co_b c = e \<and> co_rel c = BEFORE" "\<exists>c \<in> set cs. co_a c = e \<and> co_b c = y \<and> co_rel c = BEFORE"
    using x(2) y(2) by (auto simp: before_of_def after_of_def)
  ultimately show ?thesis using timed_events_in [OF x(1)] timed_events_in [OF y(1)] by blast
qed

text \<open>
  A timeline lists every event exactly as often as it was given: first the events with a known
  time, in order of time and stably, then all others in the order given, whatever time was inferred
  for them. An inferred time lies between the times of two given events that a constraint puts
  before and after the event.
\<close>

theorem timeline_order:
  "map en_event (build_timeline events s) =
      sort_key (\<lambda>e. the (sv_times s e)) (filter (\<lambda>e. sv_times s e \<noteq> None) events) @ filter (\<lambda>e. sv_times s e = None) events
    \<and> (\<forall>en m. en \<in> set (build_timeline events s) \<longrightarrow> en_inferred en = Some m \<longrightarrow> sv_times s (en_event en) = None
        \<and> (\<exists>x y tx ty. x \<in> set events \<and> y \<in> set events \<and> sv_times s x = Some tx \<and> sv_times s y = Some ty
          \<and> (\<exists>c \<in> set (sv_constraints s). co_a c = x \<and> co_b c = en_event en \<and> co_rel c = BEFORE)
          \<and> (\<exists>c \<in> set (sv_constraints s). co_a c = en_event en \<and> co_b c = y \<and> co_rel c = BEFORE)
          \<and> min tx ty \<le> m \<and> m \<le> max tx ty))"
proof (rule conjI)
  have "map en_event (build_timeline events s) = map fst (timed_events s events) @ filter (\<lambda>e. sv_times s e = None) events"
    by (simp add: build_timeline_def Let_def o_def case_prod_beta)
  then show "map en_event (build_timeline events s) =
      sort_key (\<lambda>e. the (sv_times s e)) (filter (\<lambda>e. sv_times s e \<noteq> None) events) @ filter (\<lambda>e. sv_times s e = None) events"
    by (simp add: timed_events_sort)
next
  show "\<forall>en m. en \<in> set (build_timeline events s) \<longrightarrow> en_inferred en = Some m \<longrightarrow> sv_times s (en_event en) = None
        \<and> (\<exists>x y tx ty. x \<in> set events \<and> y \<in> set events \<and> sv_times s x = Some tx \<and> sv_times s y = Some ty
          \<and> (\<exists>c \<in> set (sv_constraints s). co_a c = x \<and> co_b c = en_event en \<and> co_rel c = BEFORE)
          \<and> (\<exists>c \<in> set (sv_constraints s). co_a c = en_event en \<and> co_b c = y \<and> co_rel c = BEFORE)
          \<and> min tx ty \<le> m \<and> m \<le> max tx ty)"
  proof (intro allI impI)
    fix en m assume "en \<in> set (build_timeline events s)" "en_inferred en = Some m"
    then obtain e where "en = position_untimed (sv_constraints s) (timed_events s events) e" "sv_times s e = None"
      by (auto simp: build_timeline_def Let_def)
    moreover from this have "en_inferred (position_untimed (sv_constraints s) (timed_events s events) e) = Some m"
      using \<open>en_inferred en = Some m\<close> by simp
    ultimately show "sv_times s (en_event en) = None
        \<and> (\<exists>x y tx ty. x \<in> set events \<and> y \<in> set events \<and> sv_times s x = Some tx \<and> sv_times s y = Some ty
          \<and> (\<exists>c \<in> set (sv_constraints s). co_a c = x \<and> co_b c = en_event en \<and> co_rel c = BEFORE)
          \<and> (\<exists>c \<in> set (sv_constraints s). co_a c = en_event en \<and> co_b c = y \<and> co_rel c = BEFORE)
          \<and> min tx ty \<le> m \<and> m \<le> max tx ty)"
      using inferred_between by simp
  qed
qed

section \<open>What conflict detection misses and invents\<close>

text \<open>The meaning of the relations between points in time; the relations of intervals say nothing of points.\<close>

fun holds :: "(string \<Rightarrow> int) \<Rightarrow> temporal_constraint \<Rightarrow> bool" where
  "holds t c = (case co_rel c of BEFORE \<Rightarrow> t (co_a c) < t (co_b c) | AFTER \<Rightarrow> t (co_a c) > t (co_b c)
     | EQUALS \<Rightarrow> t (co_a c) = t (co_b c) | _ \<Rightarrow> True)"

definition before_pairs :: "temporal_constraint list \<Rightarrow> (string \<times> string) set" where
  "before_pairs cs = {(co_a c, co_b c) |c. c \<in> set cs \<and> co_rel c = BEFORE}"

lemma before_path:
  assumes "\<forall>c \<in> set cs. holds t c"
  shows "(x, y) \<in> (before_pairs cs)\<^sup>+ \<Longrightarrow> t x < t y"
proof (induction rule: trancl_induct)
  case (base y)
  then show ?case using assms by (auto simp: before_pairs_def)
next
  case (step y z)
  then obtain c where "c \<in> set cs" "co_rel c = BEFORE" "co_a c = y" "co_b c = z" by (auto simp: before_pairs_def)
  then have "t y < t z" using assms by force
  with step show ?case by simp
qed

lemma pair_conflicts_before:
  "(\<forall>c \<in> set every. co_rel c = BEFORE) \<Longrightarrow> co_rel c1 = BEFORE \<Longrightarrow> co_rel c2 = BEFORE \<Longrightarrow> pair_conflicts every c1 c2 = []"
  by (auto simp: pair_conflicts_def implied_transitive_def)

text \<open>
  Cycles go unnoticed: when every constraint says before, conflict detection reports nothing, and
  so also when the constraints go round in a circle, which no assignment of times satisfies.
\<close>

theorem before_cycles_undetected:
  assumes "\<forall>c \<in> set (sv_constraints s). co_rel c = BEFORE" "(e, e) \<in> (before_pairs (sv_constraints s))\<^sup>+"
  shows "detect_conflicts s = [] \<and> va_valid (validate_query_temporal q events s)
    \<and> \<not> (\<exists>t. \<forall>c \<in> set (sv_constraints s). holds t c)"
proof -
  have "conflicts_from every cs = []" if "\<forall>c \<in> set every. co_rel c = BEFORE" "set cs \<subseteq> set every" for every cs
    using that by (induction cs) (auto intro!: pair_conflicts_before)
  then have "detect_conflicts s = []" using assms(1) by (simp add: detect_conflicts_def)
  moreover have "\<not> (\<exists>t. \<forall>c \<in> set (sv_constraints s). holds t c)" using before_path assms(2) by blast
  ultimately show ?thesis by (simp add: validate_query_temporal_def)
qed

lemma before_cycles_undetected_witness:
  "detect_conflicts (add_constraint ''b'' ''a'' BEFORE 1 (add_constraint ''a'' ''b'' BEFORE 1 (new_solver None 0))) = []"
proof -
  let ?s = "add_constraint ''b'' ''a'' BEFORE 1 (add_constraint ''a'' ''b'' BEFORE 1 (new_solver None 0))"
  have "before_pairs (sv_constraints ?s) = {(''a'', ''b''), (''b'', ''a'')}"
    by (force simp: before_pairs_def add_constraint_def new_solver_def)
  then have "(''a'', ''b'') \<in> before_pairs (sv_constraints ?s)" "(''b'', ''a'') \<in> before_pairs (sv_constraints ?s)" by simp_all
  then have "(''a'', ''a'') \<in> (before_pairs (sv_constraints ?s))\<^sup>+" by (meson trancl.simps)
  moreover have "\<forall>c \<in> set (sv_constraints ?s). co_rel c = BEFORE" by (simp add: add_constraint_def new_solver_def)
  ultimately show ?thesis using before_cycles_undetected by blast
qed

text \<open>
  Consistent constraints are reported: take three events with known times where the middle one is
  the latest, and add the three relations the solver itself infers for them. They hold for the known
  times, but detection reports a transitive inconsistency and the query counts as invalid.
\<close>

theorem own_inferences_conflict:
  assumes "sv_times s a = Some x" "sv_times s b = Some y" "sv_times s c = Some z" "x < y" "z < y"
    and "infer_temporal_relationship a b s = Some c1" "infer_temporal_relationship b c s = Some c2"
      "infer_temporal_relationship a c s = Some c3"
    and "sv_constraints s = pre @ c1 # mid @ c2 # post" "c3 \<in> set (sv_constraints s)"
  shows "holds (\<lambda>e. the (sv_times s e)) c1 \<and> holds (\<lambda>e. the (sv_times s e)) c2 \<and> holds (\<lambda>e. the (sv_times s e)) c3
    \<and> Transitive a c OVERLAPS (co_rel c3) \<in> set (detect_conflicts s)
    \<and> \<not> va_valid (validate_query_temporal q events s)"
proof -
  have cs: "co_a c1 = a" "co_b c1 = b" "co_rel c1 = BEFORE" "co_a c2 = b" "co_b c2 = c" "co_rel c2 = AFTER"
    "co_a c3 = a" "co_b c3 = c" "co_rel c3 \<noteq> OVERLAPS" "holds (\<lambda>e. the (sv_times s e)) c3"
    using assms(1-8) by (auto simp: infer_temporal_relationship_def split: if_splits)
  have "Transitive a c OVERLAPS (co_rel c3) \<in> set (pair_conflicts (sv_constraints s) c1 c2)"
    using cs assms(10) by (auto simp: pair_conflicts_def implied_transitive_def)
  moreover have "set (pair_conflicts every c1 c2) \<subseteq> set (conflicts_from every (pre @ c1 # mid @ c2 # post))" for every
    by (induction pre) auto
  ultimately have "Transitive a c OVERLAPS (co_rel c3) \<in> set (detect_conflicts s)"
    using assms(9) by (auto simp: detect_conflicts_def)
  then show ?thesis using cs assms(1-5) by (auto simp: validate_query_temporal_def)
qed

lemma own_inferences_conflict_witness:
  "Transitive ''a'' ''c'' OVERLAPS BEFORE \<in> set (detect_conflicts
     (add_constraint ''a'' ''c'' BEFORE 1 (add_constraint ''b'' ''c'' AFTER 1 (add_constraint ''a'' ''b'' BEFORE 1
       (set_event_time ''a'' 1 (set_event_time ''b'' 3 (set_event_time ''c'' 2 (new_solver None 0))))))))"
  using own_inferences_conflict [where a = "''a''" and b = "''b''" and c = "''c''" and x = 1 and y = 3 and z = 2
      and pre = "[]" and mid = "[]"
      and post = "[\<lparr>co_a = ''a'', co_b = ''c'', co_rel = BEFORE, co_confidence = 1\<rparr>]"
      and ?c1.0 = "\<lparr>co_a = ''a'', co_b = ''b'', co_rel = BEFORE, co_confidence = 1\<rparr>"
      and ?c2.0 = "\<lparr>co_a = ''b'', co_b = ''c'', co_rel = AFTER, co_confidence = 1\<rparr>"
      and ?c3.0 = "\<lparr>co_a = ''a'', co_b = ''c'', co_rel = BEFORE, co_confidence = 1\<rparr>"
      and s = "add_constraint ''a'' ''c'' BEFORE 1 (add_constraint ''b'' ''c'' AFTER 1 (add_constraint ''a'' ''b'' BEFORE 1
       (set_event_time ''a'' 1 (set_event_time ''b'' 3 (set_event_time ''c'' 2 (new_solver None 0))))))"]
  by (simp add: add_constraint_def set_event_time_def new_solver_def infer_temporal_relationship_def)

lemma timeline_order_witness:
  "map en_event (build_timeline [''x'', ''b'', ''a''] (add_constraint ''a'' ''x'' BEFORE 1 (add_constraint ''x'' ''b'' BEFORE 1
     (set_event_time ''a'' 1 (set_event_time ''b'' 5 (new_solver None 0)))))) = [''a'', ''b'', ''x'']"
  using timeline_order [of "[''x'', ''b'', ''a'']" "add_constraint ''a'' ''x'' BEFORE 1 (add_constraint ''x'' ''b'' BEFORE 1
     (set_event_time ''a'' 1 (set_event_time ''b'' 5 (new_solver None 0))))"]
  by (simp add: add_constraint_def set_event_time_def new_solver_def)

end
