(* ===== verification/FM_Implications.thy ===== *)
theory FM_Implications
  imports FM_Json
begin

text \<open>
  The implication engine, \<open>core/reasoning/implications.py\<close>: rules, their matching against a node,
  evaluation by priority, and forward chaining. SHA-256 and the number a float text stands for are
  parameters.

  The lemmas show that evaluation is a stable sort of the matching rules, that forward chaining is
  sound and closed unless it is cut off, and that the built-in rules never chain.
\<close>

section \<open>Equality of values\<close>

fun js_num :: "(string \<Rightarrow> real) \<Rightarrow> json \<Rightarrow> real option" where
  "js_num num (JsBool b) = Some (if b then 1 else 0)"
| "js_num num (JsInt i) = Some (of_int i)"
| "js_num num (JsFloat s) = Some (num s)"
| "js_num num _ = None"

text \<open>\<open>==\<close>: numbers and booleans by value, dictionaries whatever their order.\<close>

fun js_eq :: "(string \<Rightarrow> real) \<Rightarrow> json \<Rightarrow> json \<Rightarrow> bool" where
  "js_eq num (JsStr s) w \<longleftrightarrow> w = JsStr s"
| "js_eq num JsNull w \<longleftrightarrow> w = JsNull"
| "js_eq num (JsList xs) w \<longleftrightarrow>
     (case w of JsList ys \<Rightarrow> list_all2 (\<lambda>f y. f y) (map (js_eq num) xs) ys | _ \<Rightarrow> False)"
| "js_eq num (JsDict kvs) w \<longleftrightarrow>
     (case w of
        JsDict kws \<Rightarrow> length kvs = length kws
          \<and> list_all (\<lambda>(k, f). case map_of kws k of None \<Rightarrow> False | Some y \<Rightarrow> f y)
              (map (\<lambda>(k, x). (k, js_eq num x)) kvs)
      | _ \<Rightarrow> False)"
| "js_eq num v w \<longleftrightarrow> js_num num w \<noteq> None \<and> js_num num v = js_num num w"

section \<open>Rules\<close>

type_synonym fact = "(string \<times> json) list"

record implication_rule =
  ru_id :: string
  ru_name :: string
  ru_description :: string
  ru_conditions :: fact
  ru_conclusion :: fact
  ru_confidence :: string
  ru_priority :: int

definition get_value :: "fact \<Rightarrow> string \<Rightarrow> json" where
  "get_value f k = (case map_of f k of None \<Rightarrow> JsNull | Some v \<Rightarrow> v)"

definition value_matches :: "(string \<Rightarrow> real) \<Rightarrow> json \<Rightarrow> json \<Rightarrow> bool" where
  "value_matches num actual expected =
     (case actual of
        JsNull \<Rightarrow> expected = JsNull
      | JsStr a \<Rightarrow> (case expected of JsStr e \<Rightarrow> py_in (py_lower e) (py_lower a) | _ \<Rightarrow> js_eq num actual expected)
      | _ \<Rightarrow> js_eq num actual expected)"

definition condition_holds :: "(string \<Rightarrow> real) \<Rightarrow> fact \<Rightarrow> string \<times> json \<Rightarrow> bool" where
  "condition_holds num node c =
     (let actual = get_value node (fst c) in
      case snd c of JsList es \<Rightarrow> list_ex (value_matches num actual) es | e \<Rightarrow> value_matches num actual e)"

definition matches :: "(string \<Rightarrow> real) \<Rightarrow> implication_rule \<Rightarrow> fact \<Rightarrow> bool" where
  "matches num r node = list_all (condition_holds num node) (ru_conditions r)"

definition apply_rule :: "implication_rule \<Rightarrow> fact" where
  "apply_rule r = al_put ''_rule_id'' (JsStr (ru_id r)) (al_put ''_rule_confidence'' (JsFloat (ru_confidence r)) (ru_conclusion r))"

section \<open>The engine\<close>

record engine =
  eg_rules :: "implication_rule list"
  eg_by_priority :: "(int \<times> implication_rule list) list"

definition add_rule :: "implication_rule \<Rightarrow> engine \<Rightarrow> engine" where
  "add_rule r e =
     (let prio = ru_priority r;
          by = (if map_of (eg_by_priority e) prio = None then al_put prio [] (eg_by_priority e) else eg_by_priority e)
      in \<lparr>eg_rules = eg_rules e @ [r], eg_by_priority = al_put prio (the (map_of by prio) @ [r]) by\<rparr>)"

definition default_rules :: "implication_rule list" where
  "default_rules =
    [\<lparr>ru_id = ''temp_001'', ru_name = ''Before implies earlier'',
      ru_description = ''If A happened before B, A is earlier than B'',
      ru_conditions = [(''edge_type'', JsStr ''temporal_before'')],
      ru_conclusion = [(''temporal_relation'', JsStr ''earlier''), (''direction'', JsStr ''past'')],
      ru_confidence = ''0.95'', ru_priority = 1\<rparr>,
     \<lparr>ru_id = ''cause_001'', ru_name = ''Cause implies explanation'',
      ru_description = ''If A causes B, A explains B'',
      ru_conditions = [(''edge_type'', JsStr ''causes'')],
      ru_conclusion = [(''relation_type'', JsStr ''explanation''), (''direction'', JsStr ''backward'')],
      ru_confidence = ''0.9'', ru_priority = 1\<rparr>,
     \<lparr>ru_id = ''cause_002'', ru_name = ''Enablement implies support'',
      ru_description = ''If A enables B, A supports B'',
      ru_conditions = [(''edge_type'', JsStr ''enables'')],
      ru_conclusion = [(''relation_type'', JsStr ''support''), (''direction'', JsStr ''forward'')],
      ru_confidence = ''0.85'', ru_priority = 2\<rparr>,
     \<lparr>ru_id = ''contradict_001'', ru_name = ''Contradiction implies conflict'',
      ru_description = ''If A contradicts B, there's a conflict to resolve'',
      ru_conditions = [(''edge_type'', JsStr ''contradicts'')],
      ru_conclusion = [(''requires_attention'', JsBool True), (''attention_type'', JsStr ''conflict'')],
      ru_confidence = ''1.0'', ru_priority = 0\<rparr>,
     \<lparr>ru_id = ''cog_001'', ru_name = ''Event with date implies temporal'',
      ru_description = ''Event nodes with dates are temporal anchors'',
      ru_conditions = [(''cognitive_type'', JsStr ''event''), (''has_timestamp'', JsBool True)],
      ru_conclusion = [(''reasoning_priority'', JsStr ''high''), (''use_for'', JsStr ''timeline'')],
      ru_confidence = ''0.9'', ru_priority = 1\<rparr>,
     \<lparr>ru_id = ''cog_002'', ru_name = ''Prediction implies uncertainty'',
      ru_description = ''Predictions should be flagged as uncertain'',
      ru_conditions = [(''cognitive_type'', JsStr ''prediction'')],
      ru_conclusion = [(''uncertainty_flag'', JsBool True), (''requires_verification'', JsBool True)],
      ru_confidence = ''0.8'', ru_priority = 2\<rparr>,
     \<lparr>ru_id = ''galaxy_001'', ru_name = ''Same source implies related'',
      ru_description = ''Nodes from same galaxy are likely related'',
      ru_conditions = [(''same_galaxy'', JsBool True), (''different_nodes'', JsBool True)],
      ru_conclusion = [(''relatedness_boost'', JsFloat ''0.2''), (''coherence_check'', JsBool True)],
      ru_confidence = ''0.7'', ru_priority = 3\<rparr>]"

definition new_engine :: engine where
  "new_engine = fold add_rule default_rules \<lparr>eg_rules = [], eg_by_priority = []\<rparr>"

definition evaluate :: "(string \<Rightarrow> real) \<Rightarrow> engine \<Rightarrow> fact \<Rightarrow> fact list" where
  "evaluate num e node =
     concat (map (\<lambda>p. map apply_rule (filter (\<lambda>r. matches num r node) (the (map_of (eg_by_priority e) p))))
       (sort (al_keys (eg_by_priority e))))"

definition hash_fact :: "(string \<Rightarrow> string) \<Rightarrow> fact \<Rightarrow> string" where
  "hash_fact sha f = take 16 (sha (json_dumps True '', '' '': '' (JsDict f)))"

text \<open>One conclusion, one round over the facts known at its start, and the rounds.\<close>

definition note_conclusion :: "(fact \<Rightarrow> string) \<Rightarrow> fact \<Rightarrow> fact list \<times> string set \<Rightarrow> fact list \<times> string set" where
  "note_conclusion h c st = (case st of (new, known) \<Rightarrow> if h c \<in> known then (new, known) else (new @ [c], insert (h c) known))"

definition chain_round :: "(fact \<Rightarrow> fact list) \<Rightarrow> (fact \<Rightarrow> string) \<Rightarrow> fact list \<Rightarrow> string set \<Rightarrow> fact list \<times> string set" where
  "chain_round ev h facts known = fold (\<lambda>f st. fold (note_conclusion h) (ev f) st) facts ([], known)"

fun chain_loop :: "(fact \<Rightarrow> fact list) \<Rightarrow> (fact \<Rightarrow> string) \<Rightarrow> nat \<Rightarrow> fact list \<Rightarrow> string set \<Rightarrow> fact list" where
  "chain_loop ev h 0 facts known = facts"
| "chain_loop ev h (Suc n) facts known =
     (case chain_round ev h facts known of
        ([], _) \<Rightarrow> facts
      | (new, known') \<Rightarrow> chain_loop ev h n (facts @ new) known')"

definition chain_forward :: "(string \<Rightarrow> real) \<Rightarrow> (string \<Rightarrow> string) \<Rightarrow> engine \<Rightarrow> fact list \<Rightarrow> int \<Rightarrow> fact list" where
  "chain_forward num sha e initial max_iterations =
     chain_loop (evaluate num e) (hash_fact sha) (nat max_iterations) initial (hash_fact sha ` set initial)"

definition get_rules_by_type :: "string \<Rightarrow> engine \<Rightarrow> implication_rule list" where
  "get_rules_by_type ty e = filter (\<lambda>r. py_in ty (ru_id r)) (eg_rules e)"

section \<open>Evaluation by priority\<close>

definition engine_ok :: "engine \<Rightarrow> bool" where
  "engine_ok e \<longleftrightarrow> distinct (al_keys (eg_by_priority e))
     \<and> set (al_keys (eg_by_priority e)) = ru_priority ` set (eg_rules e)
     \<and> (\<forall>p rs. map_of (eg_by_priority e) p = Some rs \<longrightarrow> rs = filter (\<lambda>r. ru_priority r = p) (eg_rules e))"

lemma engine_ok_add:
  assumes "engine_ok e"
  shows "engine_ok (add_rule r e)"
proof -
  let ?p = "ru_priority r" and ?by = "eg_by_priority e"
  let ?by' = "if map_of ?by ?p = None then al_put ?p [] ?by else ?by"
  have keys: "set (al_keys ?by') = insert ?p (set (al_keys ?by))"
    using map_of_in_keys [of ?by ?p] by auto
  have here: "the (map_of ?by' ?p) = filter (\<lambda>r. ru_priority r = ?p) (eg_rules e)"
  proof (cases "map_of ?by ?p")
    case None
    then have "?p \<notin> ru_priority ` set (eg_rules e)" using assms map_of_in_keys [of ?by ?p] by (auto simp: engine_ok_def)
    then have "filter (\<lambda>r. ru_priority r = ?p) (eg_rules e) = []" by (metis (mono_tags, lifting) filter_False image_eqI)
    then show ?thesis using None by simp
  next
    case (Some rs)
    then show ?thesis using assms by (simp add: engine_ok_def)
  qed
  have "distinct (al_keys ?by')" using assms by (simp add: engine_ok_def)
  then show ?thesis using assms here keys by (auto simp: engine_ok_def add_rule_def Let_def split: if_splits)
qed

lemma engine_ok_fold: "engine_ok e \<Longrightarrow> engine_ok (fold add_rule rs e)"
  by (induction rs arbitrary: e) (auto intro: engine_ok_add)

lemma rules_fold: "eg_rules (fold add_rule rs e) = eg_rules e @ rs"
  by (induction rs arbitrary: e) (simp_all add: add_rule_def Let_def)

lemma new_engine_ok: "engine_ok new_engine" "eg_rules new_engine = default_rules"
proof -
  have "engine_ok \<lparr>eg_rules = [], eg_by_priority = []\<rparr>" by (simp add: engine_ok_def al_keys_def)
  then show "engine_ok new_engine" unfolding new_engine_def by (rule engine_ok_fold)
  show "eg_rules new_engine = default_rules" by (simp add: new_engine_def rules_fold)
qed

lemma evaluate_ok:
  assumes "engine_ok e"
  shows "evaluate num e node = map apply_rule (filter (\<lambda>r. matches num r node) (sort_key ru_priority (eg_rules e)))"
proof -
  let ?ks = "sort (al_keys (eg_by_priority e))"
  have "the (map_of (eg_by_priority e) p) = filter (\<lambda>r. ru_priority r = p) (eg_rules e)" if "p \<in> set ?ks" for p
    using that assms map_of_in_keys [of "eg_by_priority e" p] by (auto simp: engine_ok_def)
  then have "evaluate num e node = concat (map (\<lambda>p. map apply_rule (filter (\<lambda>r. matches num r node)
      (filter (\<lambda>r. ru_priority r = p) (eg_rules e)))) ?ks)"
    unfolding evaluate_def by (intro arg_cong [where f = concat] map_cong) auto
  also have "\<dots> = map apply_rule (filter (\<lambda>r. matches num r node)
      (concat (map (\<lambda>p. filter (\<lambda>r. ru_priority r = p) (eg_rules e)) ?ks)))"
    by (simp add: map_concat filter_concat o_def)
  also have "concat (map (\<lambda>p. filter (\<lambda>r. ru_priority r = p) (eg_rules e)) ?ks) = sort_key ru_priority (eg_rules e)"
    using assms by (intro concat_groups_sort) (auto simp: engine_ok_def)
  finally show ?thesis .
qed

text \<open>
  Whatever rules are added to an engine, in whatever order, evaluating a node gives exactly the
  conclusions of the rules that match it, the built-in ones included, in the order of their
  priority numbers and, within one priority, in the order in which they were added.
\<close>

theorem evaluate_by_priority:
  "evaluate num (fold add_rule rs new_engine) node
    = map apply_rule (filter (\<lambda>r. matches num r node) (sort_key ru_priority (default_rules @ rs)))"
  using evaluate_ok [OF engine_ok_fold [OF new_engine_ok(1)]] by (simp add: rules_fold new_engine_ok(2))

section \<open>Forward chaining\<close>

inductive derived :: "(fact \<Rightarrow> fact list) \<Rightarrow> fact set \<Rightarrow> fact \<Rightarrow> bool" for ev I where
  given: "f \<in> I \<Longrightarrow> derived ev I f"
| rule: "derived ev I f \<Longrightarrow> c \<in> set (ev f) \<Longrightarrow> derived ev I c"

lemma note_step:
  "h c \<in> known \<Longrightarrow> note_conclusion h c (new, known) = (new, known)"
  "h c \<notin> known \<Longrightarrow> note_conclusion h c (new, known) = (new @ [c], insert (h c) known)"
  by (simp_all add: note_conclusion_def)

lemma note_all:
  assumes "fold (note_conclusion h) cs (new, known) = (new', known')"
  shows "\<exists>add. new' = new @ add \<and> set add \<subseteq> set cs \<and> known' = known \<union> h ` set add
    \<and> h ` set cs \<subseteq> known' \<and> distinct (map h add) \<and> h ` set add \<inter> known = {}"
  using assms
proof (induction cs arbitrary: new known)
  case (Cons c cs)
  show ?case
  proof (cases "h c \<in> known")
    case True
    with Cons.prems have "fold (note_conclusion h) cs (new, known) = (new', known')" by (simp add: note_step)
    from Cons.IH [OF this] True show ?thesis by auto
  next
    case False
    with Cons.prems have "fold (note_conclusion h) cs (new @ [c], insert (h c) known) = (new', known')"
      by (simp add: note_step)
    from Cons.IH [OF this] obtain add where "new' = (new @ [c]) @ add" "set add \<subseteq> set cs"
      "known' = insert (h c) known \<union> h ` set add" "h ` set cs \<subseteq> known'" "distinct (map h add)"
      "h ` set add \<inter> insert (h c) known = {}" by blast
    with False show ?thesis by (intro exI [of _ "c # add"]) auto
  qed
qed simp

lemma fold_facts: "fold (\<lambda>f. fold g (ev f)) facts st = fold g (concat (map ev facts)) st"
  by (induction facts arbitrary: st) simp_all

lemma chain_round_facts:
  assumes "chain_round ev h facts known = (new, known')"
  shows "set new \<subseteq> \<Union> (set ` ev ` set facts)" "known' = known \<union> h ` set new"
    "\<And>f c. f \<in> set facts \<Longrightarrow> c \<in> set (ev f) \<Longrightarrow> h c \<in> known'" "distinct (map h new)" "h ` set new \<inter> known = {}"
  using note_all [of h "concat (map ev facts)" "[]" known new known'] assms
  by (auto simp: chain_round_def fold_facts)

lemma chain_loop_props:
  assumes "\<forall>f \<in> set facts. derived ev I f" "known = h ` set facts"
  shows "\<exists>more. chain_loop ev h n facts known = facts @ more
    \<and> (\<forall>f \<in> set more. derived ev I f) \<and> distinct (map h more) \<and> h ` set more \<inter> known = {}
    \<and> (n \<le> length more \<or> (\<forall>f \<in> set (facts @ more). \<forall>c \<in> set (ev f). h c \<in> h ` set (facts @ more)))"
  using assms
proof (induction n arbitrary: facts known)
  case (Suc n)
  obtain new known' where r: "chain_round ev h facts known = (new, known')" by fastforce
  note step = chain_round_facts [OF r]
  show ?case
  proof (cases new)
    case Nil
    then show ?thesis using r step(2,3) Suc.prems by (intro exI [of _ "[]"]) simp
  next
    case (Cons f fs)
    have "derived ev I f" if f: "f \<in> set new" for f
    proof -
      obtain f0 where "f0 \<in> set facts" "f \<in> set (ev f0)" using step(1) f by blast
      then show ?thesis using Suc.prems(1) derived.rule by blast
    qed
    then have all: "\<forall>f \<in> set (facts @ new). derived ev I f" using Suc.prems(1) by auto
    have "known' = h ` set (facts @ new)" using Suc.prems(2) step(2) by auto
    from Suc.IH [OF all this] obtain more where m: "chain_loop ev h n (facts @ new) known' = (facts @ new) @ more"
      "\<forall>f \<in> set more. derived ev I f" "distinct (map h more)" "h ` set more \<inter> known' = {}"
      "n \<le> length more \<or> (\<forall>f \<in> set ((facts @ new) @ more). \<forall>c \<in> set (ev f). h c \<in> h ` set ((facts @ new) @ more))"
      by (elim exE conjE)
    have "Suc n \<le> length (new @ more) \<or> (\<forall>f \<in> set (facts @ new @ more). \<forall>c \<in> set (ev f). h c \<in> h ` set (facts @ new @ more))"
    proof -
      have "1 \<le> length new" by (simp add: Cons)
      then have "n \<le> length more \<Longrightarrow> Suc n \<le> length (new @ more)" by simp
      with m(5) show ?thesis unfolding append_assoc by blast
    qed
    moreover have "\<forall>f \<in> set (new @ more). derived ev I f"
      using all m(2) by auto
    moreover have "chain_loop ev h (Suc n) facts known = facts @ new @ more" using r Cons m(1) by (simp only: chain_loop.simps list.case prod.case append_assoc)
    moreover have "distinct (map h (new @ more))" "h ` set (new @ more) \<inter> known = {}"
      using m(3,4) step(2,4,5) by auto
    ultimately show ?thesis by (intro exI [of _ "new @ more"]) simp
  qed
qed simp

lemma chain_forward_props:
  "\<exists>more. chain_forward num sha e I n = I @ more
    \<and> (\<forall>f \<in> set more. derived (evaluate num e) (set I) f) \<and> distinct (map (hash_fact sha) more)
    \<and> hash_fact sha ` set more \<inter> hash_fact sha ` set I = {}
    \<and> (nat n \<le> length more \<or> (\<forall>f \<in> set (I @ more). \<forall>c \<in> set (evaluate num e f). hash_fact sha c \<in> hash_fact sha ` set (I @ more)))"
  unfolding chain_forward_def by (rule chain_loop_props) (blast intro: derived.given, rule refl)


text \<open>No conclusion of a built-in rule meets the conditions of a built-in rule.\<close>

lemma default_conclusion:
  assumes "r \<in> set default_rules" "r' \<in> set default_rules"
  shows "\<not> matches num r' (apply_rule r)"
proof -
  let ?bad = "\<lambda>r r'. \<exists>c \<in> set (ru_conditions r'). map_of (apply_rule r) (fst c) = None
      \<and> (case snd c of JsStr _ \<Rightarrow> True | JsBool _ \<Rightarrow> True | _ \<Rightarrow> False)"
  have "list_all (\<lambda>r. list_all (\<lambda>r'. ?bad r r') default_rules) default_rules" by code_simp
  then have "?bad r r'" using assms by (simp add: list_all_iff)
  then obtain c where c: "c \<in> set (ru_conditions r')" "map_of (apply_rule r) (fst c) = None"
    "case snd c of JsStr _ \<Rightarrow> True | JsBool _ \<Rightarrow> True | _ \<Rightarrow> False" by blast
  then have "\<not> condition_holds num (apply_rule r) c"
    by (auto simp: condition_holds_def get_value_def value_matches_def Let_def split: json.splits)
  then show ?thesis using c(1) by (auto simp: matches_def list_all_iff)
qed

lemma default_derived:
  assumes "derived (evaluate num new_engine) I f"
  shows "f \<in> I \<or> f \<in> apply_rule ` set default_rules"
  using assms
  by (induction rule: derived.induct) (auto simp: evaluate_ok [OF new_engine_ok(1)] new_engine_ok(2))

lemma default_evaluate: "f \<in> apply_rule ` set default_rules \<Longrightarrow> evaluate num new_engine f = []"
  using default_conclusion by (auto simp: evaluate_ok [OF new_engine_ok(1)] new_engine_ok(2) filter_empty_conv)

text \<open>
  The built-in rules never chain and forget the node: with the built-in rules forward chaining
  adds at most seven facts, one for each rule, however many facts are given and however many
  rounds are allowed, and from the facts it adds nothing further follows.
\<close>

theorem builtin_rules_do_not_chain:
  "\<exists>more. chain_forward num sha new_engine I n = I @ more \<and> length more \<le> 7
    \<and> (\<forall>f \<in> set more. f \<in> set I \<or> (f \<in> apply_rule ` set default_rules \<and> evaluate num new_engine f = []))"
proof -
  obtain more where m: "chain_forward num sha new_engine I n = I @ more"
    "\<forall>f \<in> set more. derived (evaluate num new_engine) (set I) f" "distinct (map (hash_fact sha) more)"
    "hash_fact sha ` set more \<inter> hash_fact sha ` set I = {}"
    using chain_forward_props [of num sha new_engine I n] by blast
  have "set more \<subseteq> apply_rule ` set default_rules" using m(2,4) default_derived by blast
  then have "card (set more) \<le> card (apply_rule ` set default_rules)" by (intro card_mono) simp_all
  also have "\<dots> \<le> 7" by (rule order_trans [OF card_image_le]) (simp_all add: order_trans [OF card_length] default_rules_def)
  finally have "length more \<le> 7" using m(3) by (simp add: distinct_card distinct_map)
  then show ?thesis using m(1) \<open>set more \<subseteq> _\<close> default_evaluate by blast
qed

text \<open>Conditions match substrings: a prevention counts as an event.\<close>

lemma substring_condition:
  "condition_holds num [(''cognitive_type'', JsStr ''Prevented'')] (''cognitive_type'', JsStr ''event'')"
proof -
  have "py_in (py_lower ''event'') (py_lower ''Prevented'')" by code_simp
  then show ?thesis by (simp add: condition_holds_def get_value_def value_matches_def)
qed

definition ex_fact :: fact where
  "ex_fact = [(''edge_type'', JsStr ''causes'')]"


lemma builtin_rules_do_not_chain_witness:
  "\<exists>more. chain_forward (\<lambda>_. 0) id new_engine [ex_fact] 5 = ex_fact # more \<and> length more \<le> 7"
  using builtin_rules_do_not_chain [of "\<lambda>_. 0" id "[ex_fact]" 5] by auto

end
