(* ===== verification/FM_Clusters.thy ===== *)
theory FM_Clusters
  imports FM_Node_Repo FM_Graph_Version
begin

text \<open>
  Clustering of node vectors, \<open>core/clustering/kmeans_native.py\<close>, the clustering endpoint of
  \<open>api/routers/storage.py\<close> that stores its result, and the cluster scoping at the start of
  \<open>recall_with_graph_expansion\<close> in \<open>core/query/query_engine.py\<close> that reads it.

  The seeded random generator is a parameter: the index drawn and the number drawn at each call.
  Floats are real numbers. An index past the end is the error IndexError.

  The lemmas show that a run partitions the nodes, that at convergence every node is with a nearest
  centre, and what scoping does with the stored clusters.
\<close>

section \<open>Vectors\<close>

type_synonym vec = "real list"

definition vdot :: "vec \<Rightarrow> vec \<Rightarrow> real" where
  "vdot a b = sum_list (map (\<lambda>(x, y). x * y) (zip a b))"

definition vnorm :: "vec \<Rightarrow> real" where
  "vnorm a = sqrt (sum_list (map (\<lambda>x. x * x) a))"

definition cosine_sim :: "vec \<Rightarrow> vec \<Rightarrow> real" where
  "cosine_sim a b = (if vnorm a = 0 \<or> vnorm b = 0 then 0 else vdot a b / (vnorm a * vnorm b))"

definition cosine_dist :: "vec \<Rightarrow> vec \<Rightarrow> real" where
  "cosine_dist a b = 1 - cosine_sim a b"

text \<open>Adding \<open>v / n\<close> to a sum fails when the vector is longer than the sum.\<close>

definition add_share :: "nat \<Rightarrow> vec \<Rightarrow> vec \<Rightarrow> string + vec" where
  "add_share n v acc =
     (if length v > length acc then Inl ''IndexError''
      else Inr (map2 (\<lambda>r x. r + x / of_nat n) acc v @ drop (length v) acc))"

fun add_shares :: "nat \<Rightarrow> vec list \<Rightarrow> vec \<Rightarrow> string + vec" where
  "add_shares n [] acc = Inr acc"
| "add_shares n (v # vs) acc = (case add_share n v acc of Inl e \<Rightarrow> Inl e | Inr acc' \<Rightarrow> add_shares n vs acc')"

definition mean_vector :: "vec list \<Rightarrow> string + vec" where
  "mean_vector vs =
     (case vs of [] \<Rightarrow> Inr []
      | v # _ \<Rightarrow> map_sum id (\<lambda>r. if vnorm r > 0 then map (\<lambda>x. x / vnorm r) r else r)
          (add_shares (length vs) vs (replicate (length v) 0)))"

definition choose_k :: "nat \<Rightarrow> int" where
  "choose_k n = (if n < 4 then 2 else max 2 (min 20 \<lfloor>sqrt (of_nat n / 2)\<rfloor>))"

section \<open>Initial centres\<close>

record rng =
  rn_index :: "nat \<Rightarrow> nat"
  rn_random :: "nat \<Rightarrow> real"

definition sq_dists :: "vec list \<Rightarrow> vec list \<Rightarrow> real list" where
  "sq_dists vectors centers = map (\<lambda>v. (Min (set (map (cosine_dist v) centers))) ^ 2) vectors"

fun pick_weighted :: "real \<Rightarrow> real \<Rightarrow> nat \<Rightarrow> real list \<Rightarrow> nat option" where
  "pick_weighted threshold cum i [] = None"
| "pick_weighted threshold cum i (d # ds) =
     (if cum + d \<ge> threshold then Some i else pick_weighted threshold (cum + d) (i + 1) ds)"

definition next_center :: "rng \<Rightarrow> nat \<Rightarrow> vec list \<Rightarrow> vec list \<Rightarrow> vec" where
  "next_center r call vectors centers =
     (let ds = sq_dists vectors centers; total = sum_list ds in
      vectors ! (if total = 0 then rn_index r call
        else case pick_weighted (rn_random r call * total) 0 0 ds of None \<Rightarrow> length vectors - 1 | Some i \<Rightarrow> i))"

fun more_centers :: "rng \<Rightarrow> nat \<Rightarrow> vec list \<Rightarrow> nat \<Rightarrow> vec list \<Rightarrow> vec list" where
  "more_centers r call vectors 0 centers = centers"
| "more_centers r call vectors (Suc n) centers =
     more_centers r (call + 1) vectors n (centers @ [next_center r call vectors centers])"

definition kmeans_plus_plus_init :: "rng \<Rightarrow> vec list \<Rightarrow> int \<Rightarrow> vec list" where
  "kmeans_plus_plus_init r vectors k = more_centers r 1 vectors (nat (k - 1)) [vectors ! rn_index r 0]"

section \<open>Iterations\<close>

fun nearest_from :: "vec \<Rightarrow> nat \<Rightarrow> nat \<times> real option \<Rightarrow> vec list \<Rightarrow> nat" where
  "nearest_from v i (best, d) [] = best"
| "nearest_from v i (best, d) (c # cs) =
     (let x = cosine_dist v c in
      nearest_from v (i + 1) (if (case d of None \<Rightarrow> True | Some y \<Rightarrow> x < y) then (i, Some x) else (best, d)) cs)"

definition assign :: "vec list \<Rightarrow> vec list \<Rightarrow> nat list" where
  "assign vectors centers = map (\<lambda>v. nearest_from v 0 (0, None) centers) vectors"

definition group_of :: "vec list \<Rightarrow> nat list \<Rightarrow> nat \<Rightarrow> vec list" where
  "group_of vectors assignments ci = map fst (filter (\<lambda>p. snd p = ci) (zip vectors assignments))"

fun try_map :: "('a \<Rightarrow> 'e + 'b) \<Rightarrow> 'a list \<Rightarrow> 'e + 'b list" where
  "try_map f [] = Inr []"
| "try_map f (x # xs) =
     (case f x of Inl e \<Rightarrow> Inl e
      | Inr y \<Rightarrow> (case try_map f xs of Inl e \<Rightarrow> Inl e | Inr ys \<Rightarrow> Inr (y # ys)))"

definition recompute_centers :: "vec list \<Rightarrow> nat list \<Rightarrow> nat \<Rightarrow> string + vec list" where
  "recompute_centers vectors assignments k = try_map (\<lambda>ci. mean_vector (group_of vectors assignments ci)) [0..<k]"

definition centers_equal :: "vec list \<Rightarrow> vec list \<Rightarrow> bool" where
  "centers_equal a b \<longleftrightarrow> length a = length b
     \<and> list_all (\<lambda>(ca, cb). length ca = length cb \<and> list_all (\<lambda>(x, y). \<not> \<bar>x - y\<bar> > 1 / 10 ^ 6) (zip ca cb)) (zip a b)"

record kmeans_state =
  km_centers :: "vec list"
  km_assignments :: "nat list"
  km_converged :: bool
  km_iteration :: "nat option"

fun kmeans_loop :: "vec list \<Rightarrow> nat \<Rightarrow> nat \<Rightarrow> nat \<Rightarrow> kmeans_state \<Rightarrow> string + kmeans_state" where
  "kmeans_loop vectors k 0 i st = Inr st"
| "kmeans_loop vectors k (Suc n) i st =
     (let a = assign vectors (km_centers st) in
      case recompute_centers vectors a k of
        Inl e \<Rightarrow> Inl e
      | Inr fresh \<Rightarrow>
          (let c = map2 (\<lambda>new old. if new = [] then old else new) fresh (km_centers st);
               st' = \<lparr>km_centers = c, km_assignments = a, km_converged = False, km_iteration = Some i\<rparr>
           in if centers_equal (km_centers st) c \<and> i > 0 then Inr (st'\<lparr>km_converged := True\<rparr>)
              else kmeans_loop vectors k n (i + 1) st'))"

record cluster_result =
  cl_k :: int
  cl_iterations :: nat
  cl_assignments :: "(string \<times> nat) list"
  cl_centers :: "vec list"
  cl_sizes :: "(nat \<times> nat) list"
  cl_converged :: bool

definition count_sizes :: "nat list \<Rightarrow> (nat \<times> nat) list" where
  "count_sizes as = fold (\<lambda>c m. al_put c ((case map_of m c of None \<Rightarrow> 0 | Some n \<Rightarrow> n) + 1) m) as []"

text \<open>Without an iteration the count of iterations is an unbound variable.\<close>

definition run_kmeans :: "rng \<Rightarrow> string list \<Rightarrow> vec list \<Rightarrow> int option \<Rightarrow> int \<Rightarrow> string + cluster_result" where
  "run_kmeans r ids vectors k max_iterations =
     (if vectors = [] then Inr \<lparr>cl_k = 0, cl_iterations = 0, cl_assignments = [], cl_centers = [], cl_sizes = [], cl_converged = True\<rparr>
      else
        let n = length vectors; k' = min (case k of None \<Rightarrow> choose_k n | Some k \<Rightarrow> k) (int n) in
        case kmeans_loop vectors (nat k') (nat max_iterations) 0
               \<lparr>km_centers = kmeans_plus_plus_init r vectors k', km_assignments = [], km_converged = False, km_iteration = None\<rparr> of
          Inl e \<Rightarrow> Inl e
        | Inr st \<Rightarrow>
            (case km_iteration st of
               None \<Rightarrow> Inl ''UnboundLocalError''
             | Some i \<Rightarrow>
                 let as = (if km_assignments st = [] then assign vectors (km_centers st) else km_assignments st) in
                 Inr \<lparr>cl_k = k', cl_iterations = (if km_converged st then i else i + 1),
                   cl_assignments = fold (\<lambda>(x, c) m. al_put x c m) (zip ids as) [], cl_centers = km_centers st,
                   cl_sizes = count_sizes as, cl_converged = km_converged st\<rparr>))"

section \<open>Scoping a query\<close>

definition nearest_cluster :: "vec \<Rightarrow> vec list \<Rightarrow> nat \<Rightarrow> nat list" where
  "nearest_cluster q centers top_k =
     map fst (take top_k (sort_key (\<lambda>x. - snd x)
       (map (\<lambda>(i, c). (i, cosine_sim q c)) (filter (\<lambda>(i, c). c \<noteq> []) (zip [0..<length centers] centers)))))"

record cluster_row =
  cr_tenant :: string
  cr_graph :: string
  cr_id :: int
  cr_center :: vec
  cr_count :: nat

text \<open>An absent centre counts as empty; rows whose id is out of range are ignored.\<close>

definition stored_centers :: "cluster_row list \<Rightarrow> vec list" where
  "stored_centers rows =
     fold (\<lambda>r cs. if 0 \<le> cr_id r \<and> cr_id r < int (length cs) then cs[nat (cr_id r) := cr_center r] else cs)
       rows (replicate (length rows) [])"

definition cluster_in :: "string \<Rightarrow> string \<Rightarrow> cluster_row \<Rightarrow> bool" where
  "cluster_in t g r \<longleftrightarrow> cr_tenant r = t \<and> cr_graph r = g"

text \<open>The scope of a query; None when the graph has fewer than two stored clusters.\<close>

definition cluster_scope :: "string \<Rightarrow> string \<Rightarrow> vec \<Rightarrow> cluster_row list \<Rightarrow> nat list option" where
  "cluster_scope t g q table =
     (let rows = filter (cluster_in t g) table in
      if length rows \<ge> 2 then Some (nearest_cluster q (filter (\<lambda>c. c \<noteq> []) (stored_centers rows)) 2) else None)"

section \<open>The clustering endpoint\<close>

record clustering_world =
  cw_nodes :: "node_row list"
  cw_clusters :: "cluster_row list"
  cw_versions :: "version_row list"

record cluster_response =
  cq_status :: string
  cq_k :: int
  cq_nodes :: nat
  cq_iterations :: nat
  cq_converged :: bool
  cq_version :: int

definition cluster_rows :: "string \<Rightarrow> string \<Rightarrow> cluster_result \<Rightarrow> cluster_row list" where
  "cluster_rows t g res =
     map (\<lambda>(ci, c). \<lparr>cr_tenant = t, cr_graph = g, cr_id = int ci, cr_center = c,
         cr_count = (case map_of (cl_sizes res) ci of None \<Rightarrow> 0 | Some n \<Rightarrow> n)\<rparr>)
       (filter (\<lambda>(ci, c). c \<noteq> []) (zip [0..<length (cl_centers res)] (cl_centers res)))"

text \<open>A failed version bump is ignored.\<close>

definition run_graph_clustering :: "rng \<Rightarrow> bool \<Rightarrow> int \<Rightarrow> string \<Rightarrow> string \<Rightarrow> int option \<Rightarrow> clustering_world \<Rightarrow>
    string + cluster_response \<times> clustering_world" where
  "run_graph_clustering r orm now t g k w =
     (let nodes = filter (node_in t g) (cw_nodes w) in
      if length nodes < 2
      then Inr (\<lparr>cq_status = ''skipped'', cq_k = 0, cq_nodes = 0, cq_iterations = 0, cq_converged = True, cq_version = 0\<rparr>, w)
      else case run_kmeans r (map nd_id nodes) (map nd_vector nodes) k 50 of
          Inl e \<Rightarrow> Inl e
        | Inr res \<Rightarrow>
            (let (vs, gv) = (case bump orm now (''clustering_k'' @ int_str (cl_k res)) t g (cw_versions w) of
                   Inl e \<Rightarrow> (cw_versions w, 0) | Inr (vs, v) \<Rightarrow> (vs, v))
             in Inr (\<lparr>cq_status = ''ok'', cq_k = cl_k res, cq_nodes = length nodes, cq_iterations = cl_iterations res,
                   cq_converged = cl_converged res, cq_version = gv\<rparr>,
                 \<lparr>cw_nodes = map (\<lambda>n. if node_in t g n then (case map_of (cl_assignments res) (nd_id n) of
                     Some c \<Rightarrow> n\<lparr>nd_cluster := Some (int c)\<rparr> | None \<Rightarrow> n) else n) (cw_nodes w),
                  cw_clusters = filter (\<lambda>x. \<not> cluster_in t g x) (cw_clusters w) @ cluster_rows t g res,
                  cw_versions = vs\<rparr>)))"

section \<open>A run partitions the nodes\<close>

lemma choose_k_bounds: "2 \<le> choose_k n \<and> choose_k n \<le> 20"
  by (simp add: choose_k_def)

lemma length_more_centers: "length (more_centers r call vs n cs) = length cs + n"
  by (induction r call vs n cs rule: more_centers.induct) auto

lemma length_init: "length (kmeans_plus_plus_init r vs k) = Suc (nat (k - 1))"
  by (simp add: kmeans_plus_plus_init_def length_more_centers)

text \<open>The nearest centre: no centre is closer.\<close>

lemma nearest_from_best:
  assumes "\<And>y. d = Some y \<Longrightarrow> best < i" "i \<le> length pre" "length pre = i"
    "case d of None \<Rightarrow> pre = [] | Some y \<Rightarrow> best < length pre \<and> y = cosine_dist v (pre ! best) \<and> (\<forall>c \<in> set pre. y \<le> cosine_dist v c)"
    "pre @ cs \<noteq> []"
  shows "nearest_from v i (best, d) cs < length (pre @ cs)
    \<and> (\<forall>c \<in> set (pre @ cs). cosine_dist v ((pre @ cs) ! nearest_from v i (best, d) cs) \<le> cosine_dist v c)"
  using assms
proof (induction cs arbitrary: i best d pre)
  case Nil
  then show ?case by (auto simp: split: option.splits)
next
  case (Cons c cs)
  let ?x = "cosine_dist v c"
  let ?new = "if (case d of None \<Rightarrow> True | Some y \<Rightarrow> ?x < y) then (i, Some ?x) else (best, d)"
  obtain b' d' where n: "?new = (b', d')" by fastforce
  have "nearest_from v (i + 1) (b', d') cs < length ((pre @ [c]) @ cs)
    \<and> (\<forall>c' \<in> set ((pre @ [c]) @ cs). cosine_dist v (((pre @ [c]) @ cs) ! nearest_from v (i + 1) (b', d') cs) \<le> cosine_dist v c')"
  proof (rule Cons.IH)
    show "b' < i + 1" if "d' = Some y" for y
      using n that Cons.prems(1) by (auto split: if_splits option.splits)
    show "case d' of None \<Rightarrow> pre @ [c] = []
      | Some y \<Rightarrow> b' < length (pre @ [c]) \<and> y = cosine_dist v ((pre @ [c]) ! b') \<and> (\<forall>c' \<in> set (pre @ [c]). y \<le> cosine_dist v c')"
      using n Cons.prems(3,4) by (auto simp: nth_append split: if_splits option.splits)
  qed (use Cons.prems in auto)
  then show ?case using n by (simp add: Let_def)
qed

lemma nearest_from_0:
  assumes "centers \<noteq> []"
  shows "nearest_from v 0 (0, None) centers < length centers"
    "c \<in> set centers \<Longrightarrow> cosine_dist v (centers ! nearest_from v 0 (0, None) centers) \<le> cosine_dist v c"
  using nearest_from_best [of None 0 0 "[]" v centers] assms by auto

lemma assign_range: "centers \<noteq> [] \<Longrightarrow> a \<in> set (assign vs centers) \<Longrightarrow> a < length centers"
  using nearest_from_0(1) by (auto simp: assign_def)

lemma length_assign [simp]: "length (assign vs centers) = length vs"
  by (simp add: assign_def)

lemma try_map_length: "try_map f xs = Inr ys \<Longrightarrow> length ys = length xs"
  by (induction xs arbitrary: ys) (auto split: sum.splits)

text \<open>One iteration: it ends with the new centres, or goes on with them.\<close>

lemma kmeans_step:
  assumes "kmeans_loop vs k (Suc n) i st = Inr st'"
  obtains fresh c where "recompute_centers vs (assign vs (km_centers st)) k = Inr fresh"
    "c = map2 (\<lambda>new old. if new = [] then old else new) fresh (km_centers st)"
    "(centers_equal (km_centers st) c \<and> st' = \<lparr>km_centers = c, km_assignments = assign vs (km_centers st),
        km_converged = True, km_iteration = Some i\<rparr>)
     \<or> kmeans_loop vs k n (i + 1) \<lparr>km_centers = c, km_assignments = assign vs (km_centers st),
        km_converged = False, km_iteration = Some i\<rparr> = Inr st'"
proof (cases "recompute_centers vs (assign vs (km_centers st)) k")
  case (Inr fresh)
  let ?c = "map2 (\<lambda>new old. if new = [] then old else new) fresh (km_centers st)"
  show thesis
  proof (cases "centers_equal (km_centers st) ?c \<and> i > 0")
    case True
    with assms Inr show thesis by (intro that [OF Inr refl]) (simp add: Let_def)
  next
    case False
    with assms Inr show thesis by (intro that [OF Inr refl] disjI2) (simp only: kmeans_loop.simps Let_def sum.case if_False)
  qed
qed (use assms in simp)

text \<open>What every iteration keeps, and what holds when the loop ends by convergence.\<close>

lemma kmeans_loop_inv:
  assumes "kmeans_loop vs k n i st = Inr st'" "length (km_centers st) = k" "0 < k" "\<not> km_converged st"
    and "km_assignments st = [] \<or> (length (km_assignments st) = length vs \<and> (\<forall>a \<in> set (km_assignments st). a < k))"
  shows "length (km_centers st') = k
    \<and> (km_assignments st' = [] \<or> (length (km_assignments st') = length vs \<and> (\<forall>a \<in> set (km_assignments st'). a < k)))
    \<and> (km_converged st' \<longrightarrow> (\<exists>c. centers_equal c (km_centers st') \<and> length c = k \<and> km_assignments st' = assign vs c))"
  using assms
proof (induction n arbitrary: i st)
  case (Suc n)
  obtain fresh c where f: "recompute_centers vs (assign vs (km_centers st)) k = Inr fresh"
    and c: "c = map2 (\<lambda>new old. if new = [] then old else new) fresh (km_centers st)"
    and st': "(centers_equal (km_centers st) c \<and> st' = \<lparr>km_centers = c, km_assignments = assign vs (km_centers st),
        km_converged = True, km_iteration = Some i\<rparr>)
     \<or> kmeans_loop vs k n (i + 1) \<lparr>km_centers = c, km_assignments = assign vs (km_centers st),
        km_converged = False, km_iteration = Some i\<rparr> = Inr st'"
    using Suc.prems(1) by (rule kmeans_step)
  have len: "length c = k" using try_map_length [OF f [unfolded recompute_centers_def]] Suc.prems(2) c by simp
  have a: "length (assign vs (km_centers st)) = length vs" "\<forall>a \<in> set (assign vs (km_centers st)). a < k"
    using assign_range [of "km_centers st" _ vs] Suc.prems(2,3) by auto
  from st' show ?case
  proof
    assume "centers_equal (km_centers st) c \<and> st' = \<lparr>km_centers = c, km_assignments = assign vs (km_centers st),
        km_converged = True, km_iteration = Some i\<rparr>"
    then show ?thesis using len a Suc.prems(2) by (intro conjI) auto
  next
    assume "kmeans_loop vs k n (i + 1) \<lparr>km_centers = c, km_assignments = assign vs (km_centers st),
        km_converged = False, km_iteration = Some i\<rparr> = Inr st'"
    from Suc.IH [OF this] show ?thesis using len a Suc.prems(3) by simp
  qed
qed auto

lemma sum_al_put:
  "sum_list (map snd (al_put k v m)) + (case map_of m k of None \<Rightarrow> 0 | Some n \<Rightarrow> n) = sum_list (map snd m) + (v :: nat)"
  by (induction m) (auto split: option.splits)

lemma count_sizes_fold:
  "sum_list (map snd (fold (\<lambda>c m. al_put c ((case map_of m c of None \<Rightarrow> 0 | Some n \<Rightarrow> n) + 1) m) as m))
    = sum_list (map snd m) + length as" for m :: "(nat \<times> nat) list"
proof (induction as arbitrary: m)
  case (Cons a as)
  show ?case using Cons sum_al_put [of a "(case map_of m a of None \<Rightarrow> 0 | Some n \<Rightarrow> n) + 1" m] by simp
qed simp

lemma count_sizes_total: "sum_list (map snd (count_sizes as)) = length as"
  using count_sizes_fold [where as = as and m = "[]"] by (simp add: count_sizes_def)

lemma fold_al_put_new:
  assumes "distinct (al_keys m @ map fst ps)"
  shows "fold (\<lambda>(x, c) m. al_put x c m) ps m = m @ ps"
  using assms
proof (induction ps arbitrary: m)
  case (Cons p ps)
  obtain x c where p: "p = (x, c)" by (cases p)
  have "al_put x c m = m @ [(x, c)]" using Cons.prems p by (intro al_put_new) auto
  moreover have "distinct (al_keys (m @ [(x, c)]) @ map fst ps)" using Cons.prems p by (auto simp: al_keys_def)
  ultimately show ?case using Cons.IH [of "m @ [(x, c)]"] p by simp
qed simp

lemma kmeans_result:
  assumes "run_kmeans r ids vs k m = Inr res" "vs \<noteq> []" "length ids = length vs" "distinct ids"
    and "\<forall>x. k = Some x \<longrightarrow> 1 \<le> x"
  shows "map fst (cl_assignments res) = ids \<and> 1 \<le> cl_k res \<and> cl_k res \<le> int (length vs)
    \<and> int (length (cl_centers res)) = cl_k res
    \<and> (\<forall>a \<in> set (map snd (cl_assignments res)). int a < cl_k res)
    \<and> sum_list (map snd (cl_sizes res)) = length vs
    \<and> (cl_converged res \<longrightarrow> (\<exists>c. centers_equal c (cl_centers res)
        \<and> (\<forall>i < length vs. \<forall>x \<in> set c. cosine_dist (vs ! i) (c ! (snd (cl_assignments res ! i))) \<le> cosine_dist (vs ! i) x)))"
proof -
  define k' where "k' = min (case k of None \<Rightarrow> choose_k (length vs) | Some k \<Rightarrow> k) (int (length vs))"
  let ?st0 = "\<lparr>km_centers = kmeans_plus_plus_init r vs k', km_assignments = [], km_converged = False, km_iteration = None\<rparr>"
  have k: "1 \<le> k'" "k' \<le> int (length vs)"
    using assms(2,5) choose_k_bounds [of "length vs"] by (auto simp: k'_def Suc_leI split: option.splits)
  have "length (km_centers ?st0) = nat k'" using k by (simp add: length_init)
  obtain st i where st: "kmeans_loop vs (nat k') (nat m) 0 ?st0 = Inr st" "km_iteration st = Some i"
    using assms(1,2) by (auto simp: run_kmeans_def Let_def k'_def split: sum.splits option.splits)
  define as where "as = (if km_assignments st = [] then assign vs (km_centers st) else km_assignments st)"
  have res: "res = \<lparr>cl_k = k', cl_iterations = (if km_converged st then i else i + 1),
      cl_assignments = fold (\<lambda>(x, c) m. al_put x c m) (zip ids as) [], cl_centers = km_centers st,
      cl_sizes = count_sizes as, cl_converged = km_converged st\<rparr>"
    using assms(1,2) st by (simp add: run_kmeans_def Let_def k'_def as_def)
  note inv = kmeans_loop_inv [OF st(1) \<open>length (km_centers ?st0) = nat k'\<close>]
  have st': "length (km_centers st) = nat k'" 
    and as': "km_assignments st = [] \<or> (length (km_assignments st) = length vs \<and> (\<forall>a \<in> set (km_assignments st). a < nat k'))"
    and conv: "km_converged st \<Longrightarrow> \<exists>c. centers_equal c (km_centers st) \<and> length c = nat k' \<and> km_assignments st = assign vs c"
    using inv k by simp_all
  have ne: "c \<noteq> []" if "length c = nat k'" for c :: "vec list" using that k by auto
  have as: "length as = length vs" "\<forall>a \<in> set as. a < nat k'"
    using as' assign_range [OF ne [OF st']] st' assms(2) by (auto simp: as_def)
  have zip: "cl_assignments res = zip ids as"
    using fold_al_put_new [of "[]" "zip ids as"] assms(3,4) as(1) by (simp add: res al_keys_def)
  have "\<exists>c. centers_equal c (km_centers st)
      \<and> (\<forall>i < length vs. \<forall>x \<in> set c. cosine_dist (vs ! i) (c ! (as ! i)) \<le> cosine_dist (vs ! i) x)"
    if fin: "km_converged st"
  proof -
    obtain c where c: "centers_equal c (km_centers st)" "length c = nat k'" "km_assignments st = assign vs c"
      using conv [OF fin] by blast
    moreover have "assign vs c \<noteq> []" using assms(2) by (simp add: assign_def)
    ultimately have "as = assign vs c" by (simp add: as_def)
    then show ?thesis using c(1) nearest_from_0(2) [OF ne [OF c(2)]] by (intro exI [of _ c]) (simp add: assign_def)
  qed
  then show ?thesis
    using k st' as assms(3) by (auto simp: zip count_sizes_total) (auto simp: res nat_less_iff count_sizes_total)
qed


section \<open>Clustering, then scoping\<close>

text \<open>No centre becomes empty when no initial centre is.\<close>

lemma centers_nonempty:
  assumes "kmeans_loop vs k n i st = Inr st'" "\<forall>c \<in> set (km_centers st). c \<noteq> []"
  shows "\<forall>c \<in> set (km_centers st'). c \<noteq> []"
  using assms
proof (induction n arbitrary: i st)
  case (Suc n)
  obtain fresh c where c: "c = map2 (\<lambda>new old. if new = [] then old else new) fresh (km_centers st)"
    and st': "(centers_equal (km_centers st) c \<and> st' = \<lparr>km_centers = c, km_assignments = assign vs (km_centers st),
        km_converged = True, km_iteration = Some i\<rparr>)
     \<or> kmeans_loop vs k n (i + 1) \<lparr>km_centers = c, km_assignments = assign vs (km_centers st),
        km_converged = False, km_iteration = Some i\<rparr> = Inr st'"
    using Suc.prems(1) by (rule kmeans_step)
  have ne: "\<forall>x \<in> set c. x \<noteq> []"
  proof
    fix x assume "x \<in> set c"
    then obtain new old where "(new, old) \<in> set (zip fresh (km_centers st))" "x = (if new = [] then old else new)"
      by (auto simp: c)
    then show "x \<noteq> []" using Suc.prems(2) by (cases "new = []") (simp_all add: set_zip_rightD)
  qed
  from st' show ?case
  proof
    assume "kmeans_loop vs k n (i + 1) \<lparr>km_centers = c, km_assignments = assign vs (km_centers st),
        km_converged = False, km_iteration = Some i\<rparr> = Inr st'"
    from Suc.IH [OF this] ne show ?thesis by simp
  qed (use ne in simp)
qed simp

lemma more_centers_in: "(\<forall>c \<in> set cs. P c) \<Longrightarrow> (\<And>call cs. P (next_center r call vs cs)) \<Longrightarrow> \<forall>c \<in> set (more_centers r call vs n cs). P c"
  by (induction r call vs n cs rule: more_centers.induct) auto

lemma pick_weighted_less: "pick_weighted th cum i ds = Some j \<Longrightarrow> j < i + length ds"
  by (induction th cum i ds rule: pick_weighted.induct) (auto split: if_splits)

lemma next_center_in:
  assumes "\<forall>n. rn_index r n < length vs"
  shows "next_center r call vs cs \<in> set vs"
proof -
  have "vs \<noteq> []" using assms by auto
  then show ?thesis using assms
    by (auto simp: next_center_def Let_def sq_dists_def split: option.splits dest!: pick_weighted_less intro!: nth_mem)
qed

lemma init_in: "\<forall>n. rn_index r n < length vs \<Longrightarrow> \<forall>c \<in> set (kmeans_plus_plus_init r vs k). c \<in> set vs"
  unfolding kmeans_plus_plus_init_def by (rule more_centers_in) (auto intro: next_center_in)

lemma stored_fold:
  assumes "length acc = i + length cs"
  shows "fold (\<lambda>r cs. if 0 \<le> cr_id r \<and> cr_id r < int (length cs) then cs[nat (cr_id r) := cr_center r] else cs)
    (map (\<lambda>(ci, c). \<lparr>cr_tenant = t, cr_graph = g, cr_id = int ci, cr_center = c, cr_count = f ci\<rparr>) (zip [i..<i + length cs] cs)) acc
    = take i acc @ cs"
  using assms
proof (induction cs arbitrary: i acc)
  case (Cons c cs)
  have "zip [i..<i + length (c # cs)] (c # cs) = (i, c) # zip [Suc i..<Suc i + length cs] cs"
    by (simp add: upt_rec)
  with Cons.IH [of "acc[i := c]" "Suc i"] Cons.prems show ?case
    by (simp add: take_Suc_conv_app_nth)
qed simp

lemma stored_cluster_rows:
  assumes "\<forall>c \<in> set (cl_centers res). c \<noteq> []"
  shows "stored_centers (cluster_rows t g res) = cl_centers res" "length (cluster_rows t g res) = length (cl_centers res)"
proof -
  have all: "filter (\<lambda>(ci, c). c \<noteq> []) (zip [0..<length (cl_centers res)] (cl_centers res))
      = zip [0..<length (cl_centers res)] (cl_centers res)"
    using assms by (auto simp: filter_id_conv dest: set_zip_rightD)
  then show len: "length (cluster_rows t g res) = length (cl_centers res)" by (simp add: cluster_rows_def)
  show "stored_centers (cluster_rows t g res) = cl_centers res"
    using stored_fold [of "replicate (length (cl_centers res)) []" 0 "cl_centers res" t g
        "\<lambda>ci. case map_of (cl_sizes res) ci of None \<Rightarrow> 0 | Some n \<Rightarrow> n"]
    by (simp add: stored_centers_def len) (simp add: cluster_rows_def all)
qed

lemma nearest_cluster_best:
  assumes "\<forall>c \<in> set cs. c \<noteq> []"
  shows "set (nearest_cluster q cs k) \<subseteq> {..<length cs}" "distinct (nearest_cluster q cs k)"
    "length (nearest_cluster q cs k) = min k (length cs)"
    "i \<in> set (nearest_cluster q cs k) \<Longrightarrow> j < length cs \<Longrightarrow> j \<notin> set (nearest_cluster q cs k)
      \<Longrightarrow> cosine_sim q (cs ! j) \<le> cosine_sim q (cs ! i)"
proof -
  let ?xs = "map (\<lambda>(i, c). (i, cosine_sim q c)) (zip [0..<length cs] cs)"
  let ?s = "sort_key (\<lambda>x. - snd x) ?xs"
  have "filter (\<lambda>(i, c). c \<noteq> []) (zip [0..<length cs] cs) = zip [0..<length cs] cs"
    using assms by (auto simp: filter_id_conv dest: set_zip_rightD)
  then have n: "nearest_cluster q cs k = map fst (take k ?s)" by (simp add: nearest_cluster_def)
  have fst: "map fst ?xs = [0..<length cs]" by (simp add: o_def case_prod_beta)
  have "mset (map fst ?s) = mset (map fst ?xs)" by (simp only: mset_map mset_sort)
  then have "mset (map fst ?s) = mset [0..<length cs]" by (simp only: fst)
  then have "distinct (map fst ?s)" by (metis distinct_upt mset_eq_imp_distinct_iff)
  then show "distinct (nearest_cluster q cs k)" by (simp add: n take_map [symmetric])
  show "set (nearest_cluster q cs k) \<subseteq> {..<length cs}"
    by (auto simp: n dest!: in_set_takeD set_zip_leftD)
  show "length (nearest_cluster q cs k) = min k (length cs)" by (simp add: n min.commute)
  assume i: "i \<in> set (nearest_cluster q cs k)" and j: "j < length cs" "j \<notin> set (nearest_cluster q cs k)"
  obtain x where x: "(i, x) \<in> set (take k ?s)" using i by (auto simp: n)
  then have "(i, x) \<in> set ?xs" by (metis in_set_takeD set_sort)
  then have xi: "x = cosine_sim q (cs ! i)" by (auto simp: set_zip)
  have "(j, cs ! j) \<in> set (zip [0..<length cs] cs)" using j(1) by (auto simp: set_zip intro!: exI [of _ j])
  then have "(j, cosine_sim q (cs ! j)) \<in> set ?xs" unfolding set_map by (rule rev_image_eqI) simp
  then have "(j, cosine_sim q (cs ! j)) \<in> set (take k ?s @ drop k ?s)" by (simp only: append_take_drop_id set_sort)
  then have "(j, cosine_sim q (cs ! j)) \<in> set (drop k ?s)" using j(2) image_eqI [of j fst "(j, cosine_sim q (cs ! j))" "set (take k ?s)"] by (simp only: n set_append set_map fst_conv) blast
  from sort_take_drop [OF x this] show "cosine_sim q (cs ! j) \<le> cosine_sim q (cs ! i)" by (simp add: xi)
qed

lemma kmeans_centers:
  assumes "run_kmeans r ids vs k m = Inr res" "vs \<noteq> []" "\<forall>v \<in> set vs. v \<noteq> []" "\<forall>n. rn_index r n < length vs"
  shows "\<forall>c \<in> set (cl_centers res). c \<noteq> []"
    and "cl_k res = min (case k of None \<Rightarrow> choose_k (length vs) | Some k \<Rightarrow> k) (int (length vs))"
proof -
  define k' where "k' = min (case k of None \<Rightarrow> choose_k (length vs) | Some k \<Rightarrow> k) (int (length vs))"
  let ?st0 = "\<lparr>km_centers = kmeans_plus_plus_init r vs k', km_assignments = [], km_converged = False, km_iteration = None\<rparr>"
  obtain st where st: "kmeans_loop vs (nat k') (nat m) 0 ?st0 = Inr st" "cl_centers res = km_centers st" "cl_k res = k'"
    using assms(1,2) by (auto simp: run_kmeans_def Let_def k'_def split: sum.splits option.splits)
  have "\<forall>c \<in> set (km_centers ?st0). c \<noteq> []" using init_in [OF assms(4)] assms(3) by simp
  from centers_nonempty [OF st(1) this] show "\<forall>c \<in> set (cl_centers res). c \<noteq> []" by (simp add: st(2))
  show "cl_k res = min (case k of None \<Rightarrow> choose_k (length vs) | Some k \<Rightarrow> k) (int (length vs))"
    by (simp add: st(3) k'_def)
qed

lemma filter_clusters:
  "filter (cluster_in t g) (filter (\<lambda>x. \<not> cluster_in t g x) xs @ cluster_rows t g res) = cluster_rows t g res"
  by (auto simp: filter_id_conv cluster_rows_def cluster_in_def)

text \<open>What a successful clustering is.\<close>

lemma clustering_cases:
  assumes "run_graph_clustering r orm now t g k w = Inr (resp, w')" "cq_status resp = ''ok''"
  obtains res where "2 \<le> length (filter (node_in t g) (cw_nodes w))"
    "run_kmeans r (map nd_id (filter (node_in t g) (cw_nodes w))) (map nd_vector (filter (node_in t g) (cw_nodes w))) k 50 = Inr res"
    "cq_k resp = cl_k res"
    "cw_nodes w' = map (\<lambda>n. if node_in t g n then (case map_of (cl_assignments res) (nd_id n) of
       Some c \<Rightarrow> n\<lparr>nd_cluster := Some (int c)\<rparr> | None \<Rightarrow> n) else n) (cw_nodes w)"
    "cw_clusters w' = filter (\<lambda>x. \<not> cluster_in t g x) (cw_clusters w) @ cluster_rows t g res"
proof -
  have two: "2 \<le> length (filter (node_in t g) (cw_nodes w))"
    using assms by (auto simp: run_graph_clustering_def Let_def not_less split: if_splits)
  show thesis
    using assms two
    by (auto simp: run_graph_clustering_def Let_def intro!: that split: sum.splits prod.splits if_splits)
qed

text \<open>
  Clustering a graph and then scoping a query: when the clustering endpoint succeeds on a graph
  whose node vectors are not empty, every node of the graph carries a cluster below the number of
  clusters, nothing of other graphs changes, and a query is scoped to two distinct clusters of the
  graph whose stored centres are at least as similar to the query as every other stored centre.
\<close>

theorem scope_after_clustering:
  assumes "run_graph_clustering r orm now t g k w = Inr (resp, w')" "cq_status resp = ''ok''"
    and "distinct (map nd_id (cw_nodes w))" "\<forall>n \<in> set (cw_nodes w). node_in t g n \<longrightarrow> nd_vector n \<noteq> []"
    and "\<forall>x. k = Some x \<longrightarrow> 2 \<le> x" "\<forall>n. rn_index r n < length (filter (node_in t g) (cw_nodes w))"
  shows "(\<forall>n \<in> set (cw_nodes w'). node_in t g n \<longrightarrow> (\<exists>c. nd_cluster n = Some c \<and> 0 \<le> c \<and> c < cq_k resp))
    \<and> filter (\<lambda>n. \<not> node_in t g n) (cw_nodes w') = filter (\<lambda>n. \<not> node_in t g n) (cw_nodes w)
    \<and> (\<exists>ids. cluster_scope t g q (cw_clusters w') = Some ids \<and> distinct ids \<and> length ids = 2
        \<and> (\<forall>i \<in> set ids. int i < cq_k resp)
        \<and> (\<forall>i \<in> set ids. \<forall>j. int j < cq_k resp \<longrightarrow> j \<notin> set ids \<longrightarrow>
            cosine_sim q (stored_centers (filter (cluster_in t g) (cw_clusters w')) ! j)
            \<le> cosine_sim q (stored_centers (filter (cluster_in t g) (cw_clusters w')) ! i)))"
proof -
  let ?ns = "filter (node_in t g) (cw_nodes w)"
  obtain res where two: "2 \<le> length ?ns" and res: "run_kmeans r (map nd_id ?ns) (map nd_vector ?ns) k 50 = Inr res"
    and k: "cq_k resp = cl_k res"
    and ns': "cw_nodes w' = map (\<lambda>n. if node_in t g n then (case map_of (cl_assignments res) (nd_id n) of
       Some c \<Rightarrow> n\<lparr>nd_cluster := Some (int c)\<rparr> | None \<Rightarrow> n) else n) (cw_nodes w)"
    and cs': "cw_clusters w' = filter (\<lambda>x. \<not> cluster_in t g x) (cw_clusters w) @ cluster_rows t g res"
    using assms(1,2) by (rule clustering_cases)
  have "?ns \<noteq> []" using two by auto
  then have ne: "map nd_vector ?ns \<noteq> []" by (simp only: map_is_Nil_conv) simp
  have dist: "distinct (map nd_id ?ns)" using assms(3) by (rule distinct_map_filter)
  have one: "\<forall>x. k = Some x \<longrightarrow> 1 \<le> x" using assms(5) by auto
  note part = kmeans_result [OF res ne _ dist one, simplified length_map, OF refl]
  have cent: "\<forall>c \<in> set (cl_centers res). c \<noteq> []"
    and k2: "cl_k res = min (case k of None \<Rightarrow> choose_k (length ?ns) | Some k \<Rightarrow> k) (int (length ?ns))"
    using kmeans_centers [OF res ne, unfolded length_map] assms(4,6) by auto
  have big: "2 \<le> cl_k res" using k2 two assms(5) choose_k_bounds [of "length ?ns"] by (auto split: option.splits)
  have keys: "map fst (cl_assignments res) = map nd_id ?ns" and vals: "\<forall>a \<in> set (map snd (cl_assignments res)). int a < cl_k res"
    and len: "int (length (cl_centers res)) = cl_k res" using part by simp_all
  have cluster: "\<exists>c. map_of (cl_assignments res) (nd_id n) = Some c \<and> int c < cl_k res"
    if n: "n \<in> set (cw_nodes w)" "node_in t g n" for n
  proof -
    have "nd_id n \<in> set (map fst (cl_assignments res))" unfolding keys using n by simp
    then obtain c where "map_of (cl_assignments res) (nd_id n) = Some c" by (metis list.set_map map_of_eq_None_iff not_Some_eq)
    then show ?thesis using vals by (auto dest!: map_of_SomeD)
  qed
  have nodes: "\<forall>n \<in> set (cw_nodes w'). node_in t g n \<longrightarrow> (\<exists>c. nd_cluster n = Some c \<and> 0 \<le> c \<and> c < cq_k resp)"
  proof (intro ballI impI)
    fix m assume "m \<in> set (cw_nodes w')" "node_in t g m"
    then obtain n where n: "n \<in> set (cw_nodes w)" "node_in t g n"
      and m: "m = (case map_of (cl_assignments res) (nd_id n) of Some c \<Rightarrow> n\<lparr>nd_cluster := Some (int c)\<rparr> | None \<Rightarrow> n)"
      unfolding ns' set_map by (auto split: if_splits)
    from cluster [OF n] obtain c where "map_of (cl_assignments res) (nd_id n) = Some c" "int c < cl_k res" by blast
    then show "\<exists>c. nd_cluster m = Some c \<and> 0 \<le> c \<and> c < cq_k resp" by (simp add: m k)
  qed
  have other: "filter (\<lambda>n. \<not> node_in t g n) (cw_nodes w') = filter (\<lambda>n. \<not> node_in t g n) (cw_nodes w)"
    unfolding ns' by (rule filter_map_other) (auto simp: node_in_def split: option.splits)
  let ?ids = "nearest_cluster q (cl_centers res) 2"
  have all: "filter (\<lambda>c. c \<noteq> []) (cl_centers res) = cl_centers res" using cent by (simp add: filter_id_conv)
  have stored: "stored_centers (filter (cluster_in t g) (cw_clusters w')) = cl_centers res"
    unfolding cs' filter_clusters by (rule stored_cluster_rows(1) [OF cent])
  have rows: "length (filter (cluster_in t g) (cw_clusters w')) = length (cl_centers res)"
    unfolding cs' filter_clusters by (rule stored_cluster_rows(2) [OF cent])
  have "2 \<le> length (cl_centers res)" using big len by linarith
  then have "cluster_scope t g q (cw_clusters w') = Some ?ids"
    unfolding cluster_scope_def Let_def stored all rows by (rule if_P)
  moreover have "distinct ?ids" "length ?ids = 2" "\<forall>i \<in> set ?ids. int i < cq_k resp"
    using nearest_cluster_best(1-3) [OF cent, of q 2] \<open>2 \<le> length (cl_centers res)\<close> len k by auto
  moreover have "\<forall>i \<in> set ?ids. \<forall>j. int j < cq_k resp \<longrightarrow> j \<notin> set ?ids \<longrightarrow>
      cosine_sim q (cl_centers res ! j) \<le> cosine_sim q (cl_centers res ! i)"
    using nearest_cluster_best(4) [OF cent, of _ q 2] len k by (metis of_nat_less_iff)
  ultimately show ?thesis using nodes other unfolding stored by blast
qed

section \<open>A run does not fail on vectors of one dimension\<close>

lemma add_shares_total:
  "\<forall>v \<in> set vs. length v = length acc \<Longrightarrow> \<exists>r. add_shares n vs acc = Inr r"
  by (induction vs arbitrary: acc) (simp_all add: add_share_def)

lemma mean_vector_total:
  assumes "\<forall>v \<in> set vs. length v = d"
  shows "\<exists>r. mean_vector vs = Inr r"
proof (cases vs)
  case (Cons v vs')
  then obtain r where "add_shares (length vs) vs (replicate (length v) 0) = Inr r"
    using add_shares_total [of vs "replicate (length v) 0"] assms by auto
  then show ?thesis by (simp add: mean_vector_def Cons)
qed (simp add: mean_vector_def)

lemma try_map_total: "(\<And>x. \<exists>y. f x = Inr y) \<Longrightarrow> \<exists>ys. try_map f xs = Inr ys"
proof (induction xs)
  case (Cons x xs)
  obtain y ys where "f x = Inr y" "try_map f xs = Inr ys" using Cons by metis
  then show ?case by simp
qed simp

lemma recompute_total:
  assumes "\<forall>v \<in> set vs. length v = d"
  shows "\<exists>cs. recompute_centers vs a k = Inr cs"
  unfolding recompute_centers_def
proof (rule try_map_total)
  fix ci
  have "\<forall>v \<in> set (group_of vs a ci). length v = d" using assms by (auto simp: group_of_def dest: set_zip_leftD)
  then show "\<exists>y. mean_vector (group_of vs a ci) = Inr y" by (rule mean_vector_total)
qed

lemma kmeans_loop_total:
  assumes "\<forall>v \<in> set vs. length v = d"
  shows "\<exists>st'. kmeans_loop vs k n i st = Inr st' \<and> (km_iteration st = None \<and> n = 0 \<or> km_iteration st' \<noteq> None \<or> n = 0)"
proof (induction n arbitrary: i st)
  case (Suc n)
  obtain fresh where f: "recompute_centers vs (assign vs (km_centers st)) k = Inr fresh" using recompute_total [OF assms] by blast
  let ?c = "map2 (\<lambda>new old. if new = [] then old else new) fresh (km_centers st)"
  let ?st = "\<lparr>km_centers = ?c, km_assignments = assign vs (km_centers st), km_converged = False, km_iteration = Some i\<rparr>"
  obtain st' where "kmeans_loop vs k n (i + 1) ?st = Inr st'" "km_iteration st' \<noteq> None"
    using Suc.IH [of "i + 1" ?st] by (cases n) auto
  then show ?case using f by (simp add: Let_def)
qed simp

lemma kmeans_total:
  assumes "\<forall>v \<in> set vs. length v = d" "0 < m"
  shows "\<exists>res. run_kmeans r ids vs k m = Inr res"
proof -
  define k' where "k' = min (case k of None \<Rightarrow> choose_k (length vs) | Some k \<Rightarrow> k) (int (length vs))"
  let ?st0 = "\<lparr>km_centers = kmeans_plus_plus_init r vs k', km_assignments = [], km_converged = False, km_iteration = None\<rparr>"
  obtain st where "kmeans_loop vs (nat k') (nat m) 0 ?st0 = Inr st" "km_iteration st \<noteq> None"
    using kmeans_loop_total [OF assms(1), of "nat k'" "nat m" 0 ?st0] assms(2) by auto
  then show ?thesis by (auto simp: run_kmeans_def Let_def k'_def)
qed

definition ex_rng :: rng where
  "ex_rng = \<lparr>rn_index = (\<lambda>_. 0), rn_random = (\<lambda>_. 1)\<rparr>"


definition ex_topic :: "string \<Rightarrow> vec \<Rightarrow> node_row" where
  "ex_topic i v = \<lparr>nd_id = i, nd_tenant = ''t'', nd_graph = ''g'', nd_kind = ''atom'', nd_hash = i, nd_raw = None,
     nd_block = None, nd_anchor = None, nd_vector = v, nd_embedding = None, nd_signature = None, nd_residual = 0,
     nd_level = 0, nd_touch = 0, nd_access = None, nd_valid_from = None, nd_valid_to = None, nd_long_term = False,
     nd_cluster = None, nd_cognitive = None, nd_galaxy = None, nd_created = 0, nd_updated = 0\<rparr>"

definition ex_topics :: clustering_world where
  "ex_topics = \<lparr>cw_nodes = [ex_topic ''a'' [1, 0], ex_topic ''b'' [0, 1]], cw_clusters = [], cw_versions = []\<rparr>"

lemma scope_after_clustering_witness:
  "\<exists>resp w' ids. run_graph_clustering ex_rng False 0 ''t'' ''g'' None ex_topics = Inr (resp, w')
    \<and> cluster_scope ''t'' ''g'' [1, 0] (cw_clusters w') = Some ids \<and> distinct ids \<and> length ids = 2"
proof -
  have ns: "filter (node_in ''t'' ''g'') (cw_nodes ex_topics) = [ex_topic ''a'' [1, 0], ex_topic ''b'' [0, 1]]"
    by (simp add: ex_topics_def ex_topic_def node_in_def)
  obtain res where "run_kmeans ex_rng [''a'', ''b''] [[1, 0], [0, 1]] None 50 = Inr res"
    using kmeans_total [of "[[1, 0], [0, 1]]" 2 50 ex_rng "[''a'', ''b'']" None] by auto
  then have "run_kmeans ex_rng (map nd_id (filter (node_in ''t'' ''g'') (cw_nodes ex_topics)))
      (map nd_vector (filter (node_in ''t'' ''g'') (cw_nodes ex_topics))) None 50 = Inr res"
    unfolding ns by (simp add: ex_topic_def)
  moreover have "bump False 0 reason ''t'' ''g'' (cw_versions ex_topics) = Inr
      ([\<lparr>gv_tenant = ''t'', gv_graph = ''g'', gv_version = 1, gv_reason = Some reason, gv_updated = 0\<rparr>], 1)" for reason
    by (simp add: bump_def bump_write_def put_version_def version_row_def insert_version_def ex_topics_def)
  ultimately obtain resp w' where r: "run_graph_clustering ex_rng False 0 ''t'' ''g'' None ex_topics = Inr (resp, w')" "cq_status resp = ''ok''"
    by (simp add: run_graph_clustering_def ns)
  show ?thesis
    using scope_after_clustering [OF r, of "[1, 0]"] r(1) unfolding ns
    by (simp add: ex_topics_def ex_topic_def ex_rng_def) blast
qed

end
