(* ===== verification/FM_Diffusion.thy ===== *)
theory FM_Diffusion
  imports FM_Node_Repo FM_Edge_Repo FM_Merge
begin

text \<open>
  Graph semantics of a query: \<open>core/query/diffusion.py\<close> (path scores, diffusion, neighbourhood
  coherence, contradiction penalties) and \<open>build_graph_semantic_scores\<close> of
  \<open>core/query/graph_semantics.py\<close>, which expands the candidates along the edges.

  Scores are dictionaries of real numbers with keys in insertion order, sets of node ids are sets.
  The lemmas show that the path scores are the strengths of the best bounded walks from the seeds,
  and what the expansion bounds.
\<close>

section \<open>Scores\<close>

type_synonym scores = "(string \<times> real) list"
type_synonym adjacency = "(string \<times> (string \<times> real) list) list"

definition score_at :: "scores \<Rightarrow> string \<Rightarrow> real" where
  "score_at m i = (case map_of m i of None \<Rightarrow> 0 | Some x \<Rightarrow> x)"

definition raise_score :: "string \<Rightarrow> real \<Rightarrow> scores \<Rightarrow> scores" where
  "raise_score i x m = al_put i (max (score_at m i) x) m"

definition normalize_scores :: "scores \<Rightarrow> scores" where
  "normalize_scores s =
     (if s = [] then []
      else let m = Max (snd ` set s); m' = (if m = 0 then 1 else m)
           in map (\<lambda>(i, v). (i, clamp01 (v / m'))) (sort_key fst s))"

definition top_neighbors :: "nat \<Rightarrow> adjacency \<Rightarrow> string \<Rightarrow> (string \<times> real) list" where
  "top_neighbors k adj i =
     take k (sort_key score_order (case map_of adj i of None \<Rightarrow> [] | Some ns \<Rightarrow> ns))"

section \<open>Path scores\<close>

definition path_edge :: "real \<Rightarrow> real \<Rightarrow> string \<times> real \<Rightarrow> scores \<times> scores \<Rightarrow> scores \<times> scores" where
  "path_edge decay base e st =
     (let c = base * clamp01 (snd e) * decay in
      if c \<le> 0 then st else (raise_score (fst e) c (fst st), raise_score (fst e) c (snd st)))"

definition path_hop :: "nat \<Rightarrow> adjacency \<Rightarrow> real \<Rightarrow> scores \<Rightarrow> scores \<Rightarrow> scores \<times> scores" where
  "path_hop k adj decay frontier totals =
     fold (\<lambda>(i, b). fold (path_edge decay b) (top_neighbors k adj i)) (sort_key fst frontier) ([], totals)"

fun path_loop :: "nat \<Rightarrow> adjacency \<Rightarrow> real \<Rightarrow> nat \<Rightarrow> scores \<Rightarrow> scores \<Rightarrow> scores" where
  "path_loop k adj decay 0 frontier totals = totals"
| "path_loop k adj decay (Suc n) frontier totals =
     (let (next, totals') = path_hop k adj decay frontier totals
      in if next = [] then totals' else path_loop k adj decay n next totals')"

definition path_seeds :: "scores \<Rightarrow> scores" where
  "path_seeds seeds = map (\<lambda>(i, s). (i, clamp01 s)) (filter (\<lambda>x. snd x > 0) (sort_key fst seeds))"

definition bounded_path_scores :: "scores \<Rightarrow> adjacency \<Rightarrow> nat \<Rightarrow> real \<Rightarrow> nat \<Rightarrow> scores" where
  "bounded_path_scores seeds adj max_hops decay k =
     (if seeds = [] \<or> max_hops < 1 then []
      else normalize_scores (path_loop k adj decay max_hops (path_seeds seeds) (path_seeds seeds)))"

section \<open>Diffusion, neighbourhoods and contradictions\<close>

definition add_incoming :: "real \<Rightarrow> string \<times> real \<Rightarrow> scores \<Rightarrow> scores" where
  "add_incoming share e inc = al_put (fst e) (score_at inc (fst e) + share * clamp01 (snd e)) inc"

definition spread :: "nat \<Rightarrow> adjacency \<Rightarrow> string \<times> real \<Rightarrow> scores \<Rightarrow> scores" where
  "spread k adj x inc =
     (let ns = top_neighbors k adj (fst x);
          total = sum_list (map (\<lambda>e. clamp01 (snd e)) ns);
          total' = (if total = 0 then 1 else total)
      in fold (add_incoming (snd x / total')) ns inc)"

definition diffusion_step :: "nat \<Rightarrow> adjacency \<Rightarrow> real \<Rightarrow> scores \<Rightarrow> scores \<Rightarrow> scores" where
  "diffusion_step k adj alpha base current =
     (let incoming = fold (spread k adj) (sort_key fst current) []
      in map (\<lambda>i. (i, clamp01 ((1 - alpha) * score_at base i + alpha * score_at incoming i)))
           (sort (remdups (map fst base @ map fst current @ map fst incoming))))"

definition fixed_iteration_diffusion :: "scores \<Rightarrow> adjacency \<Rightarrow> real \<Rightarrow> int \<Rightarrow> nat \<Rightarrow> scores" where
  "fixed_iteration_diffusion seeds adj alpha steps k =
     (if seeds = [] then []
      else let base = normalize_scores seeds
           in normalize_scores ((diffusion_step k adj alpha base ^^ nat (max 0 steps)) base))"

definition concept_neighborhood_scores :: "scores \<Rightarrow> adjacency \<Rightarrow> nat \<Rightarrow> scores" where
  "concept_neighborhood_scores support adj k =
     (if support = [] then []
      else normalize_scores (concat (map (\<lambda>i.
        let ns = top_neighbors k adj i;
            v = sum_list (map (\<lambda>e. score_at support (fst e) * clamp01 (snd e)) ns)
        in if ns = [] then [] else if v > 0 then [(i, v / of_nat (length ns))] else [])
        (sort (map fst adj)))))"

definition contradiction_penalties :: "scores \<Rightarrow> adjacency \<Rightarrow> scores" where
  "contradiction_penalties support contradictions =
     concat (map (\<lambda>(i, ns).
       let p = fold (\<lambda>e m. max m (score_at support (fst e) * clamp01 (snd e))) (sort_key score_order ns) 0
       in if p > 0 then [(i, clamp01 p)] else [])
       (sort_key fst contradictions))"

section \<open>Expansion along the edges\<close>

record path_source =
  ps_from :: string
  ps_kind :: string
  ps_weight :: real
  ps_hop :: nat

record sem_config =
  sc_kinds :: "string list"
  sc_max_hops :: nat
  sc_max_neighbors :: nat
  sc_decay :: real
  sc_alpha :: real
  sc_steps :: int
  sc_max_frontier :: "nat option"
  sc_max_total :: "nat option"

record sem_state =
  sm_visited :: "string set"
  sm_suppressed :: "string set"
  sm_adj :: adjacency
  sm_contra :: adjacency
  sm_paths :: "(string \<times> path_source list) list"
  sm_times :: "string \<Rightarrow> int option"
  sm_next :: "string set"
  sm_next_scores :: scores

text \<open>\<open>d[k].append(x)\<close> on a dictionary of lists\<close>

definition push :: "string \<Rightarrow> 'a \<Rightarrow> (string \<times> 'a list) list \<Rightarrow> (string \<times> 'a list) list" where
  "push i x m = al_put i ((case map_of m i of None \<Rightarrow> [] | Some xs \<Rightarrow> xs) @ [x]) m"

definition edge_weight :: "edge_row \<Rightarrow> real" where
  "edge_weight e = clamp01 (from_scaled (er_weight e))"

text \<open>A time that is there and at least as late as another that is there\<close>

definition at_least :: "int option \<Rightarrow> int option \<Rightarrow> bool" where
  "at_least a b = (case (a, b) of (Some x, Some y) \<Rightarrow> x \<ge> y | _ \<Rightarrow> False)"

definition note_opposition :: "string \<Rightarrow> string \<Rightarrow> real \<Rightarrow> sem_state \<Rightarrow> sem_state" where
  "note_opposition src dst w s =
     (let ts = sm_times s src; td = sm_times s dst;
          both = src \<in> sm_visited s \<and> dst \<in> sm_visited s \<and> ts \<noteq> None \<and> td \<noteq> None
      in s\<lparr>sm_contra := push dst (src, w) (push src (dst, w) (sm_contra s)),
           sm_suppressed := (if both then insert (if at_least ts td then dst else src) (sm_suppressed s) else sm_suppressed s)\<rparr>)"

definition opposed_by_newer :: "string \<Rightarrow> sem_state \<Rightarrow> bool" where
  "opposed_by_newer nb s =
     list_ex (\<lambda>(other, w). other \<in> sm_visited s \<and> w > 0 \<and> at_least (sm_times s other) (sm_times s nb))
       (case map_of (sm_contra s) nb of None \<Rightarrow> [] | Some xs \<Rightarrow> xs)"

record sem_hop =
  sh_frontier :: "string list"
  sh_scores :: scores
  sh_hop :: nat
  sh_decay :: real
  sh_limit :: nat

definition visit_side :: "sem_hop \<Rightarrow> string \<Rightarrow> real \<Rightarrow> string \<Rightarrow> string \<Rightarrow> sem_state \<Rightarrow> sem_state" where
  "visit_side h kind w cur nb s =
     (if cur \<notin> set (sh_frontier h) then s
      else if nb \<in> sm_suppressed s then s
      else if card (sm_visited s) \<ge> sh_limit h \<and> nb \<notin> sm_visited s then s
      else if opposed_by_newer nb s then s\<lparr>sm_suppressed := insert nb (sm_suppressed s)\<rparr>
      else
        let new = nb \<notin> sm_visited s
        in s\<lparr>sm_adj := push cur (nb, w) (sm_adj s),
             sm_paths := push nb \<lparr>ps_from = cur, ps_kind = kind, ps_weight = round6 w, ps_hop = sh_hop h\<rparr> (sm_paths s),
             sm_next_scores := raise_score nb (score_at (sh_scores h) cur * w * sh_decay h) (sm_next_scores s),
             sm_next := (if new then insert nb (sm_next s) else sm_next s),
             sm_visited := (if new then insert nb (sm_visited s) else sm_visited s)\<rparr>)"

definition sem_edge :: "sem_hop \<Rightarrow> edge_row \<Rightarrow> sem_state \<Rightarrow> sem_state" where
  "sem_edge h e s =
     (let w = edge_weight e; src = er_src e; dst = er_dst e in
      if w \<le> 0 then s
      else if er_kind e = ''opposition'' then note_opposition src dst w s
      else visit_side h (er_kind e) w dst src (visit_side h (er_kind e) w src dst s))"

definition or_positive :: "nat option \<Rightarrow> nat \<Rightarrow> nat" where
  "or_positive m d = (case m of Some (Suc n) \<Rightarrow> Suc n | _ \<Rightarrow> d)"

definition load_times :: "node_row list \<Rightarrow> (string \<Rightarrow> int option) \<Rightarrow> string \<Rightarrow> int option" where
  "load_times nodes known = fold (\<lambda>n m. m(nd_id n \<mapsto> nd_created n)) nodes known"

text \<open>One hop: the state after it with the next frontier and its scores, or None when no edge is left.\<close>

definition incident_edges :: "string \<Rightarrow> string \<Rightarrow> sem_config \<Rightarrow> string list \<Rightarrow> edge_row list \<Rightarrow> edge_row list" where
  "incident_edges t g c frontier edges =
     list_graph_neighbors t g (sort frontier) (Some (sort (remdups (''opposition'' # sc_kinds c))))
       (max (length frontier * sc_max_neighbors c * 6) 64) edges"

definition sem_step :: "string \<Rightarrow> string \<Rightarrow> sem_config \<Rightarrow> node_row list \<Rightarrow> edge_row list \<Rightarrow> nat \<Rightarrow> nat \<Rightarrow> nat \<Rightarrow>
    string list \<Rightarrow> scores \<Rightarrow> sem_state \<Rightarrow> (string list \<times> scores \<times> sem_state) option" where
  "sem_step t g c nodes edges max_frontier max_total hop frontier fscores s =
     (let es = incident_edges t g c frontier edges
      in if es = [] then None
         else
           let ids = remdups (concat (map (\<lambda>e. [er_src e, er_dst e]) es));
               s0 = s\<lparr>sm_times := load_times (list_by_ids t g (sort ids) nodes) (sm_times s),
                      sm_next := {}, sm_next_scores := []\<rparr>;
               s1 = fold (sem_edge \<lparr>sh_frontier = frontier, sh_scores = fscores, sh_hop = hop,
                      sh_decay = sc_decay c, sh_limit = max_total\<rparr>) es s0;
               next = take max_frontier (sort_key (\<lambda>i. (- score_at (sm_next_scores s1) i, i))
                      (sorted_list_of_set (sm_next s1)))
           in Some (next, map (\<lambda>i. (i, score_at (sm_next_scores s1) i)) next, s1))"

fun sem_hops :: "(nat \<Rightarrow> string list \<Rightarrow> scores \<Rightarrow> sem_state \<Rightarrow> (string list \<times> scores \<times> sem_state) option) \<Rightarrow>
    nat \<Rightarrow> nat \<Rightarrow> string list \<Rightarrow> scores \<Rightarrow> sem_state \<Rightarrow> sem_state" where
  "sem_hops f 0 hop frontier fscores s = s"
| "sem_hops f (Suc n) hop frontier fscores s =
     (if frontier = [] then s
      else case f hop frontier fscores s of
        None \<Rightarrow> s
      | Some (fr, sc, s1) \<Rightarrow> sem_hops f n (Suc hop) fr sc s1)"

record sem_score =
  ss_total :: real
  ss_path :: real
  ss_diffusion :: real
  ss_neighborhood :: real
  ss_contradiction :: real

definition build_graph_semantic_scores :: "string \<Rightarrow> string \<Rightarrow> sem_config \<Rightarrow> scores \<Rightarrow> string list \<Rightarrow> node_row list \<Rightarrow>
    edge_row list \<Rightarrow> string list \<times> (string \<times> sem_score) list \<times> (string \<times> path_source list) list" where
  "build_graph_semantic_scores t g c seeds candidates nodes edges =
     (if seeds = [] then (candidates, [], [])
      else
        let k = sc_max_neighbors c;
            visited = set candidates \<union> set (map fst seeds);
            max_frontier = or_positive (sc_max_frontier c) (max 32 (k * 8));
            max_total = or_positive (sc_max_total c) (max (card visited + 64) (max_frontier * max (sc_max_hops c) 1 * 4));
            s = sem_hops (sem_step t g c nodes edges max_frontier max_total) (sc_max_hops c) 1 (map fst seeds) seeds
                  \<lparr>sm_visited = visited, sm_suppressed = {}, sm_adj = [], sm_contra = [], sm_paths = [],
                   sm_times = Map.empty, sm_next = {}, sm_next_scores = []\<rparr>;
            adj = map (\<lambda>i. (i, top_neighbors k (sm_adj s) i)) (sort (map fst (sm_adj s)));
            paths = bounded_path_scores seeds adj (sc_max_hops c) (sc_decay c) k;
            diffusion = fixed_iteration_diffusion seeds adj (sc_alpha c) (sc_steps c) k;
            neighborhood = concept_neighborhood_scores paths adj k;
            contra = contradiction_penalties paths
              (map (\<lambda>(i, ns). (i, filter (\<lambda>e. fst e \<notin> sm_suppressed s) ns)) (sm_contra s));
            ids = sorted_list_of_set (sm_visited s - sm_suppressed s)
        in (ids,
            map (\<lambda>i. (i, \<lparr>ss_total = round6 (clamp01 (45 / 100 * score_at paths i + 35 / 100 * score_at diffusion i
                           + 20 / 100 * score_at neighborhood i - 35 / 100 * score_at contra i)),
                       ss_path = round6 (score_at paths i), ss_diffusion = round6 (score_at diffusion i),
                       ss_neighborhood = round6 (score_at neighborhood i), ss_contradiction = round6 (score_at contra i)\<rparr>)) ids,
            map (\<lambda>i. (i, take 8 (sort_key (\<lambda>p. (ps_hop p, ps_kind p, ps_from p))
                       (case map_of (sm_paths s) i of None \<Rightarrow> [] | Some ps \<Rightarrow> ps)))) ids))"


section \<open>Path scores are the best bounded walks\<close>

lemma map_of_raise [simp]: "map_of (raise_score i x m) = (map_of m)(i \<mapsto> max (score_at m i) x)"
  by (simp add: raise_score_def)

text \<open>The contributions of a hop in the order the code visits them.\<close>

definition hop_contributions :: "nat \<Rightarrow> adjacency \<Rightarrow> real \<Rightarrow> scores \<Rightarrow> scores" where
  "hop_contributions k adj decay frontier =
     concat (map (\<lambda>(i, b). filter (\<lambda>x. snd x > 0) (map (\<lambda>(j, w). (j, b * clamp01 w * decay)) (top_neighbors k adj i)))
       (sort_key fst frontier))"

definition raise_all :: "scores \<Rightarrow> scores \<Rightarrow> scores" where
  "raise_all cs m = fold (\<lambda>(j, c). raise_score j c) cs m"

lemma raise_all_append [simp]: "raise_all (xs @ ys) m = raise_all ys (raise_all xs m)"
  by (simp add: raise_all_def)

lemma path_edges_raise:
  "fold (path_edge decay b) ns st =
     (let cs = filter (\<lambda>x. snd x > 0) (map (\<lambda>(j, w). (j, b * clamp01 w * decay)) ns)
      in (raise_all cs (fst st), raise_all cs (snd st)))"
  by (induction ns arbitrary: st) (auto simp: raise_all_def path_edge_def Let_def)

lemma path_hop_raise:
  "path_hop k adj decay f t = (raise_all (hop_contributions k adj decay f) [], raise_all (hop_contributions k adj decay f) t)"
proof -
  have "fold (\<lambda>(i, b). fold (path_edge decay b) (top_neighbors k adj i)) xs st =
      (let cs = concat (map (\<lambda>(i, b). filter (\<lambda>x. snd x > 0) (map (\<lambda>(j, w). (j, b * clamp01 w * decay)) (top_neighbors k adj i))) xs)
       in (raise_all cs (fst st), raise_all cs (snd st)))" for xs st
    by (induction xs arbitrary: st) (auto simp: path_edges_raise Let_def raise_all_def)
  then show ?thesis by (simp add: path_hop_def hop_contributions_def Let_def)
qed

definition is_best :: "real set \<Rightarrow> real \<Rightarrow> bool" where
  "is_best S x \<longleftrightarrow> x \<in> S \<and> (\<forall>y \<in> S. y \<le> x)"

lemma raise_all_absent: "map_of (raise_all cs m) j = None \<longleftrightarrow> (\<forall>c. (j, c) \<notin> set cs) \<and> map_of m j = None"
proof (induction cs arbitrary: m)
  case (Cons p cs)
  show ?case using Cons.IH [of "raise_score (fst p) (snd p) m"] by (cases p) (auto simp: raise_all_def)
qed (simp add: raise_all_def)

lemma is_best_raise: "is_best (insert (max u c) A) x \<longleftrightarrow> is_best (insert c (insert u A)) x"
  unfolding is_best_def by (auto simp: max_def)

text \<open>The values offered for a key: what the table has and what is added.\<close>

definition offers :: "scores \<Rightarrow> scores \<Rightarrow> string \<Rightarrow> real set" where
  "offers cs m j = {c. (j, c) \<in> set cs} \<union> {c. map_of m j = Some c}"

lemma raise_all_best:
  assumes "\<forall>p \<in> set cs. snd p > 0"
  shows "map_of (raise_all cs m) j = Some x \<longleftrightarrow> is_best (offers cs m j) x"
  using assms
proof (induction cs arbitrary: m)
  case Nil
  then show ?case by (auto simp: raise_all_def is_best_def offers_def)
next
  case (Cons p cs)
  obtain i c where p: "p = (i, c)" by (cases p)
  let ?m = "raise_score i c m"
  have c: "c > 0" using Cons.prems by (simp add: p)
  have "map_of (raise_all (p # cs) m) j = map_of (raise_all cs ?m) j" by (simp add: p raise_all_def)
  also have "\<dots> = Some x \<longleftrightarrow> is_best (offers cs ?m j) x" using Cons by simp
  also have "\<dots> \<longleftrightarrow> is_best (offers (p # cs) m j) x"
  proof (cases "i = j")
    case True
    have new: "offers cs ?m j = insert (max (score_at m j) c) {c. (j, c) \<in> set cs}" using True by (auto simp: offers_def)
    show ?thesis
    proof (cases "map_of m j")
      case None
      have "offers (p # cs) m j = insert c {c. (j, c) \<in> set cs}" using True None by (auto simp: offers_def p)
      then show ?thesis unfolding new using None c by (simp add: score_at_def)
    next
      case (Some u)
      have "offers (p # cs) m j = insert c (insert u {c. (j, c) \<in> set cs})" using True Some by (auto simp: offers_def p)
      then show ?thesis unfolding new using Some by (simp add: score_at_def is_best_raise)
    qed
  next
    case False
    then have "offers cs ?m j = offers (p # cs) m j" by (auto simp: p offers_def)
    then show ?thesis by simp
  qed
  finally show ?case .
qed

text \<open>A walk from a seed along listed neighbours with its strength; only positive strengths count.\<close>

inductive walk :: "scores \<Rightarrow> adjacency \<Rightarrow> nat \<Rightarrow> real \<Rightarrow> nat \<Rightarrow> string \<Rightarrow> real \<Rightarrow> bool" for seeds adj k decay where
  start: "(i, s) \<in> set seeds \<Longrightarrow> s > 0 \<Longrightarrow> walk seeds adj k decay 0 i (clamp01 s)"
| step: "walk seeds adj k decay n i x \<Longrightarrow> (j, w) \<in> set (top_neighbors k adj i) \<Longrightarrow> x * clamp01 w * decay > 0 \<Longrightarrow>
    walk seeds adj k decay (Suc n) j (x * clamp01 w * decay)"

inductive_cases walk_0E: "walk seeds adj k decay 0 i x"
inductive_cases walk_SucE: "walk seeds adj k decay (Suc n) j x"

lemma clamp01_pos [simp]: "clamp01 s > 0 \<longleftrightarrow> s > 0"
  by (auto simp: clamp01_def)

lemma walk_pos: "walk seeds adj k decay n i x \<Longrightarrow> x > 0"
  by (induction rule: walk.induct) simp_all

text \<open>What a table of scores must hold for a family of walks.\<close>

definition holds_best :: "(string \<Rightarrow> real \<Rightarrow> bool) \<Rightarrow> scores \<Rightarrow> bool" where
  "holds_best W m \<longleftrightarrow>
     (\<forall>j x. map_of m j = Some x \<longleftrightarrow> is_best {x. W j x} x) \<and> (\<forall>j x. W j x \<longrightarrow> map_of m j \<noteq> None) \<and> distinct (map fst m)"

lemma holds_bestD:
  assumes "holds_best W m" "W j x"
  obtains y where "map_of m j = Some y" "W j y" "x \<le> y"
  using assms unfolding holds_best_def is_best_def by (metis mem_Collect_eq not_None_eq)

lemma distinct_raise_all [simp]: "distinct (map fst m) \<Longrightarrow> distinct (map fst (raise_all cs m))"
  unfolding raise_all_def al_keys_def [symmetric]
  by (induction cs arbitrary: m) (auto simp: raise_score_def)

lemma holds_best_raise:
  assumes m: "holds_best V m" and pos: "\<forall>p \<in> set cs. snd p > 0"
    and sound: "\<And>j c. (j, c) \<in> set cs \<Longrightarrow> W j c" and complete: "\<And>j x. W j x \<Longrightarrow> \<exists>c \<ge> x. (j, c) \<in> set cs"
  shows "holds_best (\<lambda>j x. V j x \<or> W j x) (raise_all cs m)"
proof -
  have sub: "V j c \<or> W j c" if "c \<in> offers cs m j" for j c
    using that sound m by (auto simp: holds_best_def is_best_def offers_def)
  have dom: "\<exists>c \<in> offers cs m j. y \<le> c" if "V j y \<or> W j y" for j y
    using that
  proof
    assume "V j y"
    then obtain c where "map_of m j = Some c" "y \<le> c" using holds_bestD [OF m] by blast
    then show ?thesis by (auto simp: offers_def)
  next
    assume "W j y"
    then obtain c where "y \<le> c" "(j, c) \<in> set cs" using complete by blast
    then show ?thesis by (auto simp: offers_def)
  qed
  have best: "is_best (offers cs m j) x \<longleftrightarrow> is_best {x. V j x \<or> W j x} x" for j x
  proof
    assume l: "is_best (offers cs m j) x"
    have "y \<le> x" if "V j y \<or> W j y" for y using dom [OF that] l by (meson is_best_def order_trans)
    then show "is_best {x. V j x \<or> W j x} x" using l sub unfolding is_best_def by blast
  next
    assume r: "is_best {x. V j x \<or> W j x} x"
    have le: "y \<le> x" if "y \<in> offers cs m j" for y using sub [OF that] r unfolding is_best_def by blast
    obtain c where c: "c \<in> offers cs m j" "x \<le> c" using dom r unfolding is_best_def by blast
    then have "c = x" using le by force
    then show "is_best (offers cs m j) x" using c le unfolding is_best_def by blast
  qed
  show ?thesis unfolding holds_best_def
  proof (intro conjI allI impI)
    show "map_of (raise_all cs m) j = Some x \<longleftrightarrow> is_best {x. V j x \<or> W j x} x" for j x
      unfolding raise_all_best [OF pos] best ..
    show "map_of (raise_all cs m) j \<noteq> None" if "V j x \<or> W j x" for j x
      using dom [OF that] unfolding raise_all_absent offers_def by auto
    show "distinct (map fst (raise_all cs m))" using m by (simp add: holds_best_def)
  qed
qed

lemma holds_best_cong: "(\<And>j x. V j x \<longleftrightarrow> W j x) \<Longrightarrow> holds_best V m \<Longrightarrow> holds_best W m"
proof -
  assume "\<And>j x. V j x \<longleftrightarrow> W j x"
  then have "V = W" by (intro ext) blast
  then show "holds_best V m \<Longrightarrow> holds_best W m" by simp
qed

lemma hop_sound_complete:
  assumes f: "holds_best (walk seeds adj k decay n) f"
  shows "\<And>j c. (j, c) \<in> set (hop_contributions k adj decay f) \<Longrightarrow> walk seeds adj k decay (Suc n) j c"
    and "\<And>j x. walk seeds adj k decay (Suc n) j x \<Longrightarrow> \<exists>c \<ge> x. (j, c) \<in> set (hop_contributions k adj decay f)"
proof -
  have look: "map_of f i = Some b" if "(i, b) \<in> set f" for i b using that f by (simp add: holds_best_def)
  show "walk seeds adj k decay (Suc n) j c" if "(j, c) \<in> set (hop_contributions k adj decay f)" for j c
  proof -
    from that obtain i b w where i: "(i, b) \<in> set f" "(j, w) \<in> set (top_neighbors k adj i)"
      and c: "c = b * clamp01 w * decay" "c > 0" by (auto simp: hop_contributions_def)
    have "walk seeds adj k decay n i b" using look [OF i(1)] f by (auto simp: holds_best_def is_best_def)
    then show ?thesis unfolding c(1) by (rule walk.step) (use i c in auto)
  qed
  show "\<exists>c \<ge> x. (j, c) \<in> set (hop_contributions k adj decay f)" if w: "walk seeds adj k decay (Suc n) j x" for j x
  proof -
    obtain i y u where e: "walk seeds adj k decay n i y" "(j, u) \<in> set (top_neighbors k adj i)"
      "y * clamp01 u * decay > 0" "x = y * clamp01 u * decay" using w by (rule walk_SucE) blast
    obtain b where b: "map_of f i = Some b" "y \<le> b" using holds_bestD [OF f e(1)] by blast
    have cd: "clamp01 u * decay > 0" using e(3) walk_pos [OF e(1)] by (simp add: zero_less_mult_iff mult.assoc)
    have le: "x \<le> b * clamp01 u * decay"
      using mult_right_mono [OF b(2), of "clamp01 u * decay"] cd unfolding e(4) by (simp add: mult.assoc)
    have m: "(j, b * clamp01 u * decay) \<in> set (map (\<lambda>(j, w). (j, b * clamp01 w * decay)) (top_neighbors k adj i))"
      using e(2) by (force simp: image_iff)
    have "(j, b * clamp01 u * decay) \<in> set (hop_contributions k adj decay f)"
      unfolding hop_contributions_def set_concat set_map set_sort
      by (rule UnionI, rule imageI, rule imageI, rule map_of_SomeD [OF b(1)]) (use m le e(3,4) in simp)
    then show ?thesis using le by blast
  qed
qed

lemma hop_contributions_pos: "\<forall>p \<in> set (hop_contributions k adj decay f). snd p > 0"
  by (auto simp: hop_contributions_def)

lemma no_longer_walk:
  assumes "\<And>j x. \<not> walk seeds adj k decay n j x"
  shows "\<not> walk seeds adj k decay (n + m) j x"
proof (induction m arbitrary: j x)
  case (Suc m)
  show ?case
  proof
    assume "walk seeds adj k decay (n + Suc m) j x"
    then have "walk seeds adj k decay (Suc (n + m)) j x" by simp
    then show False using Suc.IH by (auto elim: walk_SucE)
  qed
qed (use assms in simp)

lemma path_loop_best:
  assumes "holds_best (walk seeds adj k decay n) f"
    and "holds_best (\<lambda>j x. \<exists>m \<le> n. walk seeds adj k decay m j x) t"
  shows "holds_best (\<lambda>j x. \<exists>m \<le> n + r. walk seeds adj k decay m j x) (path_loop k adj decay r f t)"
  using assms
proof (induction r arbitrary: n f t)
  case (Suc r)
  let ?cs = "hop_contributions k adj decay f"
  let ?f = "raise_all ?cs []" and ?t = "raise_all ?cs t"
  note hop = hop_sound_complete [OF Suc.prems(1)]
  have none: "holds_best (\<lambda>j x. False) []" by (simp add: holds_best_def is_best_def)
  have f: "holds_best (walk seeds adj k decay (Suc n)) ?f"
    by (rule holds_best_cong [OF _ holds_best_raise [where W = "walk seeds adj k decay (Suc n)", OF none hop_contributions_pos]])
      (simp_all add: hop)
  have t: "holds_best (\<lambda>j x. (\<exists>m \<le> n. walk seeds adj k decay m j x) \<or> walk seeds adj k decay (Suc n) j x) ?t"
    by (rule holds_best_raise [OF Suc.prems(2) hop_contributions_pos]) (simp_all add: hop)
  have t': "holds_best (\<lambda>j x. \<exists>m \<le> Suc n. walk seeds adj k decay m j x) ?t"
    by (rule holds_best_cong [OF _ t]) (auto simp: le_Suc_eq)
  show ?case
  proof (cases "?f = []")
    case True
    have "\<not> walk seeds adj k decay (Suc n) j x" for j x
    proof
      assume "walk seeds adj k decay (Suc n) j x"
      then show False by (rule holds_bestD [OF f]) (simp add: True)
    qed
    then have stop: "\<not> walk seeds adj k decay (Suc n + m) j x" for m j x by (rule no_longer_walk)
    have "(\<exists>m \<le> n + Suc r. walk seeds adj k decay m j x) \<longleftrightarrow> (\<exists>m \<le> Suc n. walk seeds adj k decay m j x)" for j x
    proof
      assume "\<exists>m \<le> n + Suc r. walk seeds adj k decay m j x"
      then obtain m where m: "walk seeds adj k decay m j x" by blast
      then have "\<not> Suc n \<le> m" using stop by (metis le_Suc_ex)
      then show "\<exists>m \<le> Suc n. walk seeds adj k decay m j x" using m by (intro exI [of _ m]) simp
    next
      assume "\<exists>m \<le> Suc n. walk seeds adj k decay m j x"
      then obtain m where "m \<le> Suc n" "walk seeds adj k decay m j x" by blast
      then show "\<exists>m \<le> n + Suc r. walk seeds adj k decay m j x" by (intro exI [of _ m]) simp
    qed
    then show ?thesis using True t' by (simp add: path_hop_raise)
  next
    case False
    then show ?thesis using Suc.IH [OF f t'] by (simp add: path_hop_raise)
  qed
qed simp

text \<open>
  C33 Path support is the best bounded walk: for a dictionary of seeds, the path scores are the
  normalisation of a table that holds for every node the strength of the strongest walk of at most
  the given number of hops from a seed (the clamped seed score times weight and decay per hop, each
  step among the best neighbours), and no entry for a node without such a walk.
\<close>

theorem path_scores_best_walk:
  assumes "distinct (map fst seeds)" "seeds \<noteq> []" "1 \<le> hops"
  shows "\<exists>best. bounded_path_scores seeds adj hops decay k = normalize_scores best
    \<and> (\<forall>j x. map_of best j = Some x \<longleftrightarrow> is_best {x. \<exists>m \<le> hops. walk seeds adj k decay m j x} x)
    \<and> (\<forall>j x m. m \<le> hops \<longrightarrow> walk seeds adj k decay m j x \<longrightarrow> map_of best j \<noteq> None)"
proof -
  let ?f = "path_seeds seeds"
  have mem: "(j, x) \<in> set ?f \<longleftrightarrow> walk seeds adj k decay 0 j x" for j x
    by (auto simp: path_seeds_def intro: walk.start elim!: walk_0E)
  have "map fst ?f = map fst (filter (\<lambda>x. snd x > 0) (sort_key fst seeds))"
    by (simp add: path_seeds_def case_prod_beta comp_def)
  moreover have "distinct (map fst (sort_key fst seeds))"
    using assms(1) by (simp add: distinct_map)
  ultimately have d: "distinct (map fst ?f)"
    by (metis distinct_map filter_is_subset inj_on_subset distinct_filter)
  have one: "map_of ?f j = Some x \<longleftrightarrow> walk seeds adj k decay 0 j x" for j x
    using mem d by simp
  have uniq: "x = y" if "walk seeds adj k decay 0 j x" "walk seeds adj k decay 0 j y" for j x y
    using that unfolding one [symmetric] by simp
  have f: "holds_best (walk seeds adj k decay 0) ?f"
    unfolding holds_best_def is_best_def one using d one by (auto dest: uniq)
  have "holds_best (\<lambda>j x. \<exists>m \<le> 0. walk seeds adj k decay m j x) ?f" by (rule holds_best_cong [OF _ f]) simp
  then have all: "holds_best (\<lambda>j x. \<exists>m \<le> hops. walk seeds adj k decay m j x) (path_loop k adj decay hops ?f ?f)"
    using path_loop_best [OF f, of ?f hops] by simp
  show ?thesis
  proof (intro exI [of _ "path_loop k adj decay hops ?f ?f"] conjI allI impI)
    show "bounded_path_scores seeds adj hops decay k = normalize_scores (path_loop k adj decay hops ?f ?f)"
      using assms(2,3) by (simp add: bounded_path_scores_def)
    show "map_of (path_loop k adj decay hops ?f ?f) j \<noteq> None" if "m \<le> hops" "walk seeds adj k decay m j x" for j x m
      using that all unfolding holds_best_def by blast
  qed (use all in \<open>simp only: holds_best_def\<close>)
qed


section \<open>What the expansion bounds\<close>

text \<open>The nodes an expansion may have visited: the given ones and ends of supporting edges, up to the limit.\<close>

definition support_edge :: "string \<Rightarrow> string \<Rightarrow> sem_config \<Rightarrow> edge_row list \<Rightarrow> edge_row \<Rightarrow> bool" where
  "support_edge t g c edges e \<longleftrightarrow>
     e \<in> set edges \<and> in_graph t g e \<and> er_kind e \<in> set (sc_kinds c) \<and> er_kind e \<noteq> ''opposition'' \<and> er_weight e > 0"

definition reach_ok :: "(string \<Rightarrow> bool) \<Rightarrow> string set \<Rightarrow> nat \<Rightarrow> string set \<Rightarrow> bool" where
  "reach_ok ends V limit visited \<longleftrightarrow>
     finite visited \<and> card visited \<le> max (card V) limit \<and> (\<forall>i \<in> visited. i \<in> V \<or> ends i)"

lemma visit_side_reach:
  assumes "reach_ok ends V (sh_limit h) (sm_visited s)" "ends nb"
  shows "reach_ok ends V (sh_limit h) (sm_visited (visit_side h kind w cur nb s))"
proof (cases "nb \<in> sm_visited s")
  case True
  then show ?thesis using assms(1) by (simp add: visit_side_def Let_def)
next
  case False
  have "reach_ok ends V (sh_limit h) (insert nb (sm_visited s))" if "\<not> sh_limit h \<le> card (sm_visited s)"
    using assms that False by (auto simp: reach_ok_def)
  then show ?thesis using False assms(1) by (simp add: visit_side_def Let_def)
qed

lemma visited_note_opposition [simp]: "sm_visited (note_opposition a b w s) = sm_visited s"
  by (simp add: note_opposition_def Let_def)

definition edge_end :: "string \<Rightarrow> string \<Rightarrow> sem_config \<Rightarrow> edge_row list \<Rightarrow> string \<Rightarrow> bool" where
  "edge_end t g c edges i \<longleftrightarrow> (\<exists>e. support_edge t g c edges e \<and> (i = er_src e \<or> i = er_dst e))"

lemma edge_weight_pos: "\<not> edge_weight e \<le> 0 \<longleftrightarrow> er_weight e > 0"
  using clamp01_pos [of "from_scaled (er_weight e)"] by (simp add: edge_weight_def from_scaled_def not_le zero_less_divide_iff)

lemma sem_edges_reach:
  assumes "\<forall>e \<in> set es. e \<in> set edges \<and> in_graph t g e \<and> er_kind e \<in> insert ''opposition'' (set (sc_kinds c))"
    and "reach_ok (edge_end t g c edges) V (sh_limit h) (sm_visited s)"
  shows "reach_ok (edge_end t g c edges) V (sh_limit h) (sm_visited (fold (sem_edge h) es s))"
  using assms
proof (induction es arbitrary: s)
  case (Cons e es)
  have "reach_ok (edge_end t g c edges) V (sh_limit h) (sm_visited (sem_edge h e s))"
  proof (cases "edge_weight e \<le> 0 \<or> er_kind e = ''opposition''")
    case True
    then show ?thesis using Cons.prems(2) by (auto simp: sem_edge_def Let_def)
  next
    case False
    then have "support_edge t g c edges e" using Cons.prems(1) by (simp add: support_edge_def edge_weight_pos [symmetric])
    then have "edge_end t g c edges (er_src e)" "edge_end t g c edges (er_dst e)" by (auto simp: edge_end_def)
    then show ?thesis using False Cons.prems(2) by (simp add: sem_edge_def Let_def visit_side_reach)
  qed
  then show ?case using Cons.IH Cons.prems(1) by simp
qed simp

lemma sem_step_reach:
  assumes "sem_step t g c nodes edges mf limit hop fr sc s = Some (fr', sc', s')"
    and "reach_ok (edge_end t g c edges) V limit (sm_visited s)"
  shows "reach_ok (edge_end t g c edges) V limit (sm_visited s')"
proof -
  let ?es = "incident_edges t g c fr edges"
  have es: "\<forall>e \<in> set ?es. e \<in> set edges \<and> in_graph t g e \<and> er_kind e \<in> insert ''opposition'' (set (sc_kinds c))"
    by (auto simp: incident_edges_def list_graph_neighbors_def query_rows_def split: if_splits dest!: in_set_takeD)
  let ?h = "\<lparr>sh_frontier = fr, sh_scores = sc, sh_hop = hop, sh_decay = sc_decay c, sh_limit = limit\<rparr>"
  obtain x where s': "s' = fold (sem_edge ?h) ?es (s\<lparr>sm_times := x, sm_next := {}, sm_next_scores := []\<rparr>)"
    using assms(1) unfolding sem_step_def Let_def by (simp only: option.inject option.distinct prod.inject split: if_splits) blast
  show ?thesis
    using sem_edges_reach [OF es, of V ?h "s\<lparr>sm_times := x, sm_next := {}, sm_next_scores := []\<rparr>"] assms(2)
    by (simp add: s')
qed

lemma sem_hops_reach:
  assumes "reach_ok (edge_end t g c edges) V limit (sm_visited s)"
  shows "reach_ok (edge_end t g c edges) V limit
    (sm_visited (sem_hops (sem_step t g c nodes edges mf limit) n hop fr sc s))"
  using assms
proof (induction n arbitrary: hop fr sc s)
  case (Suc n)
  show ?case
  proof (cases "sem_step t g c nodes edges mf limit hop fr sc s")
    case (Some r)
    obtain fr' sc' s' where r: "r = (fr', sc', s')" by (cases r)
    show ?thesis using Suc.IH [OF sem_step_reach [OF Some [unfolded r] Suc.prems]] Suc.prems by (simp add: Some r)
  qed (use Suc.prems in simp)
qed simp

lemma round6_bounds: "0 \<le> x \<Longrightarrow> x \<le> 1 \<Longrightarrow> 0 \<le> round6 x \<and> round6 x \<le> 1"
  using round_even_mono [of 0 "x * 10 ^ 6"] round_even_mono [of "x * 10 ^ 6" "of_int (10 ^ 6)"]
    round_even_of_int [of 0] round_even_of_int [of "10 ^ 6"] by (simp add: round6_def)

text \<open>
  Expansion stays in the graph and within its limit: every node returned was given as a candidate
  or seed or is an end of a supporting edge of the same tenant and graph with positive weight; there
  are no more of them than the limit (or than were given); they are listed once, in order, and every
  total lies between zero and one.
\<close>

theorem expansion_bounded:
  assumes "seeds \<noteq> []" "build_graph_semantic_scores t g c seeds cands nodes edges = (ids, scored, paths)"
  shows "sorted ids \<and> distinct ids \<and> map fst scored = ids \<and> (\<forall>(i, s) \<in> set scored. 0 \<le> ss_total s \<and> ss_total s \<le> 1)
    \<and> (\<forall>i \<in> set ids. i \<in> set cands \<or> i \<in> fst ` set seeds \<or> edge_end t g c edges i)
    \<and> length ids \<le> max (card (set cands \<union> fst ` set seeds)) (or_positive (sc_max_total c)
        (max (card (set cands \<union> fst ` set seeds) + 64)
          (or_positive (sc_max_frontier c) (max 32 (sc_max_neighbors c * 8)) * max (sc_max_hops c) 1 * 4)))"
proof -
  let ?V = "set cands \<union> fst ` set seeds"
  let ?mf = "or_positive (sc_max_frontier c) (max 32 (sc_max_neighbors c * 8))"
  let ?limit = "or_positive (sc_max_total c) (max (card ?V + 64) (?mf * max (sc_max_hops c) 1 * 4))"
  define s where "s = sem_hops (sem_step t g c nodes edges ?mf ?limit) (sc_max_hops c) 1 (map fst seeds) seeds
    \<lparr>sm_visited = ?V, sm_suppressed = {}, sm_adj = [], sm_contra = [], sm_paths = [], sm_times = Map.empty,
     sm_next = {}, sm_next_scores = []\<rparr>"
  have r: "reach_ok (edge_end t g c edges) ?V ?limit (sm_visited s)"
    unfolding s_def by (rule sem_hops_reach) (simp add: reach_ok_def)
  have ids: "ids = sorted_list_of_set (sm_visited s - sm_suppressed s)"
    using assms by (simp add: build_graph_semantic_scores_def Let_def s_def)
  have fin: "finite (sm_visited s)" using r by (simp add: reach_ok_def)
  define sc where "sc = (\<lambda>p d n x i. \<lparr>ss_total = round6 (clamp01 (45 / 100 * score_at p i + 35 / 100 * score_at d i
      + 20 / 100 * score_at n i - 35 / 100 * score_at x i)),
    ss_path = round6 (score_at p i), ss_diffusion = round6 (score_at d i),
    ss_neighborhood = round6 (score_at n i), ss_contradiction = round6 (score_at x i)\<rparr>)"
  obtain p d n x where sc: "scored = map (\<lambda>i. (i, sc p d n x i)) ids"
    using assms unfolding build_graph_semantic_scores_def Let_def sc_def by (simp only: if_False prod.inject) blast
  have total: "0 \<le> ss_total (sc p d n x i) \<and> ss_total (sc p d n x i) \<le> 1" for i
    unfolding sc_def by (simp add: round6_bounds)
  have sub: "set ids \<subseteq> sm_visited s" using fin by (auto simp: ids)
  show ?thesis
  proof (intro conjI)
    show "sorted ids" "distinct ids" by (simp_all add: ids)
    show "map fst scored = ids" by (simp add: sc comp_def)
    show "\<forall>(i, s) \<in> set scored. 0 \<le> ss_total s \<and> ss_total s \<le> 1" using total by (auto simp: sc)
    show "\<forall>i \<in> set ids. i \<in> set cands \<or> i \<in> fst ` set seeds \<or> edge_end t g c edges i"
      using sub r unfolding reach_ok_def by blast
    have "length ids \<le> card (sm_visited s)" using fin by (simp add: ids card_mono)
    then show "length ids \<le> max (card ?V) ?limit" using r unfolding reach_ok_def by linarith
  qed
qed


section \<open>Examples\<close>

lemma path_scores_best_walk_witness:
  "\<exists>best. bounded_path_scores [(''a'', 1)] [(''a'', [(''b'', 1 / 2)])] 1 (1 / 2) 8 = normalize_scores best
    \<and> map_of best ''b'' \<noteq> None"
proof -
  let ?s = "[(''a'', 1)] :: scores" and ?adj = "[(''a'', [(''b'', 1 / 2)])] :: adjacency"
  have "walk ?s ?adj 8 (1 / 2) 0 ''a'' (clamp01 1)" by (rule walk.start) simp_all
  then have w: "walk ?s ?adj 8 (1 / 2) (Suc 0) ''b'' (clamp01 1 * clamp01 (1 / 2) * (1 / 2))"
    by (rule walk.step) (simp_all add: top_neighbors_def clamp01_def)
  obtain best where "bounded_path_scores ?s ?adj 1 (1 / 2) 8 = normalize_scores best"
    "\<forall>j x m. m \<le> 1 \<longrightarrow> walk ?s ?adj 8 (1 / 2) m j x \<longrightarrow> map_of best j \<noteq> None"
    using path_scores_best_walk [of ?s 1 ?adj "1 / 2" 8] by auto
  then show ?thesis using w by (intro exI [of _ best]) auto
qed

definition ex_config :: sem_config where
  "ex_config = \<lparr>sc_kinds = [''related''], sc_max_hops = 2, sc_max_neighbors = 8, sc_decay = 3 / 5, sc_alpha = 1 / 5,
     sc_steps = 3, sc_max_frontier = None, sc_max_total = None\<rparr>"

lemma expansion_bounded_witness:
  "\<exists>ids scored paths. build_graph_semantic_scores ''t'' ''g'' ex_config [(''a'', 1)] [''b''] [] [] = (ids, scored, paths)
    \<and> sorted ids \<and> set ids \<subseteq> {''a'', ''b''} \<and> length ids \<le> 256 * 2"
proof -
  obtain ids scored paths where r: "build_graph_semantic_scores ''t'' ''g'' ex_config [(''a'', 1)] [''b''] [] [] = (ids, scored, paths)"
    by (rule prod_cases3)
  note x = expansion_bounded [OF _ r]
  have "\<not> edge_end ''t'' ''g'' ex_config [] i" for i by (simp add: edge_end_def support_edge_def)
  moreover have "length ids \<le> 512" using x by (simp add: ex_config_def or_positive_def)
  ultimately show ?thesis using x r by (intro exI conjI) auto
qed

end
