(* ===== verification/FM_Recall.thy ===== *)
theory FM_Recall
  imports FM_Clusters FM_Merge FM_Diffusion
begin

text \<open>
  Scoring and candidate recall of the query engine, \<open>core/query/query_engine.py\<close>: the weighted
  node score, brute-force and index recall, recall with graph expansion, and the expansion of the
  query vector by the parents of the first hits.

  Floats are real numbers and times are seconds. A scan without an order returns rows in table
  order. The index client and \<open>float\<close> of a stored value are parameters. An exception is its type name.

  The lemmas show what recall returns, that the score ignores the stored opposition signature, and
  that an expanded query vector has unit length.
\<close>

section \<open>Weights and scores\<close>

record scoring_weights =
  w_sim :: real
  w_novel :: real
  w_opp :: real
  w_red :: real
  w_rec :: real
  w_use :: real
  w_lvl :: real

definition DEFAULT_WEIGHTS :: scoring_weights where
  "DEFAULT_WEIGHTS = \<lparr>w_sim = 40 / 100, w_novel = 15 / 100, w_opp = 10 / 100, w_red = 10 / 100,
     w_rec = 10 / 100, w_use = 10 / 100, w_lvl = 5 / 100\<rparr>"

definition STRICT_WEIGHTS :: scoring_weights where
  "STRICT_WEIGHTS = \<lparr>w_sim = 50 / 100, w_novel = 20 / 100, w_opp = 10 / 100, w_red = 5 / 100,
     w_rec = 5 / 100, w_use = 5 / 100, w_lvl = 5 / 100\<rparr>"

definition FUSION_LAYER_WEIGHTS :: "(string \<times> real) list" where
  "FUSION_LAYER_WEIGHTS = [(''lexical_fusion'', 15 / 100), (''graph_semantics'', 12 / 100), (''modality'', 8 / 100),
     (''domain_memory'', 10 / 100), (''reranker_v2'', 18 / 100), (''late_interaction'', 11 / 100)]"

definition query_cosine :: "vec \<Rightarrow> vec \<Rightarrow> string + real" where
  "query_cosine a b =
     (if length a \<noteq> length b then Inl ''ValueError''
      else if vnorm a < 1 / 10 ^ 10 \<or> vnorm b < 1 / 10 ^ 10 then Inr 0
      else Inr (vdot a b / (vnorm a * vnorm b)))"

definition clamp :: "real \<Rightarrow> real \<Rightarrow> real \<Rightarrow> real" where
  "clamp x lo hi = max lo (min hi x)"

definition opposition_penalty :: "(string \<times> real) list option \<Rightarrow> (string \<times> real) list option \<Rightarrow> real" where
  "opposition_penalty q n =
     (case (q, n) of
        (Some (x # xs), Some (y # ys)) \<Rightarrow>
          clamp (sum_list (map (\<lambda>(k, v). case map_of (y # ys) k of None \<Rightarrow> 0 | Some u \<Rightarrow> \<bar>v * u\<bar>) (x # xs))) 0 1
      | _ \<Rightarrow> 0)"

definition redundancy_penalty :: "int \<Rightarrow> real \<Rightarrow> real" where
  "redundancy_penalty touch avg = (if avg \<le> 0 then 0 else clamp ((of_int touch / avg - 1) / 10) 0 1)"

definition recency_boost :: "int option \<Rightarrow> int \<Rightarrow> real" where
  "recency_boost last_access now =
     (case last_access of None \<Rightarrow> 0 | Some a \<Rightarrow> max 0 (1 - of_int (now - a) / (7 * 24 * 3600)))"

definition level_penalty :: "int \<Rightarrow> real" where
  "level_penalty level = clamp (of_int level * (1 / 10)) 0 1"

type_synonym components = "(string \<times> real) list"

definition compute_node_score :: "int \<Rightarrow> vec \<Rightarrow> vec \<Rightarrow> real \<Rightarrow> (string \<times> real) list option \<Rightarrow> int \<Rightarrow> int option \<Rightarrow> int \<Rightarrow> real \<Rightarrow>
    (string \<times> real) list option \<Rightarrow> scoring_weights \<Rightarrow> string + real \<times> components" where
  "compute_node_score now q v residual n_opp touch last_access level avg q_opp w =
     (case query_cosine q v of
        Inl e \<Rightarrow> Inl e
      | Inr sim \<Rightarrow>
          if touch \<le> -1 then Inl ''ValueError''
          else
            let novel = clamp residual 0 1; opp = opposition_penalty q_opp n_opp; red = redundancy_penalty touch avg;
                rec = recency_boost last_access now; use = ln (1 + of_int touch) / 10; lvl = level_penalty level;
                score = w_sim w * sim + w_novel w * novel - w_opp w * opp - w_red w * red + w_rec w * rec
                  + w_use w * use - w_lvl w * lvl
            in Inr (round6 score, [(''sim'', round6 sim), (''novel'', round6 novel), (''opp'', round6 opp),
                 (''red'', round6 red), (''rec'', round6 rec), (''use'', round6 use), (''lvl'', round6 lvl)]))"

section \<open>Recall\<close>

text \<open>All rows with their similarity, best first, ties by id.\<close>

definition scored_rows :: "vec \<Rightarrow> node_row list \<Rightarrow> string + (string \<times> real) list" where
  "scored_rows q rows =
     map_sum id (sort_key score_order) (try_map (\<lambda>n. map_sum id (Pair (nd_id n)) (query_cosine q (nd_vector n))) rows)"

definition scoped_rows :: "nat \<Rightarrow> nat list option \<Rightarrow> node_row list \<Rightarrow> node_row list option" where
  "scoped_rows n clusters base =
     (case clusters of
        Some (c # cs) \<Rightarrow>
          (let s = take (n * 10) (filter (\<lambda>x. nd_cluster x \<in> Some ` int ` set (c # cs)) base) in
           if length s \<ge> max 10 (n div 2) then Some s else None)
      | _ \<Rightarrow> None)"

definition recall_candidates_brute_force :: "string \<Rightarrow> string \<Rightarrow> vec \<Rightarrow> nat \<Rightarrow> int option \<Rightarrow> nat list option \<Rightarrow>
    node_row list \<Rightarrow> string + (string \<times> real) list" where
  "recall_candidates_brute_force t g q n level clusters rows =
     (let base = filter (\<lambda>x. node_in t g x \<and> (case level of None \<Rightarrow> True | Some l \<Rightarrow> nd_level x \<le> l)) rows
      in map_sum id (take n)
           (scored_rows q (case scoped_rows n clusters base of Some s \<Rightarrow> s | None \<Rightarrow> take (n * 10) base)))"

definition linked :: "string \<Rightarrow> string \<Rightarrow> (string \<Rightarrow> bool) \<Rightarrow> edge_row list \<Rightarrow> edge_row list" where
  "linked t g kinds edges = filter (\<lambda>e. in_graph t g e \<and> kinds (er_kind e)) edges"

definition semantic_weight_of :: "edge_row \<Rightarrow> real" where
  "semantic_weight_of e = (if er_weight e \<noteq> 0 then from_scaled (er_weight e) else 1)"

definition semantic_step :: "string list \<Rightarrow> edge_row \<Rightarrow> string set \<times> (string \<times> real) list \<Rightarrow> string set \<times> (string \<times> real) list" where
  "semantic_step seeds e st =
     (let (ids, m) = st;
          (ids1, m1) = (if er_src e \<in> set seeds then (insert (er_dst e) ids, raise_score (er_dst e) (semantic_weight_of e) m) else (ids, m))
      in if er_dst e \<in> set seeds then (insert (er_src e) ids1, raise_score (er_src e) (semantic_weight_of e) m1) else (ids1, m1))"

record expansion_args =
  xa_hop_limit :: nat
  xa_max_hops :: int
  xa_max_neighbors :: "nat option"
  xa_decay :: real
  xa_alpha :: real
  xa_steps :: int

definition expansion_config :: "expansion_args \<Rightarrow> sem_config" where
  "expansion_config a =
     \<lparr>sc_kinds = ''inheritance'' # KNOWN_SEMANTIC_KINDS @ [''opposition''], sc_max_hops = nat (max 1 (xa_max_hops a)),
      sc_max_neighbors = max 2 (or_positive (xa_max_neighbors a) (xa_hop_limit a)), sc_decay = xa_decay a,
      sc_alpha = xa_alpha a, sc_steps = max 1 (xa_steps a), sc_max_frontier = None, sc_max_total = None\<rparr>"

definition recall_with_graph_expansion :: "string \<Rightarrow> string \<Rightarrow> vec \<Rightarrow> nat \<Rightarrow> nat \<Rightarrow> expansion_args \<Rightarrow> cluster_row list \<Rightarrow>
    node_row list \<Rightarrow> edge_row list \<Rightarrow> string + (string \<times> real) list" where
  "recall_with_graph_expansion t g q n seed_k a clusters rows edges =
     (case recall_candidates_brute_force t g q seed_k None (cluster_scope t g q clusters) rows of
        Inl e \<Rightarrow> Inl e
      | Inr [] \<Rightarrow> Inr []
      | Inr seeds \<Rightarrow>
          (let sids = map fst seeds; limit = seed_k * xa_hop_limit a;
               parents = take limit (filter (\<lambda>e. er_dst e \<in> set sids) (linked t g (\<lambda>k. k = ''inheritance'') edges));
               children = take limit (filter (\<lambda>e. er_src e \<in> set sids) (linked t g (\<lambda>k. k = ''inheritance'') edges));
               semantic = take limit (filter (\<lambda>e. er_src e \<in> set sids \<or> er_dst e \<in> set sids)
                 (linked t g (\<lambda>k. k \<in> set KNOWN_SEMANTIC_KINDS) edges));
               (ids, boost) = fold (semantic_step sids) semantic
                 (set sids \<union> er_src ` set parents \<union> er_dst ` set children, []);
               (ids', scored, _) = build_graph_semantic_scores t g (expansion_config a)
                 (map (\<lambda>(i, s). (i, max 0 s)) seeds) (sorted_list_of_set ids) rows edges;
               total = (\<lambda>i. case map_of scored i of None \<Rightarrow> 0 | Some s \<Rightarrow> ss_total s)
           in case try_map (\<lambda>x. map_sum id (\<lambda>s. (nd_id x, min 1 (s + 5 / 100 * score_at boost (nd_id x) + 8 / 100 * total (nd_id x))))
                  (query_cosine q (nd_vector x)))
                (filter (\<lambda>x. node_in t g x \<and> nd_id x \<in> set ids') rows) of
                Inl e \<Rightarrow> Inl e
              | Inr cs \<Rightarrow> Inr (take n (sort_key score_order cs))))"

text \<open>
  Index recall: the preferred contract returns pairs, the legacy one items that may lack their
  fields; entries that are not an id and a number are left out. None is an index that raises.
\<close>

datatype vector_index = TopK "vec \<Rightarrow> nat \<Rightarrow> (string \<times> real option) list option"
  | Search "vec \<Rightarrow> nat \<Rightarrow> (string option \<times> real option) list option" | NoIndex

definition index_entry :: "string option \<times> real option \<Rightarrow> (string \<times> real) list" where
  "index_entry x = (case x of (Some i, Some s) \<Rightarrow> (case uuid_of i of Some u \<Rightarrow> [(u, s)] | None \<Rightarrow> []) | _ \<Rightarrow> [])"

definition recall_candidates_index :: "vector_index \<Rightarrow> vec \<Rightarrow> nat \<Rightarrow> (string \<times> real) list" where
  "recall_candidates_index ix q n =
     (case (case ix of TopK f \<Rightarrow> map_option (map (\<lambda>(i, s). (Some i, s))) (f q n) | Search f \<Rightarrow> f q n | NoIndex \<Rightarrow> None) of
        None \<Rightarrow> []
      | Some raw \<Rightarrow> take n (sort_key score_order (concat (map index_entry raw))))"

section \<open>Expansion of the query vector\<close>

text \<open>\<open>expanded[i] += c * v[i]\<close> over the dimensions of the query: an index error for a shorter vector.\<close>

definition blend :: "real \<Rightarrow> vec \<Rightarrow> vec \<Rightarrow> string + vec" where
  "blend c v acc = (if length v < length acc then Inl ''IndexError'' else Inr (map2 (\<lambda>a x. a + c * x) acc v))"

fun blend_all :: "(real \<times> vec) list \<Rightarrow> vec \<Rightarrow> string + vec" where
  "blend_all [] acc = Inr acc"
| "blend_all ((c, v) # xs) acc = (case blend c v acc of Inl e \<Rightarrow> Inl e | Inr acc' \<Rightarrow> blend_all xs acc')"

definition get_semantic_weight_from_meta :: "(json_val \<Rightarrow> real) \<Rightarrow> json_dict option \<Rightarrow> real" where
  "get_semantic_weight_from_meta num meta =
     (case meta of None \<Rightarrow> 1 | Some m \<Rightarrow> (case map_of m ''semantic_weight'' of None \<Rightarrow> 1 | Some v \<Rightarrow> num v))"

definition seed_groups :: "edge_row list \<Rightarrow> (string \<times> edge_row list) list" where
  "seed_groups es = fold (\<lambda>e m. al_put (er_dst e) ((case map_of m (er_dst e) of None \<Rightarrow> [] | Some xs \<Rightarrow> xs) @ [e]) m) es []"

definition top_parents :: "nat \<Rightarrow> edge_row list \<Rightarrow> edge_row list" where
  "top_parents k es = take k (sort_key (\<lambda>e. - er_weight e) es)"

definition neighbor_of :: "string list \<Rightarrow> edge_row \<Rightarrow> string option" where
  "neighbor_of seeds e =
     (if er_src e \<in> set seeds then Some (er_dst e) else if er_dst e \<in> set seeds then Some (er_src e) else None)"

definition inheritance_weighted_expansion :: "(json_val \<Rightarrow> real) \<Rightarrow> string \<Rightarrow> string \<Rightarrow> vec \<Rightarrow> string list \<Rightarrow> real \<Rightarrow> nat \<Rightarrow>
    node_row list \<Rightarrow> edge_row list \<Rightarrow> string + vec" where
  "inheritance_weighted_expansion num t g q seeds alpha max_parents rows edges =
     (if seeds = [] then Inr q
      else
        let parents = filter (\<lambda>e. er_dst e \<in> set seeds) (linked t g (\<lambda>k. k = ''inheritance'') edges);
            semantic = take (length seeds * 5) (filter (\<lambda>e. er_src e \<in> set seeds \<or> er_dst e \<in> set seeds)
              (linked t g (\<lambda>k. k \<in> set KNOWN_SEMANTIC_KINDS) edges));
            tops = concat (map (top_parents max_parents \<circ> snd) (seed_groups parents));
            neighbors = concat (map (\<lambda>e. case neighbor_of seeds e of None \<Rightarrow> [] | Some i \<Rightarrow> [(e, i)]) semantic);
            load = er_src ` set tops \<union> snd ` set neighbors;
            vec_of = (\<lambda>i. map_option nd_vector (find (\<lambda>n. nd_id n = i) (rev (filter (\<lambda>n. node_in t g n \<and> nd_id n \<in> load) rows))))
        in if (parents = [] \<and> semantic = []) \<or> load = {} then Inr q
           else case blend_all
               (concat (map (\<lambda>e. case vec_of (er_src e) of Some (x # xs) \<Rightarrow>
                    [(alpha * from_scaled (er_weight e) * get_semantic_weight_from_meta num (er_meta e), x # xs)] | _ \<Rightarrow> []) tops)
                @ concat (map (\<lambda>(e, i). case vec_of i of Some v \<Rightarrow> [(alpha * (1 / 2) * semantic_weight_of e, v)] | None \<Rightarrow> []) neighbors))
               q of
             Inl e \<Rightarrow> Inl e
           | Inr v \<Rightarrow> (let norm = (if vnorm v = 0 then 1 else vnorm v) in Inr (map (\<lambda>x. x / norm) v)))"

definition compute_text_query_hash :: "(string \<Rightarrow> string) \<Rightarrow> string \<Rightarrow> string \<Rightarrow> string" where
  "compute_text_query_hash sha query graph =
     sha (json_dumps True '', '' '': '' (JsDict [(''q'', JsStr query), (''g'', JsStr graph)]))"

section \<open>What recall returns\<close>

lemma try_map_Inr: "try_map f xs = Inr ys \<longleftrightarrow> list_all2 (\<lambda>x y. f x = Inr y) xs ys"
proof (induction xs arbitrary: ys)
  case (Cons x xs)
  show ?case by (cases "f x"; cases "try_map f xs"; cases ys) (simp_all flip: Cons.IH)
qed auto

lemma try_map_Inl: "(\<exists>e. try_map f xs = Inl e) \<longleftrightarrow> (\<exists>x \<in> set xs. \<exists>e. f x = Inl e)"
  by (induction xs) (auto split: sum.splits)

lemma query_cosine_Inl: "(\<exists>e. query_cosine q v = Inl e) \<longleftrightarrow> length q \<noteq> length v"
  by (simp add: query_cosine_def)

lemma scored_rows_Inl: "(\<exists>e. scored_rows q rows = Inl e) \<longleftrightarrow> (\<exists>n \<in> set rows. length (nd_vector n) \<noteq> length q)"
proof -
  have ms: "(\<exists>e. map_sum id h r = Inl e) \<longleftrightarrow> (\<exists>e. r = Inl e)" for h :: "real \<Rightarrow> string \<times> real" and r :: "string + real"
    by (cases r) auto
  have "(\<exists>e. scored_rows q rows = Inl e)
      \<longleftrightarrow> (\<exists>e. try_map (\<lambda>n. map_sum id (Pair (nd_id n)) (query_cosine q (nd_vector n))) rows = Inl e)"
    by (auto simp: scored_rows_def map_sum_def split: sum.splits)
  also have "\<dots> \<longleftrightarrow> (\<exists>n \<in> set rows. \<exists>e. query_cosine q (nd_vector n) = Inl e)"
    unfolding try_map_Inl ms ..
  finally show ?thesis unfolding query_cosine_Inl by (metis (no_types))
qed

lemma scored_rows_Inr:
  assumes "scored_rows q rows = Inr cs"
  shows "cs = sort_key score_order cs" "mset (map fst cs) = mset (map nd_id rows)"
    "\<And>i x. (i, x) \<in> set cs \<Longrightarrow> \<exists>n \<in> set rows. nd_id n = i \<and> query_cosine q (nd_vector n) = Inr x"
    "\<And>n. n \<in> set rows \<Longrightarrow> \<exists>x. query_cosine q (nd_vector n) = Inr x \<and> (nd_id n, x) \<in> set cs"
proof -
  obtain ps where ps: "list_all2 (\<lambda>n y. map_sum id (Pair (nd_id n)) (query_cosine q (nd_vector n)) = Inr y) rows ps"
    and cs: "cs = sort_key score_order ps"
    using assms by (auto simp: scored_rows_def map_sum_def try_map_Inr split: sum.splits)
  have l: "list_all2 (\<lambda>n y. fst y = nd_id n \<and> query_cosine q (nd_vector n) = Inr (snd y)) rows ps"
    using ps by (rule list_all2_mono) (auto simp: map_sum_def split: sum.splits)
  show "cs = sort_key score_order cs" by (simp add: cs sort_key_id_if_sorted)
  have "map fst ps = map nd_id rows" using l by (induction rule: list_all2_induct) auto
  then show "mset (map fst cs) = mset (map nd_id rows)" by (metis cs mset_map mset_sort)
  show "\<exists>n \<in> set rows. nd_id n = i \<and> query_cosine q (nd_vector n) = Inr x" if "(i, x) \<in> set cs" for i x
    using list_all2_mem2 [OF l, of "(i, x)"] that by (auto simp: cs)
  show "\<exists>x. query_cosine q (nd_vector n) = Inr x \<and> (nd_id n, x) \<in> set cs" if "n \<in> set rows" for n
    using list_all2_mem1 [OF l that] by (auto simp: cs)
qed


lemma recall_Inl:
  "(\<exists>e. recall_candidates_brute_force t g q n None None rows = Inl e) \<longleftrightarrow>
     (\<exists>x \<in> set (take (10 * n) (filter (node_in t g) rows)). length (nd_vector x) \<noteq> length q)"
  using scored_rows_Inl [of q "take (n * 10) (filter (node_in t g) rows)"]
  by (auto simp: recall_candidates_brute_force_def scoped_rows_def map_sum_def mult.commute split: sum.splits)

text \<open>
  C27 One vector of another dimension breaks recall: an unscoped recall fails exactly when one of the
  nodes it scans (the first ten times n of the graph in table order) has a vector whose length
  differs from the query's, however dissimilar the node is.
\<close>

theorem recall_fails_iff:
  "(\<exists>e. recall_candidates_brute_force t g q n None None rows = Inl e) \<longleftrightarrow>
     (\<exists>x \<in> set (take (10 * n) (filter (node_in t g) rows)). length (nd_vector x) \<noteq> length q)"
  by (rule recall_Inl)

section \<open>The expanded query\<close>

lemma vnorm_scale: "0 \<le> c \<Longrightarrow> vnorm (map (\<lambda>x. x / c) v) = vnorm v / c"
proof -
  assume "0 \<le> c"
  have "sum_list (map (\<lambda>x. x * x) (map (\<lambda>x. x / c) v)) = sum_list (map (\<lambda>x. x * x) v) / (c * c)"
    by (induction v) (simp_all add: add_divide_distrib)
  then show ?thesis using \<open>0 \<le> c\<close> by (simp add: vnorm_def real_sqrt_divide real_sqrt_mult)
qed

lemma vnorm_nonneg: "0 \<le> vnorm v"
  unfolding vnorm_def by (intro real_sqrt_ge_zero sum_list_nonneg) auto

lemma blend_all_length: "blend_all xs acc = Inr r \<Longrightarrow> length r = length acc"
  by (induction xs acc rule: blend_all.induct) (auto simp: blend_def split: if_splits sum.splits)

lemma expansion_cases:
  assumes "inheritance_weighted_expansion num t g q seeds alpha k rows edges = Inr v"
  shows "v = q \<or> (\<exists>xs u. blend_all xs q = Inr u \<and> v = map (\<lambda>x. x / (if vnorm u = 0 then 1 else vnorm u)) u)"
  using assms unfolding inheritance_weighted_expansion_def Let_def by (auto split: if_splits sum.splits)

lemma expansion_length:
  "inheritance_weighted_expansion num t g q seeds alpha k rows edges = Inr v \<Longrightarrow> length v = length q"
  using expansion_cases blend_all_length by fastforce

text \<open>
  An expanded query vector keeps its dimension and is the query itself, or has length one, or is
  the zero vector: blending never leaves an unnormalised vector.
\<close>

theorem expansion_normalised:
  assumes "inheritance_weighted_expansion num t g q seeds alpha k rows edges = Inr v"
  shows "length v = length q \<and> (v = q \<or> vnorm v = 1 \<or> vnorm v = 0)"
proof -
  from expansion_cases [OF assms] show ?thesis
  proof (elim disjE exE conjE)
    fix xs u assume u: "blend_all xs q = Inr u" and v: "v = map (\<lambda>x. x / (if vnorm u = 0 then 1 else vnorm u)) u"
    have "vnorm v = (if vnorm u = 0 then 0 else 1)"
      using vnorm_scale [of "if vnorm u = 0 then 1 else vnorm u" u] vnorm_nonneg [of u] by (simp add: v)
    then show ?thesis using blend_all_length [OF u] by (auto simp: v)
  qed simp
qed

section \<open>The opposition signature is not used\<close>

lemma score_ignores_opposition:
  "compute_node_score now q v r n_opp touch la level avg None w = compute_node_score now q v r None touch la level avg None w"
proof -
  have "opposition_penalty None x = 0" for x by (simp add: opposition_penalty_def)
  then show ?thesis by (simp only: compute_node_score_def)
qed

section \<open>Examples\<close>

lemma ex_topic_fields [simp]:
  "nd_id (ex_topic i v) = i" "nd_vector (ex_topic i v) = v" "node_in t g (ex_topic i v) \<longleftrightarrow> t = ''t'' \<and> g = ''g''"
  by (auto simp: ex_topic_def node_in_def)


lemma recall_fails_iff_witness:
  "\<exists>e. recall_candidates_brute_force ''t'' ''g'' [1, 0] 1 None None [ex_topic ''a'' [1, 0], ex_topic ''b'' [0, 1, 0]] = Inl e"
  using recall_fails_iff [of "''t''" "''g''" "[1, 0]" 1 "[ex_topic ''a'' [1, 0], ex_topic ''b'' [0, 1, 0]]"] by simp

lemma expansion_normalised_witness:
  "\<exists>v. inheritance_weighted_expansion (\<lambda>_. 1) ''t'' ''g'' [1, 0] [''a''] (1 / 5) 3 [] [] = Inr v \<and> length v = 2"
proof -
  have r: "inheritance_weighted_expansion (\<lambda>_. 1) ''t'' ''g'' [1, 0] [''a''] (1 / 5) 3 [] [] = Inr [1, 0]"
    by (simp add: inheritance_weighted_expansion_def linked_def)
  show ?thesis using expansion_normalised [OF r] r by auto
qed

end
