(* ===== verification/FM_Representation.thy ===== *)
theory FM_Representation
  imports FM_Diffusion
begin

text \<open>
  The lexical sidecar of a node: \<open>encoding/representation_v2.py\<close> (how a representation is built from
  text), \<open>store/pg/repos/representation_repo.py\<close> (its rows and the statistics of a graph) and
  \<open>core/query/lexical_scorer.py\<close> (the score of a document for a query).

  Text normalisation, the regular expressions for entities and times, the semantic signature and the
  two digests are parameters; the expression for words is the scanner \<open>word_tokens\<close>. Counts are
  dictionaries in insertion order, real numbers stand for floats, rounding is \<open>round6\<close>.

  The lemmas show that the stored channel lengths agree with the counts, that the incremental
  statistics are those of a rebuild, and that scores stay between zero and one.
\<close>

section \<open>Representations\<close>

type_synonym counts = "(string \<times> int) list"

record representation =
  rp_hash :: string
  rp_text :: string
  rp_word :: counts
  rp_phrase :: counts
  rp_skip :: counts
  rp_entity :: "string list"
  rp_time :: "string list"
  rp_layout :: "string list"
  rp_lengths :: counts
  rp_semantic :: "counts option"
  rp_concept :: "counts option"
  rp_morphology :: "counts option"
  rp_alias :: "string list"
  rp_translit :: "string list"
  rp_stem :: "string list"
  rp_relation :: "string list"
  rp_value :: "string list"
  rp_temporal :: "string list"

record signature =
  sg_phrases :: counts
  sg_concepts :: counts
  sg_morphology :: counts
  sg_alias :: "string list"
  sg_translit :: "string list"
  sg_stem :: "string list"
  sg_relation :: "string list"
  sg_value :: "string list"
  sg_temporal :: "string list"

record block_anchor =
  an_doc_type :: string
  an_page :: "int option"
  an_slide :: "int option"
  an_sheet :: "string option"
  an_row_start :: "int option"
  an_row_end :: "int option"
  an_char_start :: "int option"
  an_char_end :: "int option"
  an_section :: "string option"

section \<open>Tokens\<close>

text \<open>\<open>[a-z0-9]+(?:[._:/-][a-z0-9]+)*\<close>: a run of word characters, single separators only between them.\<close>

definition word_char :: "char \<Rightarrow> bool" where
  "word_char c \<longleftrightarrow> (CHR ''a'' \<le> c \<and> c \<le> CHR ''z'') \<or> (CHR ''0'' \<le> c \<and> c \<le> CHR ''9'')"

definition word_sep :: "char \<Rightarrow> bool" where
  "word_sep c \<longleftrightarrow> c \<in> set ''._:/-''"

fun word_rest :: "string \<Rightarrow> string \<times> string" where
  "word_rest [] = ([], [])"
| "word_rest (c # cs) =
     (if word_char c \<or> (word_sep c \<and> cs \<noteq> [] \<and> word_char (hd cs))
      then let (w, r) = word_rest cs in (c # w, r) else ([], c # cs))"

lemma word_rest_length: "length (snd (word_rest s)) \<le> length s"
  by (induction s rule: word_rest.induct) (auto simp: Let_def split: prod.splits)

function word_tokens :: "string \<Rightarrow> string list" where
  "word_tokens [] = []"
| "word_tokens (c # cs) =
     (if word_char c then let (w, r) = word_rest cs in (c # w) # word_tokens r else word_tokens cs)"
  by pat_completeness auto
termination
  using word_rest_length by (relation "measure length") (auto simp: less_Suc_eq_le dest: sym split: prod.splits, (metis snd_conv)+)

definition bump_count :: "string \<Rightarrow> counts \<Rightarrow> counts" where
  "bump_count b m = al_put b ((case map_of m b of None \<Rightarrow> 0 | Some n \<Rightarrow> n) + 1) m"

definition count_bucketed :: "(string \<Rightarrow> string) \<Rightarrow> string list \<Rightarrow> counts" where
  "count_bucketed bucket terms = sort_key fst (fold (\<lambda>t. bump_count (bucket t)) terms [])"

text \<open>Consecutive groups of n tokens; the phrases are the pairs and then the triples.\<close>

definition groups_of :: "nat \<Rightarrow> string list \<Rightarrow> string list list" where
  "groups_of n tokens = map (\<lambda>i. take n (drop i tokens)) [0..<length tokens + 1 - n]"

definition phrase_terms :: "string list \<Rightarrow> string list" where
  "phrase_terms tokens = map (py_join ''|'') (groups_of 2 tokens @ groups_of 3 tokens)"

definition skip_terms :: "string list \<Rightarrow> string list" where
  "skip_terms tokens = map (\<lambda>i. tokens ! i @ ''|*|'' @ tokens ! (i + 2)) [0..<length tokens - 2]"

definition opt_token :: "string \<Rightarrow> string option \<Rightarrow> string list" where
  "opt_token p v = (case v of Some (c # cs) \<Rightarrow> [p @ py_lower (c # cs)] | _ \<Rightarrow> [])"

definition opt_number :: "string \<Rightarrow> int option \<Rightarrow> string list" where
  "opt_number p v = (case v of Some n \<Rightarrow> [p @ int_str n] | None \<Rightarrow> [])"

definition layout_tokens :: "string option \<Rightarrow> block_anchor option \<Rightarrow> string list" where
  "layout_tokens block_type anchor =
     sort (remdups (opt_token ''block_type:'' block_type @
       (case anchor of None \<Rightarrow> []
        | Some a \<Rightarrow>
            (''doc_type:'' @ py_lower (an_doc_type a)) # opt_number ''page:'' (an_page a) @ opt_number ''slide:'' (an_slide a)
            @ opt_token ''sheet:'' (an_sheet a) @ opt_token ''section:'' (an_section a)
            @ (case (an_char_start a, an_char_end a) of
                 (Some s, Some e) \<Rightarrow>
                   (let span = max 0 (e - s) in
                    if span < 200 then [''char_span:short''] else if span < 1000 then [''char_span:medium''] else [''char_span:long''])
               | _ \<Rightarrow> [])
            @ (case (an_row_start a, an_row_end a) of
                 (Some s, Some e) \<Rightarrow> [''rows:'' @ int_str s @ ''-'' @ int_str e] | _ \<Rightarrow> []))))"

section \<open>Building a representation\<close>

record text_tools =
  tt_normalize :: "bool \<Rightarrow> bool \<Rightarrow> string \<Rightarrow> string"
  tt_bucket :: "string \<Rightarrow> string"
  tt_entities :: "string \<Rightarrow> string list"
  tt_times :: "string \<Rightarrow> string list"
  tt_signature :: "string \<Rightarrow> signature"
  tt_digest :: "representation \<Rightarrow> string"

definition total_count :: "counts \<Rightarrow> int" where
  "total_count m = sum_list (map snd m)"

definition channel_lengths :: "string list \<Rightarrow> string list \<Rightarrow> string list \<Rightarrow> string list \<Rightarrow> signature \<Rightarrow> counts" where
  "channel_lengths tokens entities moments layout sg =
     (let n = int (length tokens) in
      [(''word'', n), (''phrase'', max (n - 1) 0 + max (n - 2) 0), (''skip'', max (n - 2) 0),
       (''entity'', int (length entities)), (''time'', int (length moments)), (''layout'', int (length layout)),
       (''semantic_phrase'', total_count (sg_phrases sg)), (''concept'', total_count (sg_concepts sg)),
       (''morphology'', total_count (sg_morphology sg)), (''alias'', int (length (sg_alias sg))),
       (''translit'', int (length (sg_translit sg))), (''stem_family'', int (length (sg_stem sg))),
       (''relation'', int (length (sg_relation sg))), (''value'', int (length (sg_value sg))),
       (''temporal'', int (length (sg_temporal sg)))])"

text \<open>The digest is taken over everything but itself.\<close>

definition build_representation :: "text_tools \<Rightarrow> string option \<Rightarrow> block_anchor option \<Rightarrow> bool \<Rightarrow> bool \<Rightarrow> string option \<Rightarrow>
    string \<Rightarrow> representation" where
  "build_representation tt block_type anchor expand stem display text =
     (let tokens = word_tokens (tt_normalize tt stem expand text);
          entities = tt_entities tt text; moments = tt_times tt text;
          layout = layout_tokens block_type anchor; sg = tt_signature tt text;
          readable = filter (\<lambda>c. c \<noteq> CHR 0x00) (py_strip (case display of Some (c # cs) \<Rightarrow> c # cs | _ \<Rightarrow> text));
          r = \<lparr>rp_hash = [], rp_text = readable, rp_word = count_bucketed (tt_bucket tt) tokens,
               rp_phrase = count_bucketed (tt_bucket tt) (phrase_terms tokens),
               rp_skip = count_bucketed (tt_bucket tt) (skip_terms tokens),
               rp_entity = entities, rp_time = moments, rp_layout = layout,
               rp_lengths = channel_lengths tokens entities moments layout sg,
               rp_semantic = Some (sg_phrases sg), rp_concept = Some (sg_concepts sg), rp_morphology = Some (sg_morphology sg),
               rp_alias = sg_alias sg, rp_translit = sg_translit sg, rp_stem = sg_stem sg,
               rp_relation = sg_relation sg, rp_value = sg_value sg, rp_temporal = sg_temporal sg\<rparr>
      in r\<lparr>rp_hash := tt_digest tt r\<rparr>)"

definition build_for_block :: "text_tools \<Rightarrow> string \<Rightarrow> block_anchor \<Rightarrow> string \<Rightarrow> representation" where
  "build_for_block tt block_type anchor content =
     build_representation tt (Some block_type) (Some anchor) False True (Some content) content"

definition build_query_representation :: "text_tools \<Rightarrow> string \<Rightarrow> representation" where
  "build_query_representation tt query = build_representation tt None None True True None query"


section \<open>Lexical scores\<close>

text \<open>Statistics of one channel: number of documents, mean length and document frequencies.\<close>

record channel_stats =
  cs_docs :: int
  cs_avg :: real
  cs_df :: counts

definition count_at :: "counts \<Rightarrow> string \<Rightarrow> int" where
  "count_at m t = (case map_of m t of None \<Rightarrow> 0 | Some n \<Rightarrow> n)"

definition no_stats :: channel_stats where
  "no_stats = \<lparr>cs_docs = 0, cs_avg = 0, cs_df = []\<rparr>"

definition bm25_term :: "counts \<Rightarrow> channel_stats \<Rightarrow> int \<Rightarrow> string \<times> int \<Rightarrow> real" where
  "bm25_term doc st len q =
     (let f = of_int (count_at doc (fst q)); df = of_int (count_at (cs_df st) (fst q));
          idf = ln (1 + (of_int (cs_docs st) - df + 1 / 2) / (df + 1 / 2));
          denom = f + 12 / 10 * (1 - 75 / 100 + 75 / 100 * (of_int len / max (cs_avg st) 1))
      in if f \<le> 0 then 0
         else idf * (f * (12 / 10 + 1) / max denom (1 / 10 ^ 9)) * max (of_int (snd q)) 1)"

definition bm25_channel_score :: "counts \<Rightarrow> counts \<Rightarrow> channel_stats \<Rightarrow> int \<Rightarrow> real" where
  "bm25_channel_score query doc st len =
     (if query = [] \<or> doc = [] \<or> cs_docs st \<le> 0 then 0
      else let score = sum_list (map (bm25_term doc st len) query) in score / (1 + score))"

definition dice_score :: "counts \<Rightarrow> counts \<Rightarrow> real" where
  "dice_score query doc =
     (if query = [] \<or> doc = [] \<or> total_count query \<le> 0 \<or> total_count doc \<le> 0 then 0
      else clamp01 (2 * of_int (sum_list (map (\<lambda>q. min (snd q) (count_at doc (fst q))) query))
        / of_int (total_count query + total_count doc)))"

definition jaccard_score :: "string list \<Rightarrow> string list \<Rightarrow> real" where
  "jaccard_score q d =
     (if q = [] \<or> d = [] then 0 else clamp01 (of_nat (card (set q \<inter> set d)) / of_nat (card (set q \<union> set d))))"

definition CHANNELS :: "string list" where
  "CHANNELS = [''word'', ''phrase'', ''skip'', ''entity'', ''time'', ''layout'', ''semantic_phrase'', ''concept'',
     ''morphology'', ''alias'', ''translit'', ''stem_family'', ''relation'', ''value'', ''temporal'']"

definition DEFAULT_LEXICAL_WEIGHTS :: scores where
  "DEFAULT_LEXICAL_WEIGHTS = zip CHANNELS [35 / 100, 20 / 100, 15 / 100, 15 / 100, 10 / 100, 5 / 100, 16 / 100, 12 / 100,
     8 / 100, 6 / 100, 5 / 100, 5 / 100, 4 / 100, 4 / 100, 3 / 100]"

definition or_empty :: "counts option \<Rightarrow> counts" where
  "or_empty m = (case m of None \<Rightarrow> [] | Some c \<Rightarrow> c)"

definition bm25_and_dice :: "counts \<Rightarrow> counts \<Rightarrow> channel_stats \<Rightarrow> int \<Rightarrow> real" where
  "bm25_and_dice q d st len = clamp01 ((bm25_channel_score q d st len + dice_score q d) / 2)"

text \<open>The score of every channel; statistics of a missing channel are empty.\<close>

definition lexical_components :: "representation \<Rightarrow> representation \<Rightarrow> (string \<Rightarrow> channel_stats) \<Rightarrow> scores" where
  "lexical_components q d stats =
     (let len = (\<lambda>ch. count_at (rp_lengths d) ch) in
      [(''word'', bm25_channel_score (rp_word q) (rp_word d) (stats ''word'') (len ''word'')),
       (''phrase'', bm25_and_dice (rp_phrase q) (rp_phrase d) (stats ''phrase'') (len ''phrase'')),
       (''skip'', bm25_channel_score (rp_skip q) (rp_skip d) (stats ''skip'') (len ''skip'')),
       (''entity'', jaccard_score (rp_entity q) (rp_entity d)), (''time'', jaccard_score (rp_time q) (rp_time d)),
       (''layout'', jaccard_score (rp_layout q) (rp_layout d)),
       (''semantic_phrase'', bm25_and_dice (or_empty (rp_semantic q)) (or_empty (rp_semantic d))
          (stats ''semantic_phrase'') (len ''semantic_phrase'')),
       (''concept'', bm25_channel_score (or_empty (rp_concept q)) (or_empty (rp_concept d)) (stats ''concept'') (len ''concept'')),
       (''morphology'', bm25_channel_score (or_empty (rp_morphology q)) (or_empty (rp_morphology d))
          (stats ''morphology'') (len ''morphology'')),
       (''alias'', jaccard_score (rp_alias q) (rp_alias d)), (''translit'', jaccard_score (rp_translit q) (rp_translit d)),
       (''stem_family'', jaccard_score (rp_stem q) (rp_stem d)), (''relation'', jaccard_score (rp_relation q) (rp_relation d)),
       (''value'', jaccard_score (rp_value q) (rp_value d)), (''temporal'', jaccard_score (rp_temporal q) (rp_temporal d))])"

definition compute_lexical_score :: "representation \<Rightarrow> representation \<Rightarrow> (string \<Rightarrow> channel_stats) \<Rightarrow> real \<times> scores" where
  "compute_lexical_score q d stats =
     (let cs = lexical_components q d stats;
          score = sum_list (map (\<lambda>(ch, x). score_at DEFAULT_LEXICAL_WEIGHTS ch * x) cs)
      in (round6 (clamp01 score), map (\<lambda>(ch, x). (ch, round6 x)) cs))"

section \<open>Rows and statistics\<close>

record repr_row =
  rr_node :: string
  rr_tenant :: string
  rr_graph :: string
  rr_repr :: representation
  rr_created :: int
  rr_updated :: int

record stats_row =
  sr_tenant :: string
  sr_graph :: string
  sr_channel :: string
  sr_stats :: channel_stats
  sr_updated :: int

record repr_world =
  rw_nodes :: "node_row list"
  rw_reprs :: "repr_row list"
  rw_stats :: "stats_row list"

text \<open>What a row keeps: missing counts are stored empty.\<close>

definition stored_repr :: "representation \<Rightarrow> representation" where
  "stored_repr r = r\<lparr>rp_semantic := Some (or_empty (rp_semantic r)), rp_concept := Some (or_empty (rp_concept r)),
     rp_morphology := Some (or_empty (rp_morphology r))\<rparr>"

text \<open>Rows of a graph whose node is there, by node id.\<close>

definition repr_in :: "string \<Rightarrow> string \<Rightarrow> node_row list \<Rightarrow> repr_row \<Rightarrow> bool" where
  "repr_in t g nodes r \<longleftrightarrow> rr_tenant r = t \<and> rr_graph r = g \<and> (\<exists>n \<in> set nodes. nd_id n = rr_node r \<and> node_in t g n)"

definition list_all_reprs :: "string \<Rightarrow> string \<Rightarrow> repr_world \<Rightarrow> repr_row list" where
  "list_all_reprs t g w = query_rows (repr_in t g (rw_nodes w)) rr_node (rw_reprs w)"

definition list_reprs_of :: "string \<Rightarrow> string \<Rightarrow> string list \<Rightarrow> repr_world \<Rightarrow> repr_row list" where
  "list_reprs_of t g ids w =
     (if ids = [] then [] else query_rows (\<lambda>r. repr_in t g (rw_nodes w) r \<and> rr_node r \<in> set ids) rr_node (rw_reprs w))"

definition keys_of :: "counts \<Rightarrow> string list" where
  "keys_of m = sort (map fst m)"

definition tokens_of :: "string list \<Rightarrow> string list" where
  "tokens_of ts = sort (remdups ts)"

definition df_terms :: "representation \<Rightarrow> (string \<times> string list) list" where
  "df_terms r =
     [(''word'', keys_of (rp_word r)), (''phrase'', keys_of (rp_phrase r)), (''skip'', keys_of (rp_skip r)),
      (''entity'', tokens_of (rp_entity r)), (''time'', tokens_of (rp_time r)), (''layout'', tokens_of (rp_layout r)),
      (''semantic_phrase'', keys_of (or_empty (rp_semantic r))), (''concept'', keys_of (or_empty (rp_concept r))),
      (''morphology'', keys_of (or_empty (rp_morphology r))), (''alias'', tokens_of (rp_alias r)),
      (''translit'', tokens_of (rp_translit r)), (''stem_family'', tokens_of (rp_stem r)),
      (''relation'', tokens_of (rp_relation r)), (''value'', tokens_of (rp_value r)), (''temporal'', tokens_of (rp_temporal r))]"

definition terms_at :: "representation \<Rightarrow> string \<Rightarrow> string list" where
  "terms_at r ch = (case map_of (df_terms r) ch of None \<Rightarrow> [] | Some ts \<Rightarrow> ts)"

definition count_terms :: "string list \<Rightarrow> counts \<Rightarrow> counts" where
  "count_terms ts df = sort_key fst (fold bump_count ts df)"

text \<open>The statistics of a channel counted afresh.\<close>

definition rebuilt_channel :: "representation list \<Rightarrow> string \<Rightarrow> channel_stats" where
  "rebuilt_channel rs ch =
     \<lparr>cs_docs = int (length rs),
      cs_avg = (if rs = [] then 0 else of_int (sum_list (map (\<lambda>r. count_at (rp_lengths r) ch) rs)) / of_nat (max (length rs) 1)),
      cs_df = fold (\<lambda>r. count_terms (terms_at r ch)) rs []\<rparr>"

definition stats_in :: "string \<Rightarrow> string \<Rightarrow> stats_row \<Rightarrow> bool" where
  "stats_in t g s \<longleftrightarrow> sr_tenant s = t \<and> sr_graph s = g"

definition rebuild_graph_stats :: "int \<Rightarrow> string \<Rightarrow> string \<Rightarrow> repr_world \<Rightarrow> repr_world" where
  "rebuild_graph_stats now t g w =
     (let rs = map rr_repr (list_all_reprs t g w) in
      w\<lparr>rw_stats := filter (\<lambda>s. \<not> stats_in t g s) (rw_stats w)
          @ map (\<lambda>ch. \<lparr>sr_tenant = t, sr_graph = g, sr_channel = ch, sr_stats = rebuilt_channel rs ch, sr_updated = now\<rparr>) CHANNELS\<rparr>)"

definition advance_channel :: "representation \<Rightarrow> string \<Rightarrow> channel_stats \<Rightarrow> channel_stats" where
  "advance_channel r ch st =
     (let n = cs_docs st in
      \<lparr>cs_docs = n + 1,
       cs_avg = (cs_avg st * of_int n + of_int (count_at (rp_lengths r) ch)) / of_int (max (n + 1) 1),
       cs_df = count_terms (terms_at r ch) (cs_df st)\<rparr>)"

text \<open>One channel: the row is created when it is missing and then advanced.\<close>

definition advance_row :: "int \<Rightarrow> string \<Rightarrow> string \<Rightarrow> representation \<Rightarrow> string \<Rightarrow> stats_row list \<Rightarrow> stats_row list" where
  "advance_row now t g r ch rows =
     (let is_row = (\<lambda>s. stats_in t g s \<and> sr_channel s = ch);
          rows1 = (if list_ex is_row rows then rows
                   else rows @ [\<lparr>sr_tenant = t, sr_graph = g, sr_channel = ch, sr_stats = no_stats, sr_updated = now\<rparr>])
      in map (\<lambda>s. if is_row s then s\<lparr>sr_stats := advance_channel r ch (sr_stats s), sr_updated := now\<rparr> else s) rows1)"

definition incremental_update :: "int \<Rightarrow> string \<Rightarrow> string \<Rightarrow> representation \<Rightarrow> repr_world \<Rightarrow> repr_world" where
  "incremental_update now t g r w = w\<lparr>rw_stats := fold (advance_row now t g r) CHANNELS (rw_stats w)\<rparr>"

text \<open>
  \<open>upsert_node_representation\<close>: a representation with the stored hash changes nothing; another one
  replaces the row and rebuilds the statistics; a first one is added with an incremental update. The
  node id is the primary key of the table, whatever the tenant and the graph.
\<close>

definition upsert_representation :: "int \<Rightarrow> string \<Rightarrow> string \<Rightarrow> string \<Rightarrow> representation \<Rightarrow> repr_world \<Rightarrow> string + string \<times> repr_world" where
  "upsert_representation now t g i r w =
     (let is_row = (\<lambda>x. rr_node x = i \<and> rr_tenant x = t \<and> rr_graph x = g) in
      case find is_row (rw_reprs w) of
        Some x \<Rightarrow>
          if rp_hash (rr_repr x) = rp_hash r then Inr (''unchanged'', w)
          else Inr (''updated'', rebuild_graph_stats now t g
            (w\<lparr>rw_reprs := map (\<lambda>x. if is_row x then x\<lparr>rr_repr := stored_repr r, rr_updated := now\<rparr> else x) (rw_reprs w)\<rparr>))
      | None \<Rightarrow>
          if i \<in> set (map rr_node (rw_reprs w)) then Inl ''IntegrityError''
          else Inr (''inserted'', incremental_update now t g r
            (w\<lparr>rw_reprs := rw_reprs w @ [\<lparr>rr_node = i, rr_tenant = t, rr_graph = g, rr_repr = stored_repr r,
               rr_created = now, rr_updated = now\<rparr>]\<rparr>)))"

text \<open>The statistics of a graph by channel, counted first when there are none.\<close>

definition stats_lookup :: "string \<Rightarrow> string \<Rightarrow> stats_row list \<Rightarrow> string \<Rightarrow> channel_stats" where
  "stats_lookup t g rows ch =
     (case find (\<lambda>s. stats_in t g s \<and> sr_channel s = ch) rows of None \<Rightarrow> no_stats | Some s \<Rightarrow> sr_stats s)"

definition get_graph_stats :: "int \<Rightarrow> string \<Rightarrow> string \<Rightarrow> repr_world \<Rightarrow> (string \<Rightarrow> channel_stats) \<times> repr_world" where
  "get_graph_stats now t g w =
     (let w1 = (if filter (stats_in t g) (rw_stats w) = [] then rebuild_graph_stats now t g w else w)
      in (stats_lookup t g (rw_stats w1), w1))"

definition score_node_ids :: "int \<Rightarrow> string \<Rightarrow> string \<Rightarrow> representation \<Rightarrow> string list \<Rightarrow> repr_world \<Rightarrow>
    (string \<times> real \<times> scores) list \<times> repr_world" where
  "score_node_ids now t g q ids w =
     (case list_reprs_of t g ids w of
        [] \<Rightarrow> ([], w)
      | rows \<Rightarrow> (let (stats, w1) = get_graph_stats now t g w
                in (map (\<lambda>r. (rr_node r, compute_lexical_score q (rr_repr r) stats)) rows, w1)))"

definition score_all :: "int \<Rightarrow> string \<Rightarrow> string \<Rightarrow> representation \<Rightarrow> repr_world \<Rightarrow> scores \<times> repr_world" where
  "score_all now t g q w =
     (case list_all_reprs t g w of
        [] \<Rightarrow> ([], w)
      | rows \<Rightarrow> (let (stats, w1) = get_graph_stats now t g w
                in (map (\<lambda>r. (rr_node r, fst (compute_lexical_score q (rr_repr r) stats))) rows, w1)))"

definition top_k_lexical :: "int \<Rightarrow> string \<Rightarrow> string \<Rightarrow> representation \<Rightarrow> nat \<Rightarrow> repr_world \<Rightarrow> scores \<times> repr_world" where
  "top_k_lexical now t g q k w = (let (s, w1) = score_all now t g q w in (take k (sort_key score_order s), w1))"


section \<open>Counting\<close>

lemma count_at_bump [simp]: "count_at (bump_count b m) t = count_at m t + (if t = b then 1 else 0)"
  by (simp add: count_at_def bump_count_def)

lemma keys_bump [simp]: "set (al_keys (bump_count b m)) = insert b (set (al_keys m))"
  by (simp add: bump_count_def)

lemma distinct_bump [simp]: "distinct (al_keys m) \<Longrightarrow> distinct (al_keys (bump_count b m))"
  by (simp add: bump_count_def)

lemma bump_counts:
  "count_at (fold bump_count ts m) t = count_at m t + int (count_list ts t)"
  "set (al_keys (fold bump_count ts m)) = set ts \<union> set (al_keys m)"
  "distinct (al_keys m) \<Longrightarrow> distinct (al_keys (fold bump_count ts m))"
  by (induction ts arbitrary: m) auto

lemma al_keys_sort [simp]:
  "set (al_keys (sort_key fst m)) = set (al_keys m)" "distinct (al_keys (sort_key fst m)) \<longleftrightarrow> distinct (al_keys m)"
  "sorted (al_keys (sort_key fst m))"
  by (auto simp: al_keys_def distinct_map)

lemma map_of_sort_keys: "distinct (al_keys m) \<Longrightarrow> map_of (sort_key fst m) = map_of m"
  by (rule map_of_inject_set [THEN iffD2]) (simp_all add: al_keys_def distinct_map)

lemma count_at_sort [simp]: "distinct (al_keys m) \<Longrightarrow> count_at (sort_key fst m) t = count_at m t"
  by (simp add: count_at_def map_of_sort_keys)

text \<open>Sorted counts are determined by their keys and values.\<close>

lemma sorted_counts_eq:
  assumes "sorted (al_keys a)" "distinct (al_keys a)" "sorted (al_keys b)" "distinct (al_keys b)"
    and "set (al_keys a) = set (al_keys b)" "\<And>t. count_at a t = count_at b t"
  shows "a = b"
proof -
  have some: "map_of m t = Some (count_at m t)" if "t \<in> set (al_keys m)" for m :: counts and t
    using that map_of_in_keys [of m t] by (auto simp: count_at_def)
  have "map_of a t = map_of b t" for t
    using some [of t a] some [of t b] assms(5,6) map_of_in_keys [of a t] map_of_in_keys [of b t]
    by (cases "t \<in> set (al_keys a)") auto
  then have "set a = set b" using assms(2,4) by (metis al_keys_def ext map_of_inject_set)
  moreover have "inj_on fst (set a \<union> set b)" using assms(2) calculation by (simp add: al_keys_def distinct_map)
  ultimately show ?thesis using assms(1-4) by (intro map_sorted_distinct_set_unique [of fst]) (simp_all add: al_keys_def)
qed

definition df_total :: "representation list \<Rightarrow> string \<Rightarrow> string \<Rightarrow> int" where
  "df_total rs ch t = sum_list (map (\<lambda>r. int (count_list (terms_at r ch) t)) rs)"

lemma df_fold:
  assumes "sorted (al_keys m)" "distinct (al_keys m)"
  shows "count_at (fold (\<lambda>r. count_terms (terms_at r ch)) rs m) t = count_at m t + df_total rs ch t"
    and "set (al_keys (fold (\<lambda>r. count_terms (terms_at r ch)) rs m)) = (\<Union>r \<in> set rs. set (terms_at r ch)) \<union> set (al_keys m)"
    and "sorted (al_keys (fold (\<lambda>r. count_terms (terms_at r ch)) rs m))"
    and "distinct (al_keys (fold (\<lambda>r. count_terms (terms_at r ch)) rs m))"
  using assms
proof (induction rs arbitrary: m)
  case (Cons r rs)
  have ok: "sorted (al_keys (count_terms (terms_at r ch) m))" "distinct (al_keys (count_terms (terms_at r ch) m))"
    if "distinct (al_keys m)" for m using that by (simp_all add: count_terms_def bump_counts)
  { case 1 show ?case using Cons.IH(1) [OF ok [OF 1(2)]] 1(2) by (simp add: count_terms_def bump_counts df_total_def add.assoc) }
  { case 2 show ?case using Cons.IH(2) [OF ok [OF 2(2)]] 2(2) by (auto simp: count_terms_def bump_counts) }
  { case 3 show ?case using Cons.IH(3) [OF ok [OF 3(2)]] 3(2) by simp }
  { case 4 show ?case using Cons.IH(4) [OF ok [OF 4(2)]] 4(2) by simp }
qed (simp_all add: df_total_def)

lemmas df_fold_empty = df_fold [of "[]", simplified al_keys_def, simplified]

section \<open>Incremental statistics\<close>

lemma rebuilt_channel_perm: "mset rs = mset rs' \<Longrightarrow> rebuilt_channel rs ch = rebuilt_channel rs' ch"
proof -
  assume m: "mset rs = mset rs'"
  have sum: "sum_list (map f rs) = sum_list (map f rs')" for f :: "representation \<Rightarrow> int"
    using m by (metis mset_map sum_mset_sum_list)
  let ?d = "\<lambda>rs. fold (\<lambda>r. count_terms (terms_at r ch)) rs []"
  have e: "sorted (al_keys ([] :: counts))" "distinct (al_keys ([] :: counts))" by (simp_all add: al_keys_def)
  have "?d rs = ?d rs'"
    by (rule sorted_counts_eq) (simp_all add: df_fold [OF e] df_total_def sum mset_eq_setD [OF m])
  then show ?thesis using sum mset_eq_length [OF m] m by (auto simp: rebuilt_channel_def)
qed

lemma rebuilt_channel_snoc: "rebuilt_channel (rs @ [r]) ch = advance_channel r ch (rebuilt_channel rs ch)"
  by (cases rs) (simp_all add: rebuilt_channel_def advance_channel_def max_def)

lemma rebuilt_channel_nil: "rebuilt_channel [] ch = no_stats"
  by (simp add: rebuilt_channel_def no_stats_def)

lemma find_map_same: "(\<And>x. P (f x) \<longleftrightarrow> P x) \<Longrightarrow> find P (map f xs) = map_option f (find P xs)"
  by (induction xs) auto

lemma find_append: "find P (xs @ ys) = (case find P xs of None \<Rightarrow> find P ys | Some x \<Rightarrow> Some x)"
  by (induction xs) auto

lemma find_cong_pred: "(\<And>x. x \<in> set xs \<Longrightarrow> P x \<longleftrightarrow> Q x) \<Longrightarrow> find P xs = find Q xs"
  by (induction xs) auto

definition channel_row :: "string \<Rightarrow> string \<Rightarrow> string \<Rightarrow> stats_row \<Rightarrow> bool" where
  "channel_row t g ch s \<longleftrightarrow> stats_in t g s \<and> sr_channel s = ch"

lemma find_advance_row:
  defines "f \<equiv> \<lambda>now r t g ch s. if channel_row t g ch s then s\<lparr>sr_stats := advance_channel r ch (sr_stats s), sr_updated := now\<rparr> else s"
  shows "find (channel_row t' g' ch') (advance_row now t g r ch rows) =
    map_option (f now r t g ch) (case find (channel_row t' g' ch') rows of
      Some s \<Rightarrow> Some s
    | None \<Rightarrow> if t' = t \<and> g' = g \<and> ch' = ch
        then Some \<lparr>sr_tenant = t, sr_graph = g, sr_channel = ch, sr_stats = no_stats, sr_updated = now\<rparr> else None)"
proof -
  have keep: "channel_row t' g' ch' (f now r t g ch s) \<longleftrightarrow> channel_row t' g' ch' s" for s
    by (simp add: f_def channel_row_def stats_in_def)
  note mapped = find_map_same [where P = "channel_row t' g' ch'" and f = "f now r t g ch", OF keep]
  have fold: "(\<lambda>s. stats_in t g s \<and> sr_channel s = ch) = channel_row t g ch" by (rule ext) (simp add: channel_row_def)
  have ex: "list_ex (channel_row t g ch) rows \<longleftrightarrow> find (channel_row t g ch) rows \<noteq> None"
    by (auto simp: list_ex_iff find_None_iff)
  show ?thesis
    unfolding advance_row_def Let_def fold f_def
    by (subst mapped [unfolded f_def], cases "t' = t \<and> g' = g \<and> ch' = ch", cases "find (channel_row t g ch) rows")
      (auto simp: ex find_append channel_row_def [of _ _ _ "\<lparr>sr_tenant = _, sr_graph = _, sr_channel = _, sr_stats = _, sr_updated = _\<rparr>"]
        stats_in_def split: option.splits)
qed

lemma stats_lookup_advance:
  "stats_lookup t' g' (advance_row now t g r ch rows) ch' =
     (if t' = t \<and> g' = g \<and> ch' = ch then advance_channel r ch (stats_lookup t g rows ch) else stats_lookup t' g' rows ch')"
proof -
  have look: "stats_lookup t g rows ch = (case find (channel_row t g ch) rows of None \<Rightarrow> no_stats | Some s \<Rightarrow> sr_stats s)"
    for t g rows ch by (simp add: stats_lookup_def channel_row_def [abs_def])
  have row: "channel_row t g ch s" if "find (channel_row t g ch) rows = Some s" for t g ch rows s
    using that by (auto dest: find_SomeD)
  show ?thesis
  proof (cases "find (channel_row t' g' ch') rows")
    case None
    then show ?thesis unfolding look find_advance_row by (auto simp: channel_row_def stats_in_def)
  next
    case (Some s)
    then show ?thesis using row [OF Some] unfolding look find_advance_row by (auto simp: channel_row_def stats_in_def)
  qed
qed

lemma stats_lookup_advance_all:
  "distinct chs \<Longrightarrow> stats_lookup t' g' (fold (advance_row now t g r) chs rows) ch =
     (if t' = t \<and> g' = g \<and> ch \<in> set chs then advance_channel r ch (stats_lookup t g rows ch) else stats_lookup t' g' rows ch)"
  by (induction chs arbitrary: rows) (auto simp: stats_lookup_advance)

lemma distinct_CHANNELS: "distinct CHANNELS"
  by (simp add: CHANNELS_def)

lemma rebuild_fields [simp]:
  "rw_nodes (rebuild_graph_stats now t g w) = rw_nodes w" "rw_reprs (rebuild_graph_stats now t g w) = rw_reprs w"
  "list_all_reprs t' g' (rebuild_graph_stats now t g w) = list_all_reprs t' g' w"
  "list_reprs_of t' g' ids (rebuild_graph_stats now t g w) = list_reprs_of t' g' ids w"
  by (simp_all add: rebuild_graph_stats_def Let_def list_all_reprs_def list_reprs_of_def)

lemma stats_lookup_rebuild:
  "stats_lookup t' g' (rw_stats (rebuild_graph_stats now t g w)) ch =
     (if t' = t \<and> g' = g then if ch \<in> set CHANNELS then rebuilt_channel (map rr_repr (list_all_reprs t g w)) ch else no_stats
      else stats_lookup t' g' (rw_stats w) ch)"
proof -
  let ?p = "\<lambda>s. stats_in t' g' s \<and> sr_channel s = ch"
  let ?new = "\<lambda>ch. \<lparr>sr_tenant = t, sr_graph = g, sr_channel = ch,
    sr_stats = rebuilt_channel (map rr_repr (list_all_reprs t g w)) ch, sr_updated = now\<rparr>"
  show ?thesis
  proof (cases "t' = t \<and> g' = g")
    case True
    have none: "find ?p (filter (\<lambda>s. \<not> stats_in t g s) (rw_stats w)) = None" using True by (auto simp: find_None_iff)
    have new: "find ?p (map ?new chs) = (if ch \<in> set chs then Some (?new ch) else None)" for chs
      using True by (induction chs) (auto simp: stats_in_def)
    have "find ?p (rw_stats (rebuild_graph_stats now t g w)) = find ?p (map ?new CHANNELS)"
      unfolding rebuild_graph_stats_def Let_def by (simp add: find_append none del: find.simps)
    then show ?thesis using True unfolding new by (simp add: stats_lookup_def split: if_splits)
  next
    case False
    have none: "find ?p (map ?new chs) = None" for chs using False by (auto simp: find_None_iff stats_in_def)
    have old: "find ?p (filter (\<lambda>s. \<not> stats_in t g s) rows) = find ?p rows" for rows
      using False by (induction rows) (auto simp: stats_in_def)
    have "find ?p (rw_stats (rebuild_graph_stats now t g w)) = find ?p (rw_stats w)"
      unfolding rebuild_graph_stats_def Let_def by (simp add: find_append none old split: option.splits)
    then show ?thesis using False unfolding stats_lookup_def by (simp only: if_False)
  qed
qed

text \<open>The statistics of a graph are what a rebuild would give.\<close>

definition stats_current :: "string \<Rightarrow> string \<Rightarrow> repr_world \<Rightarrow> bool" where
  "stats_current t g w \<longleftrightarrow>
     (\<forall>ch \<in> set CHANNELS. stats_lookup t g (rw_stats w) ch = rebuilt_channel (map rr_repr (list_all_reprs t g w)) ch)"

lemma stored_repr_stats: "terms_at (stored_repr r) ch = terms_at r ch" "rp_lengths (stored_repr r) = rp_lengths r"
  by (simp_all add: stored_repr_def terms_at_def df_terms_def or_empty_def)

lemma advance_stored: "advance_channel (stored_repr r) = advance_channel r"
  by (rule ext)+ (simp add: advance_channel_def stored_repr_stats)


lemma filter_length_less:
  assumes "\<And>x. P x \<Longrightarrow> Q x" "y \<in> set xs" "Q y" "\<not> P y"
  shows "length (filter P xs) < length (filter Q xs)"
proof -
  have "filter P xs = filter P (filter Q xs)" using assms(1) by (simp add: filter_filter conj_commute) (metis (mono_tags, lifting) filter_cong)
  also have "length \<dots> < length (filter Q xs)" using assms by (intro length_filter_less [of y]) auto
  finally show ?thesis .
qed

text \<open>Deleting a node with a representation leaves the statistics as they were, so they are no longer current.\<close>

lemma deletion_leaves_stats_stale:
  assumes "stats_current t g w" "x \<in> set (rw_reprs w)" "rr_node x = i" "repr_in t g (rw_nodes w) x"
  shows "\<not> stats_current t g (w\<lparr>rw_nodes := fst (delete_node t g i (rw_nodes w))\<rparr>)"
proof -
  let ?ns = "fst (delete_node t g i (rw_nodes w))"
  let ?w = "w\<lparr>rw_nodes := ?ns\<rparr>"
  have del: "\<forall>n \<in> set ?ns. n \<in> set (rw_nodes w) \<and> \<not> (node_in t g n \<and> nd_id n = i)"
    by (auto simp: delete_node_def delete_rows_def get_node_row_def find_None_iff split: option.splits)
      (auto dest: find_SomeD)
  have sub: "repr_in t g ?ns y \<longrightarrow> repr_in t g (rw_nodes w) y" for y
    using del by (auto simp: repr_in_def)
  have out: "\<not> repr_in t g ?ns x" using del assms(3) by (auto simp: repr_in_def)
  have "length (filter (repr_in t g ?ns) (rw_reprs w)) < length (filter (repr_in t g (rw_nodes w)) (rw_reprs w))"
    using assms(2,4) out sub by (intro filter_length_less) auto
  then have "length (list_all_reprs t g ?w) \<noteq> length (list_all_reprs t g w)"
    by (simp add: list_all_reprs_def query_rows_def)
  moreover have "''word'' \<in> set CHANNELS" by (simp add: CHANNELS_def)
  ultimately show ?thesis using assms(1) unfolding stats_current_def
    by (auto simp: rebuilt_channel_def dest!: bspec [of _ _ "''word''"])
qed


section \<open>Well-formed representations\<close>

text \<open>Counts are dictionaries (distinct keys) without negative entries.\<close>

definition counts_ok :: "counts \<Rightarrow> bool" where
  "counts_ok m \<longleftrightarrow> distinct (al_keys m) \<and> (\<forall>p \<in> set m. snd p \<ge> 0)"

definition repr_ok :: "representation \<Rightarrow> bool" where
  "repr_ok r \<longleftrightarrow> counts_ok (rp_word r) \<and> counts_ok (rp_phrase r) \<and> counts_ok (rp_skip r)
     \<and> counts_ok (or_empty (rp_semantic r)) \<and> counts_ok (or_empty (rp_concept r)) \<and> counts_ok (or_empty (rp_morphology r))"

definition signature_ok :: "signature \<Rightarrow> bool" where
  "signature_ok s \<longleftrightarrow> counts_ok (sg_phrases s) \<and> counts_ok (sg_concepts s) \<and> counts_ok (sg_morphology s)"

lemma counts_ok_bump: "counts_ok m \<Longrightarrow> counts_ok (bump_count b m)"
proof -
  assume ok: "counts_ok m"
  have "(case map_of m b of None \<Rightarrow> 0 | Some n \<Rightarrow> n) \<ge> 0"
    using ok by (auto simp: counts_ok_def split: option.splits dest!: map_of_SomeD)
  then show "counts_ok (bump_count b m)"
    using ok set_al_put [of b "(case map_of m b of None \<Rightarrow> 0 | Some n \<Rightarrow> n) + 1" m]
    by (auto simp: counts_ok_def bump_count_def)
qed

lemma counts_ok_nil [simp]: "counts_ok []"
  by (simp add: counts_ok_def al_keys_def)

lemma counts_ok_bucketed: "counts_ok (count_bucketed bucket ts)"
proof -
  have "counts_ok (fold (\<lambda>t. bump_count (bucket t)) ts m)" if "counts_ok m" for m
    using that by (induction ts arbitrary: m) (simp_all add: counts_ok_bump)
  then have "counts_ok (fold (\<lambda>t. bump_count (bucket t)) ts [])" using counts_ok_nil .
  then show ?thesis by (simp add: count_bucketed_def counts_ok_def)
qed

lemma total_put: "total_count (al_put b ((case map_of m b of None \<Rightarrow> 0 | Some n \<Rightarrow> n) + 1) m) = total_count m + 1"
  by (induction m) (auto simp: total_count_def)

lemma total_bucketed: "total_count (count_bucketed bucket ts) = int (length ts)"
proof -
  have "total_count (fold (\<lambda>t. bump_count (bucket t)) ts m) = total_count m + int (length ts)" for m
    by (induction ts arbitrary: m) (simp_all add: bump_count_def total_put)
  moreover have "total_count (sort_key fst m) = total_count m" for m :: counts
    unfolding total_count_def by (metis mset_map mset_sort sum_mset_sum_list)
  ultimately show ?thesis by (simp add: count_bucketed_def) (simp add: total_count_def)
qed

lemma length_groups [simp]: "length (groups_of n ts) = length ts + 1 - n"
  by (simp add: groups_of_def)

lemma built_repr_ok:
  "signature_ok (tt_signature tt text) \<Longrightarrow> repr_ok (build_representation tt block_type anchor expand stem display text)"
  by (simp add: build_representation_def Let_def repr_ok_def counts_ok_bucketed signature_ok_def or_empty_def)


section \<open>Scores stay between zero and one\<close>

lemma terms_distinct: "repr_ok r \<Longrightarrow> distinct (terms_at r ch)"
  by (auto simp: terms_at_def df_terms_def keys_of_def tokens_of_def repr_ok_def counts_ok_def al_keys_def)

definition stats_ok :: "channel_stats \<Rightarrow> bool" where
  "stats_ok st \<longleftrightarrow> (\<forall>t. 0 \<le> count_at (cs_df st) t \<and> count_at (cs_df st) t \<le> cs_docs st)"

lemma rebuilt_stats_ok:
  assumes "\<forall>r \<in> set rs. repr_ok r"
  shows "stats_ok (rebuilt_channel rs ch)"
  unfolding stats_ok_def
proof
  fix t
  have "0 \<le> df_total rs ch t \<and> df_total rs ch t \<le> int (length rs)"
    using assms
  proof (induction rs)
    case (Cons r rs)
    then have "count_list (terms_at r ch) t \<le> 1"
      using terms_distinct [of r ch] distinct_count_atmost_1 [of "terms_at r ch"] by (simp add: count_mset)
    then show ?case using Cons by (simp add: df_total_def)
  qed (simp add: df_total_def)
  moreover have "count_at (cs_df (rebuilt_channel rs ch)) t = df_total rs ch t"
    using df_fold(1) [of "[]" ch rs t] by (simp add: rebuilt_channel_def al_keys_def count_at_def)
  ultimately show "0 \<le> count_at (cs_df (rebuilt_channel rs ch)) t \<and> count_at (cs_df (rebuilt_channel rs ch)) t \<le> cs_docs (rebuilt_channel rs ch)"
    by (simp add: rebuilt_channel_def)
qed

lemma bm25_term_nonneg: "stats_ok st \<Longrightarrow> 0 \<le> bm25_term doc st len q"
proof -
  assume ok: "stats_ok st"
  define df where "df = real_of_int (count_at (cs_df st) (fst q))"
  have df: "0 \<le> df" "df \<le> of_int (cs_docs st)" using ok by (simp_all add: stats_ok_def df_def)
  have "0 \<le> (of_int (cs_docs st) - df + 1 / 2) / (df + 1 / 2)" using df by (intro divide_nonneg_nonneg) auto
  then have "0 \<le> ln (1 + (of_int (cs_docs st) - df + 1 / 2) / (df + 1 / 2))" by simp
  then show ?thesis unfolding bm25_term_def Let_def df_def [symmetric]
    by (auto intro!: mult_nonneg_nonneg divide_nonneg_nonneg simp: le_max_iff_disj)
qed

definition unit_score :: "real \<Rightarrow> bool" where
  "unit_score x \<longleftrightarrow> 0 \<le> x \<and> x \<le> 1"

lemma bm25_unit: "stats_ok st \<Longrightarrow> unit_score (bm25_channel_score q d st len)"
proof -
  assume ok: "stats_ok st"
  have "0 \<le> sum_list (map (bm25_term d st len) q)" by (intro sum_list_nonneg) (auto simp: bm25_term_nonneg [OF ok])
  then show ?thesis by (simp add: bm25_channel_score_def Let_def unit_score_def divide_le_eq)
qed

lemma unit_scores: "unit_score (clamp01 x)" "unit_score (dice_score c d)" "unit_score (jaccard_score a b)"
    "unit_score (bm25_and_dice c d st len)" "unit_score x \<Longrightarrow> unit_score (round6 x)" "unit_score 0"
  by (simp_all add: unit_score_def dice_score_def jaccard_score_def bm25_and_dice_def round6_bounds)

lemma lexical_components_unit:
  assumes "\<forall>ch \<in> set CHANNELS. stats_ok (stats ch)"
  shows "\<forall>p \<in> set (lexical_components q d stats). unit_score (snd p)"
  using assms by (simp add: lexical_components_def Let_def bm25_unit unit_scores CHANNELS_def)

lemma score_rows:
  "fst (score_node_ids now t g q ids w) =
     map (\<lambda>r. (rr_node r, compute_lexical_score q (rr_repr r) (fst (get_graph_stats now t g w)))) (list_reprs_of t g ids w)"
  by (simp add: score_node_ids_def split: list.split prod.split)

text \<open>
  Lexical scores are bounded: with current statistics of well-formed representations, every score
  the repository returns for a query and every component of it (the unclamped term-frequency
  channels included) lies between zero and one, however often terms repeat.
\<close>

theorem lexical_scores_bounded:
  assumes "stats_current t g w" "\<forall>x \<in> set (rw_reprs w). repr_ok (rr_repr x)"
    and "score_node_ids now t g q ids w = (scored, w')" "(i, s, components) \<in> set scored"
  shows "0 \<le> s \<and> s \<le> 1 \<and> (\<forall>(ch, x) \<in> set components. 0 \<le> x \<and> x \<le> 1)"
proof -
  define stats where "stats = fst (get_graph_stats now t g w)"
  have ok: "\<forall>r \<in> set (map rr_repr (list_all_reprs t g w)). repr_ok r"
    using assms(2) by (auto simp: list_all_reprs_def)
  have "stats ch = rebuilt_channel (map rr_repr (list_all_reprs t g w)) ch" if "ch \<in> set CHANNELS" for ch
    using that assms(1) by (simp add: stats_def get_graph_stats_def Let_def stats_current_def stats_lookup_rebuild)
  then have "\<forall>ch \<in> set CHANNELS. stats_ok (stats ch)" using rebuilt_stats_ok [OF ok] by simp
  note unit = lexical_components_unit [OF this]
  obtain r where r: "(s, components) = compute_lexical_score q r stats"
    using assms(3,4) score_rows [of now t g q ids w] by (auto simp: stats_def)
  have "unit_score s" using r by (simp add: compute_lexical_score_def Let_def unit_scores)
  moreover have "\<forall>p \<in> set components. unit_score (snd p)"
    using r unit [of q r] by (force simp: compute_lexical_score_def Let_def intro: unit_scores(5))
  ultimately show ?thesis by (auto simp: unit_score_def)
qed

section \<open>Examples\<close>

definition ex_signature :: signature where
  "ex_signature = \<lparr>sg_phrases = [], sg_concepts = [], sg_morphology = [], sg_alias = [], sg_translit = [], sg_stem = [],
     sg_relation = [], sg_value = [], sg_temporal = []\<rparr>"

definition ex_tools :: text_tools where
  "ex_tools = \<lparr>tt_normalize = (\<lambda>_ _ s. py_lower s), tt_bucket = id, tt_entities = (\<lambda>_. []), tt_times = (\<lambda>_. []),
     tt_signature = (\<lambda>_. ex_signature), tt_digest = rp_text\<rparr>"

lemma ex_word_tokens: "word_tokens ''a b.c'' = [''a'', ''b.c'']"
  by (simp add: word_char_def word_sep_def)

lemma ex_signature_ok: "signature_ok (tt_signature ex_tools s)"
  by (simp add: ex_tools_def ex_signature_def signature_ok_def)


definition ex_repr :: "string \<Rightarrow> representation" where
  "ex_repr s = build_representation ex_tools None None False True None s"

definition ex_node :: "string \<Rightarrow> node_row" where
  "ex_node i = \<lparr>nd_id = i, nd_tenant = ''t'', nd_graph = ''g'', nd_kind = ''atom'', nd_hash = i, nd_raw = None, nd_block = None,
     nd_anchor = None, nd_vector = [], nd_embedding = None, nd_signature = None, nd_residual = 0, nd_level = 0,
     nd_touch = 0, nd_access = None, nd_valid_from = None, nd_valid_to = None, nd_long_term = False, nd_cluster = None,
     nd_cognitive = None, nd_galaxy = None, nd_created = 0, nd_updated = 0\<rparr>"

definition ex_repr_world :: repr_world where
  "ex_repr_world = \<lparr>rw_nodes = [ex_node ''a'', ex_node ''b''], rw_reprs = [], rw_stats = []\<rparr>"

lemma ex_world_current: "stats_current ''t'' ''g'' ex_repr_world"
  by (simp add: stats_current_def ex_repr_world_def stats_lookup_def list_all_reprs_def query_rows_def rebuilt_channel_nil)

lemma ex_repr_upsert: "\<exists>w'. upsert_representation 1 ''t'' ''g'' ''a'' (ex_repr ''a b'') ex_repr_world = Inr (''inserted'', w')
    \<and> rw_reprs w' = [\<lparr>rr_node = ''a'', rr_tenant = ''t'', rr_graph = ''g'', rr_repr = stored_repr (ex_repr ''a b''),
        rr_created = 1, rr_updated = 1\<rparr>] \<and> rw_nodes w' = rw_nodes ex_repr_world"
  by (simp add: upsert_representation_def ex_repr_world_def incremental_update_def)

lemma ex_node_there: "\<exists>n \<in> set (rw_nodes ex_repr_world). nd_id n = ''a'' \<and> node_in ''t'' ''g'' n"
  by (simp add: ex_repr_world_def ex_node_def node_in_def)


lemma ex_repr_ok: "repr_ok (ex_repr s)"
  unfolding ex_repr_def by (rule built_repr_ok) (rule ex_signature_ok)

definition ex_stored :: repr_world where
  "ex_stored = rebuild_graph_stats 1 ''t'' ''g'' (ex_repr_world\<lparr>rw_reprs := [\<lparr>rr_node = ''a'', rr_tenant = ''t'', rr_graph = ''g'',
     rr_repr = ex_repr ''a b'', rr_created = 1, rr_updated = 1\<rparr>]\<rparr>)"

lemma lexical_scores_bounded_witness:
  "\<exists>s components. fst (score_node_ids 2 ''t'' ''g'' (ex_repr ''a'') [''a''] ex_stored) = [(''a'', s, components)] \<and> 0 \<le> s \<and> s \<le> 1"
proof -
  have cur: "stats_current ''t'' ''g'' ex_stored"
    unfolding ex_stored_def stats_current_def stats_lookup_rebuild by simp
  have ok: "\<forall>x \<in> set (rw_reprs ex_stored). repr_ok (rr_repr x)"
    by (simp add: ex_stored_def ex_repr_ok)
  have "\<exists>r. list_reprs_of ''t'' ''g'' [''a''] ex_stored = [r] \<and> rr_node r = ''a''"
    unfolding ex_stored_def rebuild_fields
    by (simp add: list_reprs_of_def query_rows_def repr_in_def ex_repr_world_def ex_node_def node_in_def)
  then obtain r where r: "list_reprs_of ''t'' ''g'' [''a''] ex_stored = [r]" "rr_node r = ''a''" by (elim exE conjE)
  obtain s components where
    sc: "compute_lexical_score (ex_repr ''a'') (rr_repr r) (fst (get_graph_stats 2 ''t'' ''g'' ex_stored)) = (s, components)"
    by (rule prod.exhaust)
  have one: "fst (score_node_ids 2 ''t'' ''g'' (ex_repr ''a'') [''a''] ex_stored) = [(''a'', s, components)]"
    by (simp only: score_rows r sc list.simps)
  obtain w' where res: "score_node_ids 2 ''t'' ''g'' (ex_repr ''a'') [''a''] ex_stored = ([(''a'', s, components)], w')"
    using one by (cases "score_node_ids 2 ''t'' ''g'' (ex_repr ''a'') [''a''] ex_stored") (simp only: fst_conv)
  show ?thesis using lexical_scores_bounded [OF cur ok res] one by auto
qed

end
