(* ===== verification/FM_Propositions.thy ===== *)
theory FM_Propositions
  imports FM_Representation FM_Stemmer
begin

text \<open>
  The deterministic reranker: \<open>core/query/proposition_extractor.py\<close>,
  \<open>core/query/evidence_scoring.py\<close> and \<open>core/query/reranker_v2.py\<close>.

  The canonical form of a text (lemmas, phrase labels, expansions) is a parameter, like the tools a
  representation is built with. Candidates have distinct ids. The lemmas bound the scores and show
  which candidates the reranker suppresses.
\<close>

section \<open>Propositions\<close>

record prop_tuple =
  pr_entity :: string
  pr_relation :: string
  pr_value :: string
  pr_time :: string

record analysis =
  pa_props :: "prop_tuple list"
  pa_entities :: "string list"
  pa_relations :: "string list"
  pa_values :: "string list"
  pa_times :: "string list"
  pa_content :: "string list"

record canonical_text =
  ct_lemmas :: "string list"
  ct_labels :: "string list"
  ct_expansions :: "string list"

definition keep_new :: "string \<Rightarrow> string list \<Rightarrow> string list" where
  "keep_new v seen = (if v = [] \<or> v \<in> set seen then seen else seen @ [v])"

definition unique :: "string list \<Rightarrow> string list" where
  "unique values = fold keep_new (map py_strip values) []"

definition fallback_entities :: "string list \<Rightarrow> string list" where
  "fallback_entities tokens =
     take 3 (unique (filter (\<lambda>t. t \<notin> set STOP_WORDS
       \<and> \<not> list_ex (py_startswith t) [''rel:'', ''date:'', ''year:'', ''time:'', ''num:'']) tokens))"

definition or_blank :: "string list \<Rightarrow> string list" where
  "or_blank xs = (if xs = [] then [''''] else xs)"

definition or_about :: "string list \<Rightarrow> string list" where
  "or_about xs = (if xs = [] then [''rel:about''] else xs)"

definition entities_of :: "representation \<Rightarrow> canonical_text \<Rightarrow> string list" where
  "entities_of r c = (let es = unique (rp_entity r) in if es = [] then fallback_entities (ct_lemmas c) else es)"

definition values_of :: "representation \<Rightarrow> string list \<Rightarrow> string list" where
  "values_of r entities =
     (let vs = unique (map (drop 4) (filter (\<lambda>t. py_startswith t ''num:'') (rp_time r)))
      in if vs = [] \<and> length entities > 1 then unique (take 2 (drop 1 entities)) else vs)"

definition times_of :: "representation \<Rightarrow> string list" where
  "times_of r = unique (filter (\<lambda>t. list_ex (py_startswith t) [''date:'', ''year:'', ''time:'']) (rp_time r))"

definition propositions_of :: "string list \<Rightarrow> string list \<Rightarrow> string list \<Rightarrow> string list \<Rightarrow> prop_tuple list" where
  "propositions_of entities relations values moments =
     concat (map (\<lambda>e. concat (map (\<lambda>r.
       if values \<noteq> [] \<or> moments \<noteq> [] then
         concat (map (\<lambda>v. map (\<lambda>m. \<lparr>pr_entity = e, pr_relation = r, pr_value = v, pr_time = m\<rparr>)
           (or_blank (take 2 moments))) (or_blank (take 2 values)))
       else [\<lparr>pr_entity = e, pr_relation = r, pr_value = [], pr_time = []\<rparr>])
       (take 2 relations))) (take 2 (or_blank entities)))"

definition extract_propositions :: "text_tools \<Rightarrow> (string \<Rightarrow> canonical_text) \<Rightarrow> string \<Rightarrow> representation option \<Rightarrow> analysis" where
  "extract_propositions tt canon text repr =
     (let r = (case repr of Some x \<Rightarrow> x | None \<Rightarrow> build_representation tt None None True True None text);
          c = canon text; entities = entities_of r c;
          relations = or_about (unique (ct_labels c @ filter (\<lambda>v. py_startswith v ''rel:'') (ct_expansions c)));
          values = values_of r entities; moments = times_of r
      in \<lparr>pa_props = propositions_of entities relations values moments, pa_entities = entities, pa_relations = relations,
          pa_values = values, pa_times = moments, pa_content = unique (ct_lemmas c)\<rparr>)"

definition no_analysis :: analysis where
  "no_analysis = \<lparr>pa_props = [], pa_entities = [], pa_relations = [], pa_values = [], pa_times = [], pa_content = []\<rparr>"

definition pair_overlap :: "prop_tuple \<Rightarrow> prop_tuple \<Rightarrow> real" where
  "pair_overlap l r =
     (if pr_entity l \<noteq> [] \<and> pr_entity r \<noteq> [] \<and> pr_entity l = pr_entity r then 35 / 100 else 0)
     + (if pr_relation l = pr_relation r then 35 / 100 else 0)
     + (if pr_value l \<noteq> [] \<and> pr_value r \<noteq> [] \<and> pr_value l = pr_value r then 20 / 100 else 0)
     + (if pr_time l \<noteq> [] \<and> pr_time r \<noteq> [] \<and> pr_time l = pr_time r then 10 / 100 else 0)"

definition proposition_overlap :: "analysis \<Rightarrow> analysis \<Rightarrow> real" where
  "proposition_overlap l r =
     (if pa_props l = [] \<or> pa_props r = [] then 0
      else min (fold (\<lambda>lp. fold (\<lambda>rp best. max best (pair_overlap lp rp)) (pa_props r)) (pa_props l) 0) 1)"

definition first_or :: "string \<Rightarrow> string list \<Rightarrow> string" where
  "first_or d xs = (case xs of [] \<Rightarrow> d | x # _ \<Rightarrow> x)"

definition proposition_signature :: "analysis \<Rightarrow> string \<times> string \<times> string" where
  "proposition_signature a =
     (first_or '''' (pa_entities a), first_or ''rel:about'' (pa_relations a), first_or '''' (pa_times a))"

section \<open>Evidence\<close>

definition jaccard :: "string list \<Rightarrow> string list \<Rightarrow> real" where
  "jaccard l r =
     (let a = set (filter (\<lambda>v. v \<noteq> []) l); b = set (filter (\<lambda>v. v \<noteq> []) r)
      in if a = {} \<or> b = {} then 0 else of_nat (card (a \<inter> b)) / of_nat (card (a \<union> b)))"

definition coverage :: "string list \<Rightarrow> string list \<Rightarrow> real" where
  "coverage q d =
     (let query = filter (\<lambda>v. v \<noteq> []) q in
      if query = [] then 0
      else of_nat (length (filter (\<lambda>t. t \<in> set (filter (\<lambda>v. v \<noteq> []) d)) query)) / of_nat (max (length query) 1))"

definition locality :: "string list \<Rightarrow> string list \<Rightarrow> real" where
  "locality q d =
     (let targets = filter (\<lambda>v. v \<noteq> []) q;
          positions = filter (\<lambda>i. d ! i \<in> set targets) [0..<length d]
      in if targets = [] \<or> d = [] \<or> positions = [] then 0
         else max 0 (1 - of_nat (last positions - hd positions) / of_nat (max (length d) 1)))"

definition compute_evidence_span_score :: "analysis \<Rightarrow> analysis \<Rightarrow> real \<times> scores" where
  "compute_evidence_span_score q d =
     (let c = coverage (pa_content q) (pa_content d); e = jaccard (pa_entities q) (pa_entities d);
          t = jaccard (pa_times q) (pa_times d); v = jaccard (pa_values q) (pa_values d);
          l = locality (pa_content q) (pa_content d)
      in (round6 (min 1 (30 / 100 * c + 25 / 100 * e + 15 / 100 * t + 15 / 100 * v + 15 / 100 * l)),
          [(''coverage'', round6 c), (''entity_overlap'', round6 e), (''time_overlap'', round6 t),
           (''value_overlap'', round6 v), (''locality'', round6 l)]))"

section \<open>The reranker\<close>

record rerank_candidate =
  rc_id :: string
  rc_created :: "int option"
  rc_repr :: "representation option"
  rc_score :: real

record rerank_explain =
  xp_query_sig :: "string \<times> string \<times> string"
  xp_doc_sig :: "string \<times> string \<times> string"
  xp_query_props :: "prop_tuple list"
  xp_doc_props :: "prop_tuple list"
  xp_evidence :: scores
  xp_dominance :: "(string \<times> string) option"

definition doc_analysis :: "text_tools \<Rightarrow> (string \<Rightarrow> canonical_text) \<Rightarrow> rerank_candidate \<Rightarrow> analysis" where
  "doc_analysis tt canon c =
     (case rc_repr c of
        Some r \<Rightarrow> if rp_text r \<noteq> [] then extract_propositions tt canon (rp_text r) (Some r) else no_analysis
      | None \<Rightarrow> no_analysis)"

definition candidate_components :: "analysis \<Rightarrow> analysis \<Rightarrow> real \<times> scores" where
  "candidate_components q d =
     (let e = jaccard (pa_entities q) (pa_entities d); t = jaccard (pa_times q) (pa_times d);
          p = proposition_overlap q d; ev = fst (compute_evidence_span_score q d)
      in (round6 (min 1 (25 / 100 * e + 15 / 100 * t + 35 / 100 * p + 25 / 100 * ev)),
          [(''entity'', round6 e), (''time'', round6 t), (''proposition'', round6 p), (''evidence_span'', round6 ev),
           (''contradiction'', 0)]))"

definition candidate_explain :: "analysis \<Rightarrow> analysis \<Rightarrow> rerank_explain" where
  "candidate_explain q d =
     \<lparr>xp_query_sig = proposition_signature q, xp_doc_sig = proposition_signature d,
      xp_query_props = take 4 (pa_props q), xp_doc_props = take 4 (pa_props d),
      xp_evidence = snd (compute_evidence_span_score q d), xp_dominance = None\<rparr>"

record suppression =
  su_ids :: "string set"
  su_components :: "(string \<times> scores) list"
  su_explain :: "(string \<times> rerank_explain) list"

definition same_topic :: "analysis \<Rightarrow> analysis \<Rightarrow> bool" where
  "same_topic l r \<longleftrightarrow>
     (let (e, rel, _) = proposition_signature l; (e', rel', _) = proposition_signature r in e = e' \<and> rel = rel')"

text \<open>Two analyses the loop compares: enough overlap and the same signature or the same topic.\<close>

definition comparable :: "analysis \<Rightarrow> analysis \<Rightarrow> bool" where
  "comparable l r \<longleftrightarrow>
     \<not> proposition_overlap l r < 70 / 100 \<and> (proposition_signature l = proposition_signature r \<or> same_topic l r)"

definition value_conflict :: "analysis \<Rightarrow> analysis \<Rightarrow> bool" where
  "value_conflict l r \<longleftrightarrow>
     (let lt = set (filter (\<lambda>v. v \<noteq> []) (drop 1 (pa_entities l))); rt = set (filter (\<lambda>v. v \<noteq> []) (drop 1 (pa_entities r)))
      in set (or_blank (pa_values l)) \<noteq> set (or_blank (pa_values r)) \<or> (same_topic l r \<and> lt \<noteq> {} \<and> rt \<noteq> {} \<and> lt \<noteq> rt))"

definition time_conflict :: "analysis \<Rightarrow> analysis \<Rightarrow> bool" where
  "time_conflict l r \<longleftrightarrow> set (or_blank (pa_times l)) \<noteq> set (or_blank (pa_times r))"

definition right_wins :: "scores \<Rightarrow> rerank_candidate \<Rightarrow> rerank_candidate \<Rightarrow> bool" where
  "right_wins totals l r \<longleftrightarrow>
     (case (rc_created l, rc_created r) of (Some a, Some b) \<Rightarrow> b > a | _ \<Rightarrow> False)
     \<or> score_at totals (rc_id r) > score_at totals (rc_id l)"

definition suppress :: "string \<Rightarrow> string \<Rightarrow> bool \<Rightarrow> suppression \<Rightarrow> suppression" where
  "suppress loser winner clash s =
     s\<lparr>su_ids := insert loser (su_ids s),
       su_components := al_put loser (al_put ''contradiction'' (if clash then 1 else 1 / 2)
         (case map_of (su_components s) loser of None \<Rightarrow> [] | Some c \<Rightarrow> c)) (su_components s),
       su_explain := map (\<lambda>(i, x). (i, if i = loser
         then x\<lparr>xp_dominance := Some (winner, if clash then ''conflict'' else ''duplicate'')\<rparr> else x)) (su_explain s)\<rparr>"

definition compare_pair :: "(rerank_candidate \<Rightarrow> analysis) \<Rightarrow> scores \<Rightarrow> rerank_candidate \<Rightarrow> rerank_candidate \<Rightarrow>
    suppression \<Rightarrow> suppression" where
  "compare_pair an totals l r s =
     (if rc_id r \<in> su_ids s \<or> \<not> comparable (an l) (an r) then s
      else let clash = value_conflict (an l) (an r) \<or> time_conflict (an l) (an r)
           in if clash \<and> right_wins totals l r then suppress (rc_id l) (rc_id r) clash s
              else suppress (rc_id r) (rc_id l) clash s)"

fun suppression_loop :: "(rerank_candidate \<Rightarrow> analysis) \<Rightarrow> scores \<Rightarrow> rerank_candidate list \<Rightarrow> suppression \<Rightarrow> suppression" where
  "suppression_loop an totals [] s = s"
| "suppression_loop an totals (l # rs) s =
     suppression_loop an totals rs (if rc_id l \<in> su_ids s then s else fold (compare_pair an totals l) rs s)"

definition rerank_order :: "rerank_candidate \<Rightarrow> real \<times> string" where
  "rerank_order c = (- rc_score c, rc_id c)"

definition score_reranker_v2 :: "text_tools \<Rightarrow> (string \<Rightarrow> canonical_text) \<Rightarrow> string \<Rightarrow> representation \<Rightarrow> rerank_candidate list \<Rightarrow>
    scores \<times> suppression" where
  "score_reranker_v2 tt canon text repr cs =
     (let q = extract_propositions tt canon text (Some repr); an = doc_analysis tt canon;
          totals = map (\<lambda>c. (rc_id c, fst (candidate_components q (an c)))) cs
      in (totals, suppression_loop an totals (sort_key rerank_order cs)
           \<lparr>su_ids = {}, su_components = map (\<lambda>c. (rc_id c, snd (candidate_components q (an c)))) cs,
            su_explain = map (\<lambda>c. (rc_id c, candidate_explain q (an c))) cs\<rparr>))"

section \<open>Overlap\<close>

lemma max_fold: "fold (\<lambda>x b. max b (f x)) xs (b :: real) = Max (insert b (f ` set xs))"
proof (induction xs arbitrary: b)
  case (Cons x xs)
  have "Max (insert (max b (f x)) (f ` set xs)) = Max (insert b (insert (f x) (f ` set xs)))"
    by (cases "xs = []") (auto simp: max.assoc)
  then show ?case using Cons by simp
qed simp

lemma overlap_le_iff:
  "0 \<le> m \<Longrightarrow> fold (\<lambda>lp. fold (\<lambda>rp best. max best (f lp rp)) rs) ls b \<le> (m :: real)
     \<longleftrightarrow> b \<le> m \<and> (\<forall>l \<in> set ls. \<forall>r \<in> set rs. f l r \<le> m)"
  by (induction ls arbitrary: b) (auto simp: max_fold)

lemma pair_overlap_bounds: "0 \<le> pair_overlap l r" "pair_overlap l r \<le> 1" "pair_overlap l r = pair_overlap r l"
  by (auto simp: pair_overlap_def)

lemma overlap_ge: "b \<le> fold (\<lambda>lp. fold (\<lambda>rp best. max best (f lp rp)) rs) ls (b :: real)"
proof (induction ls arbitrary: b)
  case (Cons l ls)
  have "b \<le> fold (\<lambda>rp best. max best (f l rp)) rs b" by (simp add: max_fold)
  then show ?case using Cons order_trans by fastforce
qed simp

lemma overlap_bounds: "0 \<le> proposition_overlap l r" "proposition_overlap l r \<le> 1"
  using overlap_ge [of 0 pair_overlap] by (simp_all add: proposition_overlap_def)

lemma overlap_commute: "proposition_overlap l r = proposition_overlap r l"
proof -
  let ?F = "\<lambda>ls rs. fold (\<lambda>lp. fold (\<lambda>rp best. max best (pair_overlap lp rp)) rs) ls 0"
  have "?F ls rs \<le> ?F rs ls" for ls rs
  proof -
    have m: "0 \<le> ?F rs ls" by (rule overlap_ge)
    have "pair_overlap r l \<le> ?F rs ls" if "r \<in> set rs" "l \<in> set ls" for r l
      using overlap_le_iff [OF m, where f = pair_overlap and rs = ls and ls = rs and b = 0] that by simp
    then show ?thesis
      using overlap_le_iff [OF m, where f = pair_overlap and rs = rs and ls = ls and b = 0] m
      by (metis (no_types, lifting) pair_overlap_bounds(3))
  qed
  then have "?F (pa_props l) (pa_props r) = ?F (pa_props r) (pa_props l)" by (intro order_antisym)
  then show ?thesis by (auto simp: proposition_overlap_def)
qed


section \<open>Extraction\<close>

lemma keep_new_ok: "distinct seen \<and> [] \<notin> set seen \<Longrightarrow> distinct (keep_new v seen) \<and> [] \<notin> set (keep_new v seen)"
  by (auto simp: keep_new_def)

lemma unique_props: "distinct (unique vs)" "[] \<notin> set (unique vs)"
proof -
  have "distinct (fold keep_new xs seen) \<and> [] \<notin> set (fold keep_new xs seen)" if "distinct seen \<and> [] \<notin> set seen" for xs seen
    using that by (induction xs arbitrary: seen) (simp_all add: keep_new_ok)
  from this [of "[]"] show "distinct (unique vs)" "[] \<notin> set (unique vs)" by (simp_all add: unique_def)
qed

lemma propositions_count:
  assumes "relations \<noteq> []"
  shows "1 \<le> length (propositions_of es relations vs ms) \<and> length (propositions_of es relations vs ms) \<le> 16"
proof -
  define E where "E = length (take 2 (or_blank es))"
  define R where "R = length (take 2 relations)"
  define X where "X = (if vs \<noteq> [] \<or> ms \<noteq> [] then length (or_blank (take 2 vs)) * length (or_blank (take 2 ms)) else 1)"
  have "length (propositions_of es relations vs ms) = E * (R * X)"
    by (simp add: propositions_of_def E_def R_def X_def length_concat comp_def sum_list_triv)
  moreover have e: "1 \<le> E" "E \<le> 2" and r: "1 \<le> R" "R \<le> 2" using assms by (cases es; cases relations; auto simp: E_def R_def or_blank_def)+
  moreover have blank: "1 \<le> length (or_blank (take 2 xs)) \<and> length (or_blank (take 2 xs)) \<le> 2" for xs
    by (cases xs) (auto simp: or_blank_def)
  have "1 \<le> X \<and> X \<le> 2 * 2"
    unfolding X_def using mult_le_mono [of "length (or_blank (take 2 vs))" 2 "length (or_blank (take 2 ms))" 2]
      mult_le_mono [of 1 "length (or_blank (take 2 vs))" 1 "length (or_blank (take 2 ms))"] blank [of vs] blank [of ms] by simp
  then have "1 \<le> X" "X \<le> 4" by simp_all
  ultimately have "1 \<le> E * (R * X)" by simp
  moreover have "E * (R * X) \<le> 2 * (2 * 4)" by (intro mult_le_mono) fact+
  ultimately show ?thesis using \<open>length (propositions_of es relations vs ms) = E * (R * X)\<close> by simp
qed

text \<open>
  Extraction is bounded and total: any text yields between one and sixteen propositions, the
  entities, relations and values are distinct and not blank, and the overlap of two analyses is
  symmetric and lies between zero and one.
\<close>

theorem extraction_bounded:
  "let a = extract_propositions tt canon text repr in
     1 \<le> length (pa_props a) \<and> length (pa_props a) \<le> 16 \<and> pa_relations a \<noteq> []
     \<and> distinct (pa_entities a) \<and> [] \<notin> set (pa_entities a) \<and> distinct (pa_values a) \<and> [] \<notin> set (pa_values a)
     \<and> 0 \<le> proposition_overlap a b \<and> proposition_overlap a b \<le> 1 \<and> proposition_overlap a b = proposition_overlap b a"
proof -
  let ?a = "extract_propositions tt canon text repr"
  have rel: "pa_relations ?a \<noteq> []" by (simp add: extract_propositions_def Let_def or_about_def)
  have props: "pa_props ?a = propositions_of (pa_entities ?a) (pa_relations ?a) (pa_values ?a) (pa_times ?a)"
    by (simp add: extract_propositions_def Let_def)
  have es: "distinct (entities_of r c) \<and> [] \<notin> set (entities_of r c)" for r c
    using unique_props by (auto simp: entities_of_def fallback_entities_def Let_def dest: in_set_takeD)
  have vs: "distinct (values_of r e) \<and> [] \<notin> set (values_of r e)" for r e
    using unique_props by (auto simp: values_of_def Let_def)
  show ?thesis
    unfolding Let_def props using rel propositions_count [OF rel] es vs overlap_bounds overlap_commute
    by (simp add: extract_propositions_def Let_def)
qed

section \<open>Suppression\<close>

lemma compare_pair_ids:
  "su_ids (compare_pair an totals l r s) =
     (if rc_id r \<in> su_ids s \<or> \<not> comparable (an l) (an r) then su_ids s
      else if (value_conflict (an l) (an r) \<or> time_conflict (an l) (an r)) \<and> right_wins totals l r
        then insert (rc_id l) (su_ids s) else insert (rc_id r) (su_ids s))"
  by (simp add: compare_pair_def suppress_def Let_def)

text \<open>The inner loop suppresses its left candidate only while a right one stays.\<close>

lemma inner_loop_survivor:
  assumes "rc_id l \<notin> rc_id ` set rs" "distinct (map rc_id rs)"
    and "rc_id l \<in> su_ids s \<longrightarrow> (\<exists>r \<in> set ps. rc_id r \<notin> su_ids s)" "rc_id ` set ps \<inter> rc_id ` set rs = {}"
  shows "rc_id l \<in> su_ids (fold (compare_pair an totals l) rs s)
    \<longrightarrow> (\<exists>r \<in> set (ps @ rs). rc_id r \<notin> su_ids (fold (compare_pair an totals l) rs s))"
  using assms
proof (induction rs arbitrary: s ps)
  case (Cons r rs)
  let ?s = "compare_pair an totals l r s"
  have l: "rc_id l \<in> su_ids ?s \<longrightarrow> (\<exists>r \<in> set (ps @ [r]). rc_id r \<notin> su_ids ?s)"
  proof (cases "rc_id r \<in> su_ids s \<or> \<not> comparable (an l) (an r)")
    case True
    then show ?thesis using Cons.prems(3) by (auto simp: compare_pair_ids)
  next
    case False
    show ?thesis
    proof (cases "(value_conflict (an l) (an r) \<or> time_conflict (an l) (an r)) \<and> right_wins totals l r")
      case True
      then have "rc_id r \<notin> su_ids ?s" using False Cons.prems(1) by (auto simp: compare_pair_ids)
      then show ?thesis by auto
    next
      case w: False
      then have ids: "su_ids ?s = insert (rc_id r) (su_ids s)" using False by (auto simp: compare_pair_ids)
      have "rc_id r \<notin> rc_id ` set ps" using Cons.prems(4) by auto
      then have "rc_id x \<noteq> rc_id r" if "x \<in> set ps" for x using that by (metis imageI)
      then show ?thesis using Cons.prems(1,3) by (auto simp: ids)
    qed
  qed
  have "rc_id ` set (ps @ [r]) \<inter> rc_id ` set rs = {}" using Cons.prems(2,4) by auto
  then show ?case using Cons.IH [OF _ _ l] Cons.prems(1,2) by simp
qed simp

lemma inner_loop_ids:
  "su_ids (fold (compare_pair an totals l) rs s) \<subseteq> su_ids s \<union> {rc_id l} \<union> rc_id ` set rs"
proof (induction rs arbitrary: s)
  case (Cons r rs)
  have "su_ids (compare_pair an totals l r s) \<subseteq> su_ids s \<union> {rc_id l, rc_id r}"
    unfolding compare_pair_ids by auto
  then show ?case using Cons.IH [of "compare_pair an totals l r s"] by (simp only: fold.simps comp_apply list.set) blast
qed auto

lemma suppression_survivor:
  assumes "distinct (map rc_id (ps @ cs))" "\<exists>c \<in> set (ps @ cs). rc_id c \<notin> su_ids s"
  shows "\<exists>c \<in> set (ps @ cs). rc_id c \<notin> su_ids (suppression_loop an totals cs s)"
  using assms
proof (induction cs arbitrary: ps s)
  case (Cons l rs)
  let ?s = "if rc_id l \<in> su_ids s then s else fold (compare_pair an totals l) rs s"
  have "\<exists>c \<in> set ((ps @ [l]) @ rs). rc_id c \<notin> su_ids ?s"
  proof (cases "rc_id l \<in> su_ids s")
    case False
    then show ?thesis
      using inner_loop_survivor [of l rs s "[]" an totals] Cons.prems(1) by (cases "rc_id l \<in> su_ids ?s") auto
  qed (use Cons.prems(2) in simp)
  then show ?case using Cons.IH [of "ps @ [l]" ?s] Cons.prems(1) by simp
qed simp

text \<open>
  The reranker never suppresses everything: for candidates with distinct ids there is one that is
  not suppressed, although the loop goes on comparing a candidate after suppressing it; and only
  candidates are suppressed.
\<close>

theorem reranker_keeps_one:
  assumes "cs \<noteq> []" "distinct (map rc_id cs)" "score_reranker_v2 tt canon text repr cs = (totals, s)"
  shows "(\<exists>c \<in> set cs. rc_id c \<notin> su_ids s) \<and> su_ids s \<subseteq> rc_id ` set cs"
proof -
  obtain s0 where s: "s = suppression_loop (doc_analysis tt canon) totals (sort_key rerank_order cs) s0" and s0: "su_ids s0 = {}"
    using assms(3) by (auto simp: score_reranker_v2_def Let_def)
  have d: "distinct (map rc_id ([] @ sort_key rerank_order cs))" using assms(2) by (simp add: distinct_map)
  have "\<exists>c \<in> set ([] @ sort_key rerank_order cs). rc_id c \<notin> su_ids s"
    unfolding s by (rule suppression_survivor [OF d]) (use assms(1) s0 in \<open>simp add: ex_in_conv\<close>)
  moreover have "su_ids (suppression_loop an totals xs x) \<subseteq> su_ids x \<union> rc_id ` set xs" for an totals xs x
  proof (induction xs arbitrary: x)
    case (Cons l rs)
    then show ?case using inner_loop_ids [of an totals l rs x] by (fastforce split: if_splits)
  qed simp
  ultimately show ?thesis using s s0 by fastforce
qed

text \<open>
  The newer document can lose: of two comparable candidates in conflict, the one created later and
  with the better base score is suppressed when the other, older one has the larger reranker total
  (the time decides only in favour of the candidate with the worse base score).
\<close>

theorem newer_conflicting_suppressed:
  assumes "rc_id a \<noteq> rc_id b" "rc_score a > rc_score b"
    and "score_reranker_v2 tt canon text repr [a, b] = (totals, s)"
    and "comparable (doc_analysis tt canon a) (doc_analysis tt canon b)"
    and "value_conflict (doc_analysis tt canon a) (doc_analysis tt canon b)"
    and "rc_created a = Some later" "rc_created b = Some earlier" "earlier < later"
    and "score_at totals (rc_id a) < score_at totals (rc_id b)"
  shows "su_ids s = {rc_id a}"
proof -
  have "sort_key rerank_order [a, b] = [a, b]" using assms(2) by (simp add: rerank_order_def)
  then obtain s0 where s: "s = suppression_loop (doc_analysis tt canon) totals [a, b] s0" and s0: "su_ids s0 = {}"
    using assms(3) by (auto simp: score_reranker_v2_def Let_def simp del: suppression_loop.simps)
  have w: "right_wins totals a b" using assms(9) by (simp add: right_wins_def)
  have ids: "su_ids (compare_pair (doc_analysis tt canon) totals a b s0) = {rc_id a}"
    using assms(1,4,5) w s0 by (simp add: compare_pair_ids)
  show ?thesis using ids assms(1) s0 by (simp add: s)
qed


section \<open>Examples\<close>

definition ex_canon :: "string \<Rightarrow> canonical_text" where
  "ex_canon text = \<lparr>ct_lemmas = [], ct_labels = [''rel:is''], ct_expansions = []\<rparr>"

definition ex_valued :: "string \<Rightarrow> representation" where
  "ex_valued v = (ex_repr ''x'')\<lparr>rp_text := ''x'', rp_entity := [''e''], rp_time := [''num:'' @ v]\<rparr>"

definition ex_analysis :: "string \<Rightarrow> analysis" where
  "ex_analysis v = \<lparr>pa_props = [\<lparr>pr_entity = ''e'', pr_relation = ''rel:is'', pr_value = v, pr_time = []\<rparr>],
     pa_entities = [''e''], pa_relations = [''rel:is''], pa_values = [v], pa_times = [], pa_content = []\<rparr>"

lemma ex_extract:
  "extract_propositions tt ex_canon text (Some (ex_valued ''1'')) = ex_analysis ''1''"
  "extract_propositions tt ex_canon text (Some (ex_valued ''2'')) = ex_analysis ''2''"
  by (simp_all add: extract_propositions_def Let_def ex_canon_def ex_valued_def ex_analysis_def entities_of_def values_of_def
      times_of_def propositions_of_def unique_def keep_new_def py_strip_def py_isspace_def or_about_def or_blank_def py_startswith_def)

definition ex_candidate :: "string \<Rightarrow> int \<Rightarrow> string \<Rightarrow> real \<Rightarrow> rerank_candidate" where
  "ex_candidate i created v score = \<lparr>rc_id = i, rc_created = Some created, rc_repr = Some (ex_valued v), rc_score = score\<rparr>"

lemma ex_doc:
  "doc_analysis tt ex_canon (ex_candidate i c ''1'' s) = ex_analysis ''1''"
  "doc_analysis tt ex_canon (ex_candidate i c ''2'' s) = ex_analysis ''2''"
  by (simp_all add: doc_analysis_def ex_candidate_def ex_extract) (simp_all add: ex_valued_def)

lemma ex_overlap: "proposition_overlap (ex_analysis ''2'') (ex_analysis ''1'') = 7 / 10"
  "proposition_overlap (ex_analysis ''1'') (ex_analysis ''2'') = 7 / 10"
  "proposition_overlap (ex_analysis ''2'') (ex_analysis ''2'') = 9 / 10"
  by (simp_all add: proposition_overlap_def pair_overlap_def ex_analysis_def)

lemma ex_conflict: "comparable (ex_analysis ''1'') (ex_analysis ''2'')" "value_conflict (ex_analysis ''1'') (ex_analysis ''2'')"
  unfolding comparable_def ex_overlap
  by (simp_all add: value_conflict_def proposition_signature_def same_topic_def first_or_def or_blank_def ex_analysis_def)

lemma ex_totals:
  "fst (candidate_components (ex_analysis ''2'') (ex_analysis ''1'')) = 557500 / 10 ^ 6"
  "fst (candidate_components (ex_analysis ''2'') (ex_analysis ''2'')) = 665000 / 10 ^ 6"
  unfolding candidate_components_def Let_def ex_overlap
  by (simp_all add: compute_evidence_span_score_def Let_def coverage_def locality_def
      jaccard_def ex_analysis_def round6_def round_even_def)

lemma reranker_keeps_one_witness:
  "\<exists>totals s. score_reranker_v2 ex_tools ex_canon ''q'' (ex_valued ''2'') [ex_candidate ''a'' 2 ''1'' 1] = (totals, s)
    \<and> ''a'' \<notin> su_ids s"
proof -
  obtain totals s where r: "score_reranker_v2 ex_tools ex_canon ''q'' (ex_valued ''2'') [ex_candidate ''a'' 2 ''1'' 1] = (totals, s)"
    by (rule prod.exhaust)
  show ?thesis using reranker_keeps_one [OF _ _ r] r by (auto simp: ex_candidate_def)
qed

lemma newer_conflicting_suppressed_witness:
  "\<exists>totals s. score_reranker_v2 ex_tools ex_canon ''q'' (ex_valued ''2'')
      [ex_candidate ''a'' 2 ''1'' 1, ex_candidate ''b'' 1 ''2'' 0] = (totals, s) \<and> su_ids s = {''a''}"
proof -
  let ?a = "ex_candidate ''a'' 2 ''1'' 1" and ?b = "ex_candidate ''b'' 1 ''2'' 0"
  obtain totals s where r: "score_reranker_v2 ex_tools ex_canon ''q'' (ex_valued ''2'') [?a, ?b] = (totals, s)"
    by (rule prod.exhaust)
  have t: "totals = [(''a'', 557500 / 10 ^ 6), (''b'', 665000 / 10 ^ 6)]"
  proof -
    have "totals = map (\<lambda>c. (rc_id c, fst (candidate_components (ex_analysis ''2'') (doc_analysis ex_tools ex_canon c)))) [?a, ?b]"
      using r by (simp add: score_reranker_v2_def Let_def ex_extract del: list.map)
    then show ?thesis by (simp add: ex_doc ex_totals) (simp add: ex_candidate_def)
  qed
  have "su_ids s = {rc_id ?a}"
    by (rule newer_conflicting_suppressed [OF _ _ r, where later = 2 and earlier = 1])
      (simp_all add: ex_doc ex_conflict t score_at_def, simp_all add: ex_candidate_def)
  then show ?thesis using r by (auto simp: ex_candidate_def)
qed

end
