(* ===== verification/FM_Late_Interaction.thy ===== *)
theory FM_Late_Interaction
  imports FM_Representation
begin

text \<open>
  The symbolic late interaction scorer, \<open>core/query/late_interaction_native.py\<close>: query units meet the
  units of a document channel by channel, each with its best match.

  German transliteration (\<open>lexical/transliteration.py\<close>, Unicode normal forms) is a parameter; text is
  ASCII, floats are real numbers. The lemmas bound the scores and show that a document compared with
  itself scores one in every channel it has.
\<close>

section \<open>Units\<close>

record late_unit =
  lu_value :: string
  lu_weight :: real
  lu_channel :: string

record late_match =
  lm_query :: string
  lm_value :: string
  lm_channel :: string
  lm_score :: real
  lm_weight :: real

definition late_tokens :: "string \<Rightarrow> string list" where
  "late_tokens text = word_tokens (py_lower text)"

definition late_phrases :: "string list \<Rightarrow> string list" where
  "late_phrases tokens = map (py_join '' '') (groups_of 2 tokens @ groups_of 3 tokens)"

definition sorted_values :: "string list \<Rightarrow> string list" where
  "sorted_values items = sort (remdups (filter (\<lambda>v. v \<noteq> []) items))"

text \<open>What follows the first occurrence of a separator, the whole text when there is none.\<close>

fun find_after :: "string \<Rightarrow> string \<Rightarrow> string option" where
  "find_after sep [] = None"
| "find_after sep (c # cs) = (if py_startswith (c # cs) sep then Some (drop (length sep) (c # cs)) else find_after sep cs)"

definition after_first :: "string \<Rightarrow> string \<Rightarrow> string" where
  "after_first sep s = (case find_after sep s of None \<Rightarrow> s | Some r \<Rightarrow> r)"

definition alias_members :: "string \<Rightarrow> string list" where
  "alias_members family =
     filter (\<lambda>m. m \<noteq> []) (map (\<lambda>m. py_strip (map (\<lambda>c. if c = CHR ''_'' then CHR '' '' else c) m))
       (py_split CHR ''|'' (after_first ''alias:'' family)))"

definition alias_bridge_values :: "representation \<Rightarrow> string list" where
  "alias_bridge_values r =
     sort (remdups (concat (map (\<lambda>f. if f = [] then [] else f # alias_members f) (rp_alias r))
       @ late_phrases (late_tokens (rp_text r))))"

definition translit_bridge_values :: "(string \<Rightarrow> string) \<Rightarrow> representation \<Rightarrow> string list" where
  "translit_bridge_values translit r =
     sort (remdups (filter (\<lambda>v. v \<noteq> []) (rp_translit r) @ late_tokens (rp_text r) @ late_tokens (translit (rp_text r))))"

definition LATE_CHANNELS :: "string list" where
  "LATE_CHANNELS = [''token'', ''phrase'', ''alias'', ''translit'', ''stem_family'', ''relation'', ''value'', ''temporal'']"

definition doc_units :: "(string \<Rightarrow> string) \<Rightarrow> representation \<Rightarrow> string \<Rightarrow> string list" where
  "doc_units translit r ch =
     (let tokens = late_tokens (rp_text r) in
      if ch = ''token'' then sort (remdups tokens)
      else if ch = ''phrase'' then sort (remdups (late_phrases tokens))
      else if ch = ''alias'' then alias_bridge_values r
      else if ch = ''translit'' then translit_bridge_values translit r
      else if ch = ''stem_family'' then sorted_values (rp_stem r)
      else if ch = ''relation'' then sorted_values (rp_relation r)
      else if ch = ''value'' then sorted_values (rp_value r)
      else sorted_values (rp_temporal r))"

definition unit_weight :: "string \<Rightarrow> string \<Rightarrow> real" where
  "unit_weight ch v =
     (if ch = ''token'' then 1
      else if ch = ''phrase'' then if length (py_split_ws v) = 3 then 115 / 100 else 1
      else if ch = ''alias'' then 95 / 100
      else if ch = ''translit'' then 82 / 100
      else if ch = ''stem_family'' then 80 / 100
      else if ch = ''relation'' then 90 / 100
      else 88 / 100)"

text \<open>The query units: tokens and phrases with repetition, the other channels as the document has them.\<close>

definition query_values :: "(string \<Rightarrow> string) \<Rightarrow> representation \<Rightarrow> string \<Rightarrow> string list" where
  "query_values translit r ch =
     (let tokens = late_tokens (rp_text r) in
      if ch = ''token'' then tokens else if ch = ''phrase'' then late_phrases tokens else doc_units translit r ch)"

definition query_units :: "(string \<Rightarrow> string) \<Rightarrow> representation \<Rightarrow> string \<Rightarrow> late_unit list" where
  "query_units translit r ch =
     map (\<lambda>v. \<lparr>lu_value = v, lu_weight = unit_weight ch v, lu_channel = ch\<rparr>) (query_values translit r ch)"

section \<open>Matching\<close>

definition part_score :: "string list \<Rightarrow> string \<Rightarrow> real" where
  "part_score up cand =
     (let cp = py_split_ws cand; overlap = card (set up \<inter> set cp)
      in if cp = [] \<or> overlap = 0 then 0 else of_nat overlap / of_nat (max (length up) (length cp)))"

definition unit_match :: "bool \<Rightarrow> string list \<Rightarrow> string \<Rightarrow> real \<times> string" where
  "unit_match partial docs v =
     (if v \<in> set docs then (1, v)
      else if partial \<and> py_split_ws v \<noteq> [] then
        fold (\<lambda>c best. if part_score (py_split_ws v) c > fst best then (part_score (py_split_ws v) c, c) else best)
          (sort (remdups docs)) (0, [])
      else (0, []))"

definition match_order :: "late_match \<Rightarrow> real \<times> real \<times> string \<times> string" where
  "match_order m = (- lm_score m, - lm_weight m, lm_query m, lm_value m)"

definition maxsim_units :: "late_unit list \<Rightarrow> string list \<Rightarrow> bool \<Rightarrow> real \<times> late_match list" where
  "maxsim_units units doc_values partial =
     (let docs = filter (\<lambda>v. v \<noteq> []) doc_values; us = filter (\<lambda>u. lu_value u \<noteq> []) units;
          norm = sum_list (map lu_weight us);
          total = sum_list (map (\<lambda>u. lu_weight u * fst (unit_match partial docs (lu_value u))) us);
          matched = concat (map (\<lambda>u. let (s, m) = unit_match partial docs (lu_value u) in
            if s > 0 then [\<lparr>lm_query = lu_value u, lm_value = m, lm_channel = lu_channel u, lm_score = round6 s,
                            lm_weight = round6 (lu_weight u)\<rparr>] else []) us)
      in if units = [] \<or> docs = [] \<or> norm \<le> 0 then (0, [])
         else (total / norm, take 12 (sort_key match_order matched)))"

definition count_overlap_ratio :: "counts option \<Rightarrow> counts option \<Rightarrow> real" where
  "count_overlap_ratio left right =
     (let l = or_empty left; r = or_empty right; pos = filter (\<lambda>p. snd p > 0) l;
          numerator = sum_list (map (\<lambda>p. min (snd p) (max 0 (count_at r (fst p)))) pos);
          denominator = sum_list (map snd pos)
      in if l = [] \<or> r = [] \<or> denominator \<le> 0 then 0 else of_int numerator / of_int denominator)"

section \<open>The score\<close>

record late_score =
  ls_total :: real
  ls_components :: scores
  ls_matched :: "(string \<times> late_match list) list"
  ls_unit_counts :: "(string \<times> nat) list"

definition LATE_WEIGHTS :: scores where
  "LATE_WEIGHTS = [(''token_maxsim'', 16 / 100), (''phrase_maxsim'', 19 / 100), (''semantic_phrase_overlap'', 12 / 100),
     (''concept_overlap'', 12 / 100), (''morphology_overlap'', 7 / 100), (''alias_bridge'', 8 / 100),
     (''translit_bridge'', 5 / 100), (''stem_bridge'', 5 / 100), (''relation_alignment'', 6 / 100),
     (''value_alignment'', 5 / 100), (''temporal_alignment'', 5 / 100)]"

definition late_components :: "(string \<Rightarrow> real) \<Rightarrow> representation \<Rightarrow> representation \<Rightarrow> scores" where
  "late_components sim q d =
     [(''token_maxsim'', sim ''token''), (''phrase_maxsim'', sim ''phrase''),
      (''semantic_phrase_overlap'', count_overlap_ratio (rp_semantic q) (rp_semantic d)),
      (''concept_overlap'', count_overlap_ratio (rp_concept q) (rp_concept d)),
      (''morphology_overlap'', count_overlap_ratio (rp_morphology q) (rp_morphology d)),
      (''alias_bridge'', sim ''alias''), (''translit_bridge'', sim ''translit''), (''stem_bridge'', sim ''stem_family''),
      (''relation_alignment'', sim ''relation''), (''value_alignment'', sim ''value''), (''temporal_alignment'', sim ''temporal'')]"

definition score_late_interaction :: "(string \<Rightarrow> string) \<Rightarrow> representation \<Rightarrow> representation option \<Rightarrow> late_score" where
  "score_late_interaction translit q doc =
     (case doc of
        None \<Rightarrow> \<lparr>ls_total = 0, ls_components = map (\<lambda>(n, _). (n, 0)) LATE_WEIGHTS, ls_matched = [], ls_unit_counts = []\<rparr>
      | Some d \<Rightarrow>
          let res = (\<lambda>ch. maxsim_units (query_units translit q ch) (doc_units translit d ch) (ch = ''token'' \<or> ch = ''phrase''));
              cs = late_components (fst \<circ> res) q d
          in \<lparr>ls_total = round6 (min 1 (sum_list (map (\<lambda>(n, x). score_at LATE_WEIGHTS n * x) cs))),
              ls_components = map (\<lambda>(n, x). (n, round6 x)) cs,
              ls_matched = map (\<lambda>ch. (ch, snd (res ch))) LATE_CHANNELS,
              ls_unit_counts = map (\<lambda>ch. (ch, length (query_units translit q ch))) LATE_CHANNELS\<rparr>)"

section \<open>Bounds\<close>

lemma part_score_unit: "unit_score (part_score up cand)"
proof -
  have "card (set up \<inter> set (py_split_ws cand)) \<le> length up"
    using card_mono [of "set up" "set up \<inter> set (py_split_ws cand)"] card_length [of up] by simp
  then show ?thesis by (auto simp: part_score_def Let_def unit_score_def divide_le_eq max_def)
qed

lemma unit_match_unit: "unit_score (fst (unit_match partial docs v))"
proof -
  have "unit_score (fst (fold (\<lambda>c best. if part_score up c > fst best then (part_score up c, c) else best) cs b))"
    if "unit_score (fst b)" for up cs b
    using that by (induction cs arbitrary: b) (simp_all add: part_score_unit)
  then show ?thesis by (simp add: unit_match_def unit_score_def)
qed

lemma weighted_unit:
  assumes "\<forall>u \<in> set us. w u \<ge> 0 \<and> unit_score (f u)"
  shows "0 \<le> sum_list (map (\<lambda>u. w u * f u) us)" "sum_list (map (\<lambda>u. w u * f u) us) \<le> sum_list (map w us)"
  using assms by (induction us) (auto simp: unit_score_def intro!: add_nonneg_nonneg add_mono mult_left_le)

lemma maxsim_unit:
  assumes "\<forall>u \<in> set units. lu_weight u \<ge> 0"
  shows "unit_score (fst (maxsim_units units docs partial))"
proof -
  let ?us = "filter (\<lambda>u. lu_value u \<noteq> []) units"
  have "\<forall>u \<in> set ?us. lu_weight u \<ge> 0 \<and> unit_score (fst (unit_match partial (filter (\<lambda>v. v \<noteq> []) docs) (lu_value u)))"
    using assms unit_match_unit by simp
  note b = weighted_unit [OF this]
  show ?thesis using b by (auto simp: maxsim_units_def Let_def unit_score_def divide_le_eq not_le)
qed

lemma count_ratio_unit: "unit_score (count_overlap_ratio l r)"
proof -
  have "0 \<le> sum_list (map (\<lambda>p. min (snd p) (max 0 (count_at m (fst p)))) (filter (\<lambda>p. snd p > 0) c))
    \<and> sum_list (map (\<lambda>p. min (snd p) (max 0 (count_at m (fst p)))) (filter (\<lambda>p. snd p > 0) c)) \<le> sum_list (map snd (filter (\<lambda>p. snd p > 0) c))"
    for c m :: counts by (induction c) (auto simp: min_def)
  then show ?thesis by (auto simp: count_overlap_ratio_def Let_def unit_score_def divide_le_eq)
qed

lemma unit_weight_pos: "unit_weight ch v > 0"
  by (simp add: unit_weight_def)

lemma late_components_unit:
  "\<forall>p \<in> set (late_components (\<lambda>ch. fst (maxsim_units (query_units translit q ch) (doc_units translit d ch) (P ch))) q d). unit_score (snd p)"
proof -
  have "unit_score (fst (maxsim_units (query_units translit q ch) docs b))" for ch docs b
    by (rule maxsim_unit) (auto simp: query_units_def intro: less_imp_le unit_weight_pos)
  then show ?thesis by (simp add: late_components_def count_ratio_unit)
qed

text \<open>
  Late interaction is bounded: the total and every component lie between zero and one for any
  query and document, so the cap on the total is never reached from above.
\<close>

theorem late_interaction_bounded:
  "0 \<le> ls_total (score_late_interaction translit q doc) \<and> ls_total (score_late_interaction translit q doc) \<le> 1
    \<and> (\<forall>p \<in> set (ls_components (score_late_interaction translit q doc)). 0 \<le> snd p \<and> snd p \<le> 1)"
proof (cases doc)
  case None
  then show ?thesis by (auto simp: score_late_interaction_def)
next
  case (Some d)
  let ?cs = "late_components (\<lambda>ch. fst (maxsim_units (query_units translit q ch) (doc_units translit d ch) (ch = ''token'' \<or> ch = ''phrase''))) q d"
  have u: "\<forall>p \<in> set ?cs. unit_score (snd p)" by (rule late_components_unit)
  have "0 \<le> sum_list (map (\<lambda>(n, x). score_at LATE_WEIGHTS n * x) ?cs)"
    using u by (intro sum_list_nonneg) (auto simp: late_components_def LATE_WEIGHTS_def score_at_def unit_score_def)
  then have "unit_score (round6 (min 1 (sum_list (map (\<lambda>(n, x). score_at LATE_WEIGHTS n * x) ?cs))))"
    by (intro unit_scores(5)) (simp add: unit_score_def)
  moreover have "unit_score (round6 (snd p))" if "p \<in> set ?cs" for p using u that unit_scores(5) by blast
  ultimately show ?thesis
    unfolding score_late_interaction_def Some option.case Let_def comp_def late_score.simps
    by (auto simp: unit_score_def)
qed

section \<open>A document and itself\<close>

lemma maxsim_self:
  assumes "\<forall>u \<in> set units. lu_weight u > 0 \<and> lu_value u \<in> set docs"
  shows "fst (maxsim_units units docs partial) = (if \<exists>u \<in> set units. lu_value u \<noteq> [] then 1 else 0)"
proof -
  let ?us = "filter (\<lambda>u. lu_value u \<noteq> []) units" and ?docs = "filter (\<lambda>v. v \<noteq> []) docs"
  have "\<forall>u \<in> set ?us. unit_match partial ?docs (lu_value u) = (1, lu_value u)" using assms by (simp add: unit_match_def)
  then have eq: "map (\<lambda>u. lu_weight u * fst (unit_match partial ?docs (lu_value u))) ?us = map lu_weight ?us" by simp
  show ?thesis
  proof (cases "\<exists>u \<in> set units. lu_value u \<noteq> []")
    case True
    then have ne: "?us \<noteq> []" by (simp add: filter_empty_conv)
    have pos: "sum_list (map lu_weight us) > 0" if "us \<noteq> []" "\<forall>u \<in> set us. lu_weight u > 0" for us
      using that by (induction us) (auto, metis add.right_neutral add_pos_pos list.simps(8) sum_list.Nil)
    have "sum_list (map lu_weight ?us) > 0" using assms by (intro pos [OF ne]) simp
    moreover have "units \<noteq> []" "?docs \<noteq> []" using True assms by (auto simp: filter_empty_conv)
    ultimately show ?thesis using True unfolding maxsim_units_def Let_def eq by simp
  next
    case False
    then have "?us = []" by (simp add: filter_empty_conv)
    then show ?thesis using False by (auto simp: maxsim_units_def)
  qed
qed


lemma count_ratio_self:
  assumes "counts_ok (or_empty c)"
  shows "count_overlap_ratio c c = (if \<exists>p \<in> set (or_empty c). snd p > 0 then 1 else 0)"
proof -
  let ?pos = "filter (\<lambda>p. snd p > 0) (or_empty c)"
  have "count_at (or_empty c) (fst p) = snd p" if "p \<in> set (or_empty c)" for p
    using assms that by (cases p) (simp add: count_at_def counts_ok_def al_keys_def)
  then have num: "map (\<lambda>p. min (snd p) (max 0 (count_at (or_empty c) (fst p)))) ?pos = map snd ?pos" by simp
  show ?thesis
  proof (cases "\<exists>p \<in> set (or_empty c). snd p > 0")
    case True
    have "sum_list (map snd ps) > 0" if "ps \<noteq> []" "\<forall>p \<in> set ps. snd p > 0" for ps :: counts
      using that by (induction ps) (auto, metis add.right_neutral add_pos_pos list.simps(8) sum_list.Nil)
    moreover have "?pos \<noteq> []" using True by (simp add: filter_empty_conv)
    ultimately have "sum_list (map snd ?pos) > 0" by simp
    moreover have "or_empty c \<noteq> []" using True by auto
    ultimately show ?thesis using True unfolding count_overlap_ratio_def Let_def num by simp
  next
    case False
    then have "?pos = []" by (auto simp: filter_empty_conv)
    then show ?thesis using False by (simp add: count_overlap_ratio_def Let_def)
  qed
qed

lemma query_values_in_doc: "set (query_values translit r ch) = set (doc_units translit r ch)"
  by (simp add: query_values_def doc_units_def Let_def)

text \<open>
  A document compared with itself: every component is zero or one (one exactly when the channel
  has something to compare), the token component is one as soon as the text has a word, and the
  total is one when no channel is empty.
\<close>

theorem late_interaction_self:
  assumes "repr_ok r"
  shows "(\<forall>p \<in> set (ls_components (score_late_interaction translit r (Some r))). snd p = 0 \<or> snd p = 1)
    \<and> (late_tokens (rp_text r) \<noteq> [] \<longrightarrow> (''token_maxsim'', 1) \<in> set (ls_components (score_late_interaction translit r (Some r))))
    \<and> ((\<forall>p \<in> set (ls_components (score_late_interaction translit r (Some r))). snd p \<noteq> 0)
        \<longrightarrow> ls_total (score_late_interaction translit r (Some r)) = 1)"
proof -
  define sim where "sim = (\<lambda>ch. fst (maxsim_units (query_units translit r ch) (doc_units translit r ch) (ch = ''token'' \<or> ch = ''phrase'')))"
  let ?cs = "late_components sim r r"
  have sim: "sim ch = (if \<exists>u \<in> set (query_units translit r ch). lu_value u \<noteq> [] then 1 else 0)" for ch
    unfolding sim_def by (rule maxsim_self) (auto simp: query_units_def unit_weight_pos query_values_in_doc)
  have bin: "\<forall>p \<in> set ?cs. snd p = 0 \<or> snd p = 1"
  proof -
    have "sim ch = 0 \<or> sim ch = 1" for ch by (simp add: sim)
    moreover have "count_overlap_ratio c c = 0 \<or> count_overlap_ratio c c = 1" if "counts_ok (or_empty c)" for c
      by (simp add: count_ratio_self that)
    ultimately show ?thesis using assms by (simp add: late_components_def repr_ok_def)
  qed
  have r6: "round6 0 = 0" "round6 1 = 1" by (simp_all add: round6_def round_even_def)
  have comps: "ls_components (score_late_interaction translit r (Some r)) = map (\<lambda>(n, x). (n, round6 x)) ?cs"
    and total: "ls_total (score_late_interaction translit r (Some r))
      = round6 (min 1 (sum_list (map (\<lambda>(n, x). score_at LATE_WEIGHTS n * x) ?cs)))"
    unfolding score_late_interaction_def option.case Let_def sim_def comp_def late_score.simps by (rule refl)+
  have same: "map (\<lambda>(n, x). (n, round6 x)) ?cs = ?cs" using bin r6 by (intro map_idI) auto
  have tok: "sim ''token'' = 1" if "late_tokens (rp_text r) \<noteq> []"
  proof -
    have "[] \<notin> set (word_tokens s)" for s
      by (induction s rule: word_tokens.induct) (auto split: prod.splits)
    then have "hd (late_tokens (rp_text r)) \<noteq> []" using that hd_in_set unfolding late_tokens_def by metis
    then show ?thesis using that hd_in_set [OF that] unfolding sim by (auto simp: query_units_def query_values_def Let_def)
  qed
  have "ls_total (score_late_interaction translit r (Some r)) = 1" if "\<forall>p \<in> set ?cs. snd p \<noteq> 0"
  proof -
    have "\<forall>p \<in> set ?cs. snd p = 1" using that bin by blast
    then have "map (\<lambda>(n, x). score_at LATE_WEIGHTS n * x) ?cs = map (\<lambda>p. score_at LATE_WEIGHTS (fst p)) ?cs" by auto
    then have "sum_list (map (\<lambda>(n, x). score_at LATE_WEIGHTS n * x) ?cs) = 1"
      by (simp only:) (simp add: late_components_def LATE_WEIGHTS_def score_at_def)
    then show ?thesis unfolding total by (simp add: r6)
  qed
  then show ?thesis unfolding comps same using bin tok by (auto simp: late_components_def)
qed

lemma late_interaction_self_witness:
  "(''token_maxsim'', 1) \<in> set (ls_components (score_late_interaction id (ex_repr ''a b'') (Some (ex_repr ''a b''))))"
proof -
  have "rp_text (ex_repr ''a b'') = ''a b''"
    by (simp add: ex_repr_def build_representation_def Let_def py_strip_def py_isspace_def)
  then have "late_tokens (rp_text (ex_repr ''a b'')) \<noteq> []"
    by (simp add: late_tokens_def py_lower_def py_lower_char_def word_char_def split: prod.splits)
  then show ?thesis using late_interaction_self [OF ex_repr_ok [of "''a b''"], of id] by blast
qed

end
