(* ===== verification/FM_Rerank.thy ===== *)
theory FM_Rerank
  imports FM_Recall FM_Propositions FM_Late_Interaction
begin

text \<open>
  The last stage of a query, \<open>rerank_faim\<close> of \<open>core/query/query_engine.py\<close> with the temporal labels,
  the fusion summary and the explain payload; the modality rows it reads
  (\<open>store/pg/repos/modality_repo.py\<close>).

  It combines the node score of \<open>FM_Recall\<close>, lexical and graph scores given by the caller, the
  reranker of \<open>FM_Propositions\<close> and the scorer of \<open>FM_Late_Interaction\<close>, and then resolves
  contradictions between candidates along inheritance and opposition edges. Times are integers, one
  clock reading per query. The lemmas show what is returned and how contradictions are resolved.
\<close>

section \<open>Rows and results\<close>

record modality_row =
  md_node :: string
  md_tenant :: string
  md_graph :: string
  md_hash :: string
  md_ocr :: string
  md_table :: string
  md_layout :: "string list"
  md_phash :: string
  md_filename :: "string list"
  md_caption :: "string list"
  md_metadata :: "string list"
  md_created :: int
  md_updated :: int

definition list_modality_of :: "string \<Rightarrow> string \<Rightarrow> string list \<Rightarrow> modality_row list \<Rightarrow> modality_row list" where
  "list_modality_of t g ids rows =
     (if ids = [] then [] else query_rows (\<lambda>r. md_tenant r = t \<and> md_graph r = g \<and> md_node r \<in> set ids) md_node rows)"

record fusion_debug =
  fd_core :: real
  fd_contributions :: scores
  fd_layers :: "string list"

record fusion_summary =
  fs_final :: real
  fs_core :: real
  fs_layers :: "string list"
  fs_contributions :: scores
  fs_strongest_layers :: scores
  fs_strongest_signals :: scores

record phase4_explain =
  p4_total :: real
  p4_components :: scores
  p4_explain :: "rerank_explain option"

record result_item =
  ri_id :: string
  ri_hash :: string
  ri_score :: real
  ri_components :: scores
  ri_level :: int
  ri_touch :: int
  ri_raw :: "string option"
  ri_block :: "string option"
  ri_anchor :: "json_dict option"
  ri_created :: int
  ri_paths :: "path_source list"
  ri_repr :: "representation option"
  ri_answer :: string
  ri_debug :: fusion_debug
  ri_phase4 :: "phase4_explain option"
  ri_phasec :: "late_score option"
  ri_summary :: "fusion_summary option"
  ri_status :: "string option"
  ri_superseded_by :: "string option"
  ri_supersedes :: "string list"

record rerank_tables =
  rt_world :: repr_world
  rt_edges :: "edge_row list"
  rt_modality :: "modality_row list"

record rerank_args =
  ra_avg :: real
  ra_weights :: scoring_weights
  ra_k :: nat
  ra_lexical :: "(string \<times> real \<times> scores) list"
  ra_graph :: "(string \<times> scores) list"
  ra_paths :: "(string \<times> path_source list) list"
  ra_domain :: "(string \<times> scores) list"
  ra_text :: string
  ra_repr :: "representation option"
  ra_historical :: bool
  ra_as_of :: "int option"

text \<open>External pieces: numbers of stored values, text tools, canonical texts and transliteration.\<close>

record rerank_tools =
  rk_num :: "json_val \<Rightarrow> real"
  rk_text :: text_tools
  rk_canon :: "string \<Rightarrow> canonical_text"
  rk_translit :: "string \<Rightarrow> string"

section \<open>Temporal status\<close>

definition node_temporal_status :: "int \<Rightarrow> node_row option \<Rightarrow> int option \<Rightarrow> string option" where
  "node_temporal_status now node as_of =
     (case node of
        None \<Rightarrow> None
      | Some n \<Rightarrow>
          let instant = (case as_of of Some x \<Rightarrow> x | None \<Rightarrow> now) in
          if nd_valid_from n = None \<and> nd_valid_to n = None then None
          else if (case nd_valid_to n of Some e \<Rightarrow> e \<le> instant | None \<Rightarrow> False) then Some ''EXPIRED''
          else if (case nd_valid_from n of Some b \<Rightarrow> b > instant | None \<Rightarrow> False) then Some ''FUTURE''
          else Some ''CURRENT'')"

definition valid_at :: "int option \<Rightarrow> node_row \<Rightarrow> bool" where
  "valid_at as_of n \<longleftrightarrow>
     (case as_of of None \<Rightarrow> True
      | Some x \<Rightarrow> (case nd_valid_from n of None \<Rightarrow> True | Some b \<Rightarrow> b \<le> x) \<and> (case nd_valid_to n of None \<Rightarrow> True | Some e \<Rightarrow> e > x))"

section \<open>The score of one node\<close>

definition layer_weight :: "string \<Rightarrow> real" where
  "layer_weight layer = score_at FUSION_LAYER_WEIGHTS layer"

definition add_prefixed :: "string \<Rightarrow> scores \<Rightarrow> scores \<Rightarrow> scores" where
  "add_prefixed p items comps = fold (\<lambda>(k, v). al_put (p @ k) (round6 v)) items comps"

text \<open>Adding a bonus: the rounded score, the contribution and, when told, the active layer.\<close>

definition add_bonus :: "string \<Rightarrow> real \<Rightarrow> bool \<Rightarrow> result_item \<Rightarrow> result_item" where
  "add_bonus layer value active r =
     (let bonus = layer_weight layer * value; d = ri_debug r in
      r\<lparr>ri_score := round6 (ri_score r + bonus),
        ri_debug := d\<lparr>fd_contributions := al_put layer (round6 bonus) (fd_contributions d),
                      fd_layers := (if active then fd_layers d @ [layer] else fd_layers d)\<rparr>\<rparr>)"

definition put_component :: "string \<Rightarrow> real \<Rightarrow> result_item \<Rightarrow> result_item" where
  "put_component k v r = r\<lparr>ri_components := al_put k (round6 v) (ri_components r)\<rparr>"

definition put_components :: "string \<Rightarrow> scores \<Rightarrow> result_item \<Rightarrow> result_item" where
  "put_components p items r = r\<lparr>ri_components := add_prefixed p items (ri_components r)\<rparr>"

definition lexical_layer :: "rerank_args \<Rightarrow> result_item \<Rightarrow> result_item" where
  "lexical_layer a r =
     (case map_of (ra_lexical a) (ri_id r) of
        Some (s, cs) \<Rightarrow> put_components ''lex_'' cs (put_component ''lex'' s (add_bonus ''lexical_fusion'' s True r))
      | None \<Rightarrow> put_component ''lex'' 0 r)"

definition graph_layer :: "rerank_args \<Rightarrow> result_item \<Rightarrow> result_item" where
  "graph_layer a r =
     (case map_of (ra_graph a) (ri_id r) of
        Some cs \<Rightarrow> put_components ''graph_'' (filter (\<lambda>x. fst x \<noteq> ''total'') cs)
          (put_component ''graph'' (score_at cs ''total'') (add_bonus ''graph_semantics'' (score_at cs ''total'') True r))
      | None \<Rightarrow> put_component ''graph'' 0 r)"

definition term_ratio :: "string set \<Rightarrow> string set \<Rightarrow> real" where
  "term_ratio q ts = of_nat (card (q \<inter> ts)) / of_nat (card q)"

definition modality_overlap :: "string \<Rightarrow> modality_row \<Rightarrow> real" where
  "modality_overlap text m =
     (let q = set (py_split_ws (py_lower text)); words = (\<lambda>s. set (py_split_ws (py_lower s)));
          overlap = (if q = {} then 0
            else term_ratio q (words (md_ocr m)) + term_ratio q (words (md_table m)) + term_ratio q (set (md_filename m)))
      in min 1 (overlap / 3))"

definition modality_layer :: "rerank_args \<Rightarrow> modality_row option \<Rightarrow> result_item \<Rightarrow> result_item" where
  "modality_layer a m r =
     (case m of
        Some row \<Rightarrow>
          if ra_text a \<noteq> [] then
            put_component ''modality'' (modality_overlap (ra_text a) row) (add_bonus ''modality'' (modality_overlap (ra_text a) row) True r)
          else put_component ''modality'' 0 r
      | None \<Rightarrow> put_component ''modality'' 0 r)"

definition domain_layer :: "rerank_args \<Rightarrow> result_item \<Rightarrow> result_item" where
  "domain_layer a r =
     (case map_of (ra_domain a) (ri_id r) of
        Some d \<Rightarrow>
          (let e = score_at d ''entity_link''; f = score_at d ''fact_support''; t = score_at d ''domain_term'';
               total = min 1 (45 / 100 * e + 40 / 100 * f + 15 / 100 * t)
           in put_component ''domain'' total (put_component ''domain_term'' t (put_component ''domain_fact_support'' f
                (put_component ''domain_entity_link'' e (add_bonus ''domain_memory'' total True r)))))
      | None \<Rightarrow> put_component ''domain'' 0 r)"

definition answer_of :: "representation option \<Rightarrow> modality_row option \<Rightarrow> string" where
  "answer_of repr m =
     (case repr of
        Some r \<Rightarrow> if rp_text r \<noteq> [] then rp_text r
          else (case m of None \<Rightarrow> [] | Some x \<Rightarrow> if md_ocr x \<noteq> [] then md_ocr x else md_table x)
      | None \<Rightarrow> (case m of None \<Rightarrow> [] | Some x \<Rightarrow> if md_ocr x \<noteq> [] then md_ocr x else md_table x))"

definition NO_CONTRIBUTIONS :: "string list" where
  "NO_CONTRIBUTIONS = [''lexical_fusion'', ''graph_semantics'', ''modality'', ''domain_memory'', ''reranker_v2'', ''late_interaction'']"

definition core_item :: "rerank_args \<Rightarrow> node_row \<Rightarrow> real \<Rightarrow> scores \<Rightarrow> representation option \<Rightarrow> modality_row option \<Rightarrow> result_item" where
  "core_item a n score comps repr m =
     \<lparr>ri_id = nd_id n, ri_hash = nd_hash n, ri_score = score, ri_components = comps, ri_level = nd_level n,
      ri_touch = nd_touch n, ri_raw = nd_raw n, ri_block = nd_block n, ri_anchor = nd_anchor n, ri_created = nd_created n,
      ri_paths = (case map_of (ra_paths a) (nd_id n) of None \<Rightarrow> [] | Some ps \<Rightarrow> ps),
      ri_repr = repr, ri_answer = answer_of repr m,
      ri_debug = \<lparr>fd_core = round6 score, fd_contributions = (''core'', round6 score) # map (\<lambda>l. (l, 0)) NO_CONTRIBUTIONS,
                  fd_layers = [''core'']\<rparr>,
      ri_phase4 = None, ri_phasec = None, ri_summary = None, ri_status = None, ri_superseded_by = None, ri_supersedes = []\<rparr>"

definition score_node :: "rerank_tools \<Rightarrow> int \<Rightarrow> vec \<Rightarrow> rerank_args \<Rightarrow> repr_row list \<Rightarrow> modality_row list \<Rightarrow> node_row \<Rightarrow>
    string + result_item" where
  "score_node tools now q a reprs mods n =
     (let opp = (case nd_signature n of None \<Rightarrow> [] | Some d \<Rightarrow> map (\<lambda>(k, v). (k, rk_num tools v)) d);
          repr = map_option rr_repr (find (\<lambda>r. rr_node r = nd_id n) reprs);
          m = find (\<lambda>r. md_node r = nd_id n) mods
      in map_sum id (\<lambda>(score, comps).
           domain_layer a (modality_layer a m (graph_layer a (lexical_layer a (core_item a n score comps repr m)))))
         (compute_node_score now q (nd_vector n) (from_scaled (nd_residual n)) (Some opp) (nd_touch n) (nd_access n)
            (nd_level n) (ra_avg a) None (ra_weights a)))"

section \<open>Reranking phases\<close>

definition phase4_item :: "scores \<Rightarrow> suppression \<Rightarrow> result_item \<Rightarrow> result_item" where
  "phase4_item totals s r =
     (let total = score_at totals (ri_id r); comps = (case map_of (su_components s) (ri_id r) of None \<Rightarrow> [] | Some c \<Rightarrow> c);
          r1 = put_components ''phase4_'' comps (put_component ''phase4'' total (add_bonus ''reranker_v2'' total (total > 0) r))
      in r1\<lparr>ri_phase4 := Some \<lparr>p4_total = round6 total, p4_components = comps, p4_explain = map_of (su_explain s) (ri_id r)\<rparr>\<rparr>)"

definition phase4 :: "rerank_tools \<Rightarrow> rerank_args \<Rightarrow> result_item list \<Rightarrow> result_item list" where
  "phase4 tools a scored =
     (case ra_repr a of
        Some q \<Rightarrow>
          if ra_text a \<noteq> [] \<and> scored \<noteq> [] then
            (let (totals, s) = score_reranker_v2 (rk_text tools) (rk_canon tools) (ra_text a) q
                   (map (\<lambda>r. \<lparr>rc_id = ri_id r, rc_created = Some (ri_created r), rc_repr = ri_repr r, rc_score = ri_score r\<rparr>) scored)
             in filter (\<lambda>r. ri_id r \<notin> su_ids s) (map (phase4_item totals s) scored))
          else scored
      | None \<Rightarrow> scored)"

definition abs_order :: "string \<times> real \<Rightarrow> real \<times> string" where
  "abs_order x = (- \<bar>snd x\<bar>, fst x)"

definition build_fusion_summary :: "scores \<Rightarrow> fusion_debug \<Rightarrow> real \<Rightarrow> fusion_summary" where
  "build_fusion_summary comps d final =
     (let contributions = map (\<lambda>(k, v). (k, round6 v)) (fd_contributions d) in
      \<lparr>fs_final = round6 final, fs_core = round6 (fd_core d),
       fs_layers = fold (\<lambda>l seen. if l \<in> set seen then seen else seen @ [l]) (fd_layers d) [],
       fs_contributions = contributions,
       fs_strongest_layers = take 6 (filter (\<lambda>x. fst x \<noteq> ''core'' \<and> \<bar>snd x\<bar> > 0) (sort_key abs_order contributions)),
       fs_strongest_signals = take 10 (map (\<lambda>(k, v). (k, round6 v)) (filter (\<lambda>x. \<bar>snd x\<bar> > 0) (sort_key abs_order comps)))\<rparr>)"

definition phasec_item :: "(string \<Rightarrow> string) \<Rightarrow> representation \<Rightarrow> result_item \<Rightarrow> result_item" where
  "phasec_item translit q r =
     (let late = score_late_interaction translit q (ri_repr r); total = ls_total late;
          r1 = put_components ''phasec_'' (ls_components late)
            (put_component ''phasec'' total (add_bonus ''late_interaction'' total (total > 0) r))
      in r1\<lparr>ri_phasec := Some late, ri_summary := Some (build_fusion_summary (ri_components r1) (ri_debug r1) (ri_score r1))\<rparr>)"

definition phasec :: "rerank_tools \<Rightarrow> rerank_args \<Rightarrow> result_item list \<Rightarrow> result_item list" where
  "phasec tools a scored =
     (case ra_repr a of None \<Rightarrow> scored | Some q \<Rightarrow> map (phasec_item (rk_translit tools) q) scored)"

definition result_order :: "result_item \<Rightarrow> real \<times> string" where
  "result_order r = (- ri_score r, ri_id r)"

section \<open>Contradictions\<close>

definition parents_in :: "string \<Rightarrow> string \<Rightarrow> edge_row list \<Rightarrow> string \<Rightarrow> string set" where
  "parents_in t g edges i = er_src ` set (filter (\<lambda>e. in_graph t g e \<and> er_kind e = ''inheritance'' \<and> er_dst e = i) edges)"

definition ancestors :: "string \<Rightarrow> string \<Rightarrow> edge_row list \<Rightarrow> string \<Rightarrow> string set" where
  "ancestors t g edges i = insert i (parents_in t g edges i \<union> \<Union> (parents_in t g edges ` parents_in t g edges i))"

definition opposed :: "string \<Rightarrow> string \<Rightarrow> edge_row list \<Rightarrow> string \<Rightarrow> string \<Rightarrow> bool" where
  "opposed t g edges a b \<longleftrightarrow>
     list_ex (\<lambda>e. in_graph t g e \<and> er_kind e = ''opposition''
       \<and> ((er_src e = a \<and> er_dst e = b) \<or> (er_src e = b \<and> er_dst e = a))) edges"

definition conflicting :: "string \<Rightarrow> string \<Rightarrow> edge_row list \<Rightarrow> string \<Rightarrow> string \<Rightarrow> bool" where
  "conflicting t g edges i j \<longleftrightarrow> (\<exists>a \<in> ancestors t g edges i. \<exists>b \<in> ancestors t g edges j. opposed t g edges a b)"

fun pairs_of :: "'a list \<Rightarrow> ('a \<times> 'a) list" where
  "pairs_of [] = []"
| "pairs_of (x # xs) = map (Pair x) xs @ pairs_of xs"

record lineage =
  ln_labels :: "string \<Rightarrow> string option"
  ln_superseded_by :: "string \<Rightarrow> string option"
  ln_supersedes :: "(string \<times> string list) list"
  ln_suppress :: "string set"

definition is_newer :: "(string \<Rightarrow> int option) \<Rightarrow> scores \<Rightarrow> string \<Rightarrow> string \<Rightarrow> bool" where
  "is_newer created score i j =
     (case (created i, created j) of
        (Some a, Some b) \<Rightarrow> a \<ge> b
      | _ \<Rightarrow> (case map_of score i of None \<Rightarrow> -999 | Some x \<Rightarrow> x) \<ge> (case map_of score j of None \<Rightarrow> -999 | Some x \<Rightarrow> x))"

definition resolve_pair :: "bool \<Rightarrow> (string \<Rightarrow> int option) \<Rightarrow> scores \<Rightarrow> string \<times> string \<Rightarrow> lineage \<Rightarrow> lineage" where
  "resolve_pair historical created score p l =
     (let (i, j) = p in
      if \<not> historical \<and> (i \<in> ln_suppress l \<or> j \<in> ln_suppress l) then l
      else
        let (cur, old) = (if is_newer created score i j then (i, j) else (j, i));
            known = (case map_of (ln_supersedes l) cur of None \<Rightarrow> [] | Some xs \<Rightarrow> xs)
        in \<lparr>ln_labels = (ln_labels l)(cur \<mapsto> ''CURRENT'', old \<mapsto> ''HISTORICAL''),
            ln_superseded_by = (ln_superseded_by l)(old \<mapsto> cur),
            ln_supersedes = al_put cur (if old \<in> set known then known else known @ [old]) (ln_supersedes l),
            ln_suppress = (if historical then ln_suppress l else insert old (ln_suppress l))\<rparr>)"

definition no_lineage :: lineage where
  "no_lineage = \<lparr>ln_labels = Map.empty, ln_superseded_by = Map.empty, ln_supersedes = [], ln_suppress = {}\<rparr>"

definition contradictions :: "string \<Rightarrow> string \<Rightarrow> edge_row list \<Rightarrow> string list \<Rightarrow> (string \<times> string) list" where
  "contradictions t g edges ids =
     (if card (\<Union> (ancestors t g edges ` set ids)) > 1
      then filter (\<lambda>(i, j). conflicting t g edges i j) (pairs_of ids) else [])"

text \<open>The creation times are read by node id alone.\<close>

definition created_map :: "node_row list \<Rightarrow> string \<Rightarrow> int option" where
  "created_map nodes i = map_option nd_created (find (\<lambda>n. nd_id n = i) nodes)"

definition resolve :: "string \<Rightarrow> string \<Rightarrow> bool \<Rightarrow> node_row list \<Rightarrow> edge_row list \<Rightarrow> string list \<Rightarrow> result_item list \<Rightarrow> lineage" where
  "resolve t g historical nodes edges ids scored =
     (if length ids > 1
      then fold (resolve_pair historical (created_map nodes) (map (\<lambda>r. (ri_id r, ri_score r)) scored))
             (contradictions t g edges ids) no_lineage
      else no_lineage)"

definition finish_item :: "int \<Rightarrow> node_row list \<Rightarrow> int option \<Rightarrow> lineage \<Rightarrow> result_item \<Rightarrow> result_item" where
  "finish_item now nodes as_of l r =
     r\<lparr>ri_status := (case ln_labels l (ri_id r) of Some s \<Rightarrow> Some s
          | None \<Rightarrow> node_temporal_status now (find (\<lambda>n. nd_id n = ri_id r) nodes) as_of),
       ri_superseded_by := ln_superseded_by l (ri_id r),
       ri_supersedes := (case map_of (ln_supersedes l) (ri_id r) of None \<Rightarrow> [] | Some xs \<Rightarrow> xs),
       ri_repr := None\<rparr>"

section \<open>\<open>rerank_faim\<close>\<close>

definition loaded_nodes :: "string \<Rightarrow> string \<Rightarrow> string list \<Rightarrow> int option \<Rightarrow> node_row list \<Rightarrow> node_row list" where
  "loaded_nodes t g ids as_of nodes = filter (\<lambda>n. node_in t g n \<and> nd_id n \<in> set ids \<and> valid_at as_of n) nodes"

definition rerank_faim :: "rerank_tools \<Rightarrow> int \<Rightarrow> string \<Rightarrow> string \<Rightarrow> vec \<Rightarrow> string list \<Rightarrow> rerank_args \<Rightarrow> rerank_tables \<Rightarrow>
    string + result_item list" where
  "rerank_faim tools now t g q ids a w =
     (let rows = rw_nodes (rt_world w); nodes = loaded_nodes t g ids (ra_as_of a) rows;
          reprs = list_reprs_of t g ids (rt_world w); mods = list_modality_of t g ids (rt_modality w)
      in case try_map (score_node tools now q a reprs mods) nodes of
           Inl e \<Rightarrow> Inl e
         | Inr items \<Rightarrow>
             (let scored = sort_key result_order (phasec tools a (phase4 tools a items));
                  l = resolve t g (ra_historical a) rows (rt_edges w) ids scored
              in Inr (take (ra_k a) (map (finish_item now nodes (ra_as_of a) l)
                   (filter (\<lambda>r. ri_id r \<notin> ln_suppress l) scored)))))"


section \<open>Explaining a node\<close>

record signature_summary =
  sy_alias :: "string list"
  sy_translit :: "string list"
  sy_stem :: "string list"
  sy_relation :: "string list"
  sy_value :: "string list"
  sy_temporal :: "string list"
  sy_phrase_buckets :: nat
  sy_concept_buckets :: nat
  sy_morphology_buckets :: nat

record explain_payload =
  ep_node :: node_row
  ep_residual :: real
  ep_parents :: "(string \<times> real) list"
  ep_parents_sum :: real
  ep_oppositions :: "(string \<times> real) list"
  ep_paths :: "(string \<times> string \<times> real) list"
  ep_signature :: "signature_summary option"

definition other_end :: "string \<Rightarrow> edge_row \<Rightarrow> string" where
  "other_end i e = (if er_src e = i then er_dst e else er_src e)"

definition touching :: "string \<Rightarrow> edge_row \<Rightarrow> bool" where
  "touching i e \<longleftrightarrow> er_src e = i \<or> er_dst e = i"

definition summarize :: "representation \<Rightarrow> signature_summary" where
  "summarize r =
     \<lparr>sy_alias = rp_alias r, sy_translit = rp_translit r, sy_stem = rp_stem r, sy_relation = rp_relation r, sy_value = rp_value r,
      sy_temporal = rp_temporal r, sy_phrase_buckets = length (or_empty (rp_semantic r)),
      sy_concept_buckets = length (or_empty (rp_concept r)), sy_morphology_buckets = length (or_empty (rp_morphology r))\<rparr>"

text \<open>None is the answer \<open>Node not found\<close>.\<close>

definition build_explain_payload :: "string \<Rightarrow> string \<Rightarrow> string \<Rightarrow> rerank_tables \<Rightarrow> explain_payload option" where
  "build_explain_payload t g i w =
     (case find (\<lambda>n. node_in t g n \<and> nd_id n = i) (rw_nodes (rt_world w)) of
        None \<Rightarrow> None
      | Some n \<Rightarrow>
          let parents = map (\<lambda>e. (er_src e, from_scaled (er_weight e)))
                (filter (\<lambda>e. in_graph t g e \<and> er_dst e = i \<and> er_kind e = ''inheritance'') (rt_edges w));
              opps = take 10 (filter (\<lambda>e. in_graph t g e \<and> er_kind e = ''opposition'' \<and> touching i e) (rt_edges w));
              others = take 12 (filter (\<lambda>e. in_graph t g e \<and> er_kind e \<noteq> ''inheritance'' \<and> er_kind e \<noteq> ''opposition'' \<and> touching i e)
                (rt_edges w))
          in Some \<lparr>ep_node = n, ep_residual = from_scaled (nd_residual n), ep_parents = parents,
                   ep_parents_sum = sum_list (map snd parents),
                   ep_oppositions = map (\<lambda>e. (other_end i e, from_scaled (er_weight e))) opps,
                   ep_paths = map (\<lambda>e. (other_end i e, er_kind e, from_scaled (er_weight e))) others,
                   ep_signature = (case list_reprs_of t g [i] (rt_world w) of [] \<Rightarrow> None | r # _ \<Rightarrow> Some (summarize (rr_repr r)))\<rparr>)"

section \<open>Which nodes are returned\<close>

lemma layer_ids [simp]:
  "ri_id (add_bonus ly v b r) = ri_id r" "ri_id (put_component k v r) = ri_id r" "ri_id (put_components p cs r) = ri_id r"
  "ri_id (lexical_layer a r) = ri_id r" "ri_id (graph_layer a r) = ri_id r" "ri_id (modality_layer a m r) = ri_id r"
  "ri_id (domain_layer a r) = ri_id r" "ri_id (core_item a n s cs repr m) = nd_id n"
  "ri_id (phase4_item totals su r) = ri_id r" "ri_id (phasec_item tr q r) = ri_id r" "ri_id (finish_item now nodes as lin r) = ri_id r"
  by (simp_all add: add_bonus_def put_component_def put_components_def lexical_layer_def graph_layer_def modality_layer_def
      domain_layer_def core_item_def phase4_item_def phasec_item_def finish_item_def Let_def split: option.split prod.split)

lemma score_node_id: "score_node tools now q a reprs mods n = Inr r \<Longrightarrow> ri_id r = nd_id n"
  by (auto simp: score_node_def Let_def map_sum_def split: sum.splits prod.splits)

lemma phase_ids: "ri_id ` set (phase4 tools a items) \<subseteq> ri_id ` set items" "ri_id ` set (phasec tools a items) = ri_id ` set items"
proof -
  show "ri_id ` set (phase4 tools a items) \<subseteq> ri_id ` set items"
    by (auto simp: phase4_def Let_def split: option.splits prod.splits if_splits)
  show "ri_id ` set (phasec tools a items) = ri_id ` set items"
    by (auto simp: phasec_def image_image split: option.split)
qed

lemma ids_of_items:
  assumes "try_map (score_node tools now q a reprs mods) nodes = Inr items"
  shows "map ri_id items = map nd_id nodes"
proof -
  have "list_all2 (\<lambda>n r. score_node tools now q a reprs mods n = Inr r) nodes items" using assms try_map_Inr by blast
  then show ?thesis by (induction rule: list_all2_induct) (simp_all add: score_node_id)
qed

text \<open>The parts of a successful call.\<close>

lemma rerank_faimE:
  assumes "rerank_faim tools now t g q ids a w = Inr rs"
  obtains scored l where
    "ri_id ` set scored \<subseteq> nd_id ` set (loaded_nodes t g ids (ra_as_of a) (rw_nodes (rt_world w)))"
    "scored = sort_key result_order scored"
    "l = resolve t g (ra_historical a) (rw_nodes (rt_world w)) (rt_edges w) ids scored"
    "rs = take (ra_k a) (map (finish_item now (loaded_nodes t g ids (ra_as_of a) (rw_nodes (rt_world w))) (ra_as_of a) l)
      (filter (\<lambda>r. ri_id r \<notin> ln_suppress l) scored))"
proof -
  let ?nodes = "loaded_nodes t g ids (ra_as_of a) (rw_nodes (rt_world w))"
  obtain items where items: "try_map (score_node tools now q a (list_reprs_of t g ids (rt_world w)) (list_modality_of t g ids (rt_modality w))) ?nodes
      = Inr items"
    and rs: "rs = (let scored = sort_key result_order (phasec tools a (phase4 tools a items));
        l = resolve t g (ra_historical a) (rw_nodes (rt_world w)) (rt_edges w) ids scored
      in take (ra_k a) (map (finish_item now ?nodes (ra_as_of a) l) (filter (\<lambda>r. ri_id r \<notin> ln_suppress l) scored)))"
    using assms unfolding rerank_faim_def Let_def by (auto split: sum.splits)
  let ?scored = "sort_key result_order (phasec tools a (phase4 tools a items))"
  have "ri_id ` set items = nd_id ` set ?nodes" using ids_of_items [OF items] by (metis list.set_map)
  then have "ri_id ` set ?scored \<subseteq> nd_id ` set ?nodes" using phase_ids by (metis set_sort)
  then show ?thesis
    by (rule that [of ?scored "resolve t g (ra_historical a) (rw_nodes (rt_world w)) (rt_edges w) ids ?scored"])
      (simp_all add: sort_key_id_if_sorted rs Let_def)
qed

lemma phase_distinct: "distinct (map ri_id items) \<Longrightarrow> distinct (map ri_id (phasec tools a (phase4 tools a items)))"
proof -
  assume d: "distinct (map ri_id items)"
  have "distinct (map ri_id (phase4 tools a items))"
    using d by (auto simp: phase4_def Let_def distinct_map_filter o_def split: option.splits prod.splits)
  then show ?thesis by (simp add: phasec_def o_def split: option.split)
qed

lemma rerank_distinct:
  assumes "rerank_faim tools now t g q ids a w = Inr rs" "distinct (map nd_id (rw_nodes (rt_world w)))"
  shows "distinct (map ri_id rs)"
proof -
  let ?nodes = "loaded_nodes t g ids (ra_as_of a) (rw_nodes (rt_world w))"
  obtain items where items: "try_map (score_node tools now q a (list_reprs_of t g ids (rt_world w)) (list_modality_of t g ids (rt_modality w))) ?nodes
      = Inr items"
    and rs: "\<exists>l. rs = take (ra_k a) (map (finish_item now ?nodes (ra_as_of a) l)
        (filter (\<lambda>r. ri_id r \<notin> ln_suppress l) (sort_key result_order (phasec tools a (phase4 tools a items)))))"
    using assms(1) unfolding rerank_faim_def Let_def by (auto split: sum.splits)
  have "distinct (map nd_id ?nodes)" using assms(2) by (simp add: loaded_nodes_def distinct_map_filter)
  then have "distinct (map ri_id (phasec tools a (phase4 tools a items)))"
    using ids_of_items [OF items] by (intro phase_distinct) simp
  moreover have "mset (map ri_id (sort_key result_order xs)) = mset (map ri_id xs)" for xs by simp
  ultimately have "distinct (map ri_id (sort_key result_order (phasec tools a (phase4 tools a items))))"
    by (metis mset_eq_imp_distinct_iff)
  then show ?thesis using rs by (auto simp: take_map [symmetric] o_def intro!: distinct_take distinct_map_filter)
qed

lemma finished_item:
  assumes "r \<in> set (take k (map (finish_item now nodes as lin) (filter P scored)))"
  obtains x where "x \<in> set scored" "P x" "r = finish_item now nodes as lin x"
  using in_set_takeD [OF assms] by auto

lemma rerank_valid:
  assumes "rerank_faim tools now t g q ids a w = Inr rs"
  shows "length rs \<le> ra_k a \<and> sorted (map result_order rs)
    \<and> (\<forall>r \<in> set rs. \<exists>n \<in> set (rw_nodes (rt_world w)). nd_id n = ri_id r \<and> node_in t g n \<and> ri_id r \<in> set ids \<and> valid_at (ra_as_of a) n)"
proof -
  obtain scored l where sub: "ri_id ` set scored \<subseteq> nd_id ` set (loaded_nodes t g ids (ra_as_of a) (rw_nodes (rt_world w)))"
    and srt: "scored = sort_key result_order scored"
    and rs: "rs = take (ra_k a) (map (finish_item now (loaded_nodes t g ids (ra_as_of a) (rw_nodes (rt_world w))) (ra_as_of a) l)
      (filter (\<lambda>r. ri_id r \<notin> ln_suppress l) scored))"
    using assms by (rule rerank_faimE)
  have order: "result_order (finish_item now nodes as l r) = result_order r" for nodes as r
    by (simp add: result_order_def finish_item_def)
  have "sorted (map result_order scored)" using srt by (metis sorted_sort_key)
  then have "sorted (map result_order (filter (\<lambda>r. ri_id r \<notin> ln_suppress l) scored))" by (rule sorted_filter)
  then have "sorted (map result_order rs)" by (simp add: rs take_map [symmetric] comp_def order sorted_wrt_take)
  moreover have "\<exists>n \<in> set (rw_nodes (rt_world w)). nd_id n = ri_id r \<and> node_in t g n \<and> ri_id r \<in> set ids \<and> valid_at (ra_as_of a) n"
    if m: "r \<in> set rs" for r
  proof -
    obtain x where "x \<in> set scored" "ri_id r = ri_id x" using m unfolding rs by (rule finished_item) simp
    then show ?thesis using sub by (fastforce simp: loaded_nodes_def)
  qed
  ultimately show ?thesis by (simp add: rs)
qed

text \<open>
  C8 What a query returns: at most k results, best score first and ties by node id, each for a
  candidate that is a node of the graph and, when the query has an as-of time, valid at that time;
  no returned node was suppressed.
\<close>

theorem rerank_results_valid:
  assumes "rerank_faim tools now t g q ids a w = Inr rs"
  shows "length rs \<le> ra_k a \<and> sorted (map result_order rs)
    \<and> (\<forall>r \<in> set rs. \<exists>n \<in> set (rw_nodes (rt_world w)). nd_id n = ri_id r \<and> node_in t g n \<and> ri_id r \<in> set ids \<and> valid_at (ra_as_of a) n)"
  using assms by (rule rerank_valid)

section \<open>Contradictions are resolved\<close>

lemma opposed_sym: "opposed t g edges a b \<longleftrightarrow> opposed t g edges b a"
  by (auto simp: opposed_def list_ex_iff)

lemma conflicting_sym: "conflicting t g edges i j \<longleftrightarrow> conflicting t g edges j i"
  unfolding conflicting_def using opposed_sym by blast

lemma finite_ancestors: "finite (ancestors t g edges i)"
  by (simp add: ancestors_def parents_in_def)

lemma pairs_cover: "i \<in> set xs \<Longrightarrow> j \<in> set xs \<Longrightarrow> i \<noteq> j \<Longrightarrow> (i, j) \<in> set (pairs_of xs) \<or> (j, i) \<in> set (pairs_of xs)"
  by (induction xs) auto

lemma pairs_elems: "(i, j) \<in> set (pairs_of xs) \<Longrightarrow> i \<in> set xs \<and> j \<in> set xs"
  by (induction xs) auto

lemma suppress_mono: "ln_suppress l \<subseteq> ln_suppress (resolve_pair h cr sc p l)"
  by (auto simp: resolve_pair_def Let_def split: prod.splits if_splits)

lemma suppress_mono_fold: "ln_suppress l \<subseteq> ln_suppress (fold (resolve_pair h cr sc) ps l)"
proof (induction ps arbitrary: l)
  case (Cons p ps)
  show ?case using suppress_mono [of l h cr sc p] Cons.IH [of "resolve_pair h cr sc p l"] by (simp only: fold.simps comp_apply)
qed simp


lemma resolve_hits:
  "(i, j) \<in> set ps \<Longrightarrow> i \<in> ln_suppress (fold (resolve_pair False cr sc) ps l) \<or> j \<in> ln_suppress (fold (resolve_pair False cr sc) ps l)"
proof (induction ps arbitrary: l)
  case (Cons p ps)
  have "i \<in> ln_suppress (resolve_pair False cr sc (i, j) l) \<or> j \<in> ln_suppress (resolve_pair False cr sc (i, j) l)"
    by (simp add: resolve_pair_def Let_def)
  then show ?case using Cons suppress_mono_fold by (fastforce dest: subsetD)
qed simp

lemma conflict_listed:
  assumes "i \<in> set ids" "j \<in> set ids" "i \<noteq> j" "conflicting t g edges i j"
  shows "(i, j) \<in> set (contradictions t g edges ids) \<or> (j, i) \<in> set (contradictions t g edges ids)"
proof -
  let ?all = "\<Union> (ancestors t g edges ` set ids)"
  have "{i, j} \<subseteq> ?all" using assms(1,2) by (auto simp: ancestors_def)
  then have "card {i, j} \<le> card ?all" by (intro card_mono) (simp_all add: finite_ancestors)
  then have "card ?all > 1" using assms(3) by simp
  then show ?thesis using pairs_cover [OF assms(1-3)] assms(4) conflicting_sym by (auto simp: contradictions_def)
qed

lemma conflict_suppressed:
  assumes "i \<in> set ids" "j \<in> set ids" "i \<noteq> j" "conflicting t g edges i j"
  shows "i \<in> ln_suppress (resolve t g False nodes edges ids scored) \<or> j \<in> ln_suppress (resolve t g False nodes edges ids scored)"
proof -
  have "length ids > 1" using assms(1-3) by (cases ids rule: remdups_adj.cases) auto
  then show ?thesis using conflict_listed [OF assms] resolve_hits by (fastforce simp: resolve_def)
qed

text \<open>
  C4 No contradictions without history: when historical results are not asked for, no two different
  returned nodes contradict each other, directly or through ancestors up to two inheritance steps.
\<close>

theorem no_contradicting_results:
  assumes "rerank_faim tools now t g q ids a w = Inr rs" "\<not> ra_historical a"
    and "r \<in> set rs" "r' \<in> set rs" "ri_id r \<noteq> ri_id r'"
  shows "\<not> conflicting t g (rt_edges w) (ri_id r) (ri_id r')"
proof
  assume c: "conflicting t g (rt_edges w) (ri_id r) (ri_id r')"
  obtain scored l where sub: "ri_id ` set scored \<subseteq> nd_id ` set (loaded_nodes t g ids (ra_as_of a) (rw_nodes (rt_world w)))"
    and l: "l = resolve t g (ra_historical a) (rw_nodes (rt_world w)) (rt_edges w) ids scored"
    and rs: "rs = take (ra_k a) (map (finish_item now (loaded_nodes t g ids (ra_as_of a) (rw_nodes (rt_world w))) (ra_as_of a) l)
      (filter (\<lambda>r. ri_id r \<notin> ln_suppress l) scored))"
    using assms(1) by (rule rerank_faimE)
  have in_ids: "ri_id x \<in> set ids \<and> ri_id x \<notin> ln_suppress l" if m: "x \<in> set rs" for x
  proof -
    obtain y where "y \<in> set scored" "ri_id x = ri_id y" "ri_id y \<notin> ln_suppress l"
      using m unfolding rs by (rule finished_item) simp
    then show ?thesis using sub by (fastforce simp: loaded_nodes_def)
  qed
  show False
    using conflict_suppressed [OF _ _ assms(5) c, of ids "rw_nodes (rt_world w)" scored] in_ids [OF assms(3)] in_ids [OF assms(4)] assms(2)
    by (simp add: l)
qed

text \<open>
  C9 An invisible newer fact removes the valid one: asked as of a time with history left out, two
  contradicting candidates of which only the older is valid then give no result at all, since the
  newer one, filtered out of the answer, still suppresses it.
\<close>

theorem as_of_answer_lost:
  assumes "rerank_faim tools now t g q [i, j] a w = Inr rs" "\<not> ra_historical a" "i \<noteq> j"
    and "conflicting t g (rt_edges w) i j"
    and "created_map (rw_nodes (rt_world w)) i = Some older" "created_map (rw_nodes (rt_world w)) j = Some newer" "older < newer"
    and "\<forall>n \<in> set (rw_nodes (rt_world w)). nd_id n = j \<longrightarrow> \<not> valid_at (ra_as_of a) n"
  shows "rs = []"
proof -
  obtain scored l where sub: "ri_id ` set scored \<subseteq> nd_id ` set (loaded_nodes t g [i, j] (ra_as_of a) (rw_nodes (rt_world w)))"
    and l: "l = resolve t g (ra_historical a) (rw_nodes (rt_world w)) (rt_edges w) [i, j] scored"
    and rs: "rs = take (ra_k a) (map (finish_item now (loaded_nodes t g [i, j] (ra_as_of a) (rw_nodes (rt_world w))) (ra_as_of a) l)
      (filter (\<lambda>r. ri_id r \<notin> ln_suppress l) scored))"
    using assms(1) by (rule rerank_faimE)
  have only: "ri_id x = i" if "x \<in> set scored" for x
  proof -
    obtain n where "n \<in> set (loaded_nodes t g [i, j] (ra_as_of a) (rw_nodes (rt_world w)))" "nd_id n = ri_id x"
      using sub \<open>x \<in> set scored\<close> by (metis (no_types, lifting) image_iff subsetD)
    then show ?thesis using assms(8) by (auto simp: loaded_nodes_def)
  qed
  have "contradictions t g (rt_edges w) [i, j] = [(i, j)]"
    using conflict_listed [of i "[i, j]" j t g "rt_edges w"] assms(3,4) by (auto simp: contradictions_def split: if_splits)
  then have "l = resolve_pair False (created_map (rw_nodes (rt_world w))) (map (\<lambda>r. (ri_id r, ri_score r)) scored) (i, j) no_lineage"
    using assms(2) by (simp add: l resolve_def)
  then have "ln_suppress l = {i}"
    using assms(5-7) by (simp add: resolve_pair_def Let_def no_lineage_def is_newer_def)
  then show ?thesis using only by (simp add: rs filter_empty_conv)
qed


section \<open>Examples\<close>

definition ex_args :: "int option \<Rightarrow> rerank_args" where
  "ex_args as_of = \<lparr>ra_avg = 1, ra_weights = DEFAULT_WEIGHTS, ra_k = 10, ra_lexical = [], ra_graph = [], ra_paths = [],
     ra_domain = [], ra_text = [], ra_repr = None, ra_historical = False, ra_as_of = as_of\<rparr>"

definition ex_rerank_tools :: rerank_tools where
  "ex_rerank_tools = \<lparr>rk_num = (\<lambda>_. 0), rk_text = ex_tools, rk_canon = ex_canon, rk_translit = id\<rparr>"

definition ex_tables :: "node_row list \<Rightarrow> edge_row list \<Rightarrow> rerank_tables" where
  "ex_tables nodes edges = \<lparr>rt_world = \<lparr>rw_nodes = nodes, rw_reprs = [], rw_stats = []\<rparr>, rt_edges = edges, rt_modality = []\<rparr>"

lemma ex_score_node:
  "\<exists>r. score_node ex_rerank_tools now [] (ex_args as_of) [] [] ((ex_node i)\<lparr>nd_created := c, nd_valid_from := v\<rparr>) = Inr r"
  by (simp add: score_node_def compute_node_score_def query_cosine_def vnorm_def ex_node_def Let_def)

lemma rerank_Inr:
  assumes "\<forall>n \<in> set (loaded_nodes t g ids (ra_as_of a) (rw_nodes (rt_world w))).
    \<exists>r. score_node tools now q a (list_reprs_of t g ids (rt_world w)) (list_modality_of t g ids (rt_modality w)) n = Inr r"
  shows "\<exists>rs. rerank_faim tools now t g q ids a w = Inr rs"
proof -
  let ?f = "score_node tools now q a (list_reprs_of t g ids (rt_world w)) (list_modality_of t g ids (rt_modality w))"
  have "\<nexists>e. try_map ?f (loaded_nodes t g ids (ra_as_of a) (rw_nodes (rt_world w))) = Inl e"
    unfolding try_map_Inl using assms by force
  then obtain items where "try_map ?f (loaded_nodes t g ids (ra_as_of a) (rw_nodes (rt_world w))) = Inr items"
    by (cases "try_map ?f (loaded_nodes t g ids (ra_as_of a) (rw_nodes (rt_world w)))") auto
  then show ?thesis by (simp add: rerank_faim_def Let_def)
qed

definition ex_opposition :: edge_row where
  "ex_opposition = \<lparr>er_id = ''e'', er_tenant = ''t'', er_graph = ''g'', er_src = ''a'', er_dst = ''b'', er_kind = ''opposition'',
     er_weight = 1, er_meta = None, er_created = 0\<rparr>"

definition ex_old :: node_row where
  "ex_old = (ex_node ''a'')\<lparr>nd_created := 1, nd_valid_from := None\<rparr>"

definition ex_new :: node_row where
  "ex_new = (ex_node ''b'')\<lparr>nd_created := 5, nd_valid_from := Some 5\<rparr>"

lemma ex_rerank: "\<exists>rs. rerank_faim ex_rerank_tools 9 ''t'' ''g'' [] [''a'', ''b''] (ex_args as_of) (ex_tables [ex_old, ex_new] es) = Inr rs"
  by (rule rerank_Inr)
    (auto simp: loaded_nodes_def ex_tables_def list_reprs_of_def list_modality_of_def query_rows_def ex_old_def ex_new_def ex_score_node)

lemma as_of_answer_lost_witness:
  "rerank_faim ex_rerank_tools 9 ''t'' ''g'' [] [''a'', ''b''] (ex_args (Some 3)) (ex_tables [ex_old, ex_new] [ex_opposition]) = Inr []"
proof -
  obtain rs where r: "rerank_faim ex_rerank_tools 9 ''t'' ''g'' [] [''a'', ''b''] (ex_args (Some 3))
      (ex_tables [ex_old, ex_new] [ex_opposition]) = Inr rs" using ex_rerank by blast
  have "opposed ''t'' ''g'' [ex_opposition] ''a'' ''b''" by (simp add: opposed_def ex_opposition_def in_graph_def)
  then have c: "conflicting ''t'' ''g'' [ex_opposition] ''a'' ''b''" by (auto simp: conflicting_def ancestors_def)
  have "rs = []"
    by (rule as_of_answer_lost [OF r, where older = 1 and newer = 5])
      (use c in \<open>simp_all add: ex_args_def ex_tables_def created_map_def ex_old_def ex_new_def ex_node_def valid_at_def\<close>)
  then show ?thesis using r by simp
qed

lemma rerank_results_valid_witness:
  "\<exists>rs. rerank_faim ex_rerank_tools 9 ''t'' ''g'' [] [''a'', ''b''] (ex_args None) (ex_tables [ex_old, ex_new] []) = Inr rs
    \<and> length rs \<le> 10 \<and> sorted (map result_order rs)"
proof -
  obtain rs where r: "rerank_faim ex_rerank_tools 9 ''t'' ''g'' [] [''a'', ''b''] (ex_args None) (ex_tables [ex_old, ex_new] []) = Inr rs"
    using ex_rerank by blast
  show ?thesis using rerank_results_valid [OF r] r by (simp add: ex_args_def)
qed

lemma ex_two_results:
  assumes "rerank_faim ex_rerank_tools 9 ''t'' ''g'' [] [''a'', ''b''] (ex_args None) (ex_tables [ex_old, ex_new] []) = Inr rs"
  shows "ri_id ` set rs = {''a'', ''b''}"
proof -
  let ?w = "ex_tables [ex_old, ex_new] []"
  have nodes: "loaded_nodes ''t'' ''g'' [''a'', ''b''] (ra_as_of (ex_args None)) (rw_nodes (rt_world ?w)) = [ex_old, ex_new]"
    by (simp add: loaded_nodes_def ex_tables_def ex_args_def ex_old_def ex_new_def ex_node_def node_in_def valid_at_def)
  have l: "resolve ''t'' ''g'' h ns [] ids scored = no_lineage" for h ns ids scored
  proof -
    have "\<not> conflicting ''t'' ''g'' [] i j" for i j by (simp add: conflicting_def opposed_def)
    then have "contradictions ''t'' ''g'' [] ids = []" by (simp add: contradictions_def)
    then show ?thesis by (simp add: resolve_def)
  qed
  obtain items where items: "try_map (score_node ex_rerank_tools 9 [] (ex_args None) (list_reprs_of ''t'' ''g'' [''a'', ''b''] (rt_world ?w))
      (list_modality_of ''t'' ''g'' [''a'', ''b''] (rt_modality ?w))) [ex_old, ex_new] = Inr items"
    and rs: "rs = take 10 (map (finish_item 9 [ex_old, ex_new] None no_lineage) (sort_key result_order items))"
    using assms unfolding rerank_faim_def Let_def nodes
    by (auto simp: ex_args_def phase4_def phasec_def l no_lineage_def ex_tables_def split: sum.splits)
  have ids: "map ri_id items = [''a'', ''b'']"
    using ids_of_items [OF items] by (simp add: ex_old_def ex_new_def ex_node_def)
  then have "length (map ri_id items) = length [''a'', ''b'']" by (simp only:)
  then have "length (sort_key result_order items) \<le> 10" by simp
  then have "ri_id ` set rs = ri_id ` set items" by (simp add: rs image_image)
  also have "\<dots> = set (map ri_id items)" by simp
  finally show ?thesis unfolding ids by simp
qed

lemma no_contradicting_results_witness:
  "\<exists>rs r r'. rerank_faim ex_rerank_tools 9 ''t'' ''g'' [] [''a'', ''b''] (ex_args None) (ex_tables [ex_old, ex_new] []) = Inr rs
    \<and> r \<in> set rs \<and> r' \<in> set rs \<and> ri_id r \<noteq> ri_id r' \<and> \<not> conflicting ''t'' ''g'' [] (ri_id r) (ri_id r')"
proof -
  obtain rs where r: "rerank_faim ex_rerank_tools 9 ''t'' ''g'' [] [''a'', ''b''] (ex_args None) (ex_tables [ex_old, ex_new] []) = Inr rs"
    using ex_rerank by blast
  obtain x y where x: "x \<in> set rs" "ri_id x = ''a''" and y: "y \<in> set rs" "ri_id y = ''b''"
  proof -
    have "''a'' \<in> ri_id ` set rs" "''b'' \<in> ri_id ` set rs" using ex_two_results [OF r] by simp_all
    then show ?thesis using that by auto
  qed
  have "\<not> conflicting ''t'' ''g'' (rt_edges (ex_tables [ex_old, ex_new] [])) (ri_id x) (ri_id y)"
    by (rule no_contradicting_results [OF r _ x(1) y(1)]) (simp_all add: ex_args_def x y)
  then show ?thesis using r x y by (intro exI [of _ rs] exI [of _ x] exI [of _ y]) (simp add: ex_tables_def)
qed

end
