(* ===== verification/FM_Uuid7.thy ===== *)
theory FM_Uuid7
  imports FM_Prelude "HOL-Library.Word"
begin

unbundle bit_operations_syntax

text \<open>
  \<open>core/contracts/types.py\<close>: the time-ordered identifiers \<open>uuid7\<close> and the deterministic
  \<open>uuid7_from_bytes\<close>, over bytes as eight-bit words. The operating system's random bytes and the
  SHA-256 digest are arguments; a UUID is the list of its sixteen bytes and is compared as the number
  they spell, most significant byte first (\<open>UUID.int\<close>, which is also the order of its text form).
\<close>

section \<open>Identifiers\<close>

type_synonym byte = "8 word"

text \<open>\<open>(timestamp_ms >> k) & 0xFF\<close> of an integer of any size and sign\<close>

definition timestamp_byte :: "nat \<Rightarrow> int \<Rightarrow> byte" where
  "timestamp_byte k ms = word_of_int (drop_bit k ms)"

definition version_byte :: "byte \<Rightarrow> byte" where
  "version_byte r = 0x70 OR (r AND 0x0F)"

definition variant_byte :: "byte \<Rightarrow> byte" where
  "variant_byte r = 0x80 OR (r AND 0x3F)"

definition uuid7 :: "byte list \<Rightarrow> int \<Rightarrow> byte list" where
  "uuid7 rand ms =
     [timestamp_byte 40 ms, timestamp_byte 32 ms, timestamp_byte 24 ms, timestamp_byte 16 ms, timestamp_byte 8 ms,
      timestamp_byte 0 ms, version_byte (rand ! 0), rand ! 1, variant_byte (rand ! 2)] @ take 7 (drop 3 rand)"

text \<open>Called without a timestamp it takes the clock: \<open>int(time.time() * 1000)\<close>, of a time after the epoch.\<close>

definition uuid7_now :: "byte list \<Rightarrow> real \<Rightarrow> int option \<Rightarrow> byte list" where
  "uuid7_now rand clock ms = uuid7 rand (case ms of None \<Rightarrow> \<lfloor>clock * 1000\<rfloor> | Some t \<Rightarrow> t)"

definition uuid7_from_bytes :: "('a \<Rightarrow> byte list) \<Rightarrow> 'a \<Rightarrow> byte list" where
  "uuid7_from_bytes digest data =
     (let d = digest data in
      take 6 d @ [version_byte (d ! 6), d ! 7, variant_byte (d ! 8)] @ take 7 (drop 9 d))"

section \<open>Numbers of byte lists\<close>

definition spell :: "byte list \<Rightarrow> int" where
  "spell bs = fold (\<lambda>b n. 256 * n + uint b) bs 0"

lemma fold_spell: "fold (\<lambda>b n. 256 * n + uint b) bs n = n * 256 ^ length bs + spell bs"
proof (induction bs arbitrary: n)
  case (Cons b bs)
  have "spell (b # bs) = uint b * 256 ^ length bs + spell bs"
    using Cons [of "uint b"] by (simp add: spell_def)
  then show ?case using Cons [of "256 * n + uint b"] by (simp add: algebra_simps)
qed (simp add: spell_def)

lemma spell_append: "spell (xs @ ys) = spell xs * 256 ^ length ys + spell ys"
  using fold_spell [of ys "spell xs"] by (simp add: spell_def)

lemma spell_Nil [simp]: "spell [] = 0" by (simp add: spell_def)

lemma spell_Cons: "spell (b # bs) = uint b * 256 ^ length bs + spell bs"
  using spell_append [of "[b]" bs] by (simp add: spell_def)

lemma spell_bounds: "0 \<le> spell bs" "spell bs < 256 ^ length bs"
proof -
  have "0 \<le> spell bs \<and> spell bs < 256 ^ length bs"
  proof (induction bs)
    case (Cons b bs)
    have b: "0 \<le> uint b" "uint b \<le> 255" using uint_bounded [of b] by simp_all
    have "uint b * 256 ^ length bs \<le> 255 * 256 ^ length bs" using b by (intro mult_right_mono) auto
    then have "uint b * 256 ^ length bs + spell bs < 256 * 256 ^ length bs" using Cons.IH by linarith
    then show ?case using Cons b by (simp add: spell_Cons)
  qed simp
  then show "0 \<le> spell bs" "spell bs < 256 ^ length bs" by auto
qed

text \<open>Byte lists of one length are ordered by their first parts, whatever follows.\<close>

lemma spell_prefix_less:
  assumes "spell xs < spell xs'" "length ys = length ys'"
  shows "spell (xs @ ys) < spell (xs' @ ys')"
proof -
  have "spell xs + 1 \<le> spell xs'" using assms(1) by simp
  then have "(spell xs + 1) * 256 ^ length ys \<le> spell xs' * 256 ^ length ys" by (intro mult_right_mono) auto
  then show ?thesis
    using spell_bounds [of ys] spell_bounds(1) [of ys'] assms(2) by (simp add: spell_append algebra_simps)
qed

section \<open>Fields\<close>

lemma uint_timestamp_byte: "uint (timestamp_byte k ms) = (ms div 2 ^ k) mod 256"
  by (simp add: timestamp_byte_def unsigned_of_int take_bit_eq_mod drop_bit_eq_div)

lemma mod_bytes: "0 \<le> m \<Longrightarrow> x mod (256 * m) = 256 * (x div 256 mod m) + x mod (256 :: int)"
  by (rule zmod_zmult2_eq)

lemma div_bytes: "0 \<le> k \<Longrightarrow> ms div k div 256 = ms div (k * 256 :: int)"
  by (simp add: zdiv_zmult2_eq)

lemma timestamp_spelled:
  "spell [timestamp_byte 40 ms, timestamp_byte 32 ms, timestamp_byte 24 ms, timestamp_byte 16 ms, timestamp_byte 8 ms,
     timestamp_byte 0 ms] = ms mod 2 ^ 48"
proof -
  have "ms mod 281474976710656 = 256 * (ms div 256 mod 1099511627776) + ms mod 256"
    using mod_bytes [of 1099511627776 ms] by simp
  moreover have "ms div 256 mod 1099511627776 = 256 * (ms div 65536 mod 4294967296) + ms div 256 mod 256"
    using mod_bytes [of 4294967296 "ms div 256"] div_bytes [of 256 ms] by simp
  moreover have "ms div 65536 mod 4294967296 = 256 * (ms div 16777216 mod 16777216) + ms div 65536 mod 256"
    using mod_bytes [of 16777216 "ms div 65536"] div_bytes [of 65536 ms] by simp
  moreover have "ms div 16777216 mod 16777216 = 256 * (ms div 4294967296 mod 65536) + ms div 16777216 mod 256"
    using mod_bytes [of 65536 "ms div 16777216"] div_bytes [of 16777216 ms] by simp
  moreover have "ms div 4294967296 mod 65536 = 256 * (ms div 1099511627776 mod 256) + ms div 4294967296 mod 256"
    using mod_bytes [of 256 "ms div 4294967296"] div_bytes [of 4294967296 ms] by simp
  moreover have "spell [timestamp_byte 40 ms, timestamp_byte 32 ms, timestamp_byte 24 ms, timestamp_byte 16 ms,
      timestamp_byte 8 ms, timestamp_byte 0 ms]
    = (ms div 1099511627776 mod 256) * 1099511627776 + (ms div 4294967296 mod 256) * 4294967296
      + (ms div 16777216 mod 256) * 16777216 + (ms div 65536 mod 256) * 65536 + (ms div 256 mod 256) * 256 + ms mod 256"
    by (simp only: spell_Cons uint_timestamp_byte) simp
  ultimately have "spell [timestamp_byte 40 ms, timestamp_byte 32 ms, timestamp_byte 24 ms, timestamp_byte 16 ms,
      timestamp_byte 8 ms, timestamp_byte 0 ms] = ms mod 281474976710656" by linarith
  then show ?thesis by simp
qed

lemma less_8E: "(n :: nat) < 8 \<Longrightarrow> n = 0 \<or> n = 1 \<or> n = 2 \<or> n = 3 \<or> n = 4 \<or> n = 5 \<or> n = 6 \<or> n = 7"
  by linarith

lemma version_nibble: "drop_bit 4 (version_byte r) = 7"
proof (rule bit_word_eqI)
  fix n assume "n < LENGTH(8)"
  then show "bit (drop_bit 4 (version_byte r)) n \<longleftrightarrow> bit (7 :: byte) n"
    using less_8E [of n] by (auto simp: version_byte_def bit_simps)
qed

lemma version_random: "version_byte r AND 0x0F = r AND 0x0F"
proof (rule bit_word_eqI)
  fix n assume "n < LENGTH(8)"
  then show "bit (version_byte r AND 0x0F) n \<longleftrightarrow> bit (r AND 0x0F) n"
    using less_8E [of n] by (auto simp: version_byte_def bit_simps)
qed

lemma variant_bits: "drop_bit 6 (variant_byte r) = 2"
proof (rule bit_word_eqI)
  fix n assume "n < LENGTH(8)"
  then show "bit (drop_bit 6 (variant_byte r)) n \<longleftrightarrow> bit (2 :: byte) n"
    using less_8E [of n] by (auto simp: variant_byte_def bit_simps)
qed

lemma variant_random: "variant_byte r AND 0x3F = r AND 0x3F"
proof (rule bit_word_eqI)
  fix n assume "n < LENGTH(8)"
  then show "bit (variant_byte r AND 0x3F) n \<longleftrightarrow> bit (r AND 0x3F) n"
    using less_8E [of n] by (auto simp: variant_byte_def bit_simps)
qed

text \<open>The two fixed fields of a version 7 identifier.\<close>

definition is_version7 :: "byte list \<Rightarrow> bool" where
  "is_version7 u \<longleftrightarrow> length u = 16 \<and> drop_bit 4 (u ! 6) = 7 \<and> drop_bit 6 (u ! 8) = 2"

section \<open>What an identifier holds\<close>

text \<open>
  The fields of an identifier: with ten random bytes it has sixteen bytes with version 7 and the
  variant bits 10; its first six bytes spell the timestamp modulo 2 ^ 48, for any integer; and of the
  random bytes exactly the masked six bits are lost, so the other 74 bits can be read back.
\<close>

theorem uuid7_fields:
  assumes "length rand = 10"
  shows "is_version7 (uuid7 rand ms) \<and> spell (take 6 (uuid7 rand ms)) = ms mod 2 ^ 48
    \<and> uuid7 rand ms ! 6 AND 0x0F = rand ! 0 AND 0x0F \<and> uuid7 rand ms ! 7 = rand ! 1
    \<and> uuid7 rand ms ! 8 AND 0x3F = rand ! 2 AND 0x3F \<and> drop 9 (uuid7 rand ms) = drop 3 rand"
  using assms timestamp_spelled [of ms]
  by (simp add: uuid7_def is_version7_def version_nibble version_random variant_bits variant_random)

theorem uuid7_fields_witness:
  "is_version7 (uuid7 (replicate 10 0xFF) (- 1)) \<and> spell (take 6 (uuid7 (replicate 10 0xFF) (- 1))) = 2 ^ 48 - 1"
  using uuid7_fields [of "replicate 10 0xFF" "- 1"] by simp

text \<open>
  Identifiers are ordered by their time: of two identifiers made in different milliseconds of the
  first 2 ^ 48 the later is the greater, whatever the random bytes; and two of one millisecond are
  the same only when the unmasked random bits agree.
\<close>

theorem uuid7_ordered:
  assumes "length r = 10" "length r' = 10" "0 \<le> ms" "ms \<le> ms'" "ms' < 2 ^ 48"
  shows "(ms < ms' \<longrightarrow> spell (uuid7 r ms) < spell (uuid7 r' ms'))
    \<and> (uuid7 r ms = uuid7 r' ms' \<longrightarrow> ms = ms' \<and> r ! 0 AND 0x0F = r' ! 0 AND 0x0F \<and> r ! 1 = r' ! 1
         \<and> r ! 2 AND 0x3F = r' ! 2 AND 0x3F \<and> drop 3 r = drop 3 r')"
proof -
  have t: "spell (take 6 (uuid7 r ms)) = ms" "spell (take 6 (uuid7 r' ms')) = ms'"
    using timestamp_spelled [of ms] timestamp_spelled [of ms'] assms by (simp_all add: uuid7_def)
  have "spell (take 6 (uuid7 r ms) @ drop 6 (uuid7 r ms)) < spell (take 6 (uuid7 r' ms') @ drop 6 (uuid7 r' ms'))"
    if "ms < ms'"
    using that t assms by (intro spell_prefix_less) (simp_all add: uuid7_def)
  moreover have "ms = ms' \<and> r ! 0 AND 0x0F = r' ! 0 AND 0x0F \<and> r ! 1 = r' ! 1
      \<and> r ! 2 AND 0x3F = r' ! 2 AND 0x3F \<and> drop 3 r = drop 3 r'" if e: "uuid7 r ms = uuid7 r' ms'"
  proof -
    have "ms = ms'" using t e by simp
    moreover have "version_byte (r ! 0) = version_byte (r' ! 0)" "r ! 1 = r' ! 1"
      "variant_byte (r ! 2) = variant_byte (r' ! 2)" "drop 3 r = drop 3 r'"
      using e assms by (simp_all add: uuid7_def)
    ultimately show ?thesis by (metis version_random variant_random)
  qed
  ultimately show ?thesis by simp
qed

theorem uuid7_ordered_witness:
  "spell (uuid7 (replicate 10 0xFF) 1700000000000) < spell (uuid7 (replicate 10 0) 1700000000001)"
  using uuid7_ordered [of "replicate 10 0xFF" "replicate 10 0" 1700000000000 1700000000001] by simp

text \<open>The deterministic form has the same fields; its time is the first six bytes of the digest.\<close>

lemma from_bytes_fields:
  assumes "length (digest data) = 32"
  shows "is_version7 (uuid7_from_bytes digest data)" "take 6 (uuid7_from_bytes digest data) = take 6 (digest data)"
    "drop 9 (uuid7_from_bytes digest data) = take 7 (drop 9 (digest data))"
  using assms by (simp_all add: uuid7_from_bytes_def is_version7_def version_nibble variant_bits Let_def nth_append)

text \<open>Timestamps past 2 ^ 48 milliseconds wrap around, and the order with them.\<close>

lemma uuid7_wraps: "uuid7 rand (ms + 2 ^ 48) = uuid7 rand ms"
proof -
  have "timestamp_byte k (ms + 2 ^ 48) = timestamp_byte k ms" if "k \<le> 40" for k
  proof -
    have e: "(2 :: int) ^ 48 = 2 ^ k * (2 ^ (40 - k) * 256)" using that by (simp add: power_add [symmetric])
    have "(ms + 2 ^ 48) div 2 ^ k = ms div 2 ^ k + 2 ^ (40 - k) * 256"
      unfolding e using div_mult_self2 [of "2 ^ k" ms "2 ^ (40 - k) * 256"] by (simp only: add.commute) simp
    then have "uint (timestamp_byte k (ms + 2 ^ 48)) = uint (timestamp_byte k ms)"
      by (simp only: uint_timestamp_byte mod_mult_self1)
    then show ?thesis by (simp only: word_uint_eq_iff)
  qed
  then show ?thesis by (simp add: uuid7_def)
qed

end
