(* ===== verification/FM_Expansion.thy ===== *)
theory FM_Expansion
  imports FM_Diffusion FM_Json
begin

text \<open>
  Weighted query expansion, \<open>lexical/synonym_expander.py\<close>. The embedded synonym data is an argument,
  None when the file could not be read. Weights are real numbers.

  Shown here: merging depends only on the set of rows, gives every term its largest weight and can
  be done in stages, and the rendered text adds at most the allowed number of terms.
\<close>

section \<open>Expansions\<close>

record weighted_expansion =
  we_term :: string
  we_weight :: real
  we_sources :: "string list"
  we_origins :: "string list"

definition normalize_term :: "string \<Rightarrow> string" where
  "normalize_term s = py_join '' '' (py_split_ws (py_lower (py_strip s)))"

text \<open>What is collected for a term: its weight, its sources and its origins.\<close>

type_synonym payload = "real \<times> string set \<times> string set"

definition origin_terms :: "weighted_expansion \<Rightarrow> string set" where
  "origin_terms r = normalize_term ` set (filter (\<lambda>o'. o' \<noteq> []) (we_origins r))"

definition merge_row :: "weighted_expansion \<Rightarrow> (string \<times> payload) list \<Rightarrow> (string \<times> payload) list" where
  "merge_row r m =
     (let t = normalize_term (we_term r); w = clamp01 (we_weight r) in
      if t = [] then m
      else case map_of m t of
        None \<Rightarrow> al_put t (w, set (we_sources r), origin_terms r) m
      | Some (w0, s0, o0) \<Rightarrow> al_put t (max w0 w, s0 \<union> set (we_sources r), o0 \<union> origin_terms r) m)"

definition expansion_of :: "string \<times> payload \<Rightarrow> weighted_expansion" where
  "expansion_of x = (case x of (t, w, s, os) \<Rightarrow>
     \<lparr>we_term = t, we_weight = w, we_sources = sorted_list_of_set s, we_origins = sorted_list_of_set os\<rparr>)"

definition expansion_order :: "weighted_expansion \<Rightarrow> real \<times> string \<times> string list \<times> string list" where
  "expansion_order x = (- we_weight x, we_term x, we_sources x, we_origins x)"

definition merge_weighted_expansions :: "int option \<Rightarrow> weighted_expansion list \<Rightarrow> weighted_expansion list" where
  "merge_weighted_expansions limit rows =
     (let ordered = sort_key expansion_order (map expansion_of (fold merge_row rows []))
      in case limit of None \<Rightarrow> ordered | Some n \<Rightarrow> take (nat (max 0 n)) ordered)"

section \<open>Synonyms\<close>

type_synonym synonyms = "(string \<times> string list) list option"

definition synonyms_of :: "synonyms \<Rightarrow> string \<Rightarrow> string list" where
  "synonyms_of data t = (case data of None \<Rightarrow> [] | Some m \<Rightarrow> (case map_of m t of None \<Rightarrow> [] | Some xs \<Rightarrow> xs))"

definition get_synonyms :: "synonyms \<Rightarrow> string \<Rightarrow> string set" where
  "get_synonyms data word = set (synonyms_of data (normalize_term word))"

definition get_weighted_synonyms :: "synonyms \<Rightarrow> int \<Rightarrow> real \<Rightarrow> string \<Rightarrow> string \<Rightarrow> weighted_expansion list" where
  "get_weighted_synonyms data max_synonyms weight source term =
     (let n = normalize_term term in
      if n = [] then []
      else merge_weighted_expansions None
        (map (\<lambda>s. \<lparr>we_term = s, we_weight = weight, we_sources = [source], we_origins = [n]\<rparr>)
          (filter (\<lambda>s. normalize_term s \<noteq> [] \<and> normalize_term s \<noteq> n)
            (take (nat (max 0 max_synonyms)) (synonyms_of data n)))))"

text \<open>The loop over the phrases of one width, while the budget is positive.\<close>

fun phrase_loop :: "(int \<Rightarrow> string \<Rightarrow> weighted_expansion list) \<Rightarrow> string list \<Rightarrow> int \<Rightarrow> weighted_expansion list \<Rightarrow>
    weighted_expansion list \<times> int" where
  "phrase_loop look [] budget acc = (acc, budget)"
| "phrase_loop look (p # ps) budget acc =
     (let ms = look budget p; budget' = budget - int (length ms)
      in if budget' \<le> 0 then (acc @ ms, budget') else phrase_loop look ps budget' (acc @ ms))"

definition width_phrases :: "nat \<Rightarrow> string list \<Rightarrow> string list" where
  "width_phrases width tokens = map (\<lambda>i. py_join '' '' (take width (drop i tokens))) [0..<length tokens + 1 - width]"

definition width_step :: "synonyms \<Rightarrow> int \<Rightarrow> string list \<Rightarrow> nat \<Rightarrow> weighted_expansion list \<times> int \<Rightarrow>
    weighted_expansion list \<times> int" where
  "width_step data per_term tokens width st =
     (let (acc, budget) = st in
      if budget \<le> 0 \<or> length tokens < width then st
      else phrase_loop (\<lambda>b. get_weighted_synonyms data (min per_term b) (if width = 3 then 74 / 100 else 7 / 10)
             (''conceptnet_phrase_'' @ nat_str width)) (width_phrases width tokens) budget acc)"

definition build_weighted_synonym_expansions :: "synonyms \<Rightarrow> int \<Rightarrow> int \<Rightarrow> int \<Rightarrow> string \<Rightarrow> weighted_expansion list" where
  "build_weighted_synonym_expansions data per_term max_total max_phrase_terms text =
     (let n = normalize_term text; tokens = py_split_ws n in
      if n = [] \<or> data = None \<or> data = Some [] then []
      else
        let (phrases, _) = width_step data per_term tokens 2 (width_step data per_term tokens 3 ([], max 0 max_phrase_terms))
        in merge_weighted_expansions (Some max_total)
             (phrases @ concat (map (get_weighted_synonyms data per_term (62 / 100) ''conceptnet_token'') tokens)))"

section \<open>Rendering\<close>

definition repeats_of :: "string \<Rightarrow> weighted_expansion \<Rightarrow> nat" where
  "repeats_of base_lower x =
     (let n = (if we_weight x \<ge> 95 / 100 then 3 else if we_weight x \<ge> 8 / 10 then 2 else 1)
      in if py_in ('' '' @ normalize_term (we_term x) @ '' '') base_lower then n - 1 else n)"

text \<open>The terms emitted, each as often as its weight says, at most \<open>limit\<close> in all.\<close>

fun emit_terms :: "string \<Rightarrow> nat \<Rightarrow> weighted_expansion list \<Rightarrow> string list" where
  "emit_terms base_lower limit [] = []"
| "emit_terms base_lower limit (x # xs) =
     (if limit = 0 then []
      else if normalize_term (we_term x) = [] then emit_terms base_lower limit xs
      else let n = min (repeats_of base_lower x) limit
           in replicate n (normalize_term (we_term x)) @ emit_terms base_lower (limit - n) xs)"

definition render_weighted_expansion_text :: "nat \<Rightarrow> string \<Rightarrow> weighted_expansion list \<Rightarrow> string" where
  "render_weighted_expansion_text limit base_text xs =
     (let base = py_strip (py_join '' '' (py_split_ws base_text));
          base_lower = (if base \<noteq> [] then '' '' @ py_lower base @ '' '' else '' '')
      in if xs = [] then base
         else py_strip (py_join '' '' ((if base \<noteq> [] then [base] else []) @ emit_terms base_lower limit xs)))"

definition expand_synonyms_text :: "synonyms \<Rightarrow> int \<Rightarrow> string \<Rightarrow> string" where
  "expand_synonyms_text data per_word text =
     render_weighted_expansion_text 32 text
       (build_weighted_synonym_expansions data per_word (per_word * max 1 (int (length (py_split_ws text)))) 8 text)"

section \<open>Normal terms\<close>

lemma lower_keeps_space [simp]: "py_isspace (py_lower_char c) \<longleftrightarrow> py_isspace c"
proof -
  have "py_lower_char c \<noteq> c \<Longrightarrow> 97 \<le> (of_char (py_lower_char c) :: nat) \<and> 65 \<le> (of_char c :: nat)"
    by (simp add: py_lower_char_def Let_def split: if_splits)
  then show ?thesis by (cases "py_lower_char c = c") (auto simp: py_isspace_def Let_def)
qed

definition is_word :: "string \<Rightarrow> bool" where
  "is_word w \<longleftrightarrow> w \<noteq> [] \<and> (\<forall>c \<in> set w. \<not> py_isspace c)"

lemma space_is_space [simp]: "py_isspace CHR '' ''"
  by (simp add: py_isspace_def)

lemma split_ws_unwords:
  "list_all is_word ws \<Longrightarrow> py_split_ws (py_join '' '' ws) = ws"
proof (induction "'' ''" ws rule: py_join.induct)
  case 1
  show ?case by (simp add: py_split_ws_def)
next
  case (2 x)
  then show ?case by (simp add: py_split_ws_def is_word_def split_by_plain)
next
  case (3 x y ys)
  have "split_by py_isspace (x @ CHR '' '' # py_join '' '' (y # ys)) = x # split_by py_isspace (py_join '' '' (y # ys))"
    using 3 by (intro split_by_append_sep) (auto simp: is_word_def)
  with 3 show ?case by (simp add: py_split_ws_def is_word_def)
qed

lemma set_py_join: "c \<in> set (py_join '' '' ws) \<Longrightarrow> c = CHR '' '' \<or> (\<exists>w \<in> set ws. c \<in> set w)"
  by (induction "'' ''" ws rule: py_join.induct) auto

lemma join_eq_Nil [simp]: "list_all is_word ws \<Longrightarrow> py_join '' '' ws = [] \<longleftrightarrow> ws = []"
  by (induction "'' ''" ws rule: py_join.induct) (auto simp: is_word_def)

lemma hd_join: "list_all is_word ws \<Longrightarrow> ws \<noteq> [] \<Longrightarrow> \<not> py_isspace (hd (py_join '' '' ws))"
  by (induction "'' ''" ws rule: py_join.induct) (auto simp: is_word_def hd_append)

lemma last_join: "list_all is_word ws \<Longrightarrow> ws \<noteq> [] \<Longrightarrow> \<not> py_isspace (last (py_join '' '' ws))"
  by (induction "'' ''" ws rule: py_join.induct) (auto simp: is_word_def last_append)

lemma dropWhile_keep: "xs = [] \<or> \<not> p (hd xs) \<Longrightarrow> dropWhile p xs = xs"
  by (cases xs) auto

lemma strip_join: "list_all is_word ws \<Longrightarrow> py_strip (py_join '' '' ws) = py_join '' '' ws"
  using hd_join [of ws] last_join [of ws]
  by (cases "ws = []") (simp_all add: py_strip_def dropWhile_keep hd_rev)

lemma join_edges:
  "ts \<noteq> [] \<Longrightarrow> \<forall>t \<in> set ts. t \<noteq> [] \<and> \<not> py_isspace (hd t) \<and> \<not> py_isspace (last t)
    \<Longrightarrow> py_join '' '' ts \<noteq> [] \<and> \<not> py_isspace (hd (py_join '' '' ts)) \<and> \<not> py_isspace (last (py_join '' '' ts))"
  by (induction "'' ''" ts rule: py_join.induct) (auto simp: hd_append last_append)

lemma strip_edges:
  "ts \<noteq> [] \<Longrightarrow> \<forall>t \<in> set ts. t \<noteq> [] \<and> \<not> py_isspace (hd t) \<and> \<not> py_isspace (last t)
    \<Longrightarrow> py_strip (py_join '' '' ts) = py_join '' '' ts"
  using join_edges [of ts] by (simp add: py_strip_def dropWhile_keep hd_rev)

lemma words_of_split: "list_all is_word (py_split_ws s)"
  using split_by_words [of _ s] by (auto simp: list_all_iff is_word_def)

lemma set_split_by: "w \<in> set (split_by p s) \<Longrightarrow> c \<in> set w \<Longrightarrow> c \<in> set s"
  by (induction s arbitrary: w) (auto split: if_splits list.splits, fastforce+)

lemma normalize_term_idem [simp]: "normalize_term (normalize_term s) = normalize_term s"
proof -
  let ?ws = "py_split_ws (py_lower (py_strip s))"
  have w: "list_all is_word ?ws" by (rule words_of_split)
  have low: "py_lower_char c = c" if "c \<in> set (py_join '' '' ?ws)" for c
    using set_py_join [OF that]
  proof
    assume "\<exists>v \<in> set ?ws. c \<in> set v"
    then obtain v where "v \<in> set (split_by py_isspace (py_lower (py_strip s)))" "c \<in> set v"
      by (auto simp: py_split_ws_def)
    then have "c \<in> set (py_lower (py_strip s))" using set_split_by by blast
    then show ?thesis by (auto simp: py_lower_def py_lower_char_idem)
  qed (simp add: py_lower_char_def)
  then have "py_lower (py_join '' '' ?ws) = py_join '' '' ?ws" by (simp add: py_lower_def map_idI)
  then show ?thesis by (simp add: normalize_term_def strip_join [OF w] split_ws_unwords [OF w])
qed

section \<open>What merging gives\<close>

definition rows_of :: "string \<Rightarrow> weighted_expansion list \<Rightarrow> weighted_expansion set" where
  "rows_of t rows = {r \<in> set rows. normalize_term (we_term r) = t}"

text \<open>The payload of a term, from the set of its rows.\<close>

definition payload_of :: "weighted_expansion set \<Rightarrow> payload" where
  "payload_of R = (Max (clamp01 ` we_weight ` R), \<Union> ((set \<circ> we_sources) ` R), \<Union> (origin_terms ` R))"

lemma rows_of_snoc: "rows_of t (rows @ [r]) = (if normalize_term (we_term r) = t then insert r (rows_of t rows) else rows_of t rows)"
  by (auto simp: rows_of_def)

lemma finite_rows_of [simp]: "finite (rows_of t rows)"
  by (simp add: rows_of_def)

lemma merge_row_blank: "normalize_term (we_term r) = [] \<Longrightarrow> merge_row r m = m"
  by (simp add: merge_row_def)

lemma merge_row_other: "x \<noteq> normalize_term (we_term r) \<Longrightarrow> map_of (merge_row r m) x = map_of m x"
  by (auto simp: merge_row_def Let_def split: option.splits)

lemma merge_row_at:
  "normalize_term (we_term r) \<noteq> [] \<Longrightarrow> map_of (merge_row r m) (normalize_term (we_term r))
    = Some (case map_of m (normalize_term (we_term r)) of
        None \<Rightarrow> (clamp01 (we_weight r), set (we_sources r), origin_terms r)
      | Some (w, s, os) \<Rightarrow> (max w (clamp01 (we_weight r)), s \<union> set (we_sources r), os \<union> origin_terms r))"
  by (auto simp: merge_row_def Let_def split: option.splits)

lemma merge_row_distinct: "distinct (al_keys m) \<Longrightarrow> distinct (al_keys (merge_row r m))"
  by (auto simp: merge_row_def Let_def split: option.splits)

lemma payload_insert:
  "finite R \<Longrightarrow> payload_of (insert r R) = (if R = {} then (clamp01 (we_weight r), set (we_sources r), origin_terms r)
     else case payload_of R of (w, s, os) \<Rightarrow> (max w (clamp01 (we_weight r)), s \<union> set (we_sources r), os \<union> origin_terms r))"
  by (auto simp: payload_of_def max.commute)

lemma merged_rows:
  "distinct (al_keys (fold merge_row rows [])) \<and>
   map_of (fold merge_row rows []) t = (if t = [] \<or> rows_of t rows = {} then None else Some (payload_of (rows_of t rows)))"
proof (induction rows arbitrary: t rule: rev_induct)
  case Nil
  show ?case by (simp add: al_keys_def rows_of_def)
next
  case (snoc r rows)
  let ?m = "fold merge_row rows []" and ?u = "normalize_term (we_term r)"
  have d: "distinct (al_keys ?m)" using snoc.IH by blast
  have m: "map_of ?m x = (if x = [] \<or> rows_of x rows = {} then None else Some (payload_of (rows_of x rows)))" for x
    using snoc.IH by blast
  have step: "fold merge_row (rows @ [r]) [] = merge_row r ?m" by simp
  show ?case
  proof (cases "?u = []")
    case True
    have "merge_row r ?m = ?m" using True by (rule merge_row_blank)
    moreover have "(t = [] \<or> rows_of t (rows @ [r]) = {}) = (t = [] \<or> rows_of t rows = {})
        \<and> (t \<noteq> [] \<longrightarrow> rows_of t (rows @ [r]) = rows_of t rows)"
      using True by (simp add: rows_of_snoc)
    ultimately show ?thesis using d m [of t] by (simp only: step) auto
  next
    case False
    have "map_of (merge_row r ?m) ?u = Some (payload_of (rows_of ?u (rows @ [r])))"
      using m [of ?u] False by (cases "rows_of ?u rows = {}")
        (simp_all add: merge_row_at rows_of_snoc payload_insert split: prod.splits)
    then have "map_of (merge_row r ?m) t = (if t = [] \<or> rows_of t (rows @ [r]) = {} then None
        else Some (payload_of (rows_of t (rows @ [r]))))"
      using m [of t] merge_row_other [of t r ?m] False by (cases "t = ?u") (simp_all add: rows_of_snoc)
    then show ?thesis using merge_row_distinct [OF d, of r] by (simp only: step)
  qed
qed

lemma merged_pairs:
  "set (fold merge_row rows []) = (\<lambda>t. (t, payload_of (rows_of t rows))) ` ((\<lambda>r. normalize_term (we_term r)) ` set rows - {[]})"
    (is "?L = ?R")
proof -
  have d: "distinct (map fst (fold merge_row rows []))" using merged_rows [of rows] by (simp add: al_keys_def)
  have "(t, y) \<in> ?L \<longleftrightarrow> (t, y) \<in> ?R" for t y
  proof -
    have "(t, y) \<in> ?L \<longleftrightarrow> map_of (fold merge_row rows []) t = Some y" using d by simp
    also have "\<dots> \<longleftrightarrow> t \<noteq> [] \<and> rows_of t rows \<noteq> {} \<and> y = payload_of (rows_of t rows)"
      using merged_rows [of rows t] by auto
    also have "\<dots> \<longleftrightarrow> (t, y) \<in> ?R" by (auto simp: rows_of_def)
    finally show ?thesis .
  qed
  then have "p \<in> ?L \<longleftrightarrow> p \<in> ?R" for p by (cases p) (simp only:)
  then show ?thesis by (rule set_eqI)
qed

lemma expansion_terms [simp]: "we_term (expansion_of x) = fst x"
  by (simp add: expansion_of_def split: prod.splits)

lemma sorted_by_key_unique:
  assumes "set xs = set ys" "distinct (map f xs)" "distinct (map f ys)" "sorted (map f xs)" "sorted (map f ys)"
  shows "xs = ys"
proof -
  have "map f xs = map f ys" using assms by (intro sorted_distinct_set_unique) auto
  moreover have "inj_on f (set xs \<union> set ys)" using assms(1,2) by (simp add: distinct_map)
  ultimately show ?thesis by (rule map_inj_on)
qed

lemma order_inj: "distinct (map we_term xs) \<Longrightarrow> distinct (map expansion_order xs)"
proof -
  assume d: "distinct (map we_term xs)"
  have "inj_on expansion_order (set xs)"
    using d by (auto simp: inj_on_def expansion_order_def distinct_map)
  then show ?thesis using d by (simp add: distinct_map)
qed

lemma merged_distinct: "distinct (map we_term (merge_weighted_expansions None rows))"
proof -
  have "distinct (map we_term (map expansion_of (fold merge_row rows [])))"
    using merged_rows [of rows] by (simp add: al_keys_def o_def)
  moreover have "mset (map we_term (sort_key expansion_order xs)) = mset (map we_term xs)" for xs by simp
  ultimately show ?thesis unfolding merge_weighted_expansions_def Let_def option.case
    by (metis mset_eq_imp_distinct_iff)
qed

lemma merged_set:
  "set (merge_weighted_expansions None rows)
    = (\<lambda>t. expansion_of (t, payload_of (rows_of t rows))) ` ((\<lambda>r. normalize_term (we_term r)) ` set rows - {[]})"
  by (simp add: merge_weighted_expansions_def merged_pairs image_image)

lemma merged_sorted: "sorted (map expansion_order (merge_weighted_expansions None rows))"
  by (simp add: merge_weighted_expansions_def)

lemma merge_limit:
  "merge_weighted_expansions (Some n) rows = take (nat (max 0 n)) (merge_weighted_expansions None rows)"
  by (simp add: merge_weighted_expansions_def)

lemma merged_normal: "distinct (map (\<lambda>x. normalize_term (we_term x)) (merge_weighted_expansions limit rows))"
proof -
  have "map (\<lambda>x. normalize_term (we_term x)) (merge_weighted_expansions None rows) = map we_term (merge_weighted_expansions None rows)"
    by (rule map_cong) (auto simp: merged_set)
  then have "distinct (map (\<lambda>x. normalize_term (we_term x)) (merge_weighted_expansions None rows))"
    using merged_distinct [of rows] by (simp only:)
  then show ?thesis by (cases limit) (simp_all add: merge_limit flip: take_map)
qed

lemma merge_set_eq:
  assumes "set rows = set rows'"
  shows "merge_weighted_expansions limit rows = merge_weighted_expansions limit rows'"
proof -
  have "merge_weighted_expansions None rows = merge_weighted_expansions None rows'"
  proof (rule sorted_by_key_unique [where f = expansion_order])
    show "set (merge_weighted_expansions None rows) = set (merge_weighted_expansions None rows')"
      using assms by (simp add: merged_set rows_of_def)
  qed (simp_all add: merged_sorted order_inj [OF merged_distinct])
  then show ?thesis by (cases limit) (simp_all add: merge_limit)
qed

text \<open>
  Merging is canonical: the result does not depend on the order or the number of the rows; its
  terms are the normalised non-empty terms of the rows, each once, heaviest first and then by name;
  and each has the largest weight any of its rows has, cut to the unit interval.
\<close>

theorem merge_canonical:
  shows "(set rows = set rows' \<longrightarrow> merge_weighted_expansions limit rows = merge_weighted_expansions limit rows')
    \<and> distinct (map we_term (merge_weighted_expansions None rows))
    \<and> sorted (map (\<lambda>x. (- we_weight x, we_term x)) (merge_weighted_expansions None rows))
    \<and> we_term ` set (merge_weighted_expansions None rows) = (\<lambda>r. normalize_term (we_term r)) ` set rows - {[]}
    \<and> (\<forall>x \<in> set (merge_weighted_expansions None rows).
         we_weight x = Max {clamp01 (we_weight r) |r. r \<in> set rows \<and> normalize_term (we_term r) = we_term x})"
proof -
  let ?m = "merge_weighted_expansions None rows"
  have srt: "sorted (map (\<lambda>x. (- we_weight x, we_term x)) ?m)"
    using merged_sorted [of rows] by (auto simp: sorted_map expansion_order_def elim!: sorted_wrt_mono_rel [rotated])
  have weight: "we_weight x = Max {clamp01 (we_weight r) |r. r \<in> set rows \<and> normalize_term (we_term r) = we_term x}"
    if xm: "x \<in> set ?m" for x
  proof -
    obtain t where "x = expansion_of (t, payload_of (rows_of t rows))" using xm unfolding merged_set by blast
    then show ?thesis
      by (auto simp: expansion_of_def payload_of_def rows_of_def image_image setcompr_eq_image intro!: arg_cong [where f = Max])
  qed
  have terms: "we_term ` set ?m = (\<lambda>r. normalize_term (we_term r)) ` set rows - {[]}"
    by (simp add: merged_set image_image)
  show ?thesis
  proof (intro conjI impI ballI)
    show "merge_weighted_expansions limit rows = merge_weighted_expansions limit rows'" if "set rows = set rows'"
      using that by (rule merge_set_eq)
  qed (rule merged_distinct srt terms weight; assumption?)+
qed

theorem merge_canonical_witness:
  "merge_weighted_expansions (Some 5) [\<lparr>we_term = '' Big  Cat'', we_weight = 2, we_sources = [''a''], we_origins = []\<rparr>,
      \<lparr>we_term = ''dog'', we_weight = 1 / 2, we_sources = [''b''], we_origins = []\<rparr>]
    = merge_weighted_expansions (Some 5) [\<lparr>we_term = ''dog'', we_weight = 1 / 2, we_sources = [''b''], we_origins = []\<rparr>,
      \<lparr>we_term = '' Big  Cat'', we_weight = 2, we_sources = [''a''], we_origins = []\<rparr>]"
  by (rule merge_canonical [THEN conjunct1, THEN mp]) auto

section \<open>What rendering adds\<close>

lemma emit_terms_bounded: "length (emit_terms b limit xs) \<le> limit"
  by (induction b limit xs rule: emit_terms.induct) (auto simp: Let_def)

lemma emit_terms_set: "set (emit_terms b limit xs) \<subseteq> (\<lambda>x. normalize_term (we_term x)) ` set xs - {[]}"
  by (induction b limit xs rule: emit_terms.induct) (auto simp: Let_def split: if_splits)

lemma repeats_le: "repeats_of b x \<le> 3"
  by (simp add: repeats_of_def Let_def)

lemma emit_terms_count:
  assumes "distinct (map (\<lambda>x. normalize_term (we_term x)) xs)"
  shows "count_list (emit_terms b limit xs) t \<le> 3"
  using assms
proof (induction b limit xs rule: emit_terms.induct)
  case (2 b limit x xs)
  let ?n = "normalize_term (we_term x)"
  have r: "count_list (replicate k ?n) t = (if t = ?n then k else 0)" for k by (induction k) auto
  show ?case
  proof (cases "t = ?n")
    case True
    have "t \<notin> set (emit_terms b l xs)" for l
      using emit_terms_set [of b l xs] "2.prems" True by auto
    then have "count_list (emit_terms b l xs) t = 0" for l by (simp add: count_list_0_iff)
    then show ?thesis using repeats_le [of b x] by (simp add: r Let_def min_def)
  next
    case False
    then show ?thesis using 2 r by (auto simp: Let_def)
  qed
qed simp

text \<open>
  Rendering is additive and bounded: the text starts with the query in single spaces and goes on
  with at most \<open>limit\<close> terms of the expansions, each a normalised non-empty term; the merged
  expansions have each term at most three times.
\<close>

theorem render_bounded:
  assumes "py_split_ws base \<noteq> []" "xs \<noteq> []"
  shows "\<exists>ts. render_weighted_expansion_text limit base xs = py_join '' '' (py_join '' '' (py_split_ws base) # ts)
    \<and> length ts \<le> limit \<and> set ts \<subseteq> (\<lambda>x. normalize_term (we_term x)) ` set xs - {[]}
    \<and> (\<forall>rows n t. xs = merge_weighted_expansions n rows \<longrightarrow> count_list ts t \<le> 3)"
proof -
  let ?b = "py_join '' '' (py_split_ws base)"
  let ?ts = "emit_terms ('' '' @ py_lower ?b @ '' '') limit xs"
  have wb: "list_all is_word (py_split_ws base)" by (rule words_of_split)
  have sb: "py_strip ?b = ?b" "?b \<noteq> []" using strip_join [OF wb] assms(1) wb by simp_all
  have edge: "ts \<noteq> [] \<Longrightarrow> \<forall>t \<in> set ts. t \<noteq> [] \<and> \<not> py_isspace (hd t) \<and> \<not> py_isspace (last t)
      \<Longrightarrow> py_strip (py_join '' '' ts) = py_join '' '' ts" for ts
    by (rule strip_edges)
  have nt: "u \<noteq> [] \<and> \<not> py_isspace (hd u) \<and> \<not> py_isspace (last u)" if "u \<in> set (?b # ?ts)" for u
  proof (cases "u = ?b")
    case True
    then show ?thesis using hd_join [OF wb assms(1)] last_join [OF wb assms(1)] sb by simp
  next
    case False
    then have "u \<in> set ?ts" using that by simp
    then have mem: "u \<in> (\<lambda>x. normalize_term (we_term x)) ` set xs - {[]}" by (rule subsetD [OF emit_terms_set])
    have "\<exists>x :: weighted_expansion. u = normalize_term (we_term x)" using mem by (elim DiffE imageE) (rule exI)
    moreover have "u \<noteq> []" using mem by simp
    ultimately obtain x :: weighted_expansion where u: "u = normalize_term (we_term x)" "u \<noteq> []" by (elim exE)
    let ?ws = "py_split_ws (py_lower (py_strip (we_term x)))"
    have "list_all is_word ?ws" by (rule words_of_split)
    then show ?thesis using u hd_join [of ?ws] last_join [of ?ws] by (auto simp: normalize_term_def)
  qed
  have "render_weighted_expansion_text limit base xs = py_join '' '' (?b # ?ts)"
    using assms(2) sb edge [of "?b # ?ts"] nt by (simp add: render_weighted_expansion_text_def Let_def)
  moreover have "count_list ?ts t \<le> 3" if "xs = merge_weighted_expansions n rows" for n rows t
    by (rule emit_terms_count) (simp add: that merged_normal)
  ultimately show ?thesis using emit_terms_bounded [of _ limit xs] emit_terms_set [of _ limit xs] by blast
qed

theorem render_bounded_witness:
  "\<exists>ts. render_weighted_expansion_text 2 ''big cat'' [\<lparr>we_term = ''lion'', we_weight = 1, we_sources = [], we_origins = []\<rparr>]
    = py_join '' '' (py_join '' '' (py_split_ws ''big cat'') # ts) \<and> length ts \<le> 2"
  using render_bounded [of "''big cat''" "[\<lparr>we_term = ''lion'', we_weight = 1, we_sources = [], we_origins = []\<rparr>]" 2]
  by (auto simp: py_split_ws_def py_isspace_def)

end
