(* ===== verification/FM_Domain.thy ===== *)
theory FM_Domain
  imports FM_Expansion
begin

text \<open>
  Domain knowledge: the lexicon and source tables (\<open>store/pg/repos/domain_knowledge_repo.py\<close>), the
  linking of a query to them (\<open>core/operators/entity_linking.py\<close>) and the expansions a query gets
  from them (\<open>_domain_weighted_expansions\<close> of \<open>orchestration/query_flow.py\<close>). Rows given to the
  repository have their fields converted (\<open>str\<close>, \<open>int\<close>, \<open>float\<close>, \<open>dict\<close>); the \<open>repr\<close> of a stored
  container is an argument.

  Shown here: the keys of the lexicon stay unique and other graphs untouched, a merge keeps the best
  score of every entry, when a merge of sources fails, which links a query gets, and that all scores
  lie in the unit interval.
\<close>

section \<open>Tables\<close>

type_synonym lex_meta = "(string \<times> json) list"

record lexicon_row =
  lx_tenant :: string
  lx_graph :: string
  lx_surface :: string
  lx_canonical :: string
  lx_kind :: string
  lx_pack :: "string option"
  lx_support :: int
  lx_score :: real
  lx_meta :: lex_meta
  lx_updated :: int

record lexicon_entry =
  le_surface :: string
  le_canonical :: string
  le_kind :: string
  le_pack :: "string option"
  le_support :: int
  le_score :: real
  le_meta :: lex_meta

record source_row =
  so_tenant :: string
  so_graph :: string
  so_id :: string
  so_kind :: string
  so_hash :: string
  so_meta :: lex_meta
  so_updated :: int

record source_entry =
  se_id :: string
  se_kind :: string
  se_hash :: string
  se_meta :: lex_meta

type_synonym lex_key = "string \<times> string \<times> string"

definition entry_key :: "lexicon_entry \<Rightarrow> lex_key" where
  "entry_key e = (le_surface e, le_canonical e, le_kind e)"

definition lex_key :: "lexicon_row \<Rightarrow> lex_key" where
  "lex_key r = (lx_surface r, lx_canonical r, lx_kind r)"

definition lex_in :: "string \<Rightarrow> string \<Rightarrow> lexicon_row \<Rightarrow> bool" where
  "lex_in t g r \<longleftrightarrow> lx_tenant r = t \<and> lx_graph r = g"

text \<open>\<open>d.update(e)\<close>, and an optional text with an empty one counting as missing\<close>

definition dict_update :: "lex_meta \<Rightarrow> lex_meta \<Rightarrow> lex_meta" where
  "dict_update d e = fold (\<lambda>(k, v). al_put k v) e d"

definition given :: "string option \<Rightarrow> string option" where
  "given p = (if p = Some [] then None else p)"

section \<open>Duplicates\<close>

definition join_entries :: "lexicon_entry \<Rightarrow> lexicon_entry \<Rightarrow> lexicon_entry" where
  "join_entries old e =
     old\<lparr>le_pack := (if given (le_pack e) \<noteq> None \<and> given (le_pack old) = None then le_pack e else le_pack old),
         le_support := max (le_support old) (le_support e), le_score := max (le_score old) (le_score e),
         le_meta := dict_update (le_meta old) (le_meta e)\<rparr>"

definition note_entry :: "lexicon_entry \<Rightarrow> (lex_key \<times> lexicon_entry) list \<Rightarrow> (lex_key \<times> lexicon_entry) list" where
  "note_entry e m =
     (case map_of m (entry_key e) of
        None \<Rightarrow> al_put (entry_key e) (e\<lparr>le_pack := given (le_pack e)\<rparr>) m
      | Some old \<Rightarrow> al_put (entry_key e) (join_entries old e) m)"

definition dedupe_lexicon_rows :: "lexicon_entry list \<Rightarrow> lexicon_entry list" where
  "dedupe_lexicon_rows rows = map snd (sort_key fst (fold note_entry rows []))"

section \<open>Writes and reads\<close>

definition new_row :: "int \<Rightarrow> string \<Rightarrow> string \<Rightarrow> lexicon_entry \<Rightarrow> lexicon_row" where
  "new_row now t g e =
     \<lparr>lx_tenant = t, lx_graph = g, lx_surface = le_surface e, lx_canonical = le_canonical e, lx_kind = le_kind e,
      lx_pack = given (le_pack e), lx_support = le_support e, lx_score = le_score e, lx_meta = le_meta e, lx_updated = now\<rparr>"

definition replace_lexicon :: "int \<Rightarrow> string \<Rightarrow> string \<Rightarrow> lexicon_entry list \<Rightarrow> lexicon_row list \<Rightarrow> lexicon_row list \<times> nat" where
  "replace_lexicon now t g rows table =
     (let es = dedupe_lexicon_rows rows
      in (filter (\<lambda>r. \<not> lex_in t g r) table @ map (new_row now t g) es, length es))"

definition update_row :: "int \<Rightarrow> lexicon_entry \<Rightarrow> lexicon_row \<Rightarrow> lexicon_row" where
  "update_row now e r =
     r\<lparr>lx_pack := (if given (le_pack e) \<noteq> None then le_pack e else lx_pack r),
       lx_support := max (lx_support r) (le_support e), lx_score := max (lx_score r) (le_score e),
       lx_meta := dict_update (lx_meta r) (le_meta e), lx_updated := now\<rparr>"

text \<open>The rows that exist are looked up once, before the loop.\<close>

definition merge_entry :: "int \<Rightarrow> string \<Rightarrow> string \<Rightarrow> lex_key set \<Rightarrow> lexicon_entry \<Rightarrow> lexicon_row list \<Rightarrow> lexicon_row list" where
  "merge_entry now t g existing e table =
     (if entry_key e \<in> existing then map (\<lambda>r. if lex_in t g r \<and> lex_key r = entry_key e then update_row now e r else r) table
      else table @ [new_row now t g e])"

definition merge_lexicon :: "int \<Rightarrow> string \<Rightarrow> string \<Rightarrow> lexicon_entry list \<Rightarrow> lexicon_row list \<Rightarrow> lexicon_row list \<times> nat" where
  "merge_lexicon now t g rows table =
     (let es = dedupe_lexicon_rows rows
      in (fold (merge_entry now t g (lex_key ` set (filter (lex_in t g) table))) es table, length es))"

definition list_lexicon_entries :: "string \<Rightarrow> string \<Rightarrow> string list \<Rightarrow> lexicon_row list \<Rightarrow> lexicon_row list" where
  "list_lexicon_entries t g kinds table =
     query_rows (\<lambda>r. lex_in t g r \<and> (kinds = [] \<or> lx_kind r \<in> set kinds))
       (\<lambda>r. (lx_surface r, lx_kind r, - lx_score r, lx_canonical r)) table"

definition note_canonical :: "lexicon_row \<Rightarrow> (string \<times> string list) list \<Rightarrow> (string \<times> string list) list" where
  "note_canonical r m =
     (let vs = (case map_of m (lx_surface r) of None \<Rightarrow> [] | Some xs \<Rightarrow> xs)
      in al_put (lx_surface r) (if lx_canonical r \<in> set vs then vs else vs @ [lx_canonical r]) m)"

definition get_domain_map :: "string \<Rightarrow> string \<Rightarrow> string list \<Rightarrow> lexicon_row list \<Rightarrow> (string \<times> string list) list" where
  "get_domain_map t g kinds table = sort_key fst (fold note_canonical (list_lexicon_entries t g kinds table) [])"

text \<open>Sources: two rows with one id are two inserts, which the primary key refuses.\<close>

definition source_in :: "string \<Rightarrow> string \<Rightarrow> source_row \<Rightarrow> bool" where
  "source_in t g r \<longleftrightarrow> so_tenant r = t \<and> so_graph r = g"

definition new_source :: "int \<Rightarrow> string \<Rightarrow> string \<Rightarrow> source_entry \<Rightarrow> source_row" where
  "new_source now t g e =
     \<lparr>so_tenant = t, so_graph = g, so_id = se_id e, so_kind = se_kind e, so_hash = se_hash e, so_meta = se_meta e, so_updated = now\<rparr>"

definition replace_sources :: "int \<Rightarrow> string \<Rightarrow> string \<Rightarrow> source_entry list \<Rightarrow> source_row list \<Rightarrow> string + source_row list \<times> nat" where
  "replace_sources now t g rows table =
     (if \<not> distinct (map se_id rows) then Inl ''IntegrityError''
      else Inr (filter (\<lambda>r. \<not> source_in t g r) table @ map (new_source now t g) rows, length rows))"

definition update_source :: "int \<Rightarrow> source_entry \<Rightarrow> source_row \<Rightarrow> source_row" where
  "update_source now e r =
     r\<lparr>so_kind := se_kind e, so_hash := se_hash e, so_meta := dict_update (so_meta r) (se_meta e), so_updated := now\<rparr>"

definition merge_sources :: "int \<Rightarrow> string \<Rightarrow> string \<Rightarrow> source_entry list \<Rightarrow> source_row list \<Rightarrow> string + source_row list \<times> nat" where
  "merge_sources now t g rows table =
     (let existing = so_id ` set (filter (source_in t g) table); new = filter (\<lambda>e. se_id e \<notin> existing) rows;
          updated = map (\<lambda>r. if source_in t g r then fold (update_source now) (filter (\<lambda>e. se_id e = so_id r) rows) r else r) table
      in if \<not> distinct (map se_id new) then Inl ''IntegrityError''
         else Inr (updated @ map (new_source now t g) new, length rows))"

section \<open>Linking a query\<close>

record linked_term =
  lt_surface :: string
  lt_canonical :: string
  lt_kind :: string
  lt_node :: string
  lt_score :: real

text \<open>\<open>surface in normalized if " " in surface else surface in terms\<close>\<close>

definition mentions :: "string \<Rightarrow> string \<Rightarrow> bool" where
  "mentions normalized surface \<longleftrightarrow>
     (if CHR '' '' \<in> set surface then py_in surface normalized else surface \<in> set (py_split_ws normalized))"

definition normalized_query :: "string \<Rightarrow> string" where
  "normalized_query text = py_join '' '' (py_split_ws (py_lower text))"

definition meta_node :: "(json \<Rightarrow> string) \<Rightarrow> lex_meta \<Rightarrow> string option" where
  "meta_node repr m =
     (case map_of m ''node_id'' of None \<Rightarrow> None | Some v \<Rightarrow> if js_truthy v then uuid_of (js_str repr v) else None)"

definition link_row :: "(json \<Rightarrow> string) \<Rightarrow> string \<Rightarrow> lexicon_row \<Rightarrow> linked_term list" where
  "link_row repr normalized r =
     (let surface = py_lower (py_strip (lx_surface r)) in
      if surface = [] \<or> \<not> mentions normalized surface then []
      else case meta_node repr (lx_meta r) of
        None \<Rightarrow> []
      | Some i \<Rightarrow> [\<lparr>lt_surface = surface, lt_canonical = lx_canonical r, lt_kind = lx_kind r, lt_node = i, lt_score = lx_score r\<rparr>])"

definition link_order :: "linked_term \<Rightarrow> real \<times> string \<times> string \<times> string" where
  "link_order x = (- lt_score x, lt_kind x, lt_surface x, lt_node x)"

definition resolve_query_links :: "(json \<Rightarrow> string) \<Rightarrow> string \<Rightarrow> lexicon_row list \<Rightarrow> linked_term list" where
  "resolve_query_links repr text rows = sort_key link_order (concat (map (link_row repr (normalized_query text)) rows))"

definition EMPTY_BUCKET :: scores where
  "EMPTY_BUCKET = [(''entity_link'', 0), (''fact_support'', 0), (''domain_term'', 0)]"

text \<open>\<open>bucket[key] = max(bucket[key], x)\<close> in the dictionary of default buckets\<close>

definition bucket_of :: "(string \<times> scores) list \<Rightarrow> string \<Rightarrow> scores" where
  "bucket_of m i = (case map_of m i of None \<Rightarrow> EMPTY_BUCKET | Some b \<Rightarrow> b)"

definition raise_bucket :: "string \<Rightarrow> (string \<times> real) option \<Rightarrow> (string \<times> scores) list \<Rightarrow> (string \<times> scores) list" where
  "raise_bucket i u m = al_put i (case u of None \<Rightarrow> bucket_of m i | Some (k, x) \<Rightarrow> raise_score k x (bucket_of m i)) m"

definition term_bonus :: "linked_term \<Rightarrow> string \<times> real" where
  "term_bonus x =
     (if lt_kind x = ''entity_alias'' then (''entity_link'', min 1 (7 / 10 + 3 / 10 * lt_score x))
      else if lt_kind x = ''relation_alias'' then (''fact_support'', min 1 (5 / 10 + 3 / 10 * lt_score x))
      else (''domain_term'', min 1 (lt_score x)))"

definition edge_bonus :: "edge_row \<Rightarrow> (string \<times> real) option" where
  "edge_bonus e =
     (let w = clamp01 (from_scaled (er_weight e)); k = er_kind e in
      if k = ''entity_relation'' then Some (''fact_support'', 65 / 100 * w)
      else if k = ''fact_value'' \<or> k = ''fact_time'' then Some (''fact_support'', 55 / 100 * w)
      else if k = ''domain_term'' then Some (''domain_term'', 5 / 10 * w)
      else if k = ''semantic_bundle'' then Some (''domain_term'', 62 / 100 * w)
      else if k = ''kb_source'' then Some (''fact_support'', 45 / 100 * w)
      else None)"

definition DOMAIN_KINDS :: "string list" where
  "DOMAIN_KINDS = [''entity_alias'', ''entity_relation'', ''fact_value'', ''fact_time'', ''domain_term'', ''kb_source'', ''semantic_bundle'']"

definition far_end :: "string list \<Rightarrow> edge_row \<Rightarrow> string" where
  "far_end seeds e = (if er_src e \<in> set seeds then er_dst e else er_src e)"

definition build_domain_candidate_scores :: "string \<Rightarrow> string \<Rightarrow> linked_term list \<Rightarrow> nat \<Rightarrow> edge_row list \<Rightarrow>
    string list \<times> (string \<times> scores) list" where
  "build_domain_candidate_scores t g linked max_neighbors edges =
     (if linked = [] then ([], [])
      else
        let seeds = map lt_node linked; es = list_graph_neighbors t g seeds (Some DOMAIN_KINDS) max_neighbors edges;
            m = fold (\<lambda>x. raise_bucket (lt_node x) (Some (term_bonus x))) linked []
        in (sort (remdups (seeds @ map (far_end seeds) es)), fold (\<lambda>e. raise_bucket (far_end seeds e) (edge_bonus e)) es m))"

section \<open>Expansions from the lexicon\<close>

text \<open>\<open>list(meta.get("bundle_members") or [])\<close>, each as text; a number or a true value is not iterable.\<close>

definition json_items :: "(json \<Rightarrow> string) \<Rightarrow> json option \<Rightarrow> string + string list" where
  "json_items repr v =
     (case v of
        None \<Rightarrow> Inr []
      | Some x \<Rightarrow>
          if \<not> js_truthy x then Inr []
          else (case x of JsList xs \<Rightarrow> Inr (map (js_str repr) xs) | JsStr s \<Rightarrow> Inr (map (\<lambda>c. [c]) s)
                | JsDict kvs \<Rightarrow> Inr (map fst kvs) | _ \<Rightarrow> Inl ''TypeError''))"

definition bundle_members :: "(json \<Rightarrow> string) \<Rightarrow> lex_meta \<Rightarrow> string + string list" where
  "bundle_members repr m =
     map_sum id (\<lambda>xs. map normalize_term (filter (\<lambda>x. py_strip x \<noteq> []) xs)) (json_items repr (map_of m ''bundle_members''))"

definition expansion_row :: "(json \<Rightarrow> string) \<Rightarrow> string \<Rightarrow> lexicon_row \<Rightarrow> string + weighted_expansion list" where
  "expansion_row repr normalized r =
     (let surface = py_lower (py_strip (lx_surface r)); canonical = py_lower (py_strip (lx_canonical r));
          kind = py_lower (py_strip (if lx_kind r = [] then ''domain_term'' else lx_kind r)); score = lx_score r;
          source = ''domain_'' @ kind
      in if surface = [] \<or> canonical = [] \<or> canonical = surface then
           (case bundle_members repr (lx_meta r) of
              Inl e \<Rightarrow> Inl e
            | Inr ms \<Rightarrow>
                if kind \<noteq> ''concept_bundle'' \<or> surface = [] \<or> ms = [] \<or> \<not> mentions normalized surface then Inr []
                else Inr (map (\<lambda>m. \<lparr>we_term = m, we_weight = min (96 / 100) (max (76 / 100) (74 / 100 + score * (18 / 100))),
                    we_sources = [source], we_origins = [surface]\<rparr>)
                  (filter (\<lambda>m. m \<noteq> [] \<and> m \<noteq> surface) ms)))
         else if \<not> mentions normalized surface then Inr []
         else
           (case bundle_members repr (lx_meta r) of
              Inl e \<Rightarrow> Inl e
            | Inr ms \<Rightarrow> Inr (\<lparr>we_term = canonical, we_weight = min (95 / 100) (max (7 / 10) (72 / 100 + score * (22 / 100))),
                    we_sources = [source], we_origins = [surface]\<rparr>
                # map (\<lambda>m. \<lparr>we_term = m, we_weight = min (94 / 100) (max (72 / 100) (7 / 10 + score * (18 / 100))),
                    we_sources = [source, ''domain_bundle''], we_origins = [surface, canonical]\<rparr>)
                  (filter (\<lambda>m. m \<noteq> [] \<and> m \<noteq> surface \<and> m \<noteq> canonical) ms))))"

fun expansion_rows :: "(json \<Rightarrow> string) \<Rightarrow> string \<Rightarrow> lexicon_row list \<Rightarrow> string + weighted_expansion list" where
  "expansion_rows repr normalized [] = Inr []"
| "expansion_rows repr normalized (r # rs) =
     (case expansion_row repr normalized r of
        Inl e \<Rightarrow> Inl e
      | Inr xs \<Rightarrow> map_sum id (\<lambda>ys. xs @ ys) (expansion_rows repr normalized rs))"

definition domain_weighted_expansions :: "(json \<Rightarrow> string) \<Rightarrow> string \<Rightarrow> lexicon_row list \<Rightarrow> string + weighted_expansion list" where
  "domain_weighted_expansions repr text rows =
     map_sum id (merge_weighted_expansions (Some 16)) (expansion_rows repr (normalized_query text) rows)"

section \<open>The lexicon\<close>

definition lexicon_ok :: "lexicon_row list \<Rightarrow> bool" where
  "lexicon_ok table \<longleftrightarrow> distinct (map (\<lambda>r. (lx_tenant r, lx_graph r, lex_key r)) table)"

lemma entry_key_simps [simp]:
  "entry_key (e\<lparr>le_pack := p\<rparr>) = entry_key e" "entry_key (join_entries old e) = entry_key old"
  "lex_key (new_row now t g e) = entry_key e" "lex_key (update_row now e r) = lex_key r"
  "lex_in t g (new_row now t g e)" "lex_in t g (update_row now e r) = lex_in t g r"
  by (simp_all add: entry_key_def join_entries_def lex_key_def new_row_def update_row_def lex_in_def)

text \<open>The dictionary of entries holds each under its own key, with at least the support and score of every row.\<close>

definition best_of :: "lexicon_entry list \<Rightarrow> lexicon_entry \<Rightarrow> bool" where
  "best_of rows e \<longleftrightarrow> (\<forall>r \<in> set rows. entry_key r = entry_key e \<longrightarrow> le_score r \<le> le_score e \<and> le_support r \<le> le_support e)"

definition noted :: "lexicon_entry list \<Rightarrow> (lex_key \<times> lexicon_entry) list \<Rightarrow> bool" where
  "noted rows m \<longleftrightarrow> distinct (al_keys m) \<and> set (al_keys m) = entry_key ` set rows
     \<and> (\<forall>x \<in> set m. entry_key (snd x) = fst x \<and> best_of rows (snd x))"

lemma in_al_put:
  assumes "distinct (al_keys m)" "x \<in> set (al_put k v m)"
  shows "x = (k, v) \<or> (x \<in> set m \<and> fst x \<noteq> k)"
proof -
  have "distinct (map fst (al_put k v m))" using assms(1) distinct_al_put by (simp only: al_keys_def)
  then have "map_of (al_put k v m) (fst x) = Some (snd x)" using assms(2) by (cases x) (simp only: fst_conv snd_conv map_of_eq_Some_iff)
  then have "((map_of m)(k \<mapsto> v)) (fst x) = Some (snd x)" by (simp only: map_of_al_put)
  then show ?thesis
    by (cases "fst x = k") (auto simp: prod_eq_iff dest: map_of_SomeD simp del: split_paired_All)
qed

lemma noted_snoc:
  assumes n: "noted rows m"
  shows "noted (rows @ [r]) (note_entry r m)"
proof -
  have ks: "distinct (al_keys m)" "set (al_keys m) = entry_key ` set rows"
    using n by (simp_all add: noted_def)
  have own: "entry_key (snd x) = fst x" "best_of rows (snd x)" if "x \<in> set m" for x
    using n that by (simp_all add: noted_def)
  have put: "noted (rows @ [r]) (al_put (entry_key r) e m)"
    if "entry_key e = entry_key r" "best_of (rows @ [r]) e" for e
  proof -
    have "entry_key (snd x) = fst x \<and> best_of (rows @ [r]) (snd x)" if x: "x \<in> set (al_put (entry_key r) e m)" for x
      using in_al_put [OF ks(1) x]
    proof (elim disjE)
      assume "x \<in> set m \<and> fst x \<noteq> entry_key r"
      then show ?thesis using own [of x] by (auto simp: best_of_def)
    next
      assume "x = (entry_key r, e)"
      then show ?thesis using \<open>entry_key e = entry_key r\<close> \<open>best_of (rows @ [r]) e\<close> by simp
    qed
    then show ?thesis using ks by (simp add: noted_def)
  qed
  show ?thesis
  proof (cases "map_of m (entry_key r)")
    case None
    then have "entry_key r \<notin> entry_key ` set rows" using ks by (simp add: map_of_eq_None_iff al_keys_def)
    then have "entry_key x \<noteq> entry_key r" if "x \<in> set rows" for x using that by (metis imageI)
    then have "best_of (rows @ [r]) (r\<lparr>le_pack := given (le_pack r)\<rparr>)" by (auto simp: best_of_def)
    then show ?thesis using None put by (simp add: note_entry_def)
  next
    case (Some old)
    then have old: "entry_key old = entry_key r" "best_of rows old" using own [OF map_of_SomeD [OF Some]] by simp_all
    then have "best_of (rows @ [r]) (join_entries old r)" by (auto simp: best_of_def join_entries_def entry_key_def le_max_iff_disj)
    then show ?thesis using Some put old by (simp add: note_entry_def)
  qed
qed

lemma noted_fold: "noted rows (fold note_entry rows [])"
proof (induction rows rule: rev_induct)
  case (snoc r rows)
  then show ?case using noted_snoc [OF snoc] by simp
qed (simp add: noted_def al_keys_def)

lemma dedupe_facts:
  shows dedupe_distinct: "distinct (map entry_key (dedupe_lexicon_rows rows))"
    and dedupe_keys: "entry_key ` set (dedupe_lexicon_rows rows) = entry_key ` set rows"
    and dedupe_best: "r \<in> set rows \<Longrightarrow> \<exists>e \<in> set (dedupe_lexicon_rows rows).
      entry_key e = entry_key r \<and> le_score r \<le> le_score e \<and> le_support r \<le> le_support e"
proof -
  let ?m = "fold note_entry rows []"
  have n: "noted rows ?m" by (rule noted_fold)
  have d: "distinct (map fst ?m)" and ks: "set (map fst ?m) = entry_key ` set rows"
    using n by (simp_all add: noted_def al_keys_def)
  have key: "entry_key e = k" if "(k, e) \<in> set ?m" for k e
    using that n by (auto simp: noted_def)
  have "map entry_key (dedupe_lexicon_rows rows) = map fst (sort_key fst ?m)"
    unfolding dedupe_lexicon_rows_def map_map by (rule map_cong [OF refl]) (use key in auto)
  moreover have "mset (map fst (sort_key fst ?m)) = mset (map fst ?m)" by simp
  ultimately show "distinct (map entry_key (dedupe_lexicon_rows rows))"
    using d by (metis mset_eq_imp_distinct_iff)
  have "set (map entry_key (dedupe_lexicon_rows rows)) = set (map fst ?m)"
    using \<open>map entry_key (dedupe_lexicon_rows rows) = map fst (sort_key fst ?m)\<close> by simp
  then show "entry_key ` set (dedupe_lexicon_rows rows) = entry_key ` set rows" using ks by simp
  show "\<exists>e \<in> set (dedupe_lexicon_rows rows). entry_key e = entry_key r \<and> le_score r \<le> le_score e \<and> le_support r \<le> le_support e"
    if r: "r \<in> set rows"
  proof -
    have "entry_key r \<in> set (map fst ?m)" using r ks by simp
    then obtain e where "(entry_key r, e) \<in> set ?m" by auto
    then have "entry_key e = entry_key r" "best_of rows e" "e \<in> set (dedupe_lexicon_rows rows)"
      using n by (force simp: noted_def dedupe_lexicon_rows_def)+
    then show ?thesis using r by (auto simp: best_of_def)
  qed
qed

lemma lexicon_ok_append:
  "lexicon_ok (table @ map (new_row now t g) es) \<longleftrightarrow>
     lexicon_ok table \<and> distinct (map entry_key es) \<and> entry_key ` set es \<inter> lex_key ` set (filter (lex_in t g) table) = {}"
proof -
  have "(\<lambda>r. (lx_tenant r, lx_graph r, lex_key r)) (new_row now t g e) = (t, g, entry_key e)" for e
    by (simp add: new_row_def lex_key_def entry_key_def)
  then have m: "map (\<lambda>r. (lx_tenant r, lx_graph r, lex_key r)) (map (new_row now t g) es) = map (\<lambda>k. (t, g, k)) (map entry_key es)"
    by simp
  show ?thesis
    unfolding lexicon_ok_def map_append distinct_append m
    by (auto simp: distinct_map lex_in_def inj_on_def)
qed

lemma merge_entry_ok:
  assumes "lexicon_ok table" "entry_key e \<notin> existing \<longrightarrow> entry_key e \<notin> lex_key ` set (filter (lex_in t g) table)"
  shows "lexicon_ok (merge_entry now t g existing e table)"
proof (cases "entry_key e \<in> existing")
  case True
  have "map (\<lambda>r. (lx_tenant r, lx_graph r, lex_key r)) (merge_entry now t g existing e table)
    = map (\<lambda>r. (lx_tenant r, lx_graph r, lex_key r)) table"
    using True by (simp add: merge_entry_def) (simp add: update_row_def lex_key_def)
  then show ?thesis using assms(1) by (simp add: lexicon_ok_def)
next
  case False
  then show ?thesis using assms lexicon_ok_append [of table now t g "[e]"] by (simp add: merge_entry_def)
qed

lemma merge_entry_keys:
  "lex_key ` set (filter (lex_in t g) (merge_entry now t g existing e table))
    = (if entry_key e \<in> existing then {} else {entry_key e}) \<union> lex_key ` set (filter (lex_in t g) table)"
proof (cases "entry_key e \<in> existing")
  case True
  let ?f = "\<lambda>r. if lex_in t g r \<and> lex_key r = entry_key e then update_row now e r else r"
  have "filter (lex_in t g) (map ?f table) = map ?f (filter (lex_in t g) table)"
    by (induction table) auto
  moreover have "lex_key (?f r) = lex_key r" for r by simp
  ultimately have "map lex_key (filter (lex_in t g) (map ?f table)) = map lex_key (filter (lex_in t g) table)" by simp
  then show ?thesis using True by (simp only: merge_entry_def if_True list.set_map [symmetric]) simp
next
  case False
  then show ?thesis by (simp add: merge_entry_def)
qed

lemma merge_entry_grows:
  assumes "r \<in> set table"
  shows "\<exists>r' \<in> set (merge_entry now t g existing e table). lx_tenant r' = lx_tenant r \<and> lx_graph r' = lx_graph r
    \<and> lex_key r' = lex_key r \<and> lx_score r \<le> lx_score r' \<and> lx_support r \<le> lx_support r'"
proof -
  let ?r = "if entry_key e \<in> existing \<and> lex_in t g r \<and> lex_key r = entry_key e then update_row now e r else r"
  have "?r \<in> set (merge_entry now t g existing e table)" using assms by (auto simp: merge_entry_def image_iff intro: bexI [of _ r])
  moreover have "lx_tenant ?r = lx_tenant r \<and> lx_graph ?r = lx_graph r \<and> lex_key ?r = lex_key r
      \<and> lx_score r \<le> lx_score ?r \<and> lx_support r \<le> lx_support ?r"
    by (simp add: update_row_def lex_key_def)
  ultimately show ?thesis by blast
qed

lemma merge_entry_stores:
  assumes "entry_key e \<in> existing \<longrightarrow> entry_key e \<in> lex_key ` set (filter (lex_in t g) table)"
  shows "\<exists>r' \<in> set (merge_entry now t g existing e table). lex_in t g r' \<and> lex_key r' = entry_key e
    \<and> le_score e \<le> lx_score r' \<and> le_support e \<le> lx_support r'"
proof (cases "entry_key e \<in> existing")
  case True
  then obtain r where r: "r \<in> set table" "lex_in t g r" "lex_key r = entry_key e" using assms by auto
  have "update_row now e r \<in> set (merge_entry now t g existing e table)"
    using r True by (auto simp: merge_entry_def image_iff intro!: bexI [of _ r])
  moreover have "le_score e \<le> lx_score (update_row now e r)" "le_support e \<le> lx_support (update_row now e r)"
    by (simp_all add: update_row_def)
  ultimately show ?thesis using r by (intro bexI [of _ "update_row now e r"]) auto
next
  case False
  have "le_score e \<le> lx_score (new_row now t g e)" "le_support e \<le> lx_support (new_row now t g e)"
    by (simp_all add: new_row_def)
  then show ?thesis using False by (intro bexI [of _ "new_row now t g e"]) (auto simp: merge_entry_def)
qed

text \<open>The loop over the entries: what each step keeps, all steps keep.\<close>

definition extends_row :: "lexicon_row \<Rightarrow> lexicon_row \<Rightarrow> bool" where
  "extends_row r r' \<longleftrightarrow> lx_tenant r' = lx_tenant r \<and> lx_graph r' = lx_graph r \<and> lex_key r' = lex_key r
     \<and> lx_score r \<le> lx_score r' \<and> lx_support r \<le> lx_support r'"

lemma extends_row_trans: "extends_row a b \<Longrightarrow> extends_row b c \<Longrightarrow> extends_row a c"
  by (auto simp: extends_row_def)

definition merge_all :: "int \<Rightarrow> string \<Rightarrow> string \<Rightarrow> lex_key set \<Rightarrow> lexicon_entry list \<Rightarrow> lexicon_row list \<Rightarrow> lexicon_row list" where
  "merge_all now t g existing es table = fold (merge_entry now t g existing) es table"

lemma merge_all_grows:
  "r \<in> set table \<Longrightarrow> \<exists>r' \<in> set (merge_all now t g existing es table). extends_row r r'"
proof (induction es arbitrary: table r)
  case Nil
  then show ?case by (auto simp: merge_all_def extends_row_def)
next
  case (Cons e es)
  obtain r1 where r1: "r1 \<in> set (merge_entry now t g existing e table)" "extends_row r r1"
    using merge_entry_grows [OF Cons.prems, of now t g existing e] unfolding extends_row_def by blast
  obtain r2 where "r2 \<in> set (merge_all now t g existing es (merge_entry now t g existing e table))" "extends_row r1 r2"
    using Cons.IH [OF r1(1)] by blast
  then show ?case using extends_row_trans [OF r1(2)] by (auto simp: merge_all_def)
qed

lemma merge_all_keys:
  "lex_key ` set (filter (lex_in t g) (merge_all now t g existing es table))
    = {k \<in> entry_key ` set es. k \<notin> existing} \<union> lex_key ` set (filter (lex_in t g) table)"
proof (induction es arbitrary: table)
  case (Cons e es)
  have "merge_all now t g existing (e # es) table = merge_all now t g existing es (merge_entry now t g existing e table)"
    by (simp add: merge_all_def)
  then show ?case by (simp only: Cons.IH merge_entry_keys) auto
qed (simp add: merge_all_def)

lemma merge_all_ok:
  assumes "lexicon_ok table" "distinct (map entry_key es)"
    and "\<forall>e \<in> set es. entry_key e \<notin> existing \<longrightarrow> entry_key e \<notin> lex_key ` set (filter (lex_in t g) table)"
  shows "lexicon_ok (merge_all now t g existing es table)"
  using assms
proof (induction es arbitrary: table)
  case (Cons e es)
  let ?t = "merge_entry now t g existing e table"
  have "lexicon_ok ?t" using Cons.prems by (intro merge_entry_ok) auto
  moreover have "\<forall>x \<in> set es. entry_key x \<notin> existing \<longrightarrow> entry_key x \<notin> lex_key ` set (filter (lex_in t g) ?t)"
  proof (intro ballI impI)
    fix x assume x: "x \<in> set es" "entry_key x \<notin> existing"
    have "entry_key x \<noteq> entry_key e" using Cons.prems(2) x by (force simp: image_iff)
    then show "entry_key x \<notin> lex_key ` set (filter (lex_in t g) ?t)"
      using Cons.prems(3) x unfolding merge_entry_keys by (auto simp del: split_paired_All)
  qed
  ultimately have "lexicon_ok (merge_all now t g existing es ?t)" using Cons.prems by (intro Cons.IH) simp_all
  then show ?case by (simp add: merge_all_def)
qed (simp add: merge_all_def)

lemma merge_all_stores:
  assumes "existing \<subseteq> lex_key ` set (filter (lex_in t g) table)" "e \<in> set es"
  shows "\<exists>r' \<in> set (merge_all now t g existing es table). lex_in t g r' \<and> lex_key r' = entry_key e
    \<and> le_score e \<le> lx_score r' \<and> le_support e \<le> lx_support r'"
  using assms
proof (induction es arbitrary: table)
  case (Cons x es)
  let ?t = "merge_entry now t g existing x table"
  have step: "merge_all now t g existing (x # es) table = merge_all now t g existing es ?t" by (simp add: merge_all_def)
  show ?case
  proof (cases "e = x")
    case True
    have "entry_key x \<in> existing \<longrightarrow> entry_key x \<in> lex_key ` set (filter (lex_in t g) table)" using Cons.prems(1) by blast
    from merge_entry_stores [OF this, of now] obtain r where r: "r \<in> set ?t" "lex_in t g r" "lex_key r = entry_key x"
      "le_score x \<le> lx_score r" "le_support x \<le> lx_support r" by blast
    obtain r' where "r' \<in> set (merge_all now t g existing es ?t)" "extends_row r r'" using merge_all_grows [OF r(1)] by blast
    then show ?thesis using r True unfolding step by (auto simp: extends_row_def lex_in_def intro!: bexI [of _ r'])
  next
    case False
    have "existing \<subseteq> lex_key ` set (filter (lex_in t g) ?t)" using Cons.prems(1) unfolding merge_entry_keys by blast
    then show ?thesis using Cons.IH [of ?t] Cons.prems(2) False unfolding step by simp
  qed
qed simp

lemma merge_all_others: "filter (\<lambda>r. \<not> lex_in t g r) (merge_all now t g existing es table) = filter (\<lambda>r. \<not> lex_in t g r) table"
proof (induction es arbitrary: table)
  case (Cons e es)
  have "filter (\<lambda>r. \<not> lex_in t g r) (map (\<lambda>r. if lex_in t g r \<and> lex_key r = entry_key e then update_row now e r else r) table)
    = filter (\<lambda>r. \<not> lex_in t g r) table" by (induction table) auto
  then have "filter (\<lambda>r. \<not> lex_in t g r) (merge_entry now t g existing e table) = filter (\<lambda>r. \<not> lex_in t g r) table"
    by (simp add: merge_entry_def)
  then show ?case using Cons [of "merge_entry now t g existing e table"] by (simp add: merge_all_def)
qed (simp add: merge_all_def)

lemma merge_lexicon_all:
  "merge_lexicon now t g rows table = (merge_all now t g (lex_key ` set (filter (lex_in t g) table)) (dedupe_lexicon_rows rows) table,
     length (dedupe_lexicon_rows rows))"
  by (simp add: merge_lexicon_def merge_all_def Let_def)

text \<open>
  The lexicon keeps its keys: replacing or merging any rows leaves one row per tenant, graph,
  surface form, canonical form and kind, does not touch rows of another tenant or graph, and reports
  as many rows as there are different keys.
\<close>

theorem lexicon_keys_unique:
  assumes "lexicon_ok table"
  shows "lexicon_ok (fst (replace_lexicon now t g rows table)) \<and> lexicon_ok (fst (merge_lexicon now t g rows table))
    \<and> filter (\<lambda>r. \<not> lex_in t g r) (fst (replace_lexicon now t g rows table)) = filter (\<lambda>r. \<not> lex_in t g r) table
    \<and> filter (\<lambda>r. \<not> lex_in t g r) (fst (merge_lexicon now t g rows table)) = filter (\<lambda>r. \<not> lex_in t g r) table
    \<and> snd (replace_lexicon now t g rows table) = card (entry_key ` set rows)
    \<and> snd (merge_lexicon now t g rows table) = card (entry_key ` set rows)"
proof -
  let ?es = "dedupe_lexicon_rows rows" and ?others = "filter (\<lambda>r. \<not> lex_in t g r) table"
  have "lexicon_ok ?others" using assms by (simp add: lexicon_ok_def distinct_map_filter)
  moreover have "filter (lex_in t g) ?others = []" by simp
  ultimately have r: "lexicon_ok (?others @ map (new_row now t g) ?es)"
    using dedupe_distinct [of rows] by (simp only: lexicon_ok_append) simp
  have m: "lexicon_ok (fst (merge_lexicon now t g rows table))"
    unfolding merge_lexicon_all fst_conv by (rule merge_all_ok [OF assms dedupe_distinct]) simp
  have "length ?es = card (entry_key ` set rows)"
    using dedupe_distinct [of rows] dedupe_keys [of rows] distinct_card by (metis length_map list.set_map)
  then show ?thesis
    using r m by (simp add: replace_lexicon_def merge_lexicon_all merge_all_others Let_def)
qed

definition ex_entry :: "real \<Rightarrow> lexicon_entry" where
  "ex_entry s = \<lparr>le_surface = ''a'', le_canonical = ''b'', le_kind = ''k'', le_pack = None, le_support = 1, le_score = s, le_meta = []\<rparr>"

theorem lexicon_keys_unique_witness:
  "lexicon_ok (fst (merge_lexicon 1 ''t'' ''g'' [ex_entry 1, ex_entry 2] []))"
  using lexicon_keys_unique [of "[]" 1 "''t''" "''g''" "[ex_entry 1, ex_entry 2]"] by (simp add: lexicon_ok_def)

text \<open>
  Merging loses nothing: every row of the table is still there with at least its score and support,
  every given row is stored with at least its own, and no key appears that was in neither.
\<close>

theorem merge_lexicon_keeps:
  assumes "merge_lexicon now t g rows table = (table', n)"
  shows "(\<forall>r \<in> set table. \<exists>r' \<in> set table'. lx_tenant r' = lx_tenant r \<and> lx_graph r' = lx_graph r \<and> lex_key r' = lex_key r
      \<and> lx_score r \<le> lx_score r' \<and> lx_support r \<le> lx_support r')
    \<and> (\<forall>e \<in> set rows. \<exists>r' \<in> set table'. lex_in t g r' \<and> lex_key r' = entry_key e
      \<and> le_score e \<le> lx_score r' \<and> le_support e \<le> lx_support r')
    \<and> lex_key ` set (filter (lex_in t g) table') = lex_key ` set (filter (lex_in t g) table) \<union> entry_key ` set rows"
proof -
  let ?ex = "lex_key ` set (filter (lex_in t g) table)" and ?es = "dedupe_lexicon_rows rows"
  have t': "table' = merge_all now t g ?ex ?es table" using assms by (simp add: merge_lexicon_all)
  have "\<exists>r' \<in> set table'. extends_row r r'" if "r \<in> set table" for r
    unfolding t' using that by (rule merge_all_grows)
  moreover have "\<exists>r' \<in> set table'. lex_in t g r' \<and> lex_key r' = entry_key e \<and> le_score e \<le> lx_score r' \<and> le_support e \<le> lx_support r'"
    if e: "e \<in> set rows" for e
  proof -
    obtain x where x: "x \<in> set ?es" "entry_key x = entry_key e" "le_score e \<le> le_score x" "le_support e \<le> le_support x"
      using dedupe_best [OF e] by blast
    from merge_all_stores [OF subset_refl x(1), of now] obtain r' where "r' \<in> set table'" "lex_in t g r'" "lex_key r' = entry_key x"
      "le_score x \<le> lx_score r'" "le_support x \<le> lx_support r'" unfolding t' by blast
    then show ?thesis using x by (intro bexI [of _ r']) auto
  qed
  moreover have "lex_key ` set (filter (lex_in t g) table') = ?ex \<union> entry_key ` set rows"
    unfolding t' merge_all_keys dedupe_keys by auto
  ultimately show ?thesis unfolding extends_row_def by blast
qed

theorem merge_lexicon_keeps_witness:
  "\<exists>r' \<in> set (fst (merge_lexicon 1 ''t'' ''g'' [ex_entry 1, ex_entry 2] [])). lex_key r' = (''a'', ''b'', ''k'') \<and> 2 \<le> lx_score r'"
proof -
  obtain table' n where m: "merge_lexicon 1 ''t'' ''g'' [ex_entry 1, ex_entry 2] [] = (table', n)" by (cases "merge_lexicon 1 ''t'' ''g'' [ex_entry 1, ex_entry 2] []")
  from merge_lexicon_keeps [OF this] show ?thesis
    unfolding m by (simp add: ex_entry_def entry_key_def) blast
qed

section \<open>Sources\<close>

text \<open>A merge of sources with one new id twice fails, where a merge of the lexicon joins the two rows.\<close>

lemma duplicate_sources_fail:
  assumes "se_id a = se_id b" "\<forall>r \<in> set table. source_in t g r \<longrightarrow> so_id r \<noteq> se_id a"
  shows "merge_sources now t g [a, b] table = Inl ''IntegrityError''"
  using assms by (auto simp: merge_sources_def Let_def)

section \<open>Links and scores\<close>

text \<open>A surface form of several words is found inside other words.\<close>

lemma mentions_inside_words: "mentions ''renew yorkers'' ''new york''" "\<not> mentions ''renewal'' ''new''"
  by code_simp+

definition bucket_ok :: "scores \<Rightarrow> bool" where
  "bucket_ok b \<longleftrightarrow> (\<forall>k. 0 \<le> score_at b k \<and> score_at b k \<le> 1)"

lemma score_at_raise: "score_at (raise_score k x b) j = (if j = k then max (score_at b k) x else score_at b j)"
  by (simp add: score_at_def [of "raise_score k x b"]) (simp add: score_at_def)

lemma bucket_raise: "bucket_ok b \<Longrightarrow> x \<le> 1 \<Longrightarrow> bucket_ok (raise_score k x b)"
  by (auto simp: bucket_ok_def score_at_raise le_max_iff_disj)

lemma bucket_empty: "bucket_ok EMPTY_BUCKET"
  by (simp add: bucket_ok_def EMPTY_BUCKET_def score_at_def)

text \<open>Buckets of the dictionary, all for ids of I.\<close>

definition buckets_ok :: "string set \<Rightarrow> (string \<times> scores) list \<Rightarrow> bool" where
  "buckets_ok I m \<longleftrightarrow> distinct (al_keys m) \<and> set (al_keys m) \<subseteq> I \<and> (\<forall>i b. map_of m i = Some b \<longrightarrow> bucket_ok b)"

lemma buckets_raise:
  assumes "buckets_ok I m" "i \<in> I" "\<And>k x. u = Some (k, x) \<Longrightarrow> x \<le> 1"
  shows "buckets_ok I (raise_bucket i u m)"
proof -
  have "bucket_ok (bucket_of m i)" using assms(1) bucket_empty by (auto simp: buckets_ok_def bucket_of_def split: option.splits)
  then have "bucket_ok (case u of None \<Rightarrow> bucket_of m i | Some (k, x) \<Rightarrow> raise_score k x (bucket_of m i))"
    using assms(3) bucket_raise by (auto split: option.splits)
  then show ?thesis using assms(1,2) by (auto simp: buckets_ok_def raise_bucket_def)
qed

lemma buckets_fold:
  assumes "buckets_ok I m" "\<forall>x \<in> set xs. f x \<in> I \<and> (\<forall>k y. u x = Some (k, y) \<longrightarrow> y \<le> 1)"
  shows "buckets_ok I (fold (\<lambda>x. raise_bucket (f x) (u x)) xs m)"
  using assms by (induction xs arbitrary: m) (simp_all add: buckets_raise)

lemma edge_bonus_le: "edge_bonus e = Some (k, x) \<Longrightarrow> x \<le> 1"
proof -
  assume b: "edge_bonus e = Some (k, x)"
  define w where "w = clamp01 (from_scaled (er_weight e))"
  have "w \<le> 1" by (simp add: w_def)
  then show ?thesis using b by (auto simp: edge_bonus_def Let_def simp flip: w_def split: if_splits)
qed

lemma term_bonus_le: "snd (term_bonus x) \<le> 1"
  by (simp add: term_bonus_def)

text \<open>
  Domain scores are bounded and belong to candidates: the candidates are listed once, in order, and
  hold every linked node; every scored node is one of them, and each of its scores lies between zero
  and one, whatever the scores of the lexicon and the weights of the edges are.
\<close>

theorem domain_scores_bounded:
  assumes "build_domain_candidate_scores t g linked k edges = (ids, m)"
  shows "sorted ids \<and> distinct ids \<and> lt_node ` set linked \<subseteq> set ids \<and> distinct (map fst m) \<and> fst ` set m \<subseteq> set ids
    \<and> (\<forall>(i, b) \<in> set m. \<forall>key. 0 \<le> score_at b key \<and> score_at b key \<le> 1)"
proof (cases "linked = []")
  case True
  then show ?thesis using assms by (simp add: build_domain_candidate_scores_def)
next
  case False
  let ?seeds = "map lt_node linked"
  let ?es = "list_graph_neighbors t g ?seeds (Some DOMAIN_KINDS) k edges"
  have ids: "ids = sort (remdups (?seeds @ map (far_end ?seeds) ?es))"
    and m: "m = fold (\<lambda>e. raise_bucket (far_end ?seeds e) (edge_bonus e)) ?es
      (fold (\<lambda>x. raise_bucket (lt_node x) (Some (term_bonus x))) linked [])"
    using assms False by (simp_all add: build_domain_candidate_scores_def Let_def)
  have "buckets_ok (set ids) []" by (simp add: buckets_ok_def al_keys_def)
  then have "buckets_ok (set ids) (fold (\<lambda>x. raise_bucket (lt_node x) (Some (term_bonus x))) linked [])"
    by (rule buckets_fold) (use term_bonus_le in \<open>auto simp: ids\<close>, metis snd_conv)
  then have ok: "buckets_ok (set ids) m"
    unfolding m by (rule buckets_fold) (use edge_bonus_le in \<open>auto simp: ids\<close>)
  then have d: "distinct (map fst m)" by (simp add: buckets_ok_def al_keys_def)
  moreover have "0 \<le> score_at b key \<and> score_at b key \<le> 1" if "(i, b) \<in> set m" for i b key
    using ok that d by (auto simp: buckets_ok_def bucket_ok_def)
  moreover have "fst ` set m \<subseteq> set ids" using ok by (simp add: buckets_ok_def al_keys_def)
  ultimately show ?thesis by (auto simp: ids)
qed

definition ex_link :: linked_term where
  "ex_link = \<lparr>lt_surface = ''a'', lt_canonical = ''b'', lt_kind = ''entity_alias'', lt_node = ''n'', lt_score = 5\<rparr>"

theorem domain_scores_bounded_witness:
  "\<exists>b. snd (build_domain_candidate_scores ''t'' ''g'' [ex_link] 24 []) = [(''n'', b)] \<and> score_at b ''entity_link'' \<le> 1"
proof -
  let ?r = "build_domain_candidate_scores ''t'' ''g'' [ex_link] 24 []"
  have m: "snd ?r = [(''n'', bucket_of (raise_bucket ''n'' (Some (term_bonus ex_link)) []) ''n'')]"
    by (simp add: build_domain_candidate_scores_def ex_link_def list_graph_neighbors_def raise_bucket_def bucket_of_def query_rows_def)
  have "build_domain_candidate_scores ''t'' ''g'' [ex_link] 24 [] = (fst ?r, snd ?r)" by simp
  from domain_scores_bounded [OF this] show ?thesis unfolding m by auto
qed

end
