(* ===== verification/FM_Query_Flow.thy ===== *)
theory FM_Query_Flow
  imports FM_Rerank FM_Domain FM_Query_Cache FM_Event_Journal FM_Graph_Version
begin

text \<open>
  Answering a query: \<open>orchestration/query_flow.py\<close> with the query weights of
  \<open>core/query/idf_cache.py\<close> and the diagnostics cache of \<open>store/pg/models_faim.py\<close>. It joins the
  query cache, recall, the lexical index, domain knowledge, graph semantics, reranking, the event
  journal and the usage counters of the nodes.

  The canonical and multilingual forms of a text, the semantic registry, the vectorizer, the
  diagnostics, the phase 5 indexes and the answer synthesis are arguments; one that may raise returns
  an option. One clock reading serves a whole query.

  Shown here: what a successful query returns, records and changes, and when a query succeeds.
\<close>

section \<open>Events\<close>

type_synonym flow_event = "string \<times> js_dict"

definition query_start_event :: "string \<Rightarrow> nat \<Rightarrow> string \<Rightarrow> flow_event" where
  "query_start_event h k profile =
     (''QUERY_START'', [(''query_hash'', JsStr (take 16 h)), (''k'', JsInt (int k)), (''profile'', JsStr profile)])"

definition query_reranked_event :: "string \<Rightarrow> string list \<Rightarrow> flow_event" where
  "query_reranked_event h ids =
     (''QUERY_RERANKED'', [(''query_hash'', JsStr (take 16 h)), (''top_count'', JsInt (int (length ids))),
        (''top_ids'', JsList (map JsStr (take 5 ids)))])"

definition query_touch_event :: "string \<Rightarrow> int \<Rightarrow> flow_event" where
  "query_touch_event i n = (''QUERY_TOUCH'', [(''node_id'', JsStr i), (''touch_count'', JsInt n)])"

definition query_complete_event :: "string \<Rightarrow> nat \<Rightarrow> string \<Rightarrow> string \<Rightarrow> flow_event" where
  "query_complete_event h n duration diagnostics =
     (''QUERY_COMPLETE'', [(''query_hash'', JsStr (take 16 h)), (''result_count'', JsInt (int n)), (''duration_ms'', JsFloat duration),
        (''diagnostics_hash'', if diagnostics \<noteq> [] then JsStr (take 16 diagnostics) else JsNull)])"

text \<open>The n-th event of a query: created with the clock and a fresh id, appended in the session.\<close>

record emitter =
  em_sha :: "string \<Rightarrow> string"
  em_iso :: "int \<Rightarrow> string"
  em_uid :: "nat \<Rightarrow> string"
  em_now :: int
  em_session :: nat

definition emit :: "emitter \<Rightarrow> string \<Rightarrow> string \<Rightarrow> nat \<Rightarrow> flow_event \<Rightarrow> journal \<Rightarrow> (string + event_record) \<times> journal" where
  "emit em t g n e j =
     journal_append (em_sha em) (em_iso em) t (em_session em)
       (create_event (em_sha em) (em_iso em) (em_uid em n) (em_now em) (em_now em) g (fst e) (snd e) None) j"

fun emit_all :: "emitter \<Rightarrow> string \<Rightarrow> string \<Rightarrow> nat \<Rightarrow> flow_event list \<Rightarrow> journal \<Rightarrow> (string + nat) \<times> journal" where
  "emit_all em t g n [] j = (Inr n, j)"
| "emit_all em t g n (e # es) j =
     (case emit em t g n e j of
        (Inl err, j1) \<Rightarrow> (Inl err, j1)
      | (Inr _, j1) \<Rightarrow> emit_all em t g (Suc n) es j1)"

section \<open>The diagnostics cache\<close>

record graph_diagnostics =
  gd_redundancy :: real
  gd_dimension :: real
  gd_entropy :: real
  gd_lambda :: real
  gd_novelty :: real
  gd_energy :: real
  gd_digest :: string

record diag_row =
  dg_tenant :: string
  dg_graph :: string
  dg_version :: int
  dg_node_count :: nat
  dg_edge_count :: nat
  dg_cr :: real
  dg_values :: graph_diagnostics
  dg_computed :: int

record graph_metrics =
  gm_node_count :: nat
  gm_edge_count :: nat
  gm_avg_touch :: real
  gm_cr :: real
  gm_values :: graph_diagnostics
  gm_version :: int
  gm_computed :: int

definition diag_in :: "string \<Rightarrow> string \<Rightarrow> diag_row \<Rightarrow> bool" where
  "diag_in t g r \<longleftrightarrow> dg_tenant r = t \<and> dg_graph r = g"

text \<open>\<open>float(avg) if avg else 1.0\<close>: no nodes and nothing touched both give one.\<close>

definition avg_touch :: "node_row list \<Rightarrow> real" where
  "avg_touch nodes =
     (let a = (if nodes = [] then 0 else of_int (sum_list (map nd_touch nodes)) / of_nat (length nodes))
      in if a = 0 then 1 else a)"

definition round_diagnostics :: "graph_diagnostics \<Rightarrow> graph_diagnostics" where
  "round_diagnostics d =
     \<lparr>gd_redundancy = round6 (gd_redundancy d), gd_dimension = round6 (gd_dimension d), gd_entropy = round6 (gd_entropy d),
      gd_lambda = round6 (gd_lambda d), gd_novelty = round6 (gd_novelty d), gd_energy = round6 (gd_energy d),
      gd_digest = gd_digest d\<rparr>"

definition snapshot_row :: "int \<Rightarrow> string \<Rightarrow> string \<Rightarrow> int \<Rightarrow> nat \<Rightarrow> nat \<Rightarrow> graph_diagnostics \<Rightarrow> diag_row" where
  "snapshot_row now t g version nodes edges d =
     \<lparr>dg_tenant = t, dg_graph = g, dg_version = version, dg_node_count = nodes, dg_edge_count = edges,
      dg_cr = (if edges = 0 then 0 else round6 (of_nat nodes / of_nat edges)), dg_values = round_diagnostics d, dg_computed = now\<rparr>"

text \<open>The row of a graph is created or overwritten.\<close>

definition put_snapshot :: "diag_row \<Rightarrow> diag_row list \<Rightarrow> diag_row list" where
  "put_snapshot r rows =
     (if list_ex (diag_in (dg_tenant r) (dg_graph r)) rows
      then map (\<lambda>x. if diag_in (dg_tenant r) (dg_graph r) x then r else x) rows else rows @ [r])"

definition to_metrics :: "real \<Rightarrow> diag_row \<Rightarrow> graph_metrics" where
  "to_metrics avg r =
     \<lparr>gm_node_count = dg_node_count r, gm_edge_count = dg_edge_count r, gm_avg_touch = avg, gm_cr = dg_cr r,
      gm_values = dg_values r, gm_version = dg_version r, gm_computed = dg_computed r\<rparr>"

type_synonym diagnose = "node_row list \<Rightarrow> edge_row list \<Rightarrow> int \<Rightarrow> graph_diagnostics"

definition refresh_graph_diagnostics :: "diagnose \<Rightarrow> int \<Rightarrow> string \<Rightarrow> string \<Rightarrow> int option \<Rightarrow> version_row list \<Rightarrow> node_row list \<Rightarrow>
    edge_row list \<Rightarrow> diag_row list \<Rightarrow> graph_metrics \<times> diag_row list" where
  "refresh_graph_diagnostics diagnose now t g version versions nodes edges rows =
     (let v = (case version of Some x \<Rightarrow> x | None \<Rightarrow> get_version t g versions);
          ns = filter (node_in t g) nodes; es = filter (in_graph t g) edges;
          r = snapshot_row now t g v (length ns) (length es) (diagnose ns es v)
      in (to_metrics (avg_touch ns) r, put_snapshot r rows))"

definition persist_graph_diagnostics_snapshot :: "int \<Rightarrow> string \<Rightarrow> string \<Rightarrow> graph_diagnostics \<Rightarrow> int \<Rightarrow> node_row list \<Rightarrow>
    edge_row list \<Rightarrow> diag_row list \<Rightarrow> graph_metrics \<times> diag_row list" where
  "persist_graph_diagnostics_snapshot now t g d version nodes edges rows =
     (let r = snapshot_row now t g version (length (filter (node_in t g) nodes)) (length (filter (in_graph t g) edges)) d
      in (to_metrics 1 r, put_snapshot r rows))"

definition get_graph_metrics :: "diagnose \<Rightarrow> int \<Rightarrow> string \<Rightarrow> string \<Rightarrow> version_row list \<Rightarrow> node_row list \<Rightarrow> edge_row list \<Rightarrow>
    diag_row list \<Rightarrow> graph_metrics \<times> diag_row list" where
  "get_graph_metrics diagnose now t g versions nodes edges rows =
     (let v = get_version t g versions; ns = filter (node_in t g) nodes in
      case find (diag_in t g) rows of
        Some r \<Rightarrow>
          if dg_version r < v then refresh_graph_diagnostics diagnose now t g (Some v) versions nodes edges rows
          else ((to_metrics (avg_touch ns) r)\<lparr>gm_node_count := length ns\<rparr>, rows)
      | None \<Rightarrow> refresh_graph_diagnostics diagnose now t g (Some v) versions nodes edges rows)"

section \<open>Usage\<close>

text \<open>One touch per id that is a node of the graph; the dictionary holds the last count of each.\<close>

definition touch_one :: "int \<Rightarrow> string \<Rightarrow> string \<Rightarrow> string \<Rightarrow> (string \<times> int) list \<times> node_row list \<Rightarrow>
    (string \<times> int) list \<times> node_row list" where
  "touch_one now t g i st =
     (let (touches, rows) = st in
      case get_node_row t g i rows of
        None \<Rightarrow> st
      | Some n \<Rightarrow> (al_put i (nd_touch n + 1) touches,
          map (\<lambda>x. if node_in t g x \<and> nd_id x = i then x\<lparr>nd_touch := nd_touch n + 1, nd_access := Some now\<rparr> else x) rows))"

definition update_usage :: "int \<Rightarrow> string \<Rightarrow> string \<Rightarrow> string list \<Rightarrow> node_row list \<Rightarrow> (string \<times> int) list \<times> node_row list" where
  "update_usage now t g ids rows = fold (touch_one now t g) ids ([], rows)"

section \<open>Small helpers\<close>

definition stable_union_ids :: "string list \<Rightarrow> string list \<Rightarrow> string list" where
  "stable_union_ids primary extra = fold (\<lambda>i merged. if i \<in> set merged then merged else merged @ [i]) (primary @ extra) []"

definition source_count_map :: "weighted_expansion list \<Rightarrow> counts" where
  "source_count_map xs = sort_key fst (fold (\<lambda>x. fold bump_count (we_sources x)) xs [])"

definition degrade :: "string \<Rightarrow> string list \<Rightarrow> string list" where
  "degrade feature ds = (if feature \<in> set ds then ds else ds @ [feature])"

definition or_default :: "int option \<Rightarrow> int \<Rightarrow> int" where
  "or_default m d = (case m of None \<Rightarrow> d | Some n \<Rightarrow> if n = 0 then d else n)"

section \<open>IDF weights\<close>

definition bucket_df :: "vec list \<Rightarrow> nat \<Rightarrow> nat" where
  "bucket_df vs i = length (filter (\<lambda>v. i < length v \<and> v ! i \<noteq> 0) vs)"

definition compute_idf_weights :: "string \<Rightarrow> string \<Rightarrow> nat \<Rightarrow> node_row list \<Rightarrow> real list" where
  "compute_idf_weights t g dimension rows =
     (let vs = map nd_vector (filter (node_in t g) rows) in
      if vs = [] then replicate dimension 1
      else map (\<lambda>i. ln (of_nat (length vs) / (of_nat (bucket_df vs i) + 1)) + 1) [0..<dimension])"

definition apply_idf :: "vec \<Rightarrow> real list \<Rightarrow> string + vec" where
  "apply_idf q idf =
     (if length idf < length q then Inl ''IndexError''
      else let w = map2 (*) q idf; norm = (if vnorm w = 0 then 1 else vnorm w) in Inr (map (\<lambda>x. x / norm) w))"

section \<open>The query text\<close>

record canonicalized =
  cz_normalized :: string
  cz_canonical :: string
  cz_expansions :: "weighted_expansion list"

record query_text_tools =
  qt_canonical :: "string \<Rightarrow> canonicalized option"
  qt_multilingual :: "string \<Rightarrow> weighted_expansion list option"
  qt_registry :: "(string \<times> string list) list \<Rightarrow> string \<Rightarrow> weighted_expansion list option"
  qt_synonyms :: synonyms
  qt_repr :: "json \<Rightarrow> string"
  qt_vector :: "string \<Rightarrow> vec"

record text_state =
  tx_canonical :: string
  tx_normalized :: "string option"
  tx_items :: "weighted_expansion list"
  tx_expanded :: string
  tx_degraded :: "string list"

definition add_expansions :: "int \<Rightarrow> nat \<Rightarrow> weighted_expansion list \<Rightarrow> text_state \<Rightarrow> text_state" where
  "add_expansions max_total max_terms xs s =
     (let items = merge_weighted_expansions (Some max_total) (tx_items s @ xs)
      in s\<lparr>tx_items := items, tx_expanded := render_weighted_expansion_text max_terms (tx_canonical s) items\<rparr>)"

definition degrade_text :: "string \<Rightarrow> text_state \<Rightarrow> text_state" where
  "degrade_text feature s = s\<lparr>tx_degraded := degrade feature (tx_degraded s)\<rparr>"

definition canonical_stage :: "query_text_tools \<Rightarrow> string \<Rightarrow> text_state" where
  "canonical_stage qt text =
     (let s = \<lparr>tx_canonical = text, tx_normalized = None, tx_items = [], tx_expanded = text, tx_degraded = []\<rparr> in
      case qt_canonical qt text of
        None \<Rightarrow> degrade_text ''canonical_query_expansion'' s
      | Some c \<Rightarrow>
          add_expansions 28 36 (cz_expansions c @ build_weighted_synonym_expansions (qt_synonyms qt) 4 20 8 (cz_normalized c))
            (s\<lparr>tx_canonical := (if cz_canonical c \<noteq> [] then cz_canonical c else text), tx_normalized := Some (cz_normalized c)\<rparr>))"

text \<open>The labels are those of the code: each stage after the first reports the name of a later one.\<close>

definition multilingual_stage :: "query_text_tools \<Rightarrow> text_state \<Rightarrow> text_state" where
  "multilingual_stage qt s =
     (case qt_multilingual qt (case tx_normalized s of Some n \<Rightarrow> n | None \<Rightarrow> tx_canonical s) of
        None \<Rightarrow> degrade_text ''domain_entity_linking'' s
      | Some xs \<Rightarrow> add_expansions 32 40 xs s)"

definition domain_stage :: "query_text_tools \<Rightarrow> lexicon_row list \<Rightarrow> text_state \<Rightarrow> text_state" where
  "domain_stage qt rows s =
     (case domain_weighted_expansions (qt_repr qt) (tx_expanded s) rows of
        Inl _ \<Rightarrow> degrade_text ''semantic_registry_expansion'' s
      | Inr xs \<Rightarrow> add_expansions 36 44 xs s)"

definition registry_stage :: "query_text_tools \<Rightarrow> (string \<times> string list) list \<Rightarrow> text_state \<Rightarrow> text_state" where
  "registry_stage qt domain_map s =
     (case qt_registry qt domain_map (tx_expanded s) of
        None \<Rightarrow> degrade_text ''idf_weighting'' s
      | Some xs \<Rightarrow> add_expansions 40 52 xs s)"

text \<open>The text, and the candidates and scores linked to it before the domain expansion.\<close>

definition prepare_text :: "query_text_tools \<Rightarrow> string \<Rightarrow> string \<Rightarrow> string \<Rightarrow> lexicon_row list \<Rightarrow> edge_row list \<Rightarrow>
    text_state \<times> string list \<times> (string \<times> scores) list" where
  "prepare_text qt t g text lexicon edges =
     (let s = multilingual_stage qt (canonical_stage qt text); rows = list_lexicon_entries t g [] lexicon;
          (ids, sc) = build_domain_candidate_scores t g (resolve_query_links (qt_repr qt) (tx_expanded s) rows) 24 edges
      in (registry_stage qt (get_domain_map t g [] lexicon) (domain_stage qt rows s), ids, sc))"

section \<open>The query vector\<close>

definition weigh_vector :: "string \<Rightarrow> string \<Rightarrow> node_row list \<Rightarrow> vec \<Rightarrow> string list \<Rightarrow> vec \<times> string list" where
  "weigh_vector t g rows q ds =
     (case apply_idf q (compute_idf_weights t g 256 rows) of
        Inl _ \<Rightarrow> (q, degrade ''inheritance_query_expansion'' ds)
      | Inr v \<Rightarrow> (v, ds))"

text \<open>Any failure of the inheritance expansion is silent.\<close>

definition expand_vector :: "(json_val \<Rightarrow> real) \<Rightarrow> string \<Rightarrow> string \<Rightarrow> node_row list \<Rightarrow> edge_row list \<Rightarrow> vec \<Rightarrow> vec" where
  "expand_vector num t g rows edges q =
     (case recall_candidates_brute_force t g q 20 None None rows of
        Inl _ \<Rightarrow> q
      | Inr seeds \<Rightarrow>
          if seeds = [] then q
          else (case inheritance_weighted_expansion num t g q (map fst seeds) (2 / 10) 3 rows edges of Inl _ \<Rightarrow> q | Inr v \<Rightarrow> v))"

section \<open>State and arguments\<close>

datatype query_profile = STRICT | BALANCED | FAST | RELAXED

fun profile_name :: "query_profile \<Rightarrow> string" where
  "profile_name STRICT = ''STRICT''" | "profile_name BALANCED = ''BALANCED''" | "profile_name FAST = ''FAST''"
| "profile_name RELAXED = ''RELAXED''"

fun profile_value :: "query_profile \<Rightarrow> string" where
  "profile_value STRICT = ''strict''" | "profile_value BALANCED = ''balanced''" | "profile_value FAST = ''fast''"
| "profile_value RELAXED = ''relaxed''"

record 'r query_world =
  qw_tables :: rerank_tables
  qw_clusters :: "cluster_row list"
  qw_versions :: "version_row list"
  qw_diagnostics :: "diag_row list"
  qw_lexicon :: "lexicon_row list"
  qw_journal :: journal
  qw_cache :: 'r

record query_args =
  qa_text :: string
  qa_k :: nat
  qa_profile :: query_profile
  qa_explain :: bool
  qa_index :: "vector_index option"
  qa_historical :: bool
  qa_as_of :: "int option"
  qa_max_hops :: "int option"
  qa_max_neighbors :: "int option"
  qa_decay :: "real option"
  qa_alpha :: "real option"
  qa_steps :: "int option"

record 'r cache_conn =
  cc_client :: "'r redis_client"
  cc_canonical :: "vec \<Rightarrow> string"
  cc_sha :: "string \<Rightarrow> string"
  cc_loads :: "string \<Rightarrow> scores option"
  cc_dumps :: "scores \<Rightarrow> string"
  cc_ttl :: int
  cc_tenant :: string

text \<open>The sparse and dense candidates of the phase 5 indexes of a graph version; None raises.\<close>

type_synonym hybrid_index = "int \<Rightarrow> representation \<Rightarrow> (string \<Rightarrow> channel_stats) \<Rightarrow> vec \<Rightarrow> nat \<Rightarrow> (scores \<times> scores) option"

record 'r query_env =
  qe_tenant :: string
  qe_graph :: string
  qe_now :: int
  qe_emitter :: emitter
  qe_sha :: "string \<Rightarrow> string"
  qe_text :: query_text_tools
  qe_tools :: rerank_tools
  qe_diagnose :: diagnose
  qe_repr_enabled :: bool
  qe_hybrid :: "hybrid_index option"
  qe_cache :: "'r cache_conn option"
  qe_answer :: "string \<Rightarrow> result_item list \<Rightarrow> string option"
  qe_duration :: string

abbreviation world_nodes :: "('r, 'm) query_world_scheme \<Rightarrow> node_row list" where
  "world_nodes w \<equiv> rw_nodes (rt_world (qw_tables w))"

abbreviation world_edges :: "('r, 'm) query_world_scheme \<Rightarrow> edge_row list" where
  "world_edges w \<equiv> rt_edges (qw_tables w)"

definition set_repr_world :: "repr_world \<Rightarrow> ('r, 'm) query_world_scheme \<Rightarrow> ('r, 'm) query_world_scheme" where
  "set_repr_world rw w = w\<lparr>qw_tables := (qw_tables w)\<lparr>rt_world := rw\<rparr>\<rparr>"

section \<open>Candidates\<close>

definition cached_candidates :: "'r cache_conn option \<Rightarrow> string \<Rightarrow> int \<Rightarrow> vec \<Rightarrow> query_profile \<Rightarrow> 'r \<Rightarrow> scores" where
  "cached_candidates cache g version q profile s =
     (case cache of
        None \<Rightarrow> []
      | Some c \<Rightarrow>
          (case query_get (Some (cc_client c)) (cc_canonical c) (cc_sha c) (cc_loads c) (cc_tenant c) g version q
              (profile_value profile) 200 s of
             None \<Rightarrow> []
           | Some xs \<Rightarrow> concat (map (\<lambda>(i, x). case uuid_of i of None \<Rightarrow> [] | Some u \<Rightarrow> [(u, x)]) xs)))"

definition store_candidates :: "'r cache_conn option \<Rightarrow> string \<Rightarrow> int \<Rightarrow> vec \<Rightarrow> query_profile \<Rightarrow> scores \<Rightarrow> 'r \<Rightarrow> 'r" where
  "store_candidates cache g version q profile cs s =
     (case cache of
        None \<Rightarrow> s
      | Some c \<Rightarrow>
          if cs = [] then s
          else snd (query_set (Some (cc_client c)) (cc_canonical c) (cc_sha c) (cc_dumps c) (cc_ttl c) (cc_tenant c) g version q
                 (profile_value profile) 200 cs None s))"

definition merge_hybrid :: "scores \<Rightarrow> scores \<Rightarrow> nat \<Rightarrow> scores" where
  "merge_hybrid sparse dense limit =
     take limit (sort_key score_order
       (map (\<lambda>i. (i, max (score_at (rev sparse) i) (score_at (rev dense) i))) (stable_union_ids (map fst sparse) (map fst dense))))"

definition recall_args :: expansion_args where
  "recall_args = \<lparr>xa_hop_limit = 8, xa_max_hops = 2, xa_max_neighbors = None, xa_decay = 6 / 10, xa_alpha = 2 / 10, xa_steps = 3\<rparr>"

definition recall_stage :: "string \<Rightarrow> string \<Rightarrow> vec \<Rightarrow> query_profile \<Rightarrow> vector_index option \<Rightarrow> cluster_row list \<Rightarrow>
    node_row list \<Rightarrow> edge_row list \<Rightarrow> string + scores" where
  "recall_stage t g q profile index clusters rows edges =
     (let graph = recall_with_graph_expansion t g q 200 30 recall_args clusters rows edges in
      case index of
        None \<Rightarrow> graph
      | Some ix \<Rightarrow>
          if profile = STRICT then graph
          else (case recall_candidates_index ix q 200 of [] \<Rightarrow> graph | cs \<Rightarrow> Inr cs))"

text \<open>The hybrid candidates with the statistics read (and built when missing) for them; the second part says that they failed.\<close>

definition hybrid_stage :: "'r query_env \<Rightarrow> query_args \<Rightarrow> int \<Rightarrow> representation \<Rightarrow> vec \<Rightarrow> 'r query_world \<Rightarrow> scores \<times> bool \<times> 'r query_world" where
  "hybrid_stage en a version repr q w =
     (case qe_hybrid en of
        None \<Rightarrow> ([], False, w)
      | Some h \<Rightarrow>
          if \<not> qe_repr_enabled en then ([], False, w)
          else
            let (stats, rw) = get_graph_stats (qe_now en) (qe_tenant en) (qe_graph en) (rt_world (qw_tables w));
                w1 = set_repr_world rw w; limit = max 200 (qa_k a * 20)
            in case h version repr stats q limit of
                 None \<Rightarrow> ([], True, w1)
               | Some (sparse, dense) \<Rightarrow> (merge_hybrid sparse dense limit, False, w1))"

text \<open>Cache, then the hybrid indexes, then recall, whose candidates are stored.\<close>

definition candidate_stage :: "'r query_env \<Rightarrow> query_args \<Rightarrow> int \<Rightarrow> representation \<Rightarrow> vec \<Rightarrow> string list \<Rightarrow> 'r query_world \<Rightarrow>
    (string + scores \<times> bool \<times> string list) \<times> 'r query_world" where
  "candidate_stage en a version repr q ds w =
     (case cached_candidates (qe_cache en) (qe_graph en) version q (qa_profile a) (qw_cache w) of
        c # cs \<Rightarrow> (Inr (c # cs, True, ds), w)
      | [] \<Rightarrow>
          (case hybrid_stage en a version repr q w of
             (c # cs, failed, w1) \<Rightarrow> (Inr (c # cs, False, ds), w1)
           | ([], failed, w1) \<Rightarrow>
               let ds1 = (if failed then degrade ''phase5_hybrid_recall'' ds else ds) in
               (case recall_stage (qe_tenant en) (qe_graph en) q (qa_profile a) (qa_index a) (qw_clusters w1) (world_nodes w1) (world_edges w1) of
                  Inl e \<Rightarrow> (Inl e, w1)
                | Inr cs \<Rightarrow> (Inr (cs, False, ds1),
                    w1\<lparr>qw_cache := store_candidates (qe_cache en) (qe_graph en) version q (qa_profile a) cs (qw_cache w1)\<rparr>))))"

section \<open>The candidate pool\<close>

record query_pool =
  qp_ids :: "string list"
  qp_lexical :: "(string \<times> real \<times> scores) list"
  qp_graph :: "(string \<times> sem_score) list"
  qp_paths :: "(string \<times> path_source list) list"
  qp_degraded :: "string list"

definition lexical_pool :: "'r query_env \<Rightarrow> query_args \<Rightarrow> representation \<Rightarrow> query_pool \<Rightarrow> 'r query_world \<Rightarrow> query_pool \<times> 'r query_world" where
  "lexical_pool en a repr p w =
     (if \<not> qe_repr_enabled en then (p, w)
      else
        let (top, rw1) = top_k_lexical (qe_now en) (qe_tenant en) (qe_graph en) repr (max 200 (qa_k a * 20)) (rt_world (qw_tables w));
            ids = stable_union_ids (qp_ids p) (map fst top);
            (sc, rw2) = score_node_ids (qe_now en) (qe_tenant en) (qe_graph en) repr ids rw1
        in (p\<lparr>qp_ids := ids, qp_lexical := sc\<rparr>, set_repr_world rw2 w))"

definition flow_config :: "query_args \<Rightarrow> sem_config" where
  "flow_config a =
     \<lparr>sc_kinds = ''inheritance'' # KNOWN_SEMANTIC_KINDS @ [''opposition''], sc_max_hops = nat (max 1 (or_default (qa_max_hops a) 2)),
      sc_max_neighbors = nat (max 2 (or_default (qa_max_neighbors a) 8)),
      sc_decay = (case qa_decay a of None \<Rightarrow> 6 / 10 | Some x \<Rightarrow> x), sc_alpha = (case qa_alpha a of None \<Rightarrow> 2 / 10 | Some x \<Rightarrow> x),
      sc_steps = max 1 (or_default (qa_steps a) 3), sc_max_frontier = None, sc_max_total = None\<rparr>"

definition graph_pool :: "string \<Rightarrow> string \<Rightarrow> query_args \<Rightarrow> vec \<Rightarrow> node_row list \<Rightarrow> edge_row list \<Rightarrow> query_pool \<Rightarrow> query_pool" where
  "graph_pool t g a q nodes edges p =
     (case recall_candidates_brute_force t g q 30 None None nodes of
        Inl _ \<Rightarrow> p\<lparr>qp_degraded := degrade ''graph_semantic_expansion'' (qp_degraded p)\<rparr>
      | Inr seeds \<Rightarrow>
          let (ids, sc, paths) = build_graph_semantic_scores t g (flow_config a) (map (\<lambda>(i, s). (i, max 0 s)) seeds) (qp_ids p) nodes edges
          in p\<lparr>qp_ids := stable_union_ids (qp_ids p) ids, qp_graph := sc, qp_paths := paths\<rparr>)"

definition pool_stage :: "'r query_env \<Rightarrow> query_args \<Rightarrow> representation \<Rightarrow> vec \<Rightarrow> string list \<Rightarrow> scores \<Rightarrow> string list \<Rightarrow> 'r query_world \<Rightarrow>
    query_pool \<times> 'r query_world" where
  "pool_stage en a repr q domain_ids cs ds w =
     (let (p1, w1) = lexical_pool en a repr \<lparr>qp_ids = map fst cs, qp_lexical = [], qp_graph = [], qp_paths = [], qp_degraded = ds\<rparr> w;
          p2 = (if domain_ids \<noteq> [] then p1\<lparr>qp_ids := stable_union_ids (qp_ids p1) domain_ids\<rparr> else p1)
      in (graph_pool (qe_tenant en) (qe_graph en) a q (world_nodes w1) (world_edges w1) p2, w1))"

text \<open>The dictionary form of a graph score.\<close>

definition score_dict :: "sem_score \<Rightarrow> scores" where
  "score_dict s = [(''total'', ss_total s), (''path'', ss_path s), (''diffusion'', ss_diffusion s),
     (''neighborhood'', ss_neighborhood s), (''contradiction'', ss_contradiction s)]"

definition flow_rerank_args :: "query_args \<Rightarrow> real \<Rightarrow> string \<Rightarrow> representation \<Rightarrow> (string \<times> scores) list \<Rightarrow> query_pool \<Rightarrow> rerank_args" where
  "flow_rerank_args a avg text repr domain_scores p =
     \<lparr>ra_avg = avg, ra_weights = (if qa_profile a = STRICT then STRICT_WEIGHTS else DEFAULT_WEIGHTS), ra_k = qa_k a,
      ra_lexical = qp_lexical p, ra_graph = map (\<lambda>(i, s). (i, score_dict s)) (qp_graph p), ra_paths = qp_paths p,
      ra_domain = domain_scores, ra_text = text, ra_repr = Some repr, ra_historical = qa_historical a, ra_as_of = qa_as_of a\<rparr>"

section \<open>The whole query\<close>

record query_result =
  qr_version :: int
  qr_hash :: string
  qr_k :: nat
  qr_profile :: query_profile
  qr_results :: "result_item list"
  qr_explain :: "(explain_payload option) list"
  qr_answer :: "string option"
  qr_degraded :: "string list"
  qr_cache_hit :: bool
  qr_metrics :: graph_metrics

text \<open>Usage and events after reranking; the results keep the counts from before.\<close>

definition finish_query :: "'r query_env \<Rightarrow> query_args \<Rightarrow> string \<Rightarrow> nat \<Rightarrow> string \<Rightarrow> int \<Rightarrow> graph_metrics \<Rightarrow> bool \<Rightarrow> string list \<Rightarrow>
    result_item list \<Rightarrow> 'r query_world \<Rightarrow> (string + query_result) \<times> 'r query_world" where
  "finish_query en a h n text version metrics hit ds ranked w =
     (let t = qe_tenant en; g = qe_graph en; ids = map ri_id ranked;
          (touches, nodes) = update_usage (qe_now en) t g ids (world_nodes w);
          (r1, j1) = emit_all (qe_emitter en) t g n [query_reranked_event h ids] (qw_journal w);
          w1 = w\<lparr>qw_journal := j1\<rparr>
      in case r1 of
           Inl e \<Rightarrow> (Inl e, w1)
         | Inr n1 \<Rightarrow>
             let w2 = set_repr_world ((rt_world (qw_tables w1))\<lparr>rw_nodes := nodes\<rparr>) w1;
                 explain = (if qa_explain a then map (\<lambda>r. build_explain_payload t g (ri_id r) (qw_tables w2)) ranked else []);
                 answer = qe_answer en text ranked;
                 ds1 = (if answer = None then degrade ''answer_synthesis'' ds else ds);
                 (r2, j2) = emit_all (qe_emitter en) t g n1
                   (map (\<lambda>(i, c). query_touch_event i c) touches @ [query_complete_event h (length ranked) (qe_duration en) h]) (qw_journal w2);
                 w3 = w2\<lparr>qw_journal := j2\<rparr>
             in case r2 of
                  Inl e \<Rightarrow> (Inl e, w3)
                | Inr _ \<Rightarrow> (Inr \<lparr>qr_version = version, qr_hash = h, qr_k = qa_k a, qr_profile = qa_profile a, qr_results = ranked,
                    qr_explain = explain, qr_answer = answer, qr_degraded = ds1, qr_cache_hit = hit, qr_metrics = metrics\<rparr>, w3))"

definition answer_query :: "'r query_env \<Rightarrow> query_args \<Rightarrow> string \<Rightarrow> nat \<Rightarrow> 'r query_world \<Rightarrow> (string + query_result) \<times> 'r query_world" where
  "answer_query en a h n w =
     (let t = qe_tenant en; g = qe_graph en;
          (tx, domain_ids, domain_scores) = prepare_text (qe_text en) t g (qa_text a) (qw_lexicon w) (world_edges w);
          (q1, ds) = weigh_vector t g (world_nodes w) (qt_vector (qe_text en) (tx_expanded tx)) (tx_degraded tx);
          q = expand_vector (rk_num (qe_tools en)) t g (world_nodes w) (world_edges w) q1;
          repr = build_query_representation (rk_text (qe_tools en)) (tx_expanded tx);
          (metrics, diag) = get_graph_metrics (qe_diagnose en) (qe_now en) t g (qw_versions w) (world_nodes w) (world_edges w) (qw_diagnostics w);
          version = get_version t g (qw_versions w);
          w0 = w\<lparr>qw_diagnostics := diag\<rparr>
      in case candidate_stage en a version repr q ds w0 of
           (Inl e, w1) \<Rightarrow> (Inl e, w1)
         | (Inr (cs, hit, ds1), w1) \<Rightarrow>
             let (p, w2) = pool_stage en a repr q domain_ids cs ds1 w1 in
             (case rerank_faim (qe_tools en) (qe_now en) t g q (qp_ids p)
                 (flow_rerank_args a (gm_avg_touch metrics) (tx_canonical tx) repr domain_scores p) (qw_tables w2) of
                Inl e \<Rightarrow> (Inl e, w2)
              | Inr ranked \<Rightarrow> finish_query en a h n (tx_canonical tx) version metrics hit (qp_degraded p) ranked w2))"

text \<open>An exception leaves the changes of the session to the caller, who rolls back.\<close>

definition run_query :: "'r query_env \<Rightarrow> query_args \<Rightarrow> 'r query_world \<Rightarrow> (string + query_result) \<times> 'r query_world" where
  "run_query en a w =
     (let h = compute_text_query_hash (qe_sha en) (qa_text a) (qe_graph en);
          (r, j) = emit_all (qe_emitter en) (qe_tenant en) (qe_graph en) 0 [query_start_event h (qa_k a) (profile_name (qa_profile a))] (qw_journal w);
          w0 = w\<lparr>qw_journal := j\<rparr>
      in case r of Inl e \<Rightarrow> (Inl e, w0) | Inr n \<Rightarrow> answer_query en a h n w0)"

section \<open>Usage counters\<close>

definition touched :: "int \<Rightarrow> node_row \<Rightarrow> node_row" where
  "touched now n = n\<lparr>nd_touch := nd_touch n + 1, nd_access := Some now\<rparr>"

lemma touched_fields [simp]: "nd_id (touched now n) = nd_id n" "node_in t g (touched now n) = node_in t g n"
  by (simp_all add: touched_def node_in_def)

lemma touch_one_rows:
  assumes "distinct (map nd_id rows)"
  shows "snd (touch_one now t g i (m, rows)) = map (\<lambda>x. if node_in t g x \<and> nd_id x = i then touched now x else x) rows"
proof (cases "get_node_row t g i rows")
  case None
  then have "\<forall>x \<in> set rows. \<not> (node_in t g x \<and> nd_id x = i)" by (simp add: get_node_row_def find_None_iff)
  then show ?thesis using None by (auto simp: touch_one_def intro!: map_idI [symmetric])
next
  case (Some n)
  have n: "n \<in> set rows" "nd_id n = i" using node_row_found [OF Some] by simp_all
  have "x = n" if "x \<in> set rows" "nd_id x = i" for x
    using assms n that by (auto simp: distinct_map inj_on_def)
  then show ?thesis using Some by (auto simp: touch_one_def touched_def)
qed

lemma update_usage_rows:
  assumes "distinct (map nd_id rows)" "distinct ids"
  shows "snd (fold (touch_one now t g) ids (m, rows)) = map (\<lambda>x. if node_in t g x \<and> nd_id x \<in> set ids then touched now x else x) rows"
  using assms
proof (induction ids arbitrary: m rows)
  case (Cons i ids)
  let ?f = "\<lambda>x. if node_in t g x \<and> nd_id x = i then touched now x else x"
  obtain m' rows' where st: "touch_one now t g i (m, rows) = (m', rows')" by (cases "touch_one now t g i (m, rows)")
  then have rows': "rows' = map ?f rows" using touch_one_rows [OF Cons.prems(1), of now t g i m] by simp
  have ids: "map nd_id rows' = map nd_id rows" by (simp add: rows')
  have "snd (fold (touch_one now t g) ids (m', rows')) = map (\<lambda>x. if node_in t g x \<and> nd_id x \<in> set ids then touched now x else x) rows'"
    using Cons.prems ids by (intro Cons.IH) simp_all
  then show ?case using Cons.prems(2) by (auto simp: st rows')
qed (auto intro!: map_idI [symmetric])

lemma update_usage_keys:
  assumes "\<forall>i \<in> set ids. \<exists>n \<in> set rows. node_in t g n \<and> nd_id n = i" "distinct ids" "set (al_keys m) \<inter> set ids = {}"
  shows "map fst (fst (fold (touch_one now t g) ids (m, rows))) = map fst m @ ids"
  using assms
proof (induction ids arbitrary: m rows)
  case (Cons i ids)
  have "\<exists>n \<in> set rows. node_in t g n \<and> nd_id n = i" using Cons.prems(1) by simp
  then obtain n where n: "get_node_row t g i rows = Some n"
    by (cases "get_node_row t g i rows") (auto simp: get_node_row_def find_None_iff)
  let ?rows = "map (\<lambda>x. if node_in t g x \<and> nd_id x = i then x\<lparr>nd_touch := nd_touch n + 1, nd_access := Some now\<rparr> else x) rows"
  let ?m = "al_put i (nd_touch n + 1) m"
  have st: "touch_one now t g i (m, rows) = (?m, ?rows)" using n by (simp add: touch_one_def)
  have m: "?m = m @ [(i, nd_touch n + 1)]" using Cons.prems(3) by (intro al_put_new) auto
  have "map fst (fst (fold (touch_one now t g) ids (?m, ?rows))) = map fst ?m @ ids"
  proof (rule Cons.IH)
    show "\<forall>j \<in> set ids. \<exists>x \<in> set ?rows. node_in t g x \<and> nd_id x = j"
    proof
      fix j assume "j \<in> set ids"
      then obtain x where x: "x \<in> set rows" "node_in t g x" "nd_id x = j" using Cons.prems(1) by auto
      let ?x = "if node_in t g x \<and> nd_id x = i then x\<lparr>nd_touch := nd_touch n + 1, nd_access := Some now\<rparr> else x"
      have "?x \<in> set ?rows" using x(1) by simp
      moreover have "node_in t g ?x \<and> nd_id ?x = j" using x(2,3) by (simp add: node_in_def)
      ultimately show "\<exists>x \<in> set ?rows. node_in t g x \<and> nd_id x = j" by blast
    qed
  qed (use Cons.prems in \<open>auto simp: m al_keys_def\<close>)
  then show ?case by (simp add: st m)
qed simp

section \<open>What is emitted\<close>

lemma emit_open:
  assumes "emit em t g n e j = (Inr r, j')"
  shows "jn_rows j' = jn_rows j \<and> (\<exists>row. jn_open j' = jn_open j @ [(em_session em, row)] \<and> (rw_kind row, rw_payload row) = e
    \<and> rw_tenant row = t \<and> rw_graph row = g)"
  using assms
  by (auto simp: emit_def journal_append_def repo_append_def create_event_def from_domain_def Let_def split: if_splits)

lemma emit_all_open:
  assumes "emit_all em t g n es j = (Inr m, j')"
  shows "jn_rows j' = jn_rows j \<and> (\<exists>rows. jn_open j' = jn_open j @ map (Pair (em_session em)) rows
    \<and> map (\<lambda>r. (rw_kind r, rw_payload r)) rows = es \<and> (\<forall>r \<in> set rows. rw_tenant r = t \<and> rw_graph r = g))"
  using assms
proof (induction em t g n es j rule: emit_all.induct)
  case (1 em t g n j)
  then show ?case by auto
next
  case (2 em t g n e es j)
  obtain r j1 where e: "emit em t g n e j = (Inr r, j1)" and rest: "emit_all em t g (Suc n) es j1 = (Inr m, j')"
    using "2.prems" by (auto split: prod.splits sum.splits)
  obtain row where one: "jn_rows j1 = jn_rows j" "jn_open j1 = jn_open j @ [(em_session em, row)]"
    "(rw_kind row, rw_payload row) = e" "rw_tenant row = t" "rw_graph row = g" using emit_open [OF e] by blast
  obtain rows where more: "jn_rows j' = jn_rows j1" "jn_open j' = jn_open j1 @ map (Pair (em_session em)) rows"
    "map (\<lambda>r. (rw_kind r, rw_payload r)) rows = es" "\<forall>r \<in> set rows. rw_tenant r = t \<and> rw_graph r = g"
    using "2.IH" [OF e [symmetric] refl rest] by blast
  show ?case
    by (intro conjI exI [of _ "row # rows"]) (use one more in simp_all)
qed

text \<open>What a stage leaves alone: nodes, edges, versions, lexicon, clusters and the journal.\<close>

definition same_graph :: "'r query_world \<Rightarrow> 'r query_world \<Rightarrow> bool" where
  "same_graph w w' \<longleftrightarrow> world_nodes w' = world_nodes w \<and> world_edges w' = world_edges w \<and> qw_versions w' = qw_versions w
     \<and> qw_lexicon w' = qw_lexicon w \<and> qw_clusters w' = qw_clusters w \<and> qw_journal w' = qw_journal w"

lemma same_graph_refl [simp]: "same_graph w w"
  by (simp add: same_graph_def)

lemma same_graph_trans: "same_graph a b \<Longrightarrow> same_graph b c \<Longrightarrow> same_graph a c"
  by (simp add: same_graph_def)

lemma same_graph_updates [simp]:
  "same_graph w (w\<lparr>qw_diagnostics := d\<rparr>)" "same_graph w (w\<lparr>qw_cache := c\<rparr>)"
  "rw_nodes rw = world_nodes w \<Longrightarrow> same_graph w (set_repr_world rw w)"
  by (simp_all add: same_graph_def set_repr_world_def)

lemma stats_keep_nodes: "rw_nodes (snd (get_graph_stats now t g rw)) = rw_nodes rw"
  by (simp add: get_graph_stats_def rebuild_graph_stats_def Let_def)

lemma lexical_keep_nodes:
  "rw_nodes (snd (score_all now t g q rw)) = rw_nodes rw" "rw_nodes (snd (score_node_ids now t g q ids rw)) = rw_nodes rw"
  "rw_nodes (snd (top_k_lexical now t g q k rw)) = rw_nodes rw"
proof -
  show a: "rw_nodes (snd (score_all now t g q rw)) = rw_nodes rw"
    using stats_keep_nodes [of now t g rw] by (auto simp: score_all_def Let_def split: list.split prod.split)
  show "rw_nodes (snd (score_node_ids now t g q ids rw)) = rw_nodes rw"
    using stats_keep_nodes [of now t g rw] by (auto simp: score_node_ids_def Let_def split: list.split prod.split)
  show "rw_nodes (snd (top_k_lexical now t g q k rw)) = rw_nodes rw"
    using a by (auto simp: top_k_lexical_def Let_def split: prod.split)
qed

lemma hybrid_same: "hybrid_stage en a v repr q w = (cs, f, w') \<Longrightarrow> same_graph w w'"
  using stats_keep_nodes [of "qe_now en" "qe_tenant en" "qe_graph en" "rt_world (qw_tables w)"]
  by (auto simp: hybrid_stage_def Let_def split: option.splits if_splits prod.splits)

lemma candidate_same: "candidate_stage en a v repr q ds w = (r, w') \<Longrightarrow> same_graph w w'"
  unfolding candidate_stage_def Let_def
  by (auto split: list.splits prod.splits sum.splits dest!: hybrid_same elim: same_graph_trans)

lemma lexical_pool_same: "lexical_pool en a repr p w = (p', w') \<Longrightarrow> same_graph w w'"
proof -
  assume l: "lexical_pool en a repr p w = (p', w')"
  obtain top rw1 where top: "top_k_lexical (qe_now en) (qe_tenant en) (qe_graph en) repr (max 200 (qa_k a * 20)) (rt_world (qw_tables w)) = (top, rw1)"
    by fastforce
  obtain sc rw2 where sc: "score_node_ids (qe_now en) (qe_tenant en) (qe_graph en) repr (stable_union_ids (qp_ids p) (map fst top)) rw1 = (sc, rw2)"
    by fastforce
  have "rw_nodes rw2 = world_nodes w"
    using lexical_keep_nodes(2) [of "qe_now en" "qe_tenant en" "qe_graph en" repr "stable_union_ids (qp_ids p) (map fst top)" rw1] sc
      lexical_keep_nodes(3) [of "qe_now en" "qe_tenant en" "qe_graph en" repr "max 200 (qa_k a * 20)" "rt_world (qw_tables w)"] top
    by (metis snd_conv)
  then show ?thesis using l by (auto simp: lexical_pool_def top sc split: if_splits)
qed

lemma pool_same: "pool_stage en a repr q dids cs ds w = (p, w') \<Longrightarrow> same_graph w w'"
  by (auto simp: pool_stage_def Let_def split: prod.splits dest: lexical_pool_same)

section \<open>What a query returns, records and changes\<close>

text \<open>Events added to the journal by one session, in order, all of one tenant and graph.\<close>

definition journal_adds :: "nat \<Rightarrow> string \<Rightarrow> string \<Rightarrow> flow_event list \<Rightarrow> journal \<Rightarrow> journal \<Rightarrow> bool" where
  "journal_adds s t g es j j' \<longleftrightarrow> jn_rows j' = jn_rows j \<and> (\<exists>rows. jn_open j' = jn_open j @ map (Pair s) rows
     \<and> map (\<lambda>r. (rw_kind r, rw_payload r)) rows = es \<and> (\<forall>r \<in> set rows. rw_tenant r = t \<and> rw_graph r = g))"

lemma journal_adds_trans:
  assumes "journal_adds s t g es i j" "journal_adds s t g es' j k"
  shows "journal_adds s t g (es @ es') i k"
proof -
  from assms obtain r1 r2 where "jn_rows j = jn_rows i" "jn_rows k = jn_rows j"
    "jn_open j = jn_open i @ map (Pair s) r1" "jn_open k = jn_open j @ map (Pair s) r2"
    "map (\<lambda>r. (rw_kind r, rw_payload r)) r1 = es" "map (\<lambda>r. (rw_kind r, rw_payload r)) r2 = es'"
    "\<forall>r \<in> set r1. rw_tenant r = t \<and> rw_graph r = g" "\<forall>r \<in> set r2. rw_tenant r = t \<and> rw_graph r = g"
    unfolding journal_adds_def by blast
  then show ?thesis unfolding journal_adds_def by (intro conjI exI [of _ "r1 @ r2"]) auto
qed

lemmas emit_all_adds = emit_all_open [folded journal_adds_def]

text \<open>The events of a query after its start.\<close>

definition answer_events :: "'r query_env \<Rightarrow> string \<Rightarrow> string list \<Rightarrow> (string \<times> int) list \<Rightarrow> flow_event list" where
  "answer_events en h ids touches =
     query_reranked_event h ids # map (\<lambda>(i, c). query_touch_event i c) touches
       @ [query_complete_event h (length ids) (qe_duration en) h]"

definition touch_nodes :: "'r query_env \<Rightarrow> string set \<Rightarrow> node_row list \<Rightarrow> node_row list" where
  "touch_nodes en I rows = map (\<lambda>x. if node_in (qe_tenant en) (qe_graph en) x \<and> nd_id x \<in> I then touched (qe_now en) x else x) rows"

lemma finish_query_facts:
  assumes "finish_query en a h n text version metrics hit ds ranked w = (Inr res, w')"
    and "distinct (map nd_id (world_nodes w))" "distinct (map ri_id ranked)"
    and "\<forall>r \<in> set ranked. \<exists>x \<in> set (world_nodes w). node_in (qe_tenant en) (qe_graph en) x \<and> nd_id x = ri_id r"
  shows "qr_results res = ranked \<and> qr_hash res = h \<and> world_nodes w' = touch_nodes en (ri_id ` set ranked) (world_nodes w)
    \<and> world_edges w' = world_edges w \<and> qw_versions w' = qw_versions w \<and> qw_lexicon w' = qw_lexicon w
    \<and> (\<exists>touches. map fst touches = map ri_id ranked
        \<and> journal_adds (em_session (qe_emitter en)) (qe_tenant en) (qe_graph en) (answer_events en h (map ri_id ranked) touches)
            (qw_journal w) (qw_journal w'))"
proof -
  let ?t = "qe_tenant en" and ?g = "qe_graph en" and ?ids = "map ri_id ranked"
  obtain touches nodes where u: "update_usage (qe_now en) ?t ?g ?ids (world_nodes w) = (touches, nodes)" by fastforce
  obtain r1 j1 where e1: "emit_all (qe_emitter en) ?t ?g n [query_reranked_event h ?ids] (qw_journal w) = (r1, j1)" by fastforce
  obtain n1 where r1: "r1 = Inr n1" using assms(1) e1 by (cases r1) (auto simp: finish_query_def u Let_def)
  obtain r2 j2 where e2: "emit_all (qe_emitter en) ?t ?g n1
      (map (\<lambda>(i, c). query_touch_event i c) touches @ [query_complete_event h (length ranked) (qe_duration en) h]) j1 = (r2, j2)" by fastforce
  obtain n2 where r2: "r2 = Inr n2" using assms(1) e1 e2 r1 by (cases r2) (auto simp: finish_query_def u Let_def set_repr_world_def)
  have nodes: "nodes = touch_nodes en (ri_id ` set ranked) (world_nodes w)"
    using update_usage_rows [OF assms(2,3), of "qe_now en" ?t ?g "[]"] u by (simp add: update_usage_def touch_nodes_def)
  have keys: "map fst touches = ?ids"
    using update_usage_keys [of ?ids "world_nodes w" ?t ?g "[]" "qe_now en"] assms(3,4) u
    by (simp add: update_usage_def al_keys_def)
  have "journal_adds (em_session (qe_emitter en)) ?t ?g (answer_events en h ?ids touches) (qw_journal w) j2"
    using journal_adds_trans [OF emit_all_adds [OF e1 [unfolded r1]] emit_all_adds [OF e2 [unfolded r2]]]
    by (simp add: answer_events_def)
  moreover have "qr_results res = ranked \<and> qr_hash res = h \<and> w' = (set_repr_world ((rt_world (qw_tables w))\<lparr>rw_nodes := nodes\<rparr>) w)\<lparr>qw_journal := j2\<rparr>"
    using assms(1) e1 e2 r1 r2 by (auto simp: finish_query_def u Let_def set_repr_world_def)
  ultimately show ?thesis using nodes keys by (auto simp: set_repr_world_def)
qed

text \<open>The stages of a successful answer.\<close>

lemma answer_queryE:
  assumes "answer_query en a h n w = (Inr res, w')"
  obtains q p args qtext version metrics hit ds ranked w2 where
    "rerank_faim (qe_tools en) (qe_now en) (qe_tenant en) (qe_graph en) q p args (qw_tables w2) = Inr ranked"
    "ra_k args = qa_k a" "ra_as_of args = qa_as_of a" "ra_historical args = qa_historical a" "same_graph w w2"
    "finish_query en a h n qtext version metrics hit ds ranked w2 = (Inr res, w')"
proof -
  let ?t = "qe_tenant en" and ?g = "qe_graph en"
  obtain tx dids dsc where tx: "prepare_text (qe_text en) ?t ?g (qa_text a) (qw_lexicon w) (world_edges w) = (tx, dids, dsc)"
    by (metis prod.collapse)
  obtain q1 ds where q1: "weigh_vector ?t ?g (world_nodes w) (qt_vector (qe_text en) (tx_expanded tx)) (tx_degraded tx) = (q1, ds)" by fastforce
  obtain metrics diag where m: "get_graph_metrics (qe_diagnose en) (qe_now en) ?t ?g (qw_versions w) (world_nodes w) (world_edges w) (qw_diagnostics w)
      = (metrics, diag)" by fastforce
  let ?q = "expand_vector (rk_num (qe_tools en)) ?t ?g (world_nodes w) (world_edges w) q1"
  let ?repr = "build_query_representation (rk_text (qe_tools en)) (tx_expanded tx)"
  let ?v = "get_version ?t ?g (qw_versions w)"
  obtain r1 w1 where c: "candidate_stage en a ?v ?repr ?q ds (w\<lparr>qw_diagnostics := diag\<rparr>) = (r1, w1)" by fastforce
  obtain cs hit ds1 where r1: "r1 = Inr (cs, hit, ds1)"
    using assms c by (cases r1) (auto simp: answer_query_def tx q1 m Let_def)
  obtain p w2 where p: "pool_stage en a ?repr ?q dids cs ds1 w1 = (p, w2)" by fastforce
  let ?args = "flow_rerank_args a (gm_avg_touch metrics) (tx_canonical tx) ?repr dsc p"
  obtain ranked where rk: "rerank_faim (qe_tools en) (qe_now en) ?t ?g ?q (qp_ids p) ?args (qw_tables w2) = Inr ranked"
    using assms c r1 p
    by (cases "rerank_faim (qe_tools en) (qe_now en) ?t ?g ?q (qp_ids p) ?args (qw_tables w2)") (auto simp: answer_query_def tx q1 m Let_def)
  have "same_graph (w\<lparr>qw_diagnostics := diag\<rparr>) w2" using candidate_same [OF c] pool_same [OF p] by (rule same_graph_trans)
  then have "same_graph w w2" by (simp add: same_graph_def)
  moreover have "finish_query en a h n (tx_canonical tx) ?v metrics hit (qp_degraded p) ranked w2 = (Inr res, w')"
    using assms c r1 p rk by (simp add: answer_query_def tx q1 m Let_def)
  ultimately show ?thesis by (intro that [OF rk]) (simp_all add: flow_rerank_args_def)
qed


section \<open>When a query succeeds\<close>

text \<open>All vectors of the graph have dimension d, and no touch count is negative.\<close>

definition uniform :: "string \<Rightarrow> string \<Rightarrow> nat \<Rightarrow> node_row list \<Rightarrow> bool" where
  "uniform t g d rows \<longleftrightarrow> (\<forall>x \<in> set rows. node_in t g x \<longrightarrow> length (nd_vector x) = d \<and> 0 \<le> nd_touch x)"

lemma brute_force_uniform:
  assumes "uniform t g (length q) rows"
  shows "\<exists>cs. recall_candidates_brute_force t g q n level cl rows = Inr cs"
proof -
  let ?base = "filter (\<lambda>x. node_in t g x \<and> (case level of None \<Rightarrow> True | Some l \<Rightarrow> nd_level x \<le> l)) rows"
  let ?rows = "case scoped_rows n cl ?base of Some s \<Rightarrow> s | None \<Rightarrow> take (n * 10) ?base"
  have "set ?rows \<subseteq> set ?base"
    by (auto simp: scoped_rows_def Let_def dest: in_set_takeD split: option.splits list.splits if_splits)
  then have "\<forall>x \<in> set ?rows. length (nd_vector x) = length q" using assms by (auto simp: uniform_def)
  then have "\<nexists>e. scored_rows q ?rows = Inl e" using scored_rows_Inl [of q ?rows] by blast
  then obtain cs where "scored_rows q ?rows = Inr cs" by (cases "scored_rows q ?rows") auto
  then show ?thesis by (simp add: recall_candidates_brute_force_def Let_def)
qed

lemma query_cosine_Inr: "length v = length q \<Longrightarrow> \<exists>x. query_cosine q v = Inr x"
  using query_cosine_Inl [of q v] by (cases "query_cosine q v") auto

lemma try_map_succeeds: "\<forall>x \<in> set xs. \<exists>y. f x = Inr y \<Longrightarrow> \<exists>ys. try_map f xs = Inr ys"
  using try_map_Inl [of f xs] by (cases "try_map f xs") auto

lemma try_map_cosine_Inl:
  assumes "try_map (\<lambda>x. map_sum id (f x) (query_cosine q (nd_vector x))) rows = Inl e"
  shows "\<exists>x \<in> set rows. length (nd_vector x) \<noteq> length q"
proof -
  obtain x where "x \<in> set rows" "\<exists>e. map_sum id (f x) (query_cosine q (nd_vector x)) = Inl e"
    using try_map_Inl [of "\<lambda>x. map_sum id (f x) (query_cosine q (nd_vector x))" rows] assms by blast
  then show ?thesis using query_cosine_Inr [of "nd_vector x" q] by fastforce
qed

lemma recall_graph_uniform:
  assumes u: "uniform t g (length q) rows"
  shows "\<exists>cs. recall_with_graph_expansion t g q n k a clusters rows edges = Inr cs"
proof (cases "recall_with_graph_expansion t g q n k a clusters rows edges")
  case (Inl e)
  obtain seeds where "recall_candidates_brute_force t g q k None (cluster_scope t g q clusters) rows = Inr seeds"
    using brute_force_uniform [OF u] by blast
  with Inl have "\<exists>x \<in> set rows. node_in t g x \<and> length (nd_vector x) \<noteq> length q"
    unfolding recall_with_graph_expansion_def Let_def
    by (auto split: list.splits prod.splits sum.splits dest!: try_map_cosine_Inl simp del: split_paired_Ex)
  then show ?thesis using u by (auto simp: uniform_def)
qed blast

lemma rerank_uniform:
  assumes "uniform t g (length q) (rw_nodes (rt_world w))"
  shows "\<exists>rs. rerank_faim tools now t g q ids a w = Inr rs"
proof (rule rerank_Inr, rule ballI)
  fix n assume "n \<in> set (loaded_nodes t g ids (ra_as_of a) (rw_nodes (rt_world w)))"
  then have n: "length (nd_vector n) = length q" "0 \<le> nd_touch n" using assms by (simp_all add: uniform_def loaded_nodes_def)
  then obtain c where "query_cosine q (nd_vector n) = Inr c" using query_cosine_Inr by blast
  then show "\<exists>r. score_node tools now q a (list_reprs_of t g ids (rt_world w)) (list_modality_of t g ids (rt_modality w)) n = Inr r"
    using n(2) by (simp add: score_node_def compute_node_score_def Let_def split: prod.split)
qed

text \<open>The ids of the events still to come are different and unused.\<close>

definition fresh_from :: "emitter \<Rightarrow> nat \<Rightarrow> journal \<Rightarrow> bool" where
  "fresh_from em n j \<longleftrightarrow> inj (em_uid em) \<and> (\<forall>m \<ge> n. em_uid em m \<notin> rw_id ` (set (jn_rows j) \<union> snd ` set (jn_open j)))"

lemma event_emitted:
  assumes "fresh_from em n j"
  shows "\<exists>r j'. emit em t g n e j = (Inr r, j') \<and> fresh_from em (Suc n) j'"
proof -
  have "em_uid em n \<notin> rw_id ` (set (jn_rows j) \<union> snd ` set (jn_open j))" using assms by (simp add: fresh_from_def)
  moreover have "em_uid em m \<noteq> em_uid em n" if "m \<ge> Suc n" for m
  proof
    assume "em_uid em m = em_uid em n"
    then have "m = n" using assms by (simp add: fresh_from_def inj_def)
    then show False using that by simp
  qed
  ultimately show ?thesis
    using assms by (auto simp: emit_def journal_append_def verify_checksum_def create_event_def repo_append_def
        from_domain_def fresh_from_def Let_def)
qed

lemma emit_all_fresh: "fresh_from em n j \<Longrightarrow> \<exists>m j'. emit_all em t g n es j = (Inr m, j') \<and> fresh_from em m j'"
proof (induction em t g n es j rule: emit_all.induct)
  case (2 em t g n e es j)
  obtain r j1 where e: "emit em t g n e j = (Inr r, j1)" "fresh_from em (Suc n) j1" using event_emitted [OF 2(2)] by blast
  then show ?case using "2.IH" [OF e(1) [symmetric] refl e(2)] by simp
qed auto

lemma vector_length:
  assumes "weigh_vector t g rows q ds = (q1, ds')"
  shows "length (expand_vector num t g rows edges q1) = length q"
proof -
  have "length q1 = length q"
    using assms by (auto simp: weigh_vector_def apply_idf_def Let_def split: sum.splits if_splits)
  moreover have "length (expand_vector num t g rows edges q1) = length q1"
    by (auto simp: expand_vector_def expansion_length split: sum.splits)
  ultimately show ?thesis by simp
qed

text \<open>
  Nothing a query reads makes it fail except a vector of another dimension, a negative touch count or
  an event id used twice: caches, indexes, tools and the text stages only degrade it.
\<close>

lemma candidate_total:
  assumes "uniform (qe_tenant en) (qe_graph en) (length q) (world_nodes w)"
  shows "\<exists>cs hit ds' w'. candidate_stage en a v repr q ds w = (Inr (cs, hit, ds'), w')"
proof -
  obtain cs failed w1 where h: "hybrid_stage en a v repr q w = (cs, failed, w1)" using prod_cases3 by blast
  have "world_nodes w1 = world_nodes w" using hybrid_same [OF h] by (simp add: same_graph_def)
  then obtain gs where g: "recall_with_graph_expansion (qe_tenant en) (qe_graph en) q 200 30 recall_args (qw_clusters w1)
      (world_nodes w1) (world_edges w1) = Inr gs" using recall_graph_uniform assms by fastforce
  have "\<exists>rs. recall_stage (qe_tenant en) (qe_graph en) q (qa_profile a) (qa_index a) (qw_clusters w1) (world_nodes w1) (world_edges w1)
      = Inr rs" by (auto simp: recall_stage_def g Let_def split: option.split list.split)
  then show ?thesis by (auto simp: candidate_stage_def h Let_def split: list.split)
qed

lemma finish_total:
  assumes "fresh_from (qe_emitter en) n (qw_journal w)"
  shows "\<exists>res w'. finish_query en a h n text version metrics hit ds ranked w = (Inr res, w')"
proof -
  let ?t = "qe_tenant en" and ?g = "qe_graph en" and ?ids = "map ri_id ranked"
  obtain touches nodes where u: "update_usage (qe_now en) ?t ?g ?ids (world_nodes w) = (touches, nodes)" by fastforce
  obtain n1 j1 where e1: "emit_all (qe_emitter en) ?t ?g n [query_reranked_event h ?ids] (qw_journal w) = (Inr n1, j1)"
    and f1: "fresh_from (qe_emitter en) n1 j1" using emit_all_fresh [OF assms] by blast
  obtain n2 j2 where e2: "emit_all (qe_emitter en) ?t ?g n1
      (map (\<lambda>(i, c). query_touch_event i c) touches @ [query_complete_event h (length ranked) (qe_duration en) h]) j1 = (Inr n2, j2)"
    using emit_all_fresh [OF f1] by blast
  then show ?thesis by (simp add: finish_query_def u e1 Let_def set_repr_world_def del: emit_all.simps)
qed

lemma answer_query_total:
  assumes "\<forall>s. length (qt_vector (qe_text en) s) = d" "uniform (qe_tenant en) (qe_graph en) d (world_nodes w)"
    and "fresh_from (qe_emitter en) n (qw_journal w)"
  shows "\<exists>res w'. answer_query en a h n w = (Inr res, w')"
proof -
  let ?t = "qe_tenant en" and ?g = "qe_graph en"
  obtain tx dids dsc where tx: "prepare_text (qe_text en) ?t ?g (qa_text a) (qw_lexicon w) (world_edges w) = (tx, dids, dsc)"
    by (metis prod.collapse)
  obtain q1 ds where q1: "weigh_vector ?t ?g (world_nodes w) (qt_vector (qe_text en) (tx_expanded tx)) (tx_degraded tx) = (q1, ds)"
    by fastforce
  obtain metrics diag where m: "get_graph_metrics (qe_diagnose en) (qe_now en) ?t ?g (qw_versions w) (world_nodes w) (world_edges w)
      (qw_diagnostics w) = (metrics, diag)" by fastforce
  let ?q = "expand_vector (rk_num (qe_tools en)) ?t ?g (world_nodes w) (world_edges w) q1"
  let ?repr = "build_query_representation (rk_text (qe_tools en)) (tx_expanded tx)"
  let ?v = "get_version ?t ?g (qw_versions w)"
  have u: "uniform ?t ?g (length ?q) (world_nodes w)" using assms(1,2) vector_length [OF q1] by simp
  then have "uniform ?t ?g (length ?q) (world_nodes (w\<lparr>qw_diagnostics := diag\<rparr>))" by simp
  then obtain cs hit ds1 w1 where c: "candidate_stage en a ?v ?repr ?q ds (w\<lparr>qw_diagnostics := diag\<rparr>) = (Inr (cs, hit, ds1), w1)"
    using candidate_total by blast
  obtain p w2 where p: "pool_stage en a ?repr ?q dids cs ds1 w1 = (p, w2)" by fastforce
  have same: "same_graph (w\<lparr>qw_diagnostics := diag\<rparr>) w2" using candidate_same [OF c] pool_same [OF p] by (rule same_graph_trans)
  let ?args = "flow_rerank_args a (gm_avg_touch metrics) (tx_canonical tx) ?repr dsc p"
  have "uniform ?t ?g (length ?q) (world_nodes w2)" using u same by (simp add: same_graph_def)
  then obtain ranked where rk: "rerank_faim (qe_tools en) (qe_now en) ?t ?g ?q (qp_ids p) ?args (qw_tables w2) = Inr ranked"
    using rerank_uniform by blast
  have "fresh_from (qe_emitter en) n (qw_journal w2)" using assms(3) same by (simp add: same_graph_def)
  then obtain res w' where "finish_query en a h n (tx_canonical tx) ?v metrics hit (qp_degraded p) ranked w2 = (Inr res, w')"
    using finish_total by blast
  then have "answer_query en a h n w = (Inr res, w')"
    using c p rk by (simp add: answer_query_def tx q1 m Let_def)
  then show ?thesis by blast
qed

lemma run_query_total:
  assumes "\<forall>s. length (qt_vector (qe_text en) s) = d" "uniform (qe_tenant en) (qe_graph en) d (world_nodes w)"
    and "fresh_from (qe_emitter en) 0 (qw_journal w)"
  shows "\<exists>res w'. run_query en a w = (Inr res, w')"
proof -
  let ?h = "compute_text_query_hash (qe_sha en) (qa_text a) (qe_graph en)"
  obtain n j0 where e0: "emit_all (qe_emitter en) (qe_tenant en) (qe_graph en) 0
      [query_start_event ?h (qa_k a) (profile_name (qa_profile a))] (qw_journal w) = (Inr n, j0)"
    and f0: "fresh_from (qe_emitter en) n j0" using emit_all_fresh [OF assms(3)] by blast
  have "\<exists>res w'. answer_query en a ?h n (w\<lparr>qw_journal := j0\<rparr>) = (Inr res, w')"
    by (rule answer_query_total [OF assms(1)]) (use assms(2) f0 in simp_all)
  then show ?thesis using e0 by (simp add: run_query_def Let_def del: emit_all.simps)
qed


section \<open>Witnesses\<close>

definition ex_text_tools :: query_text_tools where
  "ex_text_tools = \<lparr>qt_canonical = (\<lambda>_. None), qt_multilingual = (\<lambda>_. None), qt_registry = (\<lambda>_ _. None), qt_synonyms = None,
     qt_repr = (\<lambda>_. ''''), qt_vector = (\<lambda>_. [])\<rparr>"

definition ex_query_env :: "unit query_env" where
  "ex_query_env = \<lparr>qe_tenant = ''t'', qe_graph = ''g'', qe_now = 9,
     qe_emitter = \<lparr>em_sha = id, em_iso = (\<lambda>_. ''''), em_uid = (\<lambda>n. replicate n CHR ''x''), em_now = 9, em_session = 1\<rparr>,
     qe_sha = id, qe_text = ex_text_tools, qe_tools = ex_rerank_tools,
     qe_diagnose = (\<lambda>_ _ _. \<lparr>gd_redundancy = 0, gd_dimension = 0, gd_entropy = 0, gd_lambda = 0, gd_novelty = 0, gd_energy = 0, gd_digest = ''''\<rparr>),
     qe_repr_enabled = True, qe_hybrid = None, qe_cache = None, qe_answer = (\<lambda>_ _. None), qe_duration = ''0.1''\<rparr>"

definition ex_query_args :: query_args where
  "ex_query_args = \<lparr>qa_text = ''alpha'', qa_k = 1, qa_profile = BALANCED, qa_explain = False, qa_index = None, qa_historical = False,
     qa_as_of = None, qa_max_hops = None, qa_max_neighbors = None, qa_decay = None, qa_alpha = None, qa_steps = None\<rparr>"

definition ex_query_world :: "unit query_world" where
  "ex_query_world = \<lparr>qw_tables = ex_tables [ex_node ''a'', ex_node ''b''] [], qw_clusters = [], qw_versions = [], qw_diagnostics = [],
     qw_lexicon = [], qw_journal = \<lparr>jn_next = 0, jn_rows = [], jn_open = []\<rparr>, qw_cache = ()\<rparr>"

lemma ex_query_ready:
  "\<forall>s. length (qt_vector (qe_text ex_query_env) s) = 0"
  "uniform (qe_tenant ex_query_env) (qe_graph ex_query_env) 0 (world_nodes ex_query_world)"
  "fresh_from (qe_emitter ex_query_env) 0 (qw_journal ex_query_world)"
  by (simp_all add: ex_query_env_def ex_text_tools_def uniform_def ex_query_world_def ex_tables_def ex_node_def fresh_from_def
      inj_def replicate_eq_replicate)

lemma ex_query_distinct: "distinct (map nd_id (world_nodes ex_query_world))"
  by (simp add: ex_query_world_def ex_tables_def ex_node_def)



end
