(* ===== verification/Spec2Isabelle.thy ===== *)
theory Spec2Isabelle
  imports FM_Stemmer FM_Job_Store FM_Tool_Policy FM_State_Store FM_Hook_Runner FM_Tool_Runner FM_Rate_Limit FM_Locks FM_Hot_Cache FM_Query_Cache FM_Write_Queue FM_Traversal FM_Backup FM_Event_Journal FM_Graph_Version FM_Worker FM_Invariants FM_Evolution FM_Temporal FM_Implications FM_Rerank FM_Uuid7 FM_Query_Flow
begin

text \<open>
  A verification library of FAIM-Native, the memory graph engine under \<open>src/faim_native\<close>: a Python
  service that keeps, per tenant and graph, a graph of memory nodes in PostgreSQL tables, answers
  queries over it, evolves it in the background and lets an agent use it through tools.

  Parts and how they meet. A REST call or a job changes the tables of a graph (nodes, edges,
  representations, domain knowledge), appends events to the journal and bumps the version of the graph
  (\<open>store/pg/repos\<close>, \<open>store/journal\<close>). A query (\<open>orchestration/query_flow.py\<close>) expands and weighs its
  text, looks into the query cache under the current version, recalls candidates, widens them with
  lexical, domain and graph scores, reranks them (\<open>core/query\<close>), touches the returned nodes and
  records events. Jobs are rows claimed by workers (\<open>orchestration/jobs\<close>), among them the evolution
  cycle (\<open>core/dynamics\<close>), which merges and prunes nodes after backing them up. Around them stand
  caches, locks, queues and rate limits (\<open>cache\<close>, \<open>orchestration/perf\<close>, \<open>api/middleware\<close>), and the agent,
  whose tool calls pass policies and hooks (\<open>core/cortex/cortexagi\<close>).

  Theories, in order of use:

  \<^item> \<open>FM_Prelude\<close>: the Python primitives (string methods, sorting, dictionaries, slices) and generic
    lemmas; \<open>FM_Json\<close>: JSON values; \<open>FM_Interfaces\<close>: the contracts \<open>keyed_log\<close>, \<open>paged_log\<close>, \<open>kv_store\<close>
    and \<open>kv_delete\<close> as locales, interpreted on the job log, the journal's pages, the buckets of the
    limiter and the association lists of the caches; \<open>FM_Hook_Runner\<close> has the locale \<open>total_guard\<close>,
    interpreted on the policy hook.
  \<^item> Tables: \<open>FM_Graph_Tables\<close> (rows of \<open>models_faim.py\<close> and the query idioms), \<open>FM_Node_Repo\<close>,
    \<open>FM_Edge_Repo\<close>, \<open>FM_Graph_Version\<close>, \<open>FM_Backup\<close>, \<open>FM_Event_Journal\<close>, \<open>FM_Representation\<close> (the lexical
    sidecar, its repository, statistics and scores), \<open>FM_Domain\<close> (lexicon, sources, entity linking),
    \<open>FM_Invariants\<close> (the checks of \<open>core/invariants.py\<close>), \<open>FM_Uuid7\<close> (identifiers). Shown: table
    invariants under every operation, isolation of tenants and graphs, round trips through JSON, what
    a page or a snapshot returns, incremental statistics equal to a rebuild.
  \<^item> Query: \<open>FM_Expansion\<close> and \<open>FM_Stemmer\<close> (texts), \<open>FM_Clusters\<close> (k-means and scoping), \<open>FM_Recall\<close>,
    \<open>FM_Diffusion\<close> (path scores, diffusion, graph semantics), \<open>FM_Propositions\<close> and
    \<open>FM_Late_Interaction\<close> (the rerankers), \<open>FM_Rerank\<close> (scores, temporal status, contradictions),
    \<open>FM_Query_Cache\<close>, \<open>FM_Query_Flow\<close> (the whole query). Shown: recall is the top n, path scores are
    best walks, scores are bounded, results are valid, ordered and free of contradictions, and what a
    query returns, changes, records and needs to succeed.
  \<^item> Evolution and reasoning: \<open>FM_Inheritance\<close>, \<open>FM_Merge\<close>, \<open>FM_Evolution\<close>, \<open>FM_Traversal\<close>, \<open>FM_Temporal\<close>,
    \<open>FM_Implications\<close>. Shown: a cycle stays within its budget and deletes only what the policy lets
    go, with a backup; traversal finds exactly the bounded paths; chaining is the deductive closure.
  \<^item> Jobs, caches and limits: \<open>FM_Job_Store\<close>, \<open>FM_Worker\<close>, \<open>FM_Hot_Cache\<close>, \<open>FM_Write_Queue\<close>, \<open>FM_Locks\<close>,
    \<open>FM_Rate_Limit\<close>. Shown: the job store refines its status machine, a claim is exclusive, the warm
    cache is an LRU map, the queue is first in first out, a bucket admits at most what it has.
  \<^item> Agent: \<open>FM_Tool_Policy\<close>, \<open>FM_Hook_Runner\<close>, \<open>FM_Tool_Runner\<close>, \<open>FM_State_Store\<close>. Shown: how policies
    decide, that a denied call is never dispatched (this theory), the nearest value of a scope chain.

  Conventions. Each theory follows the order of its source: rows and classes are records, enums are
  datatypes, each function or method is a definition that takes the state it reads and returns the
  state it leaves. A table is a list of rows, a query is a filter and a sort by the order the code
  asks for, a dictionary is an association list in insertion order. An operation is one transaction
  with one reading of the clock, passed as an argument; sessions whose changes stay open are kept
  apart (\<open>jn_open\<close> of the journal) where visibility matters. Exceptions are texts on the left of a sum,
  caught where the code catches them. Strings are ASCII. Floats are real (or exact rational) numbers,
  so rounding errors are outside of the model; stored weights are integers scaled by \<open>10^9\<close>, as in
  the code. Machine words appear in the identifiers only; Python integers are \<open>int\<close>. Code outside of
  \<open>src\<close> (PostgreSQL, Redis, SHA-256, random bytes) and parts that are not modelled are arguments; what
  is relied on of them (a Redis value is read back after it was set, a digest has no collisions, the
  ids of events are new) is a named hypothesis with a witness.

  Recursion. Loops are structural or over a list, with these exceptions: \<open>claim_loop\<close> (measure: jobs
  left to try), \<open>evict\<close> (entries left), \<open>py_remove\<close>, \<open>word_tokens\<close> and \<open>nat_str\<close> (length or value), path
  resolution in \<open>is_case_insensitive\<close> (components left). \<open>get_state\<close> may follow a cycle of parents: it is
  a \<open>partial_function\<close> into options, and its theorem shows that it returns on every well-founded
  chain. Loops with a bound in the code recurse over the bound: hops of traversal, diffusion and path
  scores, iterations of k-means, rounds of chaining, polls and pages; the theorems hold for every
  bound, or name the one that is enough.

  Not modelled, as the manifest lists file by file: HTTP handlers and authentication, connections to
  model runtimes, extractors, embeddings and OCR, the vectorizer, search index clients, GPU and file
  back ends, migrations, configuration, benchmarks, the frontend. They are input and output around
  third-party libraries, or numeric pipelines whose results enter the models as parameters. In the
  query flow the reason ledger, the fusion summary and the synthesis of an answer are left out.
\<close>

section \<open>Policies and dispatch\<close>

text \<open>
  C11 End to end: once the hook of an accepted policy set is registered, a call that matches a
  specific deny policy of the set (predicate true or raising) never passes the tool call dispatch,
  whatever other hooks are registered, in whatever order, and whatever they do to the contexts.
\<close>

theorem denied_call_never_dispatched:
  assumes "enforce items servers = Inr buckets" "flatten_policies items = Inr ps"
    and "p \<in> set ps" "pol_decision p = DENY" "pol_tool p \<noteq> ''*''"
    and "\<not> is_prefix_wildcard (pol_tool p)" "pol_tool p = fst (call_target tc)"
    and "evaluate_predicate p tc \<noteq> Inr False"
    and "register_hooks (earlier @ PreToolCallDecide (policy_hook buckets) # later) r0 = Inr runner"
  shows "\<not> (\<exists>res tc' op h'. dispatch_pre_tool_call runner turn tc h = (Inr (res, tc', op), h')
     \<and> hr_allow res)"
proof
  assume "\<exists>res tc' op h'. dispatch_pre_tool_call runner turn tc h = (Inr (res, tc', op), h') \<and> hr_allow res"
  then obtain res tc' op h' where d: "dispatch_pre_tool_call runner turn tc h = (Inr (res, tc', op), h')"
    "hr_allow res" by blast
  have "policy_hook buckets \<in> set (pre_tool_call_decide runner)"
    using assms(9) by (rule registered_hook_present)
  from dispatch_guarded [OF this d] specific_deny [OF assms(1-8)] show False by simp
qed

lemma denied_call_never_dispatched_witness:
  "\<not> (\<exists>res tc' op h'. dispatch_pre_tool_call
     (fst (new_runner [])\<lparr>pre_tool_call_decide := [policy_hook ex_hook]\<rparr>) 0
     (ex_call ''rm'' None None) [] = (Inr (res, tc', op), h') \<and> hr_allow res)"
proof (rule denied_call_never_dispatched [OF ex_enforce, of ex_rules
      "rule DENY None ''rm'' (Some (PNullary (Inl ''boom''))) ''x''"])
  show "register_hooks ([] @ PreToolCallDecide (policy_hook ex_hook) # []) (fst (new_runner []))
      = Inr (fst (new_runner [])\<lparr>pre_tool_call_decide := [policy_hook ex_hook]\<rparr>)"
    by (simp add: new_runner_def session_context_def new_store_def)
qed (simp_all add: ex_rules_def ex_rm is_prefix_wildcard_def py_endswith_def evaluate_predicate_def)

end
